(* ===== verification/SwigPrelude.thy ===== *)
theory SwigPrelude
  imports Main "HOL-Library.Char_ord" "HOL-Library.Sublist"
begin

text \<open>
  Shared vocabulary of the development: the result type of operations that can stop the
  program, the C string primitives (\<open>strncmp\<close> on a prefix, \<open>strchr\<close>, \<open>strstr\<close>) on strings
  without the terminating NUL, the \<open>ctype.h\<close> predicates of the C locale, the scanning loops
  over nested brackets that many functions of the SWIG core repeat, and the generic list and
  option lemmas the component theories use.

  A C pointer into a string is modelled by the suffix of the string it points at; the
  difference of two such pointers is a number of characters.
\<close>

section \<open>Results that may stop the program\<close>

datatype fault =
    Out_of_bounds   \<comment> \<open>a write or read outside the allocated buffer\<close>
  | Assertion       \<comment> \<open>a failing \<open>assert\<close>\<close>
  | Aborts          \<comment> \<open>an explicit call of \<open>abort\<close> or \<open>exit\<close>\<close>
  | Hang            \<comment> \<open>a loop that makes no progress\<close>
  | Undefined       \<comment> \<open>an operation C leaves undefined (division by zero, wide shift)\<close>

type_synonym 'a res = "fault + 'a"

definition rbind :: "'a res \<Rightarrow> ('a \<Rightarrow> 'b res) \<Rightarrow> 'b res" where
  "rbind m f = (case m of Inl e \<Rightarrow> Inl e | Inr x \<Rightarrow> f x)"

lemma rbind_simps [simp]:
  "rbind (Inl e) f = Inl e"
  "rbind (Inr x) f = f x"
  by (simp_all add: rbind_def)

lemma rbind_Inr_iff: "rbind m f = Inr y \<longleftrightarrow> (\<exists>x. m = Inr x \<and> f x = Inr y)"
  by (cases m) simp_all

lemma rbind_InrE [elim!]:
  assumes "rbind m f = Inr y"
  obtains x where "m = Inr x" and "f x = Inr y"
  using assms by (auto simp: rbind_Inr_iff)

lemma rbind_split:
  "P (rbind m f) \<longleftrightarrow> (\<forall>e. m = Inl e \<longrightarrow> P (Inl e)) \<and> (\<forall>x. m = Inr x \<longrightarrow> P (f x))"
  by (cases m) simp_all

section \<open>Collections of facts\<close>

named_theorems doh_inv \<open>preservation of the representation invariants of the DOH containers\<close>
named_theorems doh_abs \<open>what an operation does to the abstract value of a DOH container\<close>
named_theorems len_le \<open>length bounds of the scanning functions, for termination proofs\<close>

section \<open>C string primitives\<close>

text \<open>\<open>strncmp(s, p, strlen(p)) == 0\<close>\<close>

definition starts_with :: "string \<Rightarrow> string \<Rightarrow> bool" where
  "starts_with p s \<longleftrightarrow> take (length p) s = p"

lemma starts_with_append [simp]: "starts_with p (p @ s)"
  by (simp add: starts_with_def)

lemma starts_with_iff: "starts_with p s \<longleftrightarrow> (\<exists>r. s = p @ r)"
  by (metis append_eq_conv_conj append_take_drop_id starts_with_def)

lemma starts_with_Nil [simp]: "starts_with [] s"
  by (simp add: starts_with_def)

lemma starts_with_Cons [simp]:
  "starts_with (a # p) (b # s) \<longleftrightarrow> a = b \<and> starts_with p s"
  by (auto simp: starts_with_def)

lemma starts_with_Cons_Nil [simp]: "\<not> starts_with (a # p) []"
  by (simp add: starts_with_def)

lemma starts_with_drop: "starts_with p s \<Longrightarrow> p @ drop (length p) s = s"
  by (auto simp: starts_with_iff)

lemma starts_with_length: "starts_with p s \<Longrightarrow> length p \<le> length s"
  by (auto simp: starts_with_iff)

lemma starts_with_unique:
  "starts_with p s \<Longrightarrow> starts_with q s \<Longrightarrow> length p = length q \<Longrightarrow> p = q"
  by (simp add: starts_with_def)

text \<open>\<open>strchr(s, c)\<close>, for a character other than NUL: the suffix at the first occurrence.\<close>

fun strchr :: "string \<Rightarrow> char \<Rightarrow> string option" where
  "strchr [] c = None"
| "strchr (x # xs) c = (if x = c then Some (x # xs) else strchr xs c)"

lemma strchr_Some_iff:
  "strchr s c = Some r \<longleftrightarrow> (\<exists>p q. s = p @ c # q \<and> c \<notin> set p \<and> r = c # q)"
proof (induction s)
  case Nil
  then show ?case by simp
next
  case (Cons x xs)
  show ?case
  proof (cases "x = c")
    case True
    then show ?thesis by (force simp: append_eq_Cons_conv Cons_eq_append_conv)
  next
    case False
    with Cons.IH show ?thesis by (auto simp: Cons_eq_append_conv)
  qed
qed

lemma strchr_None_iff: "strchr s c = None \<longleftrightarrow> c \<notin> set s"
  by (induction s) auto

lemma strchr_append [simp]: "c \<notin> set p \<Longrightarrow> strchr (p @ c # q) c = Some (c # q)"
  by (induction p) auto

lemma strchr_length [len_le]: "strchr s c = Some r \<Longrightarrow> length r \<le> length s"
  by (auto simp: strchr_Some_iff)

text \<open>\<open>strstr(s, t)\<close>: the suffix of \<open>s\<close> at the first occurrence of \<open>t\<close>.\<close>

fun strstr :: "string \<Rightarrow> string \<Rightarrow> string option" where
  "strstr [] t = (if t = [] then Some [] else None)"
| "strstr (x # xs) t = (if starts_with t (x # xs) then Some (x # xs) else strstr xs t)"

lemma strstr_Some_starts: "strstr s t = Some r \<Longrightarrow> starts_with t r"
  by (induction s) (auto split: if_splits)

lemma strstr_suffix: "strstr s t = Some r \<Longrightarrow> \<exists>p. s = p @ r"
proof (induction s)
  case Nil
  then show ?case by (auto split: if_splits)
next
  case (Cons x xs)
  then show ?case by (auto split: if_splits intro: exI [of _ "x # p" for p])
qed

lemma strstr_length [len_le]: "strstr s t = Some r \<Longrightarrow> length r \<le> length s"
  by (auto dest: strstr_suffix)

lemma strstr_self [simp]: "strstr (t @ r) t = Some (t @ r)"
  by (cases "t @ r"; simp add: starts_with_iff) (metis append_Cons)

lemma strstr_None_iff: "strstr s t = None \<longleftrightarrow> \<not> sublist t s"
proof (induction s)
  case Nil
  then show ?case by simp
next
  case (Cons x xs)
  then show ?case
    by (auto simp: sublist_Cons_right starts_with_iff prefix_def)
qed

section \<open>Character classes of the C locale\<close>

definition isdigit :: "char \<Rightarrow> bool" where
  "isdigit c \<longleftrightarrow> CHR ''0'' \<le> c \<and> c \<le> CHR ''9''"

definition isupper :: "char \<Rightarrow> bool" where
  "isupper c \<longleftrightarrow> CHR ''A'' \<le> c \<and> c \<le> CHR ''Z''"

definition islower :: "char \<Rightarrow> bool" where
  "islower c \<longleftrightarrow> CHR ''a'' \<le> c \<and> c \<le> CHR ''z''"

definition isalpha :: "char \<Rightarrow> bool" where
  "isalpha c \<longleftrightarrow> isupper c \<or> islower c"

definition isalnum :: "char \<Rightarrow> bool" where
  "isalnum c \<longleftrightarrow> isalpha c \<or> isdigit c"

definition isgraph :: "char \<Rightarrow> bool" where
  "isgraph c \<longleftrightarrow> CHR ''!'' \<le> c \<and> c \<le> CHR ''~''"

definition isspace :: "char \<Rightarrow> bool" where
  "isspace c \<longleftrightarrow> c = CHR '' '' \<or> (CHR 0x09 \<le> c \<and> c \<le> CHR 0x0D)"

definition toupper :: "char \<Rightarrow> char" where
  "toupper c = (if islower c then char_of (of_char c - 32 :: nat) else c)"

definition tolower :: "char \<Rightarrow> char" where
  "tolower c = (if isupper c then char_of (of_char c + 32 :: nat) else c)"

lemmas ctype_defs = isdigit_def isupper_def islower_def isalpha_def isalnum_def
  isgraph_def isspace_def toupper_def tolower_def

section \<open>Scanning over nested brackets\<close>

text \<open>
  The loop \<open>while (*c) { if (*c == '(') n++; if (*c == ')') { n--; if (n == 0) break; } c++; }\<close>
  of \<open>element_size\<close> and \<open>SwigType_parmlist\<close>: the number of characters it walks over. It
  stops on the closing bracket that balances, or at the end.
\<close>

fun bracket_len :: "char \<Rightarrow> char \<Rightarrow> nat \<Rightarrow> string \<Rightarrow> nat" where
  "bracket_len l r n [] = 0"
| "bracket_len l r n (x # xs) =
     (if x = l then Suc (bracket_len l r (Suc n) xs)
      else if x = r then (if n \<le> 1 then 0 else Suc (bracket_len l r (n - 1) xs))
      else Suc (bracket_len l r n xs))"

lemma bracket_len_le [len_le]: "bracket_len l r n s \<le> length s"
  by (induction l r n s rule: bracket_len.induct) auto

text \<open>
  The loop \<open>while (*c && nest) { if (*c == '<') nest++; if (*c == '>') nest--; c++; }\<close>: the
  suffix it stops at, one past the closing bracket, and the nesting depth left over.
\<close>

fun skip_nest :: "char \<Rightarrow> char \<Rightarrow> nat \<Rightarrow> string \<Rightarrow> string" where
  "skip_nest l r 0 s = s"
| "skip_nest l r (Suc n) [] = []"
| "skip_nest l r (Suc n) (x # xs) =
     (if x = l then skip_nest l r (Suc (Suc n)) xs
      else if x = r then skip_nest l r n xs
      else skip_nest l r (Suc n) xs)"

fun nest_left :: "char \<Rightarrow> char \<Rightarrow> nat \<Rightarrow> string \<Rightarrow> nat" where
  "nest_left l r 0 s = 0"
| "nest_left l r (Suc n) [] = Suc n"
| "nest_left l r (Suc n) (x # xs) =
     (if x = l then nest_left l r (Suc (Suc n)) xs
      else if x = r then nest_left l r n xs
      else nest_left l r (Suc n) xs)"

lemma skip_nest_length [len_le]: "length (skip_nest l r n s) \<le> length s"
  by (induction l r n s rule: skip_nest.induct) auto

lemma skip_nest_suffix: "\<exists>p. s = p @ skip_nest l r n s"
proof (induction l r n s rule: skip_nest.induct)
  case (3 l r n x xs)
  then show ?case by simp (metis append_Cons)
qed auto

text \<open>
  Balanced text: every opening bracket is closed again and the depth never drops below zero.
\<close>

fun balanced_from :: "char \<Rightarrow> char \<Rightarrow> nat \<Rightarrow> string \<Rightarrow> bool" where
  "balanced_from l r n [] = (n = 0)"
| "balanced_from l r n (x # xs) =
     (if x = l then balanced_from l r (Suc n) xs
      else if x = r then (n \<noteq> 0 \<and> balanced_from l r (n - 1) xs)
      else balanced_from l r n xs)"

abbreviation balanced :: "char \<Rightarrow> char \<Rightarrow> string \<Rightarrow> bool" where
  "balanced l r s \<equiv> balanced_from l r 0 s"

lemma bracket_len_balanced:
  "l \<noteq> r \<Longrightarrow> balanced_from l r n s \<Longrightarrow> bracket_len l r (Suc n) (s @ r # t) = length s"
proof (induction s arbitrary: n)
  case Nil
  then show ?case by simp
next
  case (Cons x xs)
  then show ?case by (cases n) (auto split: if_splits)
qed

lemma skip_nest_balanced:
  "l \<noteq> r \<Longrightarrow> balanced_from l r n s \<Longrightarrow> skip_nest l r (Suc n) (s @ r # t) = t"
proof (induction s arbitrary: n)
  case Nil
  then show ?case by simp
next
  case (Cons x xs)
  then show ?case by (cases n) (auto split: if_splits)
qed

lemma nest_left_balanced:
  "l \<noteq> r \<Longrightarrow> balanced_from l r n s \<Longrightarrow> nest_left l r (Suc n) (s @ r # t) = 0"
proof (induction s arbitrary: n)
  case Nil
  then show ?case by simp
next
  case (Cons x xs)
  then show ?case by (cases n) (auto split: if_splits)
qed

lemma balanced_append:
  "balanced_from l r n s \<Longrightarrow> balanced_from l r 0 t \<Longrightarrow> balanced_from l r n (s @ t)"
  by (induction l r n s rule: balanced_from.induct) (auto split: if_splits)

lemma balanced_plain: "l \<notin> set s \<Longrightarrow> r \<notin> set s \<Longrightarrow> balanced_from l r 0 s"
  by (induction s) auto

section \<open>Lists updated by index\<close>

lemma take_Suc_update: "i < length xs \<Longrightarrow> take (Suc i) (xs[i := v]) = take i xs @ [v]"
  by (simp add: take_Suc_conv_app_nth)

lemma count_list_split_at:
  assumes "i < length xs"
  shows "count_list xs a = count_list (take i xs) a + (if xs ! i = a then 1 else 0)
    + count_list (drop (Suc i) xs) a"
  using arg_cong [OF id_take_nth_drop [OF assms], of "\<lambda>z. count_list z a"] by simp

end
