(* ===== verification/DohEvents.thy ===== *)
theory DohEvents
  imports SwigPrelude
begin

text \<open>
  What the DOH containers (Source/DOH) do to the reference counts of the objects they hold,
  and the arguments they take. A container operation of the model returns, beside its result,
  the calls on reference counts it makes, in the order it makes them.
\<close>

section \<open>Reference-count events\<close>

datatype 'a rc_event =
    RcNewString 'a string   \<comment> \<open>\<open>NewString(s)\<close> returned this object, with one reference\<close>
  | RcIncref 'a             \<comment> \<open>the macro \<open>Incref\<close>\<close>
  | RcDecref 'a             \<comment> \<open>the macro \<open>Decref\<close>: no deletion when the count reaches zero\<close>
  | RcDelete 'a             \<comment> \<open>\<open>DohDelete\<close>\<close>

text \<open>The net change an event list makes to one object's count.\<close>

fun rc_delta :: "'a \<Rightarrow> 'a rc_event list \<Rightarrow> int" where
  "rc_delta a [] = 0"
| "rc_delta a (RcNewString b s # es) = (if a = b then 1 else 0) + rc_delta a es"
| "rc_delta a (RcIncref b # es) = (if a = b then 1 else 0) + rc_delta a es"
| "rc_delta a (RcDecref b # es) = (if a = b then -1 else 0) + rc_delta a es"
| "rc_delta a (RcDelete b # es) = (if a = b then -1 else 0) + rc_delta a es"

lemma rc_delta_append [simp]: "rc_delta a (xs @ ys) = rc_delta a xs + rc_delta a ys"
  by (induction xs rule: rc_delta.induct) auto

lemma rc_delta_delete [simp]: "rc_delta a (map RcDelete xs) = - int (count_list xs a)"
  by (induction xs) auto

lemma rc_delta_incref [simp]: "rc_delta a (map RcIncref xs) = int (count_list xs a)"
  by (induction xs) auto

section \<open>Arguments\<close>

text \<open>
  A \<open>DOH *\<close> argument is NULL, an object of the pools (\<open>DohCheck\<close> accepts it), or a plain
  \<open>char *\<close>, which the containers wrap with \<open>NewString\<close>.
\<close>

datatype 'a doh_arg = NullArg | DohArg 'a | CharArg string

text \<open>
  \<open>if (!DohCheck(x)) { x = NewString(x); Decref(x); }\<close>, for an argument that is not NULL. The
  function \<open>ns\<close> gives the object that \<open>NewString\<close> returns for a string.
\<close>

fun wrap_arg :: "(string \<Rightarrow> 'a) \<Rightarrow> 'a doh_arg \<Rightarrow> ('a \<times> 'a rc_event list) option" where
  "wrap_arg ns NullArg = None"
| "wrap_arg ns (DohArg x) = Some (x, [])"
| "wrap_arg ns (CharArg s) = Some (ns s, [RcNewString (ns s) s, RcDecref (ns s)])"

lemma wrap_arg_None_iff [simp]: "wrap_arg ns x = None \<longleftrightarrow> x = NullArg"
  by (cases x) auto

lemma wrap_arg_delta: "wrap_arg ns x = Some (y, es) \<Longrightarrow> rc_delta a es = 0"
  by (cases x) auto

end
