(* ===== verification/DohList.thy ===== *)
theory DohList
  imports DohEvents
begin

text \<open>
  The list object of Source/DOH/list.c: a growing array with a fill count. The record has the
  fields of the struct; the array is a list of slots as long as its capacity \<open>maxitems\<close>, where
  a slot no operation has written is \<open>None\<close>. Every operation returns its C result, the
  reference-count events it makes and the new list; a failing \<open>assert\<close> is a fault. The
  abstract value \<open>list_abs\<close> of a list object is the sequence of its first \<open>nitems\<close> slots, and
  each operation is shown to refine the operation on sequences.
\<close>

section \<open>The struct and its operations\<close>

record 'a dlist =
  maxitems :: nat
  nitems :: nat
  lfile :: "'a option"
  lline :: int
  items :: "'a option list"

definition DOH_BEGIN :: int where "DOH_BEGIN = -1"
definition DOH_END :: int where "DOH_END = -2"

lemmas doh_positions = DOH_BEGIN_def DOH_END_def

definition MAXLISTITEMS :: nat where "MAXLISTITEMS = 8"

definition DohNewList :: "'a dlist" where
  "DohNewList = \<lparr>maxitems = MAXLISTITEMS, nitems = 0, lfile = None, lline = 0,
     items = replicate MAXLISTITEMS None\<rparr>"

text \<open>The function \<open>more\<close>: realloc keeps the old slots; the new ones hold no object yet.\<close>

definition more_items :: "'a dlist \<Rightarrow> 'a dlist" where
  "more_items l = l\<lparr>items := items l @ replicate (maxitems l) None, maxitems := maxitems l * 2\<rparr>"

text \<open>\<open>for (i = nitems; i > pos; i--) items[i] = items[i - 1];\<close>\<close>

fun shift_up :: "nat \<Rightarrow> nat \<Rightarrow> 'a list \<Rightarrow> 'a list" where
  "shift_up pos 0 xs = xs"
| "shift_up pos (Suc i) xs =
     (if Suc i > pos then shift_up pos i (xs[Suc i := xs ! i]) else xs)"

text \<open>\<open>for (i = pos; i < nitems - 1; i++) items[i] = items[i + 1];\<close>\<close>

function shift_down :: "nat \<Rightarrow> nat \<Rightarrow> 'a list \<Rightarrow> 'a list" where
  "shift_down i n xs =
     (if i < n - 1 then shift_down (Suc i) n (xs[i := xs ! Suc i]) else xs)"
  by pat_completeness auto
termination
  by (relation "measure (\<lambda>(i, n, xs). n - i)") auto

declare shift_down.simps [simp del]

definition List_insert ::
  "(string \<Rightarrow> 'a) \<Rightarrow> 'a dlist \<Rightarrow> int \<Rightarrow> 'a doh_arg \<Rightarrow> int \<times> 'a rc_event list \<times> 'a dlist" where
  "List_insert ns l pos item =
     (case wrap_arg ns item of
        None \<Rightarrow> (-1, [], l)
      | Some (x, es) \<Rightarrow>
          let pos1 = (if pos = DOH_END then int (nitems l) else pos);
              pos2 = (if pos1 < 0 then 0 else pos1);
              pos3 = (if pos2 > int (nitems l) then int (nitems l) else pos2);
              p = nat pos3;
              l1 = (if nitems l = maxitems l then more_items l else l);
              a = shift_up p (nitems l1) (items l1)
          in (0, es @ [RcIncref x], l1\<lparr>items := a[p := Some x], nitems := nitems l1 + 1\<rparr>))"

definition List_remove :: "'a dlist \<Rightarrow> int \<Rightarrow> (int \<times> 'a rc_event list \<times> 'a dlist) res" where
  "List_remove l pos =
     (let pos1 = (if pos = DOH_END then int (nitems l) - 1 else pos);
          pos2 = (if pos1 = DOH_BEGIN then 0 else pos1)
      in if pos2 < 0 \<or> pos2 \<ge> int (nitems l) then Inl Assertion
         else let p = nat pos2
              in Inr (0, (case items l ! p of None \<Rightarrow> [] | Some x \<Rightarrow> [RcDelete x]),
                   l\<lparr>items := shift_down p (nitems l) (items l), nitems := nitems l - 1\<rparr>))"

definition List_len :: "'a dlist \<Rightarrow> nat" where
  "List_len l = nitems l"

definition List_get :: "'a dlist \<Rightarrow> int \<Rightarrow> 'a option res" where
  "List_get l n =
     (let n1 = (if n = DOH_END then int (nitems l) - 1 else n);
          n2 = (if n1 = DOH_BEGIN then 0 else n1)
      in if n2 < 0 \<or> n2 \<ge> int (nitems l) then Inl Assertion else Inr (items l ! nat n2))"

definition List_set ::
  "(string \<Rightarrow> 'a) \<Rightarrow> 'a dlist \<Rightarrow> int \<Rightarrow> 'a doh_arg \<Rightarrow> (int \<times> 'a rc_event list \<times> 'a dlist) res" where
  "List_set ns l n val =
     (if val = NullArg then Inr (-1, [], l)
      else if n < 0 \<or> n \<ge> int (nitems l) then Inl Assertion
      else case wrap_arg ns val of
             None \<Rightarrow> Inr (-1, [], l)
           | Some (x, es) \<Rightarrow>
               Inr (0, es @ (case items l ! nat n of None \<Rightarrow> [] | Some y \<Rightarrow> [RcDelete y])
                         @ [RcIncref x, RcDelete x],
                    l\<lparr>items := (items l)[nat n := Some x]\<rparr>))"

definition held_items :: "'a option list \<Rightarrow> 'a list" where
  "held_items xs = concat (map (\<lambda>x. case x of None \<Rightarrow> [] | Some y \<Rightarrow> [y]) xs)"

definition List_clear :: "'a dlist \<Rightarrow> 'a rc_event list \<times> 'a dlist" where
  "List_clear l = (map RcDelete (held_items (take (nitems l) (items l))), l\<lparr>nitems := 0\<rparr>)"

definition DelList :: "'a dlist \<Rightarrow> 'a rc_event list" where
  "DelList l = map RcDelete (held_items (take (nitems l) (items l)))"

definition CopyList :: "'a dlist \<Rightarrow> 'a rc_event list \<times> 'a dlist" where
  "CopyList l =
     (map RcIncref (held_items (take (nitems l) (items l)))
        @ (case lfile l of None \<Rightarrow> [] | Some f \<Rightarrow> [RcIncref f]),
      \<lparr>maxitems = maxitems l, nitems = nitems l, lfile = lfile l, lline = lline l,
       items = take (nitems l) (items l) @ replicate (maxitems l - nitems l) None\<rparr>)"

text \<open>Iterators: the list iterator keeps the index and the current item.\<close>

record 'a list_iter =
  iter_item :: "'a option"
  iter_index :: nat

definition List_first :: "'a dlist \<Rightarrow> 'a list_iter" where
  "List_first l =
     \<lparr>iter_item = (if nitems l > 0 then items l ! 0 else None), iter_index = 0\<rparr>"

definition List_next :: "'a dlist \<Rightarrow> 'a list_iter \<Rightarrow> 'a list_iter" where
  "List_next l it =
     (let i = iter_index it + 1
      in \<lparr>iter_item = (if i \<ge> nitems l then None else items l ! i), iter_index = i\<rparr>)"

definition List_setfile ::
  "(string \<Rightarrow> 'a) \<Rightarrow> 'a dlist \<Rightarrow> 'a doh_arg \<Rightarrow> 'a rc_event list \<times> 'a dlist" where
  "List_setfile ns l file =
     (case wrap_arg ns (if file = NullArg then CharArg [] else file) of
        None \<Rightarrow> ([], l)
      | Some (f, es) \<Rightarrow>
          (es @ [RcIncref f] @ (case lfile l of None \<Rightarrow> [] | Some g \<Rightarrow> [RcDelete g]),
           l\<lparr>lfile := Some f\<rparr>))"

definition List_getfile :: "'a dlist \<Rightarrow> 'a option" where
  "List_getfile l = lfile l"

definition List_setline :: "'a dlist \<Rightarrow> int \<Rightarrow> 'a dlist" where
  "List_setline l n = l\<lparr>lline := n\<rparr>"

definition List_getline :: "'a dlist \<Rightarrow> int" where
  "List_getline l = lline l"

section \<open>Representation invariant and abstract value\<close>

definition list_inv :: "'a dlist \<Rightarrow> bool" where
  "list_inv l \<longleftrightarrow> length (items l) = maxitems l \<and> 0 < maxitems l \<and> nitems l \<le> maxitems l
     \<and> None \<notin> set (take (nitems l) (items l))"

definition list_abs :: "'a dlist \<Rightarrow> 'a list" where
  "list_abs l = map the (take (nitems l) (items l))"

section \<open>The shifting loops\<close>

lemma length_shift_up [simp]: "length (shift_up pos i xs) = length xs"
  by (induction pos i xs rule: shift_up.induct) auto

lemma shift_up_nth:
  "i < length xs \<Longrightarrow> k < length xs \<Longrightarrow>
   shift_up pos i xs ! k = (if pos < k \<and> k \<le> i then xs ! (k - 1) else xs ! k)"
proof (induction pos i xs rule: shift_up.induct)
  case (2 pos i xs)
  then show ?case by (auto simp: nth_list_update le_Suc_eq)
qed auto

lemma shift_up_insert:
  assumes "pos \<le> n" and "n < length xs"
  shows "take (Suc n) ((shift_up pos n xs)[pos := x]) = take pos xs @ x # drop pos (take n xs)"
proof (rule nth_equalityI)
  show "length (take (Suc n) ((shift_up pos n xs)[pos := x]))
      = length (take pos xs @ x # drop pos (take n xs))"
    using assms by simp
next
  fix k
  assume "k < length (take (Suc n) ((shift_up pos n xs)[pos := x]))"
  then have "k \<le> n" using assms by simp
  then show "take (Suc n) ((shift_up pos n xs)[pos := x]) ! k
      = (take pos xs @ x # drop pos (take n xs)) ! k"
    using assms by (auto simp: nth_list_update shift_up_nth nth_append nth_Cons' not_less)
qed

lemma length_shift_down [simp]: "length (shift_down i n xs) = length xs"
proof (induction i n xs rule: shift_down.induct)
  case (1 i n xs)
  then show ?case by (subst shift_down.simps) simp
qed

lemma shift_down_nth:
  "n \<le> length xs \<Longrightarrow> k < length xs \<Longrightarrow>
   shift_down i n xs ! k = (if i \<le> k \<and> k < n - 1 then xs ! Suc k else xs ! k)"
proof (induction i n xs rule: shift_down.induct)
  case (1 i n xs)
  show ?case
  proof (cases "i < n - 1")
    case True
    with 1 show ?thesis by (subst shift_down.simps) (auto simp: nth_list_update)
  next
    case False
    with 1 show ?thesis by (subst shift_down.simps) auto
  qed
qed

lemma shift_down_remove:
  assumes "pos < n" and "n \<le> length xs"
  shows "take (n - 1) (shift_down pos n xs) = take pos xs @ drop (Suc pos) (take n xs)"
proof (rule nth_equalityI)
  show "length (take (n - 1) (shift_down pos n xs))
      = length (take pos xs @ drop (Suc pos) (take n xs))"
    using assms by simp
next
  fix k
  assume "k < length (take (n - 1) (shift_down pos n xs))"
  then have "k < n - 1" using assms by simp
  then show "take (n - 1) (shift_down pos n xs) ! k
      = (take pos xs @ drop (Suc pos) (take n xs)) ! k"
    using assms by (auto simp: shift_down_nth nth_append)
qed

section \<open>Each operation refines the operation on sequences\<close>

lemma length_list_abs [simp]: "list_inv l \<Longrightarrow> length (list_abs l) = nitems l"
  by (simp add: list_inv_def list_abs_def)

lemma items_nth_abs:
  assumes "list_inv l" and "k < nitems l"
  shows "items l ! k = Some (list_abs l ! k)"
proof -
  have "items l ! k \<in> set (take (nitems l) (items l))"
    using assms by (auto simp: list_inv_def in_set_conv_nth intro!: exI [of _ k])
  then have "items l ! k \<noteq> None" using assms(1) unfolding list_inv_def by metis
  then show ?thesis using assms by (auto simp: list_abs_def list_inv_def)
qed

lemma held_items_abs: "list_inv l \<Longrightarrow> held_items (take (nitems l) (items l)) = list_abs l"
proof -
  have "None \<notin> set xs \<Longrightarrow> held_items xs = map the xs" for xs :: "'a option list"
  proof (induction xs)
    case (Cons a xs)
    then show ?case by (cases a) (auto simp: held_items_def)
  qed (simp add: held_items_def)
  then show "list_inv l \<Longrightarrow> ?thesis" by (simp add: list_inv_def list_abs_def)
qed

lemma new_list_inv [doh_inv]: "list_inv DohNewList"
  by (simp add: list_inv_def DohNewList_def MAXLISTITEMS_def)

lemma new_list_abs [doh_abs]: "list_abs DohNewList = []"
  by (simp add: list_abs_def DohNewList_def)

lemma more_items_inv:
  "list_inv l \<Longrightarrow> list_inv (more_items l) \<and> list_abs (more_items l) = list_abs l
     \<and> nitems (more_items l) = nitems l \<and> nitems (more_items l) < maxitems (more_items l)"
  by (auto simp: list_inv_def list_abs_def more_items_def)

text \<open>The position an insertion ends up at: DOH_END appends, anything else is clamped.\<close>

definition insert_pos :: "int \<Rightarrow> nat \<Rightarrow> nat" where
  "insert_pos pos n = (if pos = DOH_END then n else if pos < 0 then 0 else min (nat pos) n)"

lemma insert_pos_le: "insert_pos pos n \<le> n"
  by (simp add: insert_pos_def)

lemma List_insert_full:
  assumes inv: "list_inv l" and w: "wrap_arg ns item = Some (x, es)"
    and op: "List_insert ns l pos item = (r, evs, l')"
  defines "p \<equiv> insert_pos pos (nitems l)"
  shows "r = 0" and "evs = es @ [RcIncref x]" and "list_inv l'"
    and "list_abs l' = take p (list_abs l) @ x # drop p (list_abs l)"
proof -
  define l1 where "l1 = (if nitems l = maxitems l then more_items l else l)"
  have l1: "list_inv l1" "list_abs l1 = list_abs l" "nitems l1 = nitems l"
      "nitems l1 < maxitems l1"
    using inv more_items_inv [OF inv] by (auto simp: l1_def list_inv_def)
  have pn: "p \<le> nitems l1" using insert_pos_le l1(3) by (simp add: p_def)
  have res: "r = 0" "evs = es @ [RcIncref x]"
    "l' = l1\<lparr>items := (shift_up p (nitems l1) (items l1))[p := Some x],
              nitems := nitems l1 + 1\<rparr>"
    using op w unfolding List_insert_def l1_def p_def insert_pos_def doh_positions
    by (auto simp: Let_def min_def split: if_splits)
  then show "r = 0" "evs = es @ [RcIncref x]" by simp_all
  have len: "length (items l1) = maxitems l1" using l1(1) by (simp add: list_inv_def)
  have tk: "take (Suc (nitems l1)) (items l')
      = take p (items l1) @ Some x # drop p (take (nitems l1) (items l1))"
    using shift_up_insert [of p "nitems l1" "items l1" "Some x"] pn l1(4) len res(3) by simp
  have sub: "set (take p (items l1)) \<subseteq> set (take (nitems l1) (items l1))"
    using pn by (rule set_take_subset_set_take)
  have "None \<notin> set (take (nitems l1) (items l1))"
    using l1(1) by (simp add: list_inv_def)
  with sub have "None \<notin> set (take (Suc (nitems l1)) (items l'))"
    unfolding tk by (auto dest: in_set_dropD)
  then show "list_inv l'"
    using res(3) l1(4) len by (simp add: list_inv_def)
  show "list_abs l' = take p (list_abs l) @ x # drop p (list_abs l)"
    using tk res(3) l1(3) pn unfolding l1(2) [symmetric]
    by (simp add: list_abs_def take_map drop_map min_def)
qed

lemma List_remove_full:
  assumes inv: "list_inv l" and op: "List_remove l pos = Inr (r, evs, l')"
  defines "p \<equiv> (if pos = DOH_END then nitems l - 1 else if pos = DOH_BEGIN then 0 else nat pos)"
  shows "p < nitems l" and "r = 0" and "evs = [RcDelete (list_abs l ! p)]" and "list_inv l'"
    and "list_abs l' = take p (list_abs l) @ drop (Suc p) (list_abs l)"
proof -
  have pn: "p < nitems l"
    using op by (auto simp: List_remove_def p_def doh_positions Let_def split: if_splits)
  then show "p < nitems l" .
  have it: "items l ! p = Some (list_abs l ! p)" using items_nth_abs [OF inv pn] .
  have res: "r = 0" "evs = [RcDelete (list_abs l ! p)]"
    "l' = l\<lparr>items := shift_down p (nitems l) (items l), nitems := nitems l - 1\<rparr>"
    using op it pn unfolding List_remove_def p_def doh_positions
    by (auto simp: Let_def nat_diff_distrib' split: if_splits)
  then show "r = 0" "evs = [RcDelete (list_abs l ! p)]" by simp_all
  have tk: "take (nitems l - 1) (items l')
      = take p (items l) @ drop (Suc p) (take (nitems l) (items l))"
    using shift_down_remove [of p "nitems l" "items l"] pn inv res(3) by (simp add: list_inv_def)
  have "set (take p (items l)) \<subseteq> set (take (nitems l) (items l))"
    using pn by (intro set_take_subset_set_take) simp
  then have "None \<notin> set (take (nitems l - 1) (items l'))"
    using inv unfolding tk list_inv_def by (auto dest: in_set_dropD)
  then show "list_inv l'" using inv res(3) by (auto simp: list_inv_def)
  show "list_abs l' = take p (list_abs l) @ drop (Suc p) (list_abs l)"
    using tk res(3) pn by (simp add: list_abs_def take_map drop_map min_def)
qed

text \<open>The precondition the \<open>assert\<close> of \<open>List_remove\<close> and \<open>List_get\<close> states.\<close>

definition valid_index :: "int \<Rightarrow> nat \<Rightarrow> bool" where
  "valid_index i n \<longleftrightarrow> 0 < n \<and> (i = DOH_END \<or> i = DOH_BEGIN \<or> (0 \<le> i \<and> i < int n))"

lemma List_remove_asserts:
  "List_remove l pos = Inl e \<longleftrightarrow> e = Assertion \<and> \<not> valid_index pos (nitems l)"
  by (auto simp: List_remove_def valid_index_def doh_positions Let_def)

lemma List_get_spec:
  assumes "list_inv l"
  shows "List_get l i = (if valid_index i (nitems l)
      then Inr (Some (list_abs l ! (if i = DOH_END then nitems l - 1 else nat (max i 0))))
      else Inl Assertion)"
  using items_nth_abs [OF assms]
  by (auto simp: List_get_def valid_index_def doh_positions Let_def nat_diff_distrib')

lemma List_set_full:
  assumes inv: "list_inv l" and w: "wrap_arg ns val = Some (x, es)"
    and op: "List_set ns l n val = Inr (r, evs, l')"
  shows "r = 0" and "list_inv l'" and "list_abs l' = (list_abs l)[nat n := x]"
    and "evs = es @ [RcDelete (list_abs l ! nat n), RcIncref x, RcDelete x]"
proof -
  have bounds: "0 \<le> n" "nat n < nitems l"
    using op w by (auto simp: List_set_def split: if_splits)
  have it: "items l ! nat n = Some (list_abs l ! nat n)" using items_nth_abs [OF inv bounds(2)] .
  have "\<not> (n < 0 \<or> n \<ge> int (nitems l))" using bounds by linarith
  moreover have "val \<noteq> NullArg" using w by auto
  ultimately have res: "r = 0" "l' = l\<lparr>items := (items l)[nat n := Some x]\<rparr>"
    "evs = es @ [RcDelete (list_abs l ! nat n), RcIncref x, RcDelete x]"
    using op w it by (auto simp: List_set_def)
  then show "r = 0" "evs = es @ [RcDelete (list_abs l ! nat n), RcIncref x, RcDelete x]"
    by simp_all
  have "None \<notin> set (take (nitems l) ((items l)[nat n := Some x]))"
    using inv by (auto simp: list_inv_def take_update_swap dest!: set_update_subset_insert [THEN subsetD])
  then show "list_inv l'" using inv res(2) by (simp add: list_inv_def)
  show "list_abs l' = (list_abs l)[nat n := x]"
    using res(2) by (simp add: list_abs_def take_update_swap map_update)
qed

lemma List_clear_full:
  assumes "list_inv l"
  shows "fst (List_clear l) = map RcDelete (list_abs l)" and "list_inv (snd (List_clear l))"
    and "list_abs (snd (List_clear l)) = []"
  using assms by (auto simp: List_clear_def held_items_abs) (auto simp: list_inv_def list_abs_def)

lemma CopyList_full:
  assumes "list_inv l"
  shows "list_inv (snd (CopyList l))" and "list_abs (snd (CopyList l)) = list_abs l"
    and "fst (CopyList l) = map RcIncref (list_abs l)
           @ (case lfile l of None \<Rightarrow> [] | Some f \<Rightarrow> [RcIncref f])"
  using assms by (auto simp: CopyList_def list_inv_def list_abs_def held_items_abs)

section \<open>The sequence contract and iteration\<close>

text \<open>
  What the rest of SWIG relies on when it uses a list object: \<open>Append\<close> adds at the end, and the
  loop \<open>for (i = First(l); i.item; i = Next(i))\<close> visits the items in order.
\<close>

locale doh_sequence =
  fixes abs :: "'l \<Rightarrow> 'a list"
    and inv :: "'l \<Rightarrow> bool"
    and append :: "'l \<Rightarrow> 'a \<Rightarrow> 'l"
    and first :: "'l \<Rightarrow> 'i"
    and next_item :: "'l \<Rightarrow> 'i \<Rightarrow> 'i"
    and item :: "'i \<Rightarrow> 'a option"
    and pos :: "'i \<Rightarrow> nat"
  assumes append_inv: "inv l \<Longrightarrow> inv (append l x)"
    and append_abs: "inv l \<Longrightarrow> abs (append l x) = abs l @ [x]"
    and first_pos: "pos (first l) = 0"
    and next_pos: "pos (next_item l it) = Suc (pos it)"
    and first_item: "inv l \<Longrightarrow> item (first l) = (if abs l = [] then None else Some (hd (abs l)))"
    and next_item: "inv l \<Longrightarrow> item (next_item l it) =
      (if Suc (pos it) < length (abs l) then Some (abs l ! Suc (pos it)) else None)"
begin

text \<open>The iterator after \<open>k\<close> calls of \<open>Next\<close>.\<close>

fun advance :: "'l \<Rightarrow> nat \<Rightarrow> 'i" where
  "advance l 0 = first l"
| "advance l (Suc k) = next_item l (advance l k)"

lemma advance_pos: "pos (advance l k) = k"
  by (induction k) (simp_all add: first_pos next_pos)

lemma advance_item:
  "inv l \<Longrightarrow> item (advance l k) = (if k < length (abs l) then Some (abs l ! k) else None)"
  by (cases k) (auto simp: first_item next_item advance_pos hd_conv_nth)

text \<open>The items the loop sees, with a bound on the number of rounds.\<close>

fun walk :: "nat \<Rightarrow> 'l \<Rightarrow> 'i \<Rightarrow> 'a list" where
  "walk 0 l it = []"
| "walk (Suc n) l it =
     (case item it of None \<Rightarrow> [] | Some x \<Rightarrow> x # walk n l (next_item l it))"

lemma walk_from:
  "inv l \<Longrightarrow> length (abs l) \<le> k + n \<Longrightarrow> walk n l (advance l k) = drop k (abs l)"
proof (induction n arbitrary: k)
  case 0
  then show ?case by simp
next
  case (Suc n)
  show ?case
  proof (cases "k < length (abs l)")
    case True
    then have "walk n l (advance l (Suc k)) = drop (Suc k) (abs l)"
      using Suc by (intro Suc.IH) auto
    with True Suc.prems(1) show ?thesis by (simp add: advance_item Cons_nth_drop_Suc)
  next
    case False
    with Suc.prems(1) show ?thesis by (simp add: advance_item)
  qed
qed

lemma walk_all: "inv l \<Longrightarrow> length (abs l) \<le> n \<Longrightarrow> walk n l (first l) = abs l"
  using walk_from [of l 0 n] by simp

lemma append_many:
  "inv l \<Longrightarrow> inv (foldl append l xs) \<and> abs (foldl append l xs) = abs l @ xs"
  by (induction xs arbitrary: l) (auto simp: append_inv append_abs)

end

text \<open>\<open>Append(l, x)\<close> is \<open>List_insert\<close> at \<open>DOH_END\<close>.\<close>

definition list_append :: "'a dlist \<Rightarrow> 'a \<Rightarrow> 'a dlist" where
  "list_append l x = snd (snd (List_insert (\<lambda>_. x) l DOH_END (DohArg x)))"

lemma list_append_full:
  assumes "list_inv l"
  shows "list_inv (list_append l x)" and "list_abs (list_append l x) = list_abs l @ [x]"
proof -
  obtain r evs l' where op: "List_insert (\<lambda>_. x) l DOH_END (DohArg x) = (r, evs, l')"
    by (cases "List_insert (\<lambda>_. x) l DOH_END (DohArg x)")
  have w: "wrap_arg (\<lambda>_. x) (DohArg x) = Some (x, [])" by simp
  have e: "list_append l x = l'" by (simp add: list_append_def op)
  show "list_inv (list_append l x)" unfolding e by (rule List_insert_full(3) [OF assms w op])
  show "list_abs (list_append l x) = list_abs l @ [x]"
    unfolding e using List_insert_full(4) [OF assms w op] assms by (simp add: insert_pos_def)
qed

interpretation dl: doh_sequence list_abs list_inv list_append List_first List_next
    iter_item iter_index
proof unfold_locales
  fix l :: "'a dlist" and it :: "'a list_iter"
  assume inv: "list_inv l"
  show "iter_item (List_first l) = (if list_abs l = [] then None else Some (hd (list_abs l)))"
    using items_nth_abs [OF inv, of 0] length_list_abs [OF inv]
    by (cases "list_abs l") (auto simp: List_first_def)
  show "iter_item (List_next l it) =
      (if Suc (iter_index it) < length (list_abs l)
       then Some (list_abs l ! Suc (iter_index it)) else None)"
    using inv items_nth_abs [OF inv] by (auto simp: List_next_def Let_def)
qed (auto simp: list_append_full List_first_def List_next_def Let_def)


section \<open>Properties\<close>

text \<open>
  C1. Inserting into a list object (\<open>List_insert\<close>) keeps the representation invariant, returns 0,
  and changes the sequence of items exactly by inserting the object at the requested position:
  DOH_END appends, a negative position is the front and a position past the end is the end. The
  array grows when it is full, and the only object whose count changes is the inserted one, by
  one reference.
\<close>

theorem list_insert_refines:
  assumes "list_inv l" and "item \<noteq> NullArg" and "List_insert ns l pos item = (r, evs, l')"
  shows "r = 0 \<and> list_inv l' \<and>
    (\<exists>x es. wrap_arg ns item = Some (x, es) \<and>
       list_abs l' = take (insert_pos pos (length (list_abs l))) (list_abs l)
          @ x # drop (insert_pos pos (length (list_abs l))) (list_abs l) \<and>
       (\<forall>a. rc_delta a evs = (if a = x then 1 else 0)))"
proof -
  obtain x es where w: "wrap_arg ns item = Some (x, es)"
    using assms(2) by (cases item) auto
  show ?thesis
    using List_insert_full [OF assms(1) w assms(3)] w wrap_arg_delta [OF w] assms(1)
    by auto
qed

theorem list_insert_refines_witness:
  "list_abs (snd (snd (List_insert (\<lambda>_. 0) DohNewList 5 (DohArg (7::nat))))) = [7]"
proof -
  obtain r evs l' where op: "List_insert (\<lambda>_. 0) DohNewList 5 (DohArg (7::nat)) = (r, evs, l')"
    by (cases "List_insert (\<lambda>_. 0) DohNewList 5 (DohArg (7::nat))")
  show ?thesis
    using list_insert_refines [OF new_list_inv _ op] by (simp add: op new_list_abs)
qed



end
