(* ===== verification/DohString.thy ===== *)
theory DohString
  imports DohEvents "HOL-Library.Word"
begin

text \<open>
  The string object of Source/DOH/string.c: a growing buffer with a length, a file position, a
  line counter and a cached hash value. The record has the fields of the struct. The buffer
  \<open>str\<close> is the list of the bytes that are really allocated, so that a write past the allocation
  is a fault; bytes that \<open>malloc\<close> or \<open>realloc\<close> leave uninitialised are modelled as NUL, and no
  operation reads them as contents. Sizes and positions are the C \<open>int\<close>s, without overflow.
  \<open>contents\<close> is the abstract value. The representation invariant is \<open>string_inv\<close>; the cached
  hash is right when \<open>hash_ok\<close> holds; \<open>line_base\<close> is the line number at position 0.
\<close>

unbundle bit_operations_syntax

section \<open>The struct\<close>

record dstring =
  sfile :: "nat option"
  sline :: int
  maxsize :: int
  slen :: int
  hashkey :: int
  sp :: int
  str :: "char list"

definition alloc :: "dstring \<Rightarrow> int" where
  "alloc s = int (length (str s))"

definition contents :: "dstring \<Rightarrow> string" where
  "contents s = take (nat (slen s)) (str s)"

definition NUL :: char where "NUL = CHR 0x00"
definition NL :: char where "NL = CHR 0x0A"

text \<open>The characters are \<open>char\<close>, which is signed on the platforms SWIG is built on.\<close>

definition char_sint :: "char \<Rightarrow> int" where
  "char_sint c = (let n = int (of_char c) in if n \<ge> 128 then n - 256 else n)"

section \<open>The buffer\<close>

definition buf_realloc :: "char list \<Rightarrow> int \<Rightarrow> char list" where
  "buf_realloc b n = take (nat n) b @ replicate (nat n - length b) NUL"

definition buf_write :: "char list \<Rightarrow> int \<Rightarrow> char \<Rightarrow> char list res" where
  "buf_write b i c =
     (if 0 \<le> i \<and> i < int (length b) then Inr (b[nat i := c]) else Inl Out_of_bounds)"

definition buf_copy :: "char list \<Rightarrow> int \<Rightarrow> string \<Rightarrow> char list res" where
  "buf_copy b i d =
     (if 0 \<le> i \<and> i + int (length d) \<le> int (length b)
      then Inr (take (nat i) b @ d @ drop (nat i + length d) b) else Inl Out_of_bounds)"

text \<open>\<open>memmove(b + dst, b + src, n)\<close>; a negative count is a huge \<open>size_t\<close>.\<close>

definition buf_move :: "char list \<Rightarrow> int \<Rightarrow> int \<Rightarrow> int \<Rightarrow> char list res" where
  "buf_move b dst src n =
     (if 0 \<le> n \<and> 0 \<le> dst \<and> 0 \<le> src \<and> dst + n \<le> int (length b) \<and> src + n \<le> int (length b)
      then Inr (take (nat dst) b @ take (nat n) (drop (nat src) b) @ drop (nat (dst + n)) b)
      else Inl Out_of_bounds)"

definition newlines :: "string \<Rightarrow> int" where
  "newlines s = int (length (filter (\<lambda>c. c = NL) s))"

text \<open>\<open>for (i = i; i < j; i++) if (b[i] == NL) ...\<close>: the newlines of a slice of the buffer.\<close>

definition slice :: "char list \<Rightarrow> int \<Rightarrow> int \<Rightarrow> string" where
  "slice b i j = take (nat (j - i)) (drop (nat i) b)"

lemma newlines_simps [simp]:
  "newlines [] = 0"
  "newlines (c # s) = (if c = NL then 1 else 0) + newlines s"
  "newlines (s @ t) = newlines s + newlines t"
  by (simp_all add: newlines_def)

section \<open>Operations\<close>

definition String_data :: "dstring \<Rightarrow> (string \<times> dstring) res" where
  "String_data s = rbind (buf_write (str s) (slen s) NUL)
     (\<lambda>b. Inr (takeWhile (\<lambda>c. c \<noteq> NUL) b, s\<lparr>str := b\<rparr>))"

definition CopyString :: "dstring \<Rightarrow> (nat rc_event list \<times> dstring)" where
  "CopyString s =
     ((case sfile s of None \<Rightarrow> [] | Some f \<Rightarrow> [RcIncref f]),
      \<lparr>sfile = sfile s, sline = sline s, maxsize = slen s, slen = slen s, hashkey = hashkey s,
       sp = sp s, str = take (nat (slen s)) (str s) @ [NUL]\<rparr>)"

definition String_len :: "dstring \<Rightarrow> int" where
  "String_len s = slen s"

text \<open>The comparison loop over the common length, then the lengths.\<close>

fun cmp_loop :: "nat \<Rightarrow> string \<Rightarrow> string \<Rightarrow> int" where
  "cmp_loop (Suc i) (c1 # s1) (c2 # s2) =
     (if c1 \<noteq> c2 then (if char_sint c1 < char_sint c2 then -1 else 1) else cmp_loop i s1 s2)"
| "cmp_loop i s1 s2 = 0"

definition String_cmp :: "dstring \<Rightarrow> dstring \<Rightarrow> int" where
  "String_cmp s1 s2 =
     (let maxlen = (if slen s2 < slen s1 then slen s2 else slen s1);
          r = cmp_loop (nat maxlen) (str s1) (str s2)
      in if r \<noteq> 0 then r
         else if slen s1 = slen s2 then 0
         else if slen s1 > slen s2 then 1 else -1)"

definition String_equal :: "dstring \<Rightarrow> dstring \<Rightarrow> bool" where
  "String_equal s1 s2 \<longleftrightarrow> slen s1 = slen s2 \<and>
     take (nat (slen s1)) (str s1) = take (nat (slen s1)) (str s2)"

text \<open>The hash: at most 50 characters, four per round, in 32-bit wrap-around arithmetic.\<close>

definition hash_step :: "32 word \<Rightarrow> char \<Rightarrow> 32 word" where
  "hash_step h c = push_bit 5 h + word_of_int (char_sint c)"

fun hash_groups :: "nat \<Rightarrow> char list \<Rightarrow> 32 word \<Rightarrow> 32 word \<times> char list" where
  "hash_groups 0 c h = (h, c)"
| "hash_groups (Suc i) c h =
     hash_groups i (drop 4 c)
       (hash_step (hash_step (hash_step (hash_step h (c ! 0)) (c ! 1)) (c ! 2)) (c ! 3))"

fun hash_tail :: "nat \<Rightarrow> char list \<Rightarrow> 32 word \<Rightarrow> 32 word" where
  "hash_tail 0 c h = h"
| "hash_tail (Suc i) c h = hash_tail i (tl c) (hash_step h (hd c))"

definition String_hash :: "dstring \<Rightarrow> int \<times> dstring" where
  "String_hash s =
     (if hashkey s \<ge> 0 then (hashkey s, s)
      else let len = (if slen s > 50 then 50 else nat (slen s));
               mlen = len div 4;
               (h, c) = hash_groups mlen (str s) 0;
               h1 = hash_tail (len - mlen * 4) c h;
               k = uint (h1 AND 0x7fffffff)
           in (k, s\<lparr>hashkey := k\<rparr>))"

definition String_append :: "dstring \<Rightarrow> string \<Rightarrow> dstring res" where
  "String_append s newstr =
     (let l = int (length newstr);
          oldlen = slen s;
          newlen = oldlen + l + 1;
          newmax = 2 * maxsize s;
          newmax1 = (if newlen \<ge> newmax - 1 then newlen + 1 else newmax);
          s1 = (if newlen \<ge> maxsize s - 1
                then s\<lparr>hashkey := -1, str := buf_realloc (str s) newmax1, maxsize := newmax1\<rparr>
                else s\<lparr>hashkey := -1\<rparr>)
      in rbind (buf_copy (str s1) oldlen (newstr @ [NUL])) (\<lambda>b.
           if sp s \<ge> oldlen then
             (if sp s > oldlen + l then Inl Out_of_bounds
              else Inr (s1\<lparr>str := b, sline := sline s + newlines (slice b (sp s) (oldlen + l)),
                           sp := oldlen + l, slen := oldlen + l\<rparr>))
           else Inr (s1\<lparr>str := b, slen := oldlen + l\<rparr>)))"

definition String_clear :: "dstring \<Rightarrow> dstring res" where
  "String_clear s = rbind (buf_write (str s) 0 NUL)
     (\<lambda>b. Inr (s\<lparr>hashkey := -1, slen := 0, str := b, sp := 0, sline := 1\<rparr>))"

text \<open>
  \<open>while (s->maxsize <= s->len + len) newsize = 2 * s->maxsize\<close>: the loop makes no progress
  from a size of zero. Each round at least doubles a positive size, so the number of rounds is
  bounded by the target.
\<close>

fun grow :: "nat \<Rightarrow> int \<Rightarrow> int \<Rightarrow> int res" where
  "grow 0 m target = (if m \<le> target then Inl Hang else Inr m)"
| "grow (Suc n) m target = (if m \<le> target then grow n (2 * m) target else Inr m)"

definition String_insert :: "dstring \<Rightarrow> int \<Rightarrow> string \<Rightarrow> dstring res" where
  "String_insert s pos data =
     (if pos = -2 then String_append s data
      else let len = int (length data);
               p = (if pos < 0 then 0 else if pos > slen s then slen s else pos)
           in rbind (grow (nat (slen s + len + 1)) (maxsize s) (slen s + len)) (\<lambda>m.
              let b0 = (if m = maxsize s then str s else buf_realloc (str s) m)
              in rbind (buf_move b0 (p + len) p (slen s - p)) (\<lambda>b1.
                 rbind (buf_copy b1 p data) (\<lambda>b2.
                 rbind (buf_write b2 (slen s + len) NUL) (\<lambda>b3.
                 Inr (if sp s \<ge> p
                      then s\<lparr>hashkey := -1, maxsize := m, str := b3, slen := slen s + len,
                             sline := sline s + newlines data, sp := sp s + len\<rparr>
                      else s\<lparr>hashkey := -1, maxsize := m, str := b3, slen := slen s + len\<rparr>))))))"

definition String_delitem :: "dstring \<Rightarrow> int \<Rightarrow> dstring res" where
  "String_delitem s pos =
     (let p1 = (if pos = -2 then slen s - 1 else pos);
          p = (if p1 = -1 then 0 else p1)
      in if slen s = 0 then Inr (s\<lparr>hashkey := -1\<rparr>)
         else if p < 0 \<or> p \<ge> alloc s then Inl Out_of_bounds
         else let s1 = (if sp s > p
                        then s\<lparr>sp := sp s - 1,
                               sline := sline s - (if str s ! nat p = NL then 1 else 0)\<rparr>
                        else s)
              in rbind (buf_move (str s) p (p + 1) (slen s - 1 - p)) (\<lambda>b1.
                 rbind (buf_write b1 (slen s - 1) NUL) (\<lambda>b2.
                 Inr (s1\<lparr>hashkey := -1, str := b2, slen := slen s - 1\<rparr>))))"

definition String_delslice :: "dstring \<Rightarrow> int \<Rightarrow> int \<Rightarrow> dstring res" where
  "String_delslice s sindex eindex =
     (if slen s = 0 then Inr s
      else let e = (if eindex = -2 then slen s else eindex);
               i = (if sindex = -1 then 0 else sindex);
               size = e - i;
               (sp1, end) = (if sp s > e then (sp s - size, e) else (i, sp s));
               s1 = (if sp s > i
                     then s\<lparr>sp := sp1, sline := sline s - newlines (slice (str s) i end)\<rparr>
                     else s)
           in if sp s > i \<and> (i < 0 \<or> end > alloc s) then Inl Out_of_bounds
              else if sp s > i \<and> sp1 < 0 then Inl Assertion
              else rbind (buf_move (str s) i e (slen s - e)) (\<lambda>b1.
                   rbind (buf_write b1 (slen s - size) NUL) (\<lambda>b2.
                   Inr (s1\<lparr>hashkey := -1, str := b2, slen := slen s - size\<rparr>))))"

definition String_read :: "dstring \<Rightarrow> int \<Rightarrow> int \<times> string \<times> dstring" where
  "String_read s len =
     (let reallen = (if sp s + len > slen s then slen s - sp s else len)
      in if reallen > 0 then (reallen, slice (str s) (sp s) (sp s + reallen),
                              s\<lparr>sp := sp s + reallen\<rparr>)
         else (reallen, [], s))"

definition String_write :: "dstring \<Rightarrow> string \<Rightarrow> (int \<times> dstring) res" where
  "String_write s buffer =
     (let len = int (length buffer);
          sp1 = (if sp s > slen s then slen s else sp s);
          newlen = sp1 + len + 1;
          s1 = (if newlen > maxsize s
                then s\<lparr>hashkey := -1, sp := sp1, str := buf_realloc (str s) newlen,
                       maxsize := newlen, slen := sp1 + len\<rparr>
                else s\<lparr>hashkey := -1, sp := sp1\<rparr>);
          len1 = (if sp1 + len > slen s1 then sp1 + len else slen s1)
      in rbind (buf_copy (str s1) sp1 buffer) (\<lambda>b1.
         rbind (buf_write b1 len1 NUL) (\<lambda>b2.
         Inr (len, s1\<lparr>str := b2, slen := len1, sp := sp1 + len\<rparr>))))"

datatype whence = SEEK_SET | SEEK_CUR | SEEK_END | Other_whence

text \<open>
  The forward loop looks at \<open>tc[++sp]\<close>, the positions after the old one up to the new one; the
  backward loop looks at \<open>tc[--sp]\<close>, the positions from the new one up to before the old one.
\<close>

definition String_seek :: "dstring \<Rightarrow> int \<Rightarrow> whence \<Rightarrow> (int \<times> dstring) res" where
  "String_seek s offset whence =
     (let pos = (case whence of SEEK_SET \<Rightarrow> 0 | SEEK_END \<Rightarrow> slen s | _ \<Rightarrow> sp s);
          off = (if whence = SEEK_END then - offset else offset);
          nsp1 = pos + off;
          nsp2 = (if nsp1 < 0 then 0 else nsp1);
          nsp = (if slen s > 0 \<and> nsp2 > slen s then slen s else nsp2)
      in if nsp > sp s
         then (if nsp \<ge> alloc s then Inl Out_of_bounds
               else Inr (0, s\<lparr>sline := sline s + newlines (slice (str s) (sp s + 1) (nsp + 1)),
                               sp := nsp\<rparr>))
         else (if sp s > alloc s then Inl Out_of_bounds
               else Inr (0, s\<lparr>sline := sline s - newlines (slice (str s) nsp (sp s)),
                               sp := nsp\<rparr>)))"

definition String_tell :: "dstring \<Rightarrow> int" where
  "String_tell s = sp s"

definition String_putc :: "dstring \<Rightarrow> char \<Rightarrow> dstring res" where
  "String_putc s ch =
     (let nl = (if ch = NL then 1 else 0)
      in if sp s \<ge> slen s then
           (let s1 = (if slen s > maxsize s - 2
                      then s\<lparr>maxsize := maxsize s * 2, str := buf_realloc (str s) (maxsize s * 2)\<rparr>
                      else s)
            in rbind (buf_write (str s1) (sp s) ch) (\<lambda>b1.
               rbind (buf_write b1 (sp s + 1) NUL) (\<lambda>b2.
               Inr (s1\<lparr>hashkey := -1, str := b2, slen := sp s + 1, sp := sp s + 1,
                       sline := sline s + nl\<rparr>))))
         else rbind (buf_write (str s) (sp s) ch) (\<lambda>b.
              Inr (s\<lparr>hashkey := -1, str := b, sp := sp s + 1, sline := sline s + nl\<rparr>)))"

text \<open>\<open>EOF\<close> is \<open>None\<close>.\<close>

definition String_getc :: "dstring \<Rightarrow> char option \<times> dstring" where
  "String_getc s =
     (if sp s \<ge> slen s then (None, s)
      else let c = str s ! nat (sp s)
           in (Some c, s\<lparr>sp := sp s + 1, sline := sline s + (if c = NL then 1 else 0)\<rparr>))"

definition String_ungetc :: "dstring \<Rightarrow> char option \<Rightarrow> char option \<times> dstring" where
  "String_ungetc s ch =
     (case ch of
        None \<Rightarrow> (None, s)
      | Some c \<Rightarrow>
          if sp s \<le> 0 then (None, s)
          else (Some c, s\<lparr>sp := sp s - 1, sline := sline s - (if c = NL then 1 else 0)\<rparr>))"

text \<open>The loop of \<open>String_chop\<close>: on length, position and line, from the end of the buffer.\<close>

fun chop_loop :: "nat \<Rightarrow> char list \<Rightarrow> int \<Rightarrow> int \<Rightarrow> nat \<times> int \<times> int" where
  "chop_loop 0 b p ln = (0, p, ln)"
| "chop_loop (Suc n) b p ln =
     (if isspace (b ! n)
      then (if p \<ge> int (Suc n)
            then chop_loop n b (p - 1) (ln - (if b ! n = NL then 1 else 0))
            else chop_loop n b p ln)
      else (Suc n, p, ln))"

definition String_chop :: "dstring \<Rightarrow> dstring res" where
  "String_chop s =
     (case chop_loop (nat (slen s)) (str s) (sp s) (sline s) of
        (n, p, ln) \<Rightarrow>
          rbind (buf_write (str s) (int n) NUL) (\<lambda>b.
            if p < 0 then Inl Assertion
            else Inr (s\<lparr>slen := int n, sp := p, sline := ln, str := b, hashkey := -1\<rparr>)))"

definition String_setfile ::
  "(string \<Rightarrow> nat) \<Rightarrow> dstring \<Rightarrow> nat doh_arg \<Rightarrow> nat rc_event list \<times> dstring" where
  "String_setfile ns s file =
     (case wrap_arg ns (if file = NullArg then CharArg [] else file) of
        None \<Rightarrow> ([], s)
      | Some (f, es) \<Rightarrow>
          (es @ [RcIncref f] @ (case sfile s of None \<Rightarrow> [] | Some g \<Rightarrow> [RcDelete g]),
           s\<lparr>sfile := Some f\<rparr>))"

definition String_setline :: "dstring \<Rightarrow> int \<Rightarrow> dstring" where
  "String_setline s n = s\<lparr>sline := n\<rparr>"

definition String_getline :: "dstring \<Rightarrow> int" where
  "String_getline s = sline s"

section \<open>Constructors\<close>

definition INIT_MAXSIZE :: int where "INIT_MAXSIZE = 16"

text \<open>
  \<open>NewString\<close> of a C string (\<open>None\<close> for NULL), or of a string object, whose cached hash value
  is carried over. The length of the new string is that of the source object; \<open>strcpy\<close> copies
  up to its first NUL.
\<close>

definition new_string :: "int \<Rightarrow> int \<Rightarrow> string option \<Rightarrow> dstring" where
  "new_string key l c =
     (let m = (if c \<noteq> None \<and> l + 1 > INIT_MAXSIZE then l + 1 else INIT_MAXSIZE);
          d = (case c of None \<Rightarrow> [] | Some s \<Rightarrow> s)
      in \<lparr>sfile = None, sline = 1, maxsize = m, slen = l, hashkey = key, sp = l,
          str = d @ NUL # replicate (nat m - length d - 1) NUL\<rparr>)"

definition DohNewString :: "string option \<Rightarrow> dstring" where
  "DohNewString c = new_string (-1) (case c of None \<Rightarrow> 0 | Some s \<Rightarrow> int (length s)) c"

definition DohNewString_obj :: "dstring \<Rightarrow> dstring res" where
  "DohNewString_obj s =
     rbind (String_data s) (\<lambda>(c, s'). Inr (new_string (hashkey s) (slen s) (Some c)))"

definition DohNewStringEmpty :: dstring where
  "DohNewStringEmpty =
     \<lparr>sfile = None, sline = 1, maxsize = INIT_MAXSIZE, slen = 0, hashkey = 0, sp = 0,
      str = replicate (nat INIT_MAXSIZE) NUL\<rparr>"

text \<open>\<open>strncpy\<close> copies at most \<open>len\<close> characters and pads with NUL; a negative length overruns.\<close>

definition DohNewStringWithSize :: "string option \<Rightarrow> int \<Rightarrow> dstring res" where
  "DohNewStringWithSize c len =
     (case c of
        None \<Rightarrow> Inr (new_string (-1) 0 None)
      | Some s \<Rightarrow>
          if len < 0 then Inl Out_of_bounds
          else let m = (if len + 1 > INIT_MAXSIZE then len + 1 else INIT_MAXSIZE);
                   d = take (nat len) s @ replicate (nat len - length s) NUL
               in Inr \<lparr>sfile = None, sline = 1, maxsize = m, slen = len, hashkey = -1, sp = len,
                       str = d @ replicate (nat m - length d) NUL\<rparr>)"

section \<open>Invariants\<close>

definition string_inv :: "dstring \<Rightarrow> bool" where
  "string_inv s \<longleftrightarrow> 0 \<le> slen s \<and> slen s < alloc s \<and> maxsize s \<le> alloc s
     \<and> slen s \<le> maxsize s \<and> 2 \<le> maxsize s \<and> 0 \<le> sp s \<and> sp s \<le> slen s"

definition hash_of :: "string \<Rightarrow> int" where
  "hash_of s = uint (foldl hash_step 0 (take 50 s) AND 0x7fffffff)"

definition hash_ok :: "dstring \<Rightarrow> bool" where
  "hash_ok s \<longleftrightarrow> (hashkey s \<ge> 0 \<longrightarrow> hashkey s = hash_of (contents s))"

definition line_base :: "dstring \<Rightarrow> int" where
  "line_base s = sline s - newlines (take (nat (sp s)) (contents s))"

section \<open>The hash\<close>

lemma hash_groups_eq:
  "4 * i \<le> length c \<Longrightarrow>
   hash_groups i c h = (foldl hash_step h (take (4 * i) c), drop (4 * i) c)"
proof (induction i arbitrary: c h)
  case 0
  then show ?case by simp
next
  case (Suc i)
  then obtain c0 c1 c2 c3 cs where c: "c = c0 # c1 # c2 # c3 # cs"
    by (cases c; cases "tl c"; cases "tl (tl c)"; cases "tl (tl (tl c))") auto
  with Suc.prems Suc.IH [of cs] show ?case by (simp add: numeral_eq_Suc)
qed

lemma hash_tail_eq: "i \<le> length c \<Longrightarrow> hash_tail i c h = foldl hash_step h (take i c)"
proof (induction i arbitrary: c h)
  case (Suc i)
  then show ?case by (cases c) auto
qed simp

lemma String_hash_eq:
  assumes "string_inv s" and "hash_ok s"
  shows "fst (String_hash s) = hash_of (contents s)"
    and "hash_ok (snd (String_hash s))"
    and "string_inv (snd (String_hash s))" and "contents (snd (String_hash s)) = contents s"
proof -
  define len where "len = (if slen s > 50 then 50 else nat (slen s))"
  have len: "len \<le> length (str s)"
    using assms(1) by (auto simp: len_def string_inv_def alloc_def)
  have le4: "4 * (len div 4) \<le> length (str s)" using len by linarith
  obtain h c where hg: "hash_groups (len div 4) (str s) 0 = (h, c)" by force
  then have h: "h = foldl hash_step 0 (take (4 * (len div 4)) (str s))"
    and c: "c = drop (4 * (len div 4)) (str s)"
    using hash_groups_eq [OF le4] by auto
  have "hash_tail (len - len div 4 * 4) c h = foldl hash_step 0 (take len (str s))"
  proof -
    have "hash_tail (len - len div 4 * 4) c h
        = foldl hash_step h (take (len - len div 4 * 4) c)"
      using len by (intro hash_tail_eq) (simp add: c)
    also have "\<dots> = foldl hash_step 0
        (take (4 * (len div 4)) (str s) @ take (len - len div 4 * 4) (drop (4 * (len div 4)) (str s)))"
      by (simp add: h c)
    also have "\<dots> = foldl hash_step 0 (take len (str s))"
      by (simp add: take_add [symmetric] mult.commute)
    finally show ?thesis .
  qed
  moreover have "take len (str s) = take 50 (contents s)"
  proof (cases "slen s > 50")
    case False
    then have "min 50 (nat (slen s)) = nat (slen s)" by simp
    with False show ?thesis by (simp add: len_def contents_def)
  qed (simp add: len_def contents_def min_def)
  ultimately have "String_hash s = (if hashkey s \<ge> 0 then (hashkey s, s)
      else (hash_of (contents s), s\<lparr>hashkey := hash_of (contents s)\<rparr>))"
    using hg by (simp add: String_hash_def hash_of_def Let_def flip: len_def)
  with assms show "fst (String_hash s) = hash_of (contents s)" "hash_ok (snd (String_hash s))"
    "string_inv (snd (String_hash s))" "contents (snd (String_hash s)) = contents s"
    by (auto simp: hash_ok_def contents_def string_inv_def alloc_def)
qed

text \<open>Whatever writes to the buffer drops the cached value, which is always allowed.\<close>

lemma hash_ok_dropped [simp]: "hashkey s = -1 \<Longrightarrow> hash_ok s"
  by (simp add: hash_ok_def)

lemma hash_of_range: "0 \<le> hash_of s"
  by (simp add: hash_of_def)

lemma hash_of_Nil [simp]: "hash_of [] = 0"
  by (simp add: hash_of_def)

section \<open>The buffer under the invariant\<close>

lemma string_invE:
  assumes "string_inv s"
  obtains t r where "str s = t @ r" and "contents s = t" and "slen s = int (length t)"
    and "r \<noteq> []" and "maxsize s \<le> int (length t + length r)"
    and "int (length t) \<le> maxsize s" and "2 \<le> maxsize s"
    and "0 \<le> sp s" and "sp s \<le> int (length t)"
proof -
  have "str s = contents s @ drop (nat (slen s)) (str s)" by (simp add: contents_def)
  moreover have "slen s = int (length (contents s))" "drop (nat (slen s)) (str s) \<noteq> []"
    using assms by (auto simp: string_inv_def contents_def alloc_def)
  moreover have "int (length (contents s) + length (drop (nat (slen s)) (str s))) = alloc s"
    using assms by (auto simp: string_inv_def contents_def alloc_def)
  ultimately show thesis
    using assms that [of "contents s" "drop (nat (slen s)) (str s)"]
    by (auto simp: string_inv_def)
qed

lemma buf_realloc_split:
  assumes "int (length t) \<le> n"
  obtains r' where "buf_realloc (t @ r) n = t @ r'" and "int (length r') = n - int (length t)"
proof
  show "buf_realloc (t @ r) n
      = t @ take (nat n - length t) r @ replicate (nat n - (length t + length r)) NUL"
    using assms by (simp add: buf_realloc_def)
  show "int (length (take (nat n - length t) r @ replicate (nat n - (length t + length r)) NUL))
      = n - int (length t)"
    using assms by (auto simp: min_def)
qed

lemma length_buf_realloc [simp]: "0 \<le> n \<Longrightarrow> int (length (buf_realloc b n)) = n"
  by (auto simp: buf_realloc_def min_def)

lemma buf_copy_at [simp]:
  "i = int (length t) \<Longrightarrow> buf_copy (t @ r) i d =
   (if length d \<le> length r then Inr (t @ d @ drop (length d) r) else Inl Out_of_bounds)"
  by (simp add: buf_copy_def)

lemma buf_write_at [simp]:
  "i = int (length t) \<Longrightarrow> buf_write (t @ r) i c =
   (if r \<noteq> [] then Inr (t @ c # tl r) else Inl Out_of_bounds)"
  by (cases r) (simp_all add: buf_write_def)

lemma buf_move_at:
  "\<lbrakk>a = int (length t); b = int (length t + length u); n = int (length v)\<rbrakk> \<Longrightarrow>
   buf_move (t @ u @ v @ r) a b n = Inr (t @ v @ drop (length v) (u @ v @ r))"
  by (simp add: buf_move_def nat_int_add)

section \<open>What an edit keeps\<close>

text \<open>
  An edit that leaves a string with the text \<open>t\<close>: the representation invariant, the cached hash,
  and the line counter, which stays the number of newlines before the file position above the
  line of position 0.
\<close>

definition becomes :: "dstring \<Rightarrow> string \<Rightarrow> dstring \<Rightarrow> bool" where
  "becomes s t s' \<longleftrightarrow> string_inv s' \<and> contents s' = t \<and> hash_ok s' \<and> line_base s' = line_base s"

lemma becomesI:
  assumes "str s' = t @ r" and "slen s' = int (length t)" and "r \<noteq> []"
    and "maxsize s' \<le> int (length t + length r)" and "int (length t) \<le> maxsize s'"
    and "2 \<le> maxsize s'" and "0 \<le> sp s'" and "sp s' \<le> int (length t)" and "hashkey s' = -1"
    and "sline s' - newlines (take (nat (sp s')) t) = line_base s"
  shows "becomes s t s'"
  using assms by (auto simp: becomes_def string_inv_def alloc_def contents_def line_base_def)

lemma String_append_becomes:
  assumes "string_inv s"
  shows "\<exists>s'. String_append s d = Inr s' \<and> becomes s (contents s @ d) s' \<and>
              sp s' = (if sp s = slen s then slen s + int (length d) else sp s)"
proof -
  obtain t r where s: "str s = t @ r" "contents s = t" "slen s = int (length t)" "r \<noteq> []"
    "maxsize s \<le> int (length t + length r)" "int (length t) \<le> maxsize s" "2 \<le> maxsize s"
    "0 \<le> sp s" "sp s \<le> int (length t)" using assms by (rule string_invE)
  define newlen where "newlen = slen s + int (length d) + 1"
  define newmax where "newmax =
    (if newlen \<ge> 2 * maxsize s - 1 then newlen + 1 else 2 * maxsize s)"
  define s1 where "s1 = (if newlen \<ge> maxsize s - 1
                then s\<lparr>hashkey := -1, str := buf_realloc (str s) newmax, maxsize := newmax\<rparr>
                else s\<lparr>hashkey := -1\<rparr>)"
  have "int (length t) \<le> newmax" using s by (simp add: newmax_def newlen_def)
  then obtain r' where r': "buf_realloc (t @ r) newmax = t @ r'"
      "int (length r') = newmax - int (length t)" by (rule buf_realloc_split)
  define r1 where "r1 = (if newlen \<ge> maxsize s - 1 then r' else r)"
  have s1: "str s1 = t @ r1" "length d < length r1" "maxsize s1 \<le> int (length t + length r1)"
    "int (length t + length d) \<le> maxsize s1" "2 \<le> maxsize s1" "hashkey s1 = -1"
    using s r' by (auto simp: s1_def r1_def newmax_def newlen_def split: if_splits)
  have eq: "String_append s d =
     rbind (buf_copy (str s1) (slen s) (d @ [NUL])) (\<lambda>b.
           if sp s \<ge> slen s then
             (if sp s > slen s + int (length d) then Inl Out_of_bounds
              else Inr (s1\<lparr>str := b,
                  sline := sline s + newlines (slice b (sp s) (slen s + int (length d))),
                           sp := slen s + int (length d), slen := slen s + int (length d)\<rparr>))
           else Inr (s1\<lparr>str := b, slen := slen s + int (length d)\<rparr>))"
    unfolding String_append_def Let_def s1_def newmax_def newlen_def by (rule refl)
  show ?thesis
  proof (cases "sp s = int (length t)")
    case True
    then show ?thesis using s s1
      by (auto simp: eq slice_def line_base_def
          intro!: becomesI [where r = "NUL # drop (Suc (length d)) r1"])
  next
    case False
    moreover have "sp s1 = sp s" "sline s1 = sline s" by (simp_all add: s1_def)
    ultimately show ?thesis using s s1
      by (auto simp: eq line_base_def
          intro!: becomesI [where r = "NUL # drop (Suc (length d)) r1"])
  qed
qed

section \<open>Growing\<close>

text \<open>A positive size reaches any target within the number of rounds given.\<close>

lemma grow_total:
  "\<lbrakk>0 < m; target < m + int n\<rbrakk> \<Longrightarrow> \<exists>m'. grow n m target = Inr m' \<and> target < m' \<and> m \<le> m' \<and>
     (m \<noteq> m' \<longrightarrow> m \<le> target)"
proof (induction n arbitrary: m)
  case (Suc n)
  show ?case
  proof (cases "m \<le> target")
    case True
    have "0 < 2 * m" "target < 2 * m + int n" using Suc.prems by auto
    from Suc.IH [OF this] show ?thesis using True Suc.prems(1) by fastforce
  qed simp
qed simp

lemma nat_int_add3: "nat (int a + int b + int c) = a + b + c"
  by simp

lemma grow_zero_hangs: "0 \<le> target \<Longrightarrow> grow n 0 target = Inl Hang"
  by (induction n) auto

section \<open>The edits\<close>

lemma String_insert_becomes:
  assumes "string_inv s" and "pos \<noteq> -2"
    and p: "p = (if pos < 0 then 0 else if pos > slen s then slen s else pos)"
  shows "\<exists>s'. String_insert s pos d = Inr s' \<and>
    becomes s (take (nat p) (contents s) @ d @ drop (nat p) (contents s)) s' \<and>
    sp s' = (if sp s \<ge> p then sp s + int (length d) else sp s)"
proof -
  obtain t r where s: "str s = t @ r" "contents s = t" "slen s = int (length t)" "r \<noteq> []"
    "maxsize s \<le> int (length t + length r)" "int (length t) \<le> maxsize s" "2 \<le> maxsize s"
    "0 \<le> sp s" "sp s \<le> int (length t)" using assms(1) by (rule string_invE)
  define len where "len = int (length d)"
  obtain m where m: "grow (nat (slen s + len + 1)) (maxsize s) (slen s + len) = Inr m"
    "slen s + len < m" "maxsize s \<le> m" "maxsize s \<noteq> m \<longrightarrow> maxsize s \<le> slen s + len"
    using grow_total [of "maxsize s" "slen s + len" "nat (slen s + len + 1)"] s
    by (auto simp: len_def)
  have "int (length t) \<le> m" using m s by simp
  then obtain r' where r': "buf_realloc (t @ r) m = t @ r'"
      "int (length r') = m - int (length t)" by (rule buf_realloc_split)
  define b0 where "b0 = (if m = maxsize s then str s else buf_realloc (str s) m)"
  define r0 where "r0 = (if m = maxsize s then r else r')"
  have r0: "b0 = t @ r0" "m \<le> int (length t + length r0)" "length d < length r0"
    using s r' m by (auto simp: b0_def r0_def len_def)
  define t1 where "t1 = take (nat p) t"
  define t2 where "t2 = drop (nat p) t"
  have t: "t = t1 @ t2" by (simp add: t1_def t2_def)
  have pt: "p = int (length t1)" "0 \<le> p" using p s by (auto simp: t1_def min_def)
  define gap where "gap = take (length d) (t2 @ r0)"
  have gap: "length gap = length d" using r0 by (simp add: gap_def)
  obtain c rr where rr: "drop (length d) r0 = c # rr"
    using r0(3) by (cases "drop (length d) r0") auto
  have mv: "buf_move b0 (p + len) p (slen s - p) = Inr (t1 @ gap @ t2 @ drop (length d) r0)"
  proof -
    have "b0 = t1 @ t2 @ r0" using r0 t by simp
    moreover have "take (nat (p + len)) (t1 @ t2 @ r0) = t1 @ gap"
      using pt by (simp add: len_def gap_def nat_int_add)
    moreover have "slen s - p = int (length t2)" using s t pt by simp
    ultimately show ?thesis
      using pt r0(3) by (simp add: buf_move_def len_def nat_int_add nat_int_add3)
  qed
  have cp: "buf_copy (t1 @ gap @ t2 @ drop (length d) r0) p d
      = Inr (t1 @ d @ t2 @ drop (length d) r0)"
    using pt gap by simp
  have wr: "buf_write (t1 @ d @ t2 @ drop (length d) r0) (slen s + len) NUL
      = Inr ((t1 @ d @ t2) @ NUL # rr)"
    using buf_write_at [of "slen s + len" "t1 @ d @ t2" "c # rr"] s t rr by (simp add: len_def)
  have eq: "String_insert s pos d = Inr (if sp s \<ge> p
                      then s\<lparr>hashkey := -1, maxsize := m, str := (t1 @ d @ t2) @ NUL # rr,
                             slen := slen s + len, sline := sline s + newlines d, sp := sp s + len\<rparr>
                      else s\<lparr>hashkey := -1, maxsize := m, str := (t1 @ d @ t2) @ NUL # rr,
                             slen := slen s + len\<rparr>)"
    using assms(2) mv cp wr m(1) by (simp add: String_insert_def flip: len_def p b0_def)
  have sz: "m \<le> int (length (t1 @ d @ t2) + length (NUL # rr))"
  proof -
    have "length (drop (length d) r0) = length (NUL # rr)" using rr by simp
    then show ?thesis using r0 t by simp
  qed
  show ?thesis
  proof (cases "sp s \<ge> p")
    case True
    obtain k where k: "sp s = p + int k" using True by (auto simp: zle_iff_zadd)
    have "take (nat (sp s)) t = t1 @ take k t2" 
      using pt k by (simp add: t nat_int_add)
    moreover have "take (nat (sp s + len)) (t1 @ d @ t2) = t1 @ d @ take k t2"
      using pt k by (simp add: len_def nat_int_add nat_int_add3)
    ultimately have "becomes s (t1 @ d @ t2) (s\<lparr>hashkey := -1, maxsize := m,
        str := (t1 @ d @ t2) @ NUL # rr, slen := slen s + len,
        sline := sline s + newlines d, sp := sp s + len\<rparr>)"
      using s sz m t by (intro becomesI [where r = "NUL # rr"]) (auto simp: line_base_def len_def)
    with True eq show ?thesis using s by (auto simp: t1_def t2_def len_def)
  next
    case False
    have "take (nat (sp s)) (t1 @ d @ t2) = take (nat (sp s)) t"
      using pt False by (simp add: t)
    then have "becomes s (t1 @ d @ t2) (s\<lparr>hashkey := -1, maxsize := m,
        str := (t1 @ d @ t2) @ NUL # rr, slen := slen s + len\<rparr>)"
      using s sz m t by (intro becomesI [where r = "NUL # rr"]) (auto simp: line_base_def len_def)
    with False eq show ?thesis using s by (auto simp: t1_def t2_def)
  qed
qed

lemma String_insert_end: "String_insert s (-2) d = String_append s d"
  by (simp add: String_insert_def)

lemma String_delitem_becomes:
  assumes "string_inv s" and "0 \<le> p" and "p < slen s"
    and pos: "pos = p \<or> (pos = -1 \<and> p = 0) \<or> (pos = -2 \<and> p = slen s - 1)"
  shows "\<exists>s'. String_delitem s pos = Inr s' \<and>
    becomes s (take (nat p) (contents s) @ drop (nat p + 1) (contents s)) s' \<and>
    sp s' = (if sp s > p then sp s - 1 else sp s)"
proof -
  obtain t r where s: "str s = t @ r" "contents s = t" "slen s = int (length t)" "r \<noteq> []"
    "maxsize s \<le> int (length t + length r)" "int (length t) \<le> maxsize s" "2 \<le> maxsize s"
    "0 \<le> sp s" "sp s \<le> int (length t)" using assms(1) by (rule string_invE)
  define t1 where "t1 = take (nat p) t"
  define c where "c = t ! nat p"
  define t2 where "t2 = drop (Suc (nat p)) t"
  have t: "t = t1 @ c # t2"
    using assms(2,3) s by (simp add: t1_def t2_def c_def id_take_nth_drop)
  have pt: "p = int (length t1)" using assms(2,3) s by (simp add: t1_def)
  have norm: "(let p1 = (if pos = -2 then slen s - 1 else pos) in if p1 = -1 then 0 else p1) = p"
    using pos assms(2,3) by (auto simp: Let_def)
  have mv: "buf_move (str s) p (p + 1) (slen s - 1 - p) = Inr (t1 @ t2 @ drop (length t2) (c # t2 @ r))"
    using buf_move_at [of p t1 "p + 1" "[c]" "slen s - 1 - p" t2 r] s t pt by simp
  obtain e rr where rr: "drop (length t2) (c # t2 @ r) = e # rr" "length rr = length r"
    by (cases "drop (length t2) (c # t2 @ r)")
      (auto dest: arg_cong [where f = length])
  have wr: "buf_write (t1 @ t2 @ e # rr) (slen s - 1) NUL = Inr ((t1 @ t2) @ NUL # rr)"
    using buf_write_at [of "slen s - 1" "t1 @ t2" "e # rr"] s t by simp
  have c: "str s ! nat p = c" using s t pt by (simp add: nth_append)
  define s1 where "s1 = (if sp s > p
     then s\<lparr>sp := sp s - 1, sline := sline s - (if c = NL then 1 else 0)\<rparr> else s)"
  have eq: "String_delitem s pos
      = Inr (s1\<lparr>hashkey := -1, str := (t1 @ t2) @ NUL # rr, slen := slen s - 1\<rparr>)"
  proof -
    have "0 < slen s" "p < alloc s"
      using assms(2,3) s(3) by (auto simp: alloc_def s(1))
    then have "slen s \<noteq> 0" "\<not> (p < 0 \<or> p \<ge> alloc s)" using assms(2) by simp_all
    then show ?thesis
      using norm mv wr rr(1) c unfolding String_delitem_def Let_def
      by (simp only: if_False rbind_simps flip: s1_def)
  qed
  have sz: "maxsize s \<le> int (length (t1 @ t2) + length (NUL # rr))" using s t rr(2) by simp
  have "becomes s (t1 @ t2) (s1\<lparr>hashkey := -1, str := (t1 @ t2) @ NUL # rr, slen := slen s - 1\<rparr>)"
  proof (cases "sp s > p")
    case True
    obtain k where k: "sp s = p + 1 + int k"
      using True zle_iff_zadd [of "p + 1" "sp s"] by auto
    have "take (nat (sp s)) t = t1 @ c # take k t2" "take (nat (sp s - 1)) (t1 @ t2) = t1 @ take k t2"
      using pt k by (simp_all add: t nat_add_distrib nat_int_add)
    then show ?thesis
      using True s sz t pt by (intro becomesI [where r = "NUL # rr"]) (auto simp: line_base_def s1_def)
  next
    case False
    have "take (nat (sp s)) (t1 @ t2) = take (nat (sp s)) t"
      using pt False s(8) by (simp add: t)
    then show ?thesis using False s sz t pt by (intro becomesI [where r = "NUL # rr"]) (auto simp: line_base_def s1_def)
  qed
  with eq show ?thesis by (simp add: s s1_def t1_def t2_def)
qed

lemma String_delslice_becomes:
  assumes "string_inv s" and "0 \<le> i" and "i \<le> e" and "e \<le> slen s"
  shows "\<exists>s'. String_delslice s i e = Inr s' \<and>
    (slen s \<noteq> 0 \<longrightarrow> becomes s (take (nat i) (contents s) @ drop (nat e) (contents s)) s') \<and>
    contents s' = take (nat i) (contents s) @ drop (nat e) (contents s) \<and>
    sp s' = (if sp s > e then sp s - (e - i) else if sp s > i then i else sp s)"
proof (cases "slen s = 0")
  case True
  with assms show ?thesis by (auto simp: String_delslice_def contents_def string_inv_def)
next
  case False
  obtain t r where s: "str s = t @ r" "contents s = t" "slen s = int (length t)" "r \<noteq> []"
    "maxsize s \<le> int (length t + length r)" "int (length t) \<le> maxsize s" "2 \<le> maxsize s"
    "0 \<le> sp s" "sp s \<le> int (length t)" using assms(1) by (rule string_invE)
  define t1 where "t1 = take (nat i) t"
  define u where "u = drop (nat i) (take (nat e) t)"
  define t2 where "t2 = drop (nat e) t"
  have t: "t = t1 @ u @ t2"
  proof -
    have "take (nat e) t = t1 @ u"
      using assms(3) append_take_drop_id [of "nat i" "take (nat e) t"]
      by (simp add: t1_def u_def min_absorb1)
    then show ?thesis using append_take_drop_id [of "nat e" t] by (simp add: t2_def)
  qed
  have it: "i = int (length t1)" and et: "e = int (length t1 + length u)"
    using assms s by (auto simp: t1_def u_def)
  obtain c rr where rr: "drop (length t2) (u @ t2 @ r) = c # rr"
    "length (c # rr) = length u + length r"
    using s(4) by (cases "drop (length t2) (u @ t2 @ r)")
      (auto dest: arg_cong [where f = length])
  have mv: "buf_move (str s) i e (slen s - e) = Inr (t1 @ t2 @ c # rr)"
    using buf_move_at [of i t1 e u "slen s - e" t2 r] s t it et rr by simp
  have wr: "buf_write (t1 @ t2 @ c # rr) (slen s - (e - i)) NUL = Inr ((t1 @ t2) @ NUL # rr)"
    using buf_write_at [of "slen s - (e - i)" "t1 @ t2" "c # rr"] s t it et by simp
  define en where "en = (if sp s > e then e else sp s)"
  define sp1 where "sp1 = (if sp s > e then sp s - (e - i) else i)"
  define s1 where "s1 = (if sp s > i
     then s\<lparr>sp := sp1, sline := sline s - newlines (slice (str s) i en)\<rparr> else s)"
  have e2: "e \<noteq> -2" "i \<noteq> -1" using assms by auto
  have bnd: "\<not> (sp s > i \<and> (i < 0 \<or> en > alloc s))" "\<not> (sp s > i \<and> sp1 < 0)"
    using assms s it et by (auto simp: en_def sp1_def alloc_def)
  have pair: "(if sp s > e then (sp s - (e - i), e) else (i, sp s)) = (sp1, en)"
    by (simp add: sp1_def en_def)
  have eq: "String_delslice s i e
      = Inr (s1\<lparr>hashkey := -1, str := (t1 @ t2) @ NUL # rr, slen := slen s - (e - i)\<rparr>)"
    using False e2 bnd mv wr unfolding String_delslice_def Let_def
    by (simp only: if_False pair split simp_thms rbind_simps flip: s1_def)
  have sz: "maxsize s \<le> int (length (t1 @ t2) + length (NUL # rr))" using s t rr(2) by simp
  have sl: "slice (str s) (int (length t1)) j = take (nat (j - int (length t1))) (u @ t2 @ r)" for j
    by (simp add: slice_def s t)
  have "becomes s (t1 @ t2) (s1\<lparr>hashkey := -1, str := (t1 @ t2) @ NUL # rr, slen := slen s - (e - i)\<rparr>)"
  proof -
    consider (after) "sp s > e" | (inside) "i < sp s" "sp s \<le> e" | (before) "sp s \<le> i" by linarith
    then show ?thesis
    proof cases
      case after
      then obtain k where k: "sp s = e + int k" using zle_iff_zadd [of e "sp s"] by auto
      have "take (nat (sp s)) t = t1 @ u @ take k t2"
           "take (nat sp1) (t1 @ t2) = t1 @ take k t2" "slice (str s) i en = u"
        using it et k after by (simp_all add: t sp1_def nat_int_add nat_int_add3 sl en_def)
      then show ?thesis
        using after s sz t it et by (intro becomesI [where r = "NUL # rr"]) (auto simp: line_base_def s1_def sp1_def)
    next
      case inside
      then obtain k where k: "sp s = i + int k" using zle_iff_zadd [of i "sp s"] by auto
      have "take (nat (sp s)) t = t1 @ take k u"
           "take (nat sp1) (t1 @ t2) = t1" "slice (str s) i en = take k u"
        using it et k inside by (simp_all add: t sp1_def nat_int_add sl en_def)
      then show ?thesis
        using inside s sz t it et by (intro becomesI [where r = "NUL # rr"]) (auto simp: line_base_def s1_def sp1_def)
    next
      case before
      have "take (nat (sp s)) (t1 @ t2) = take (nat (sp s)) t"
        using it before s(8) by (simp add: t)
      then show ?thesis using before s sz t it et
        by (intro becomesI [where r = "NUL # rr"]) (auto simp: line_base_def s1_def)
    qed
  qed
  with eq False show ?thesis
    using assms(3) by (auto simp: s s1_def sp1_def becomes_def t1_def t2_def)
qed

lemma String_putc_becomes:
  assumes "string_inv s"
  shows "\<exists>s'. String_putc s c = Inr s' \<and>
    becomes s (take (nat (sp s)) (contents s) @ c # drop (nat (sp s) + 1) (contents s)) s' \<and>
    sp s' = sp s + 1"
proof -
  obtain t r where s: "str s = t @ r" "contents s = t" "slen s = int (length t)" "r \<noteq> []"
    "maxsize s \<le> int (length t + length r)" "int (length t) \<le> maxsize s" "2 \<le> maxsize s"
    "0 \<le> sp s" "sp s \<le> int (length t)" using assms(1) by (rule string_invE)
  show ?thesis
  proof (cases "sp s = slen s")
    case True
    define s1 where "s1 = (if slen s > maxsize s - 2
       then s\<lparr>maxsize := maxsize s * 2, str := buf_realloc (str s) (maxsize s * 2)\<rparr> else s)"
    have "int (length t) \<le> maxsize s * 2" using s by simp
    then obtain r' where r': "buf_realloc (t @ r) (maxsize s * 2) = t @ r'"
      "int (length r') = maxsize s * 2 - int (length t)" by (rule buf_realloc_split)
    define r1 where "r1 = (if slen s > maxsize s - 2 then r' else r)"
    have s1: "str s1 = t @ r1" "2 \<le> length r1" "maxsize s1 \<le> int (length t + length r1)"
      "int (length t) + 2 \<le> maxsize s1" "sline s1 = sline s" "sp s1 = sp s"
      using s r' by (auto simp: s1_def r1_def split: if_splits)
    then obtain x y rr where rr: "r1 = x # y # rr" by (cases r1; cases "tl r1") auto
    have w1: "buf_write (str s1) (sp s) c = Inr (t @ c # y # rr)"
      using s s1 rr True by simp
    have w2: "buf_write (t @ c # y # rr) (sp s + 1) NUL = Inr ((t @ [c]) @ NUL # rr)"
      using buf_write_at [of "sp s + 1" "t @ [c]" "y # rr"] s True by simp
    have "String_putc s c = Inr (s1\<lparr>hashkey := -1, str := (t @ [c]) @ NUL # rr, slen := sp s + 1,
        sp := sp s + 1, sline := sline s + (if c = NL then 1 else 0)\<rparr>)"
      unfolding String_putc_def Let_def s1_def [symmetric] using True w1 w2 by simp
    moreover have "becomes s (t @ [c]) (s1\<lparr>hashkey := -1, str := (t @ [c]) @ NUL # rr,
        slen := sp s + 1, sp := sp s + 1, sline := sline s + (if c = NL then 1 else 0)\<rparr>)"
      using s s1 True rr by (intro becomesI [where r = "NUL # rr"]) (auto simp: line_base_def nat_add_distrib)
    ultimately show ?thesis using True s by simp
  next
    case False
    define t1 where "t1 = take (nat (sp s)) t"
    define x where "x = t ! nat (sp s)"
    define t2 where "t2 = drop (Suc (nat (sp s))) t"
    have t: "t = t1 @ x # t2" and pt: "sp s = int (length t1)"
      using False s by (auto simp: t1_def t2_def x_def id_take_nth_drop)
    have "String_putc s c = Inr (s\<lparr>hashkey := -1, str := (t1 @ c # t2) @ r,
        sp := sp s + 1, sline := sline s + (if c = NL then 1 else 0)\<rparr>)"
      using False s t pt by (simp add: String_putc_def)
    moreover have "becomes s (t1 @ c # t2) (s\<lparr>hashkey := -1, str := (t1 @ c # t2) @ r,
        sp := sp s + 1, sline := sline s + (if c = NL then 1 else 0)\<rparr>)"
      using s t pt by (intro becomesI [where r = r]) (auto simp: line_base_def nat_add_distrib)
    ultimately show ?thesis by (simp add: s t1_def t2_def)
  qed
qed

text \<open>The reference for \<open>Chop\<close>.\<close>

definition rstrip :: "string \<Rightarrow> string" where
  "rstrip s = rev (dropWhile isspace (rev s))"

lemma chop_loop_eq:
  "\<lbrakk>n \<le> length b; 0 \<le> p; p \<le> int n; chop_loop n b p ln = (n', p', ln')\<rbrakk> \<Longrightarrow>
   n' = length (rstrip (take n b)) \<and> take n' b = rstrip (take n b) \<and> p' = min p (int n') \<and> 
   ln' - newlines (take (nat p') b) = ln - newlines (take (nat p) b)"
proof (induction n arbitrary: p ln)
  case 0
  then show ?case by (auto simp: rstrip_def)
next
  case (Suc n)
  have tk: "take (Suc n) b = take n b @ [b ! n]"
    using Suc.prems(1) by (simp add: take_Suc_conv_app_nth)
  show ?case
  proof (cases "isspace (b ! n)")
    case False
    with Suc.prems tk show ?thesis by (auto simp: rstrip_def)
  next
    case True
    then have rs: "rstrip (take (Suc n) b) = rstrip (take n b)" by (simp add: tk rstrip_def)
    have shorter: "length (rstrip (take n b)) \<le> n"
      using length_dropWhile_le [of isspace "rev (take n b)"] by (simp add: rstrip_def)
    show ?thesis
    proof (cases "p \<ge> int (Suc n)")
      case at_end: True
      then have p: "p = int (Suc n)" using Suc.prems by simp
      then have "nat p = Suc n" "nat (p - 1) = n" by simp_all
      then have tkp: "take (nat p) b = take n b @ [b ! n]" using tk by simp
      have "chop_loop n b (p - 1) (ln - newlines [b ! n]) = (n', p', ln')"
        using Suc.prems(4) at_end \<open>isspace (b ! n)\<close> by simp
      then have IH: "n' = length (rstrip (take n b)) \<and> take n' b = rstrip (take n b)
          \<and> p' = min (p - 1) (int n')
          \<and> ln' - newlines (take (nat p') b) = ln - newlines [b ! n] - newlines (take (nat (p - 1)) b)"
        by (rule Suc.IH [rotated 3]) (use Suc.prems(1) p in auto)
      have p': "p' = int n'" "min p (int n') = int n'" using IH shorter p by auto
      have "ln' - newlines (take (nat p') b) = ln - newlines (take (nat p) b)"
      proof -
        have "newlines (take (nat p) b) = newlines (take (nat (p - 1)) b) + newlines [b ! n]"
          unfolding tkp by (simp add: p)
        with IH show ?thesis by linarith
      qed
      then show ?thesis using IH p' unfolding rs by metis
    next
      case False
      then show ?thesis using Suc.IH [of p ln] Suc.prems True rs by auto
    qed
  qed
qed

lemma String_chop_becomes:
  assumes "string_inv s"
  shows "\<exists>s'. String_chop s = Inr s' \<and> becomes s (rstrip (contents s)) s' \<and>
              sp s' = min (sp s) (slen s')"
proof -
  obtain t r where s: "str s = t @ r" "contents s = t" "slen s = int (length t)" "r \<noteq> []"
    "maxsize s \<le> int (length t + length r)" "int (length t) \<le> maxsize s" "2 \<le> maxsize s"
    "0 \<le> sp s" "sp s \<le> int (length t)" using assms(1) by (rule string_invE)
  obtain n p ln where loop: "chop_loop (nat (slen s)) (str s) (sp s) (sline s) = (n, p, ln)"
    by (metis prod_cases3)
  have tk: "take (length t) (str s) = t" by (simp add: s)
  have n: "n = length (rstrip t)" "take n (str s) = rstrip t" "p = min (sp s) (int n)"
    "ln - newlines (take (nat p) (str s)) = sline s - newlines (take (nat (sp s)) (str s))"
    using chop_loop_eq [OF _ _ _ loop] s tk by auto
  have le: "n \<le> length t"
    using n(1) length_dropWhile_le [of isspace "rev t"] by (simp add: rstrip_def)
  define t1 where "t1 = take n t"
  have "t1 = rstrip t" using n(2) le s by (simp add: t1_def)
  moreover have "length t1 = n" using le by (simp add: t1_def)
  moreover have "str s = t1 @ drop n t @ r" using s by (simp add: t1_def)
  ultimately have t1: "t1 = rstrip t" "length t1 = n" "str s = t1 @ drop n t @ r" by simp_all
  obtain c rr where rr: "drop n t @ r = c # rr" using s(4) by (cases "drop n t @ r") auto
  have wr: "buf_write (str s) (int n) NUL = Inr (t1 @ NUL # rr)"
    using t1 rr by simp
  have p: "0 \<le> p" "p \<le> int n" using n(3) s by auto
  have eq: "String_chop s = Inr (s\<lparr>slen := int n, sp := p, sline := ln, str := t1 @ NUL # rr,
      hashkey := -1\<rparr>)"
    unfolding String_chop_def loop using wr p by simp
  have sz: "length t + length r = n + Suc (length rr)"
    using arg_cong [OF rr, of length] le by simp
  have "take (nat p) (str s) = take (nat p) t1" using p t1 by simp
  moreover have "take (nat (sp s)) (str s) = take (nat (sp s)) t" using s by simp
  ultimately have "ln - newlines (take (nat p) t1) = line_base s"
    using n(4) s by (simp add: line_base_def)
  then have "becomes s t1 (s\<lparr>slen := int n, sp := p, sline := ln, str := t1 @ NUL # rr,
      hashkey := -1\<rparr>)"
    using s(5-7) t1(2) p le sz by (intro becomesI [where r = "NUL # rr"]) auto
  with eq show ?thesis by (simp add: s t1 n)
qed

lemma String_getc_spec:
  assumes "string_inv s"
  shows "fst (String_getc s) = (if sp s < slen s then Some (contents s ! nat (sp s)) else None) \<and>
    string_inv (snd (String_getc s)) \<and> contents (snd (String_getc s)) = contents s \<and>
    line_base (snd (String_getc s)) = line_base s \<and>
    sp (snd (String_getc s)) = min (slen s) (sp s + 1)"
proof (cases "sp s < slen s")
  case True
  obtain t r where s: "str s = t @ r" "contents s = t" "slen s = int (length t)"
    "0 \<le> sp s" using assms by (rule string_invE)
  have nth: "str s ! nat (sp s) = t ! nat (sp s)" "nat (sp s) < length t"
    using True s by (auto simp: nth_append)
  have sp1: "nat (sp s + 1) = Suc (nat (sp s))" using s by simp
  have "take (nat (sp s + 1)) t = take (nat (sp s)) t @ [t ! nat (sp s)]"
    using nth(2) unfolding sp1 by (rule take_Suc_conv_app_nth)
  then show ?thesis
    using True assms s nth
    by (auto simp: String_getc_def Let_def line_base_def contents_def string_inv_def alloc_def)
next
  case False
  then show ?thesis using assms by (auto simp: String_getc_def string_inv_def)
qed

text \<open>Pushing back the character before the position undoes a \<open>Getc\<close>.\<close>

lemma String_getc_ungetc:
  assumes "string_inv s" and "sp s < slen s"
  shows "String_ungetc (snd (String_getc s)) (fst (String_getc s)) = (fst (String_getc s), s)"
  using assms by (auto simp: String_getc_def String_ungetc_def Let_def string_inv_def)

lemma String_ungetc_spec:
  assumes "string_inv s" and "0 < sp s" and "c = contents s ! nat (sp s - 1)"
  shows "string_inv (snd (String_ungetc s (Some c)))"
    and "contents (snd (String_ungetc s (Some c))) = contents s"
    and "line_base (snd (String_ungetc s (Some c))) = line_base s"
proof -
  obtain t where s: "contents s = t" "slen s = int (length t)" "sp s \<le> int (length t)"
    using assms(1) by (rule string_invE)
  have sp1: "nat (sp s) = Suc (nat (sp s - 1))" using assms(2) by simp
  have "take (nat (sp s)) t = take (nat (sp s - 1)) t @ [c]"
    using assms(2,3) s unfolding sp1 by (subst take_Suc_conv_app_nth) auto
  then show "line_base (snd (String_ungetc s (Some c))) = line_base s"
    using assms(2) s by (auto simp: String_ungetc_def line_base_def contents_def)
  show "string_inv (snd (String_ungetc s (Some c)))"
       "contents (snd (String_ungetc s (Some c))) = contents s"
    using assms by (auto simp: String_ungetc_def string_inv_def alloc_def contents_def)
qed

lemma String_write_spec:
  assumes "string_inv s"
  shows "\<exists>s'. String_write s d = Inr (int (length d), s') \<and> string_inv s' \<and>
    contents s' = take (nat (sp s)) (contents s) @ d @ drop (nat (sp s) + length d) (contents s) \<and>
    sp s' = sp s + int (length d) \<and> sline s' = sline s"
proof -
  obtain t r where s: "str s = t @ r" "contents s = t" "slen s = int (length t)" "r \<noteq> []"
    "maxsize s \<le> int (length t + length r)" "int (length t) \<le> maxsize s" "2 \<le> maxsize s"
    "0 \<le> sp s" "sp s \<le> int (length t)" using assms(1) by (rule string_invE)
  define t1 where "t1 = take (nat (sp s)) t"
  define t2 where "t2 = drop (nat (sp s)) t"
  have t: "t = t1 @ t2" and pt: "sp s = int (length t1)"
    using s by (auto simp: t1_def t2_def)
  define newlen where "newlen = sp s + int (length d) + 1"
  have sp1: "(if sp s > slen s then slen s else sp s) = sp s" using s by simp
  show ?thesis
  proof (cases "newlen > maxsize s")
    case True
    have "int (length t1) \<le> newlen" using pt by (simp add: newlen_def)
    then obtain r' where r': "buf_realloc (t1 @ t2 @ r) newlen = t1 @ r'"
      "int (length r') = newlen - int (length t1)" by (rule buf_realloc_split)
    then have "length r' = Suc (length d)" using pt by (simp add: newlen_def)
    moreover then obtain x where x: "drop (length d) r' = [x]"
      by (metis Cons_nth_drop_Suc drop_all lessI order_refl)
    ultimately have "String_write s d = Inr (int (length d), s\<lparr>hashkey := -1, sp := newlen - 1,
        str := (t1 @ d) @ [NUL], maxsize := newlen, slen := newlen - 1\<rparr>)"
      using True s t pt r' buf_write_at [of "newlen - 1" "t1 @ d" "[x]" NUL]
      by (simp add: String_write_def Let_def newlen_def)
    moreover have "drop (nat (sp s) + length d) t = []"
      using True s by (simp add: newlen_def)
    ultimately show ?thesis
      using s t pt True by (auto simp: string_inv_def alloc_def contents_def newlen_def nat_int_add)
  next
    case False
    define k where "k = length d - length t2"
    have room: "length d \<le> length (t2 @ r)" using False s t pt by (auto simp: newlen_def)
    define b where "b = d @ drop (length d) t2"
    have cp: "buf_copy (str s) (sp s) d = Inr (t1 @ b @ drop k r)"
      using s t pt room by (simp add: b_def k_def)
    define s1 where "s1 = s\<lparr>hashkey := -1, sp := sp s\<rparr>"
    have len: "(if sp s + int (length d) > slen s1 then sp s + int (length d) else slen s1)
        = int (length (t1 @ b))"
      using s t pt by (auto simp: b_def s1_def)
    have "drop k r \<noteq> []"
    proof (cases "length d \<le> length t2")
      case True then show ?thesis using s by (simp add: k_def)
    next
      case False2: False
      then show ?thesis using False s t pt by (simp add: k_def newlen_def)
    qed
    then obtain x rr where rr: "drop k r = x # rr" by (cases "drop k r") auto
    have "String_write s d = Inr (int (length d), s\<lparr>hashkey := -1, sp := sp s + int (length d),
        str := (t1 @ b) @ NUL # rr, slen := int (length (t1 @ b))\<rparr>)"
      using False cp rr buf_write_at [of "int (length (t1 @ b))" "t1 @ b" "x # rr" NUL]
      unfolding String_write_def Let_def sp1 
      by (simp only: newlen_def if_False flip: s1_def) (simp add: len, simp add: s1_def)
    moreover have "drop (nat (sp s) + length d) t = drop (length d) t2"
      using pt by (simp add: t)
    moreover have "length r - k = Suc (length rr)" using arg_cong [OF rr, of length] by simp
    then have "maxsize s \<le> int (length (t1 @ b) + length (NUL # rr))"
      using s False t pt by (auto simp: b_def k_def newlen_def)
    ultimately show ?thesis
      using s t pt False
      by (auto simp: string_inv_def alloc_def contents_def newlen_def b_def nat_int_add)
  qed
qed

lemma String_seek_back_spec:
  assumes "string_inv s" and "0 \<le> k" and "k \<le> sp s"
  shows "\<exists>s'. String_seek s k SEEK_SET = Inr (0, s') \<and> string_inv s' \<and> contents s' = contents s \<and>
    sp s' = k \<and> line_base s' = line_base s \<and> hashkey s' = hashkey s"
proof -
  obtain t r where s: "str s = t @ r" "contents s = t" "slen s = int (length t)"
    "0 \<le> sp s" "sp s \<le> int (length t)" using assms(1) by (rule string_invE)
  obtain j where j: "sp s = k + int j" using assms(3) by (auto simp: zle_iff_zadd)
  have "take (nat (sp s)) t = take (nat k) t @ take j (drop (nat k) t)"
    using assms(2) by (simp add: j nat_add_distrib take_add)
  moreover have "slice (str s) k (sp s) = take j (drop (nat k) t)"
    using s assms(2,3) j by (simp add: slice_def)
  moreover have "String_seek s k SEEK_SET
      = Inr (0, s\<lparr>sline := sline s - newlines (slice (str s) k (sp s)), sp := k\<rparr>)"
    using assms s by (auto simp: String_seek_def Let_def string_inv_def)
  ultimately show ?thesis
    using assms s by (auto simp: string_inv_def alloc_def contents_def line_base_def)
qed

lemma String_clear_spec:
  assumes "string_inv s"
  shows "\<exists>s'. String_clear s = Inr s' \<and> string_inv s' \<and> contents s' = [] \<and> sp s' = 0 \<and> sline s' = 1
    \<and> hash_ok s'"
  using assms
  by (auto simp: String_clear_def buf_write_def string_inv_def alloc_def contents_def)

lemma DohNewString_inv:
  "string_inv (DohNewString c) \<and> hash_ok (DohNewString c) \<and>
   contents (DohNewString c) = (case c of None \<Rightarrow> [] | Some d \<Rightarrow> d)"
proof -
  have 1: "length d - 14 \<le> length d" for d :: string by simp
  show ?thesis
    by (cases c) (auto simp: DohNewString_def new_string_def string_inv_def alloc_def contents_def
        INIT_MAXSIZE_def Let_def)
qed

lemma DohNewStringEmpty_inv:
  "string_inv DohNewStringEmpty \<and> hash_ok DohNewStringEmpty \<and> contents DohNewStringEmpty = []"
  by (simp add: DohNewStringEmpty_def string_inv_def alloc_def contents_def INIT_MAXSIZE_def
      hash_ok_def)

end
