(* ===== verification/DohText.thy ===== *)
theory DohText
  imports DohString
begin

text \<open>
  What a client of a string object relies on: a text with a cursor and a line counter. The
  operations of Source/DOH/string.c, called in any order, refine the edits of such a text, and the
  hash, the equality and the order of the objects are those of their texts.
\<close>

section \<open>Sequences of edits\<close>

text \<open>
  The client's view of a string object is a text with a cursor. \<open>run_op\<close> calls the operation of
  the code; \<open>text_op\<close> is what it promises, \<open>None\<close> outside of its contract.
\<close>

datatype string_op =
    OpAppend string
  | OpInsert int string
  | OpDelitem int
  | OpDelslice int int
  | OpPutc char
  | OpGetc
  | OpSeekSet int
  | OpChop
  | OpHashval

fun run_op :: "string_op \<Rightarrow> dstring \<Rightarrow> dstring res" where
  "run_op (OpAppend d) s = String_append s d"
| "run_op (OpInsert p d) s = String_insert s p d"
| "run_op (OpDelitem p) s = String_delitem s p"
| "run_op (OpDelslice i e) s = String_delslice s i e"
| "run_op (OpPutc c) s = String_putc s c"
| "run_op OpGetc s = Inr (snd (String_getc s))"
| "run_op (OpSeekSet k) s = rbind (String_seek s k SEEK_SET) (\<lambda>r. Inr (snd r))"
| "run_op OpChop s = String_chop s"
| "run_op OpHashval s = Inr (snd (String_hash s))"

fun run_ops :: "string_op list \<Rightarrow> dstring \<Rightarrow> dstring res" where
  "run_ops [] s = Inr s"
| "run_ops (x # xs) s = rbind (run_op x s) (run_ops xs)"

fun text_op :: "string_op \<Rightarrow> string \<times> nat \<Rightarrow> (string \<times> nat) option" where
  "text_op (OpAppend d) (t, k) =
     Some (t @ d, if k = length t then length t + length d else k)"
| "text_op (OpInsert p d) (t, k) =
     (if p = -2 then Some (t @ d, if k = length t then length t + length d else k)
      else let q = min (nat p) (length t)
           in Some (take q t @ d @ drop q t, if q \<le> k then k + length d else k))"
| "text_op (OpDelitem p) (t, k) =
     (if 0 \<le> p \<and> nat p < length t
      then Some (take (nat p) t @ drop (nat p + 1) t, if nat p < k then k - 1 else k)
      else None)"
| "text_op (OpDelslice i e) (t, k) =
     (if 0 \<le> i \<and> i \<le> e \<and> nat e \<le> length t
      then Some (take (nat i) t @ drop (nat e) t,
                 if nat e < k then k - nat (e - i) else min k (nat i))
      else None)"
| "text_op (OpPutc c) (t, k) = Some (take k t @ c # drop (k + 1) t, k + 1)"
| "text_op OpGetc (t, k) = Some (t, min (length t) (k + 1))"
| "text_op (OpSeekSet i) (t, k) = (if 0 \<le> i \<and> nat i \<le> k then Some (t, nat i) else None)"
| "text_op OpChop (t, k) = Some (rstrip t, min k (length (rstrip t)))"
| "text_op OpHashval (t, k) = Some (t, k)"

fun text_ops :: "string_op list \<Rightarrow> string \<times> nat \<Rightarrow> (string \<times> nat) option" where
  "text_ops [] a = Some a"
| "text_ops (x # xs) a = Option.bind (text_op x a) (text_ops xs)"

definition text_of :: "dstring \<Rightarrow> string \<times> nat" where
  "text_of s = (contents s, nat (sp s))"

definition string_ok :: "dstring \<Rightarrow> bool" where
  "string_ok s \<longleftrightarrow> string_inv s \<and> hash_ok s"

lemma becomes_ok: "becomes s t s' \<Longrightarrow> string_ok s'"
  by (simp add: becomes_def string_ok_def)

lemma string_ok_bounds:
  "string_ok s \<Longrightarrow> slen s = int (length (contents s)) \<and> 0 \<le> sp s \<and> sp s \<le> slen s"
  by (auto simp: string_ok_def elim: string_invE)

definition step_ok :: "dstring \<Rightarrow> string \<times> nat \<Rightarrow> dstring res \<Rightarrow> bool" where
  "step_ok s a r \<longleftrightarrow> (\<exists>s'. r = Inr s' \<and> string_ok s' \<and> text_of s' = a \<and> line_base s' = line_base s)"

lemma step_okI:
  "\<lbrakk>r = Inr s'; becomes s t s'; nat (sp s') = k\<rbrakk> \<Longrightarrow> step_ok s (t, k) r"
  by (auto simp: step_ok_def becomes_def string_ok_def text_of_def)

lemma text_ofE:
  assumes "string_ok s" and "text_of s = (t, k)"
  obtains "string_inv s" and "hash_ok s" and "contents s = t" and "slen s = int (length t)"
    and "sp s = int k" and "k \<le> length t"
  using assms string_ok_bounds [OF assms(1)] by (auto simp: text_of_def string_ok_def)

lemma run_op_step:
  assumes ok: "string_ok s" and t: "text_of s = (t, k)" and op: "text_op x (t, k) = Some a"
  shows "step_ok s a (run_op x s)"
  using ok t
proof (rule text_ofE)
  assume s: "string_inv s" "hash_ok s" "contents s = t" "slen s = int (length t)"
    "sp s = int k" "k \<le> length t"
  have append: "step_ok s (t @ d, if k = length t then length t + length d else k)
      (String_append s d)" for d
    using String_append_becomes [OF s(1), of d] s
    by (fastforce intro!: step_okI split: if_splits)
  show ?thesis
  proof (cases x)
    case (OpAppend d)
    then show ?thesis using append [of d] op by simp
  next
    case (OpInsert p d)
    show ?thesis
    proof (cases "p = -2")
      case True
      then show ?thesis using append [of d] op OpInsert by (simp add: String_insert_end)
    next
      case False
      define q where "q = (if p < 0 then 0 else if p > slen s then slen s else p)"
      have q: "nat q = min (nat p) (length t)" "0 \<le> q" using s by (auto simp: q_def)
      obtain s' where s': "String_insert s p d = Inr s'"
        "becomes s (take (nat q) t @ d @ drop (nat q) t) s'"
        "sp s' = (if sp s \<ge> q then sp s + int (length d) else sp s)"
        using String_insert_becomes [OF s(1) False q_def, of d] s(3) by auto
      have "q \<le> sp s \<longleftrightarrow> nat q \<le> k" using q(2) s(5) by auto
      then have "nat (sp s') = (if nat q \<le> k then k + length d else k)"
        using s'(3) s(5) by (simp add: nat_int_add)
      with s'(1,2) have "step_ok s (take (nat q) t @ d @ drop (nat q) t,
          if nat q \<le> k then k + length d else k) (String_insert s p d)"
        by (rule step_okI)
      then show ?thesis using op OpInsert False q(1) by (simp add: Let_def)
    qed
  next
    case (OpDelitem p)
    then have p: "0 \<le> p" "p < slen s" "a = (take (nat p) t @ drop (nat p + 1) t,
        if nat p < k then k - 1 else k)"
      using op s by (auto split: if_splits)
    then obtain s' where s': "String_delitem s p = Inr s'"
      "becomes s (take (nat p) t @ drop (nat p + 1) t) s'" 
      "sp s' = (if sp s > p then sp s - 1 else sp s)"
      using String_delitem_becomes [OF s(1), of p p] s(3) by auto
    have "nat (sp s') = (if nat p < k then k - 1 else k)" using s'(3) s(5) p(1) by auto
    with s'(1,2) have "step_ok s a (String_delitem s p)" unfolding p(3) by (rule step_okI)
    then show ?thesis by (simp add: OpDelitem)
  next
    case (OpDelslice i e)
    then have e: "0 \<le> i" "i \<le> e" "e \<le> slen s" "a = (take (nat i) t @ drop (nat e) t,
        if nat e < k then k - nat (e - i) else min k (nat i))"
      using op s by (auto split: if_splits)
    show ?thesis
    proof (cases "slen s = 0")
      case True
      then have "run_op x s = Inr s" by (simp add: OpDelslice String_delslice_def)
      moreover have "a = (t, k)" using True s e by simp
      ultimately show ?thesis using ok t by (simp add: step_ok_def)
    next
      case False
      obtain s' where s': "String_delslice s i e = Inr s'"
        "becomes s (take (nat i) t @ drop (nat e) t) s'"
        "sp s' = (if sp s > e then sp s - (e - i) else if sp s > i then i else sp s)"
        using String_delslice_becomes [OF s(1) e(1-3)] False s(3) by auto
      have "nat (sp s') = (if nat e < k then k - nat (e - i) else min k (nat i))"
        using s'(3) s(5) e(1,2) by (auto simp: min_def)
      with s'(1,2) have "step_ok s a (String_delslice s i e)" unfolding e(4) by (rule step_okI)
      then show ?thesis by (simp add: OpDelslice)
    qed
  next
    case (OpPutc c)
    then show ?thesis using String_putc_becomes [OF s(1), of c] op s
      by (fastforce intro!: step_okI simp: nat_add_distrib)
  next
    case OpGetc
    have "hashkey (snd (String_getc s)) = hashkey s" by (simp add: String_getc_def Let_def)
    then show ?thesis using String_getc_spec [OF s(1)] op s OpGetc
      by (auto simp: step_ok_def string_ok_def hash_ok_def text_of_def min_def)
  next
    case (OpSeekSet i)
    then have "0 \<le> i" "i \<le> sp s" "a = (t, nat i)" using op s by (auto split: if_splits)
    then show ?thesis using String_seek_back_spec [OF s(1), of i] s
      by (auto simp: OpSeekSet step_ok_def string_ok_def hash_ok_def text_of_def)
  next
    case OpChop
    obtain s' where s': "String_chop s = Inr s'" "becomes s (rstrip t) s'" 
      "sp s' = min (sp s) (slen s')"
      using String_chop_becomes [OF s(1)] s(3) by auto
    have "slen s' = int (length (rstrip t))"
      using s'(2) string_ok_bounds [OF becomes_ok [OF s'(2)]] by (simp add: becomes_def)
    then have "nat (sp s') = min k (length (rstrip t))" using s'(3) s(5) by (simp add: min_def)
    with s'(1,2) have "step_ok s (rstrip t, min k (length (rstrip t))) (String_chop s)"
      by (rule step_okI)
    then show ?thesis using op by (simp add: OpChop)
  next
    case OpHashval
    have "sp (snd (String_hash s)) = sp s" "line_base (snd (String_hash s)) = line_base s"
      by (simp_all add: String_hash_def Let_def line_base_def contents_def split: prod.split)
    then show ?thesis using String_hash_eq [OF s(1,2)] op s
      by (simp add: OpHashval step_ok_def string_ok_def text_of_def)
  qed
qed

text \<open>
  C3. Any sequence of edits within the contract of \<open>text_op\<close> (appends, inserts with clamped or
  symbolic positions, deletions of characters and slices, Putc, Getc, rewinding, Chop and Hashval
  in any order) runs on a string object without leaving its buffer or failing an assertion; the
  text and the cursor are those of the abstract edits, the representation invariant and the
  cached hash stay right, and the line counter stays the line of the cursor.
\<close>

lemma string_edits_refine_text:
  assumes "string_ok s" and "text_ops xs (text_of s) = Some a"
  shows "\<exists>s'. run_ops xs s = Inr s' \<and> text_of s' = a \<and> string_ok s' \<and> line_base s' = line_base s"
  using assms
proof (induction xs arbitrary: s)
  case (Cons x xs)
  obtain t k b where t: "text_of s = (t, k)" and b: "text_op x (t, k) = Some b" "text_ops xs b = Some a"
    using Cons.prems(2) by (cases "text_of s") (auto simp: bind_eq_Some_conv)
  obtain s1 where s1: "run_op x s = Inr s1" "string_ok s1" "text_of s1 = b" "line_base s1 = line_base s"
    using run_op_step [OF Cons.prems(1) t b(1)] by (auto simp: step_ok_def)
  with Cons.IH [of s1] b(2) show ?case by auto
qed simp

lemma string_edits_refine_text_witness:
  "\<exists>s'. run_ops [OpAppend (''a'' @ [NL] @ ''b  ''), OpChop, OpSeekSet 1, OpPutc (CHR 0x78), OpInsert 0 ''zz'',
                 OpDelitem 0, OpDelslice 0 2] (DohNewString (Some ''q'')) = Inr s' \<and>
        text_of s' = (''x'' @ [NL] @ ''b'', 1) \<and> string_ok s' \<and>
        line_base s' = line_base (DohNewString (Some ''q''))"
proof (rule string_edits_refine_text)
  show "string_ok (DohNewString (Some ''q''))" using DohNewString_inv by (simp add: string_ok_def)
qed code_simp

section \<open>Hash, equality and order\<close>

lemma String_equal_iff:
  assumes "string_inv s1" and "string_inv s2"
  shows "String_equal s1 s2 \<longleftrightarrow> contents s1 = contents s2"
proof -
  obtain t1 r1 where 1: "str s1 = t1 @ r1" "contents s1 = t1" "slen s1 = int (length t1)"
    using assms(1) by (rule string_invE)
  obtain t2 r2 where 2: "str s2 = t2 @ r2" "contents s2 = t2" "slen s2 = int (length t2)"
    using assms(2) by (rule string_invE)
  show ?thesis using 1 2 by (auto simp: String_equal_def)
qed

text \<open>
  C4. The hash value of a string object depends on its text alone, whether it was cached or not:
  two objects that compare equal have equal, non-negative hash values, and equality of the objects
  is equality of their texts.
\<close>

lemma string_hash_respects_equal:
  assumes "string_ok s1" and "string_ok s2"
  shows "(String_equal s1 s2 \<longleftrightarrow> contents s1 = contents s2) \<and>
    (String_equal s1 s2 \<longrightarrow> fst (String_hash s1) = fst (String_hash s2)) \<and>
    0 \<le> fst (String_hash s1) \<and>
    fst (String_hash (snd (String_hash s1))) = fst (String_hash s1)"
proof -
  have "fst (String_hash s1) = hash_of (contents s1)" "fst (String_hash s2) = hash_of (contents s2)"
    "fst (String_hash (snd (String_hash s1))) = hash_of (contents s1)"
    using String_hash_eq [of s1] String_hash_eq [of "snd (String_hash s1)"]
      String_hash_eq [of s2] assms by (auto simp: string_ok_def)
  then show ?thesis
    using String_equal_iff [of s1 s2] assms by (simp add: string_ok_def hash_of_range)
qed

lemma string_hash_respects_equal_witness:
  "fst (String_hash (DohNewString (Some ''int''))) = fst (String_hash (snd (String_hash (DohNewString (Some ''int'')))))"
  using string_hash_respects_equal [of "DohNewString (Some ''int'')" "DohNewString (Some ''int'')"]
    DohNewString_inv by (simp add: string_ok_def)

text \<open>The order that \<open>String_cmp\<close> computes: lexicographic on signed characters.\<close>

fun signed_less :: "string \<Rightarrow> string \<Rightarrow> bool" where
  "signed_less s [] = False"
| "signed_less [] (c # t) = True"
| "signed_less (b # s) (c # t) =
     (char_sint b < char_sint c \<or> b = c \<and> signed_less s t)"

lemma char_sint_inj: "char_sint b = char_sint c \<Longrightarrow> b = c"
proof -
  assume "char_sint b = char_sint c"
  moreover have "(of_char b :: nat) < 256" "(of_char c :: nat) < 256" by simp_all
  ultimately have "(of_char b :: nat) = of_char c"
    unfolding char_sint_def Let_def by presburger
  then show ?thesis by simp
qed

lemma cmp_loop_eq:
  assumes "n = min (length t1) (length t2)" and "r = cmp_loop n (t1 @ r1) (t2 @ r2)"
  shows "(r = -1 \<longrightarrow> signed_less t1 t2) \<and> (r = 1 \<longrightarrow> signed_less t2 t1)
    \<and> (r = 0 \<longrightarrow> take n t1 = take n t2) \<and> r \<in> {-1, 0, 1}"
  using assms
proof (induction n arbitrary: t1 t2)
  case (Suc n)
  then obtain b u c v where bc: "t1 = b # u" "t2 = c # v" by (cases t1; cases t2) auto
  show ?case
  proof (cases "b = c")
    case True
    then show ?thesis using Suc.IH [of u v] Suc.prems bc by auto
  next
    case False
    then have "char_sint b \<noteq> char_sint c" using char_sint_inj by blast
    then show ?thesis using False Suc.prems bc by auto
  qed
qed simp

lemma signed_less_prefix: "\<lbrakk>take n t1 = take n t2; n = min (length t1) (length t2)\<rbrakk> \<Longrightarrow>
  (signed_less t1 t2 \<longleftrightarrow> length t1 < length t2) \<and> (t1 = t2 \<longleftrightarrow> length t1 = length t2)"
proof (induction t1 t2 arbitrary: n rule: signed_less.induct)
  case (1 s)
  then show ?case by simp
next
  case (2 c t)
  then show ?case by simp
next
  case (3 b s c t)
  define m where "m = min (length s) (length t)"
  have n: "n = Suc m" using 3(3) by (simp add: m_def)
  have bc: "b = c" "take m s = take m t" using 3(2) by (simp_all add: n)
  with 3(1) [OF bc(2) m_def] show ?case by simp
qed

lemma signed_less_asym: "signed_less s t \<Longrightarrow> \<not> signed_less t s \<and> s \<noteq> t"
  by (induction s t rule: signed_less.induct) auto

text \<open>
  C5. \<open>String_cmp\<close> is a total order of the texts, lexicographic on signed characters: it returns
  -1 exactly when the first text is smaller, 1 exactly when it is greater, and 0 exactly when
  \<open>String_equal\<close> holds.
\<close>

lemma string_cmp_is_lexicographic:
  assumes "string_inv s1" and "string_inv s2"
  shows "String_cmp s1 s2 \<in> {-1, 0, 1} \<and>
    (String_cmp s1 s2 = -1 \<longleftrightarrow> signed_less (contents s1) (contents s2)) \<and>
    (String_cmp s1 s2 = 1 \<longleftrightarrow> signed_less (contents s2) (contents s1)) \<and>
    (String_cmp s1 s2 = 0 \<longleftrightarrow> String_equal s1 s2)"
proof -
  obtain t1 r1 where 1: "str s1 = t1 @ r1" "contents s1 = t1" "slen s1 = int (length t1)"
    using assms(1) by (rule string_invE)
  obtain t2 r2 where 2: "str s2 = t2 @ r2" "contents s2 = t2" "slen s2 = int (length t2)"
    using assms(2) by (rule string_invE)
  define n where "n = min (length t1) (length t2)"
  define r where "r = cmp_loop n (t1 @ r1) (t2 @ r2)"
  have "nat (if slen s2 < slen s1 then slen s2 else slen s1) = n"
    by (auto simp: n_def 1 2)
  then have cmp: "String_cmp s1 s2 = (if r \<noteq> 0 then r else if length t1 = length t2 then 0
      else if length t1 > length t2 then 1 else -1)"
    by (simp add: String_cmp_def Let_def r_def 1 2)
  have eq: "String_equal s1 s2 \<longleftrightarrow> t1 = t2" using String_equal_iff assms 1 2 by simp
  note texts = 1(2) 2(2)
  note loop = cmp_loop_eq [OF n_def r_def]
  consider "r = -1" | "r = 1" | "r = 0" "take n t1 = take n t2" using loop by auto
  then show ?thesis
  proof cases
    case 3
    have sym: "take n t2 = take n t1" "n = min (length t2) (length t1)"
      using 3 n_def by (simp_all add: min.commute)
    have "String_cmp s1 s2 = (if length t1 = length t2 then 0
      else if length t1 > length t2 then 1 else -1)" using cmp 3(1) by simp
    with signed_less_prefix [OF 3(2) n_def] signed_less_prefix [OF sym] show ?thesis
      unfolding eq texts by (simp split del: if_split) (simp split: if_split)
  next
    case 1
    then have "signed_less t1 t2" using loop by simp
    then show ?thesis using signed_less_asym [of t1 t2] 1 by (simp add: cmp eq texts)
  next
    case 2
    then have "signed_less t2 t1" using loop by simp
    then show ?thesis using signed_less_asym [of t2 t1] 2 by (auto simp: cmp eq texts)
  qed
qed

lemma string_cmp_is_lexicographic_witness:
  "String_cmp (DohNewString (Some ''ab'')) (DohNewString (Some ''abc'')) = -1"
  using string_cmp_is_lexicographic
      [of "DohNewString (Some ''ab'')" "DohNewString (Some ''abc'')"] DohNewString_inv
  by (simp add: char_sint_def)

section \<open>Outside of the invariant\<close>

text \<open>
  \<open>CopyString\<close> sets \<open>maxsize\<close> to the length, so the copy of a short string does not satisfy the
  invariant: \<open>Insert\<close> into the copy of an empty string does not terminate, \<open>Putc\<close> on it writes
  past the buffer, and \<open>Seek\<close> forward counts the newline at the new position instead of the one
  it left behind.
\<close>

lemma copy_of_empty_insert_hangs:
  "String_insert (snd (CopyString (DohNewString None))) 0 ''x'' = Inl Hang"
  by code_simp

lemma copy_of_empty_putc_overruns:
  "String_putc (snd (CopyString (DohNewString None))) CHR 0x78 = Inl Out_of_bounds"
  by code_simp

lemma seek_forward_miscounts:
  "\<exists>s1 s2. String_seek (DohNewString (Some (NL # ''a''))) 0 SEEK_SET = Inr (0, s1) \<and> 
     String_seek s1 1 SEEK_SET = Inr (0, s2) \<and>
     line_base s1 = 0 \<and> line_base s2 = -1"
proof (intro exI conjI)
  show "String_seek (DohNewString (Some (NL # ''a''))) 0 SEEK_SET
    = Inr (0, \<lparr>sfile = None, sline = 0, maxsize = 16, slen = 2, hashkey = -1, sp = 0,
         str = NL # ''a'' @ replicate 14 NUL\<rparr>)"
    by code_simp
qed (code_simp+)

end
