(* ===== verification/AttrMap.thy ===== *)
theory AttrMap
  imports SwigPrelude
begin

text \<open>
  The contract of an attribute table, the interface behind \<open>Getattr\<close>, \<open>Setattr\<close> and \<open>Delattr\<close>
  of Source/DOH/doh.h: keys count only by their text, and a lookup gives the last value set. The
  hash table implements it (\<open>DohHash\<close>); its clients see the parse tree nodes and symbol tables
  through it.
\<close>

datatype ('k, 'v) upd = Put 'k 'v | Del 'k

fun run_upds :: "('s \<Rightarrow> 'k \<Rightarrow> 'v \<Rightarrow> 's) \<Rightarrow> ('s \<Rightarrow> 'k \<Rightarrow> 's) \<Rightarrow> ('k, 'v) upd list \<Rightarrow> 's \<Rightarrow> 's" where
  "run_upds setk delk [] s = s"
| "run_upds setk delk (Put k v # us) s = run_upds setk delk us (setk s k v)"
| "run_upds setk delk (Del k # us) s = run_upds setk delk us (delk s k)"

text \<open>The value of the last update of a text, or the one it had before.\<close>

fun last_value :: "('k \<Rightarrow> 't) \<Rightarrow> ('k, 'v) upd list \<Rightarrow> 't \<Rightarrow> 'v option \<Rightarrow> 'v option" where
  "last_value tx [] t v0 = v0"
| "last_value tx (Put k v # us) t v0 = last_value tx us t (if tx k = t then Some v else v0)"
| "last_value tx (Del k # us) t v0 = last_value tx us t (if tx k = t then None else v0)"

locale attribute_map =
  fixes getk :: "'s \<Rightarrow> 'k \<Rightarrow> 'v option"
    and setk :: "'s \<Rightarrow> 'k \<Rightarrow> 'v \<Rightarrow> 's"
    and delk :: "'s \<Rightarrow> 'k \<Rightarrow> 's"
    and tx :: "'k \<Rightarrow> 't"
    and inv :: "'s \<Rightarrow> bool"
  assumes inv_set: "inv s \<Longrightarrow> inv (setk s k v)"
    and inv_del: "inv s \<Longrightarrow> inv (delk s k)"
    and get_set: "inv s \<Longrightarrow> getk (setk s k v) k' = (if tx k = tx k' then Some v else getk s k')"
    and get_del: "inv s \<Longrightarrow> getk (delk s k) k' = (if tx k = tx k' then None else getk s k')"
begin

lemma run_inv: "inv s \<Longrightarrow> inv (run_upds setk delk us s)"
proof (induction us arbitrary: s)
  case (Cons u us)
  then show ?case by (cases u) (auto simp: inv_set inv_del)
qed simp

lemma run_get:
  "inv s \<Longrightarrow> getk (run_upds setk delk us s) k = last_value tx us (tx k) (getk s k)"
proof (induction us arbitrary: s)
  case (Cons u us)
  then show ?case by (cases u) (auto simp: inv_set inv_del get_set get_del)
qed simp

lemma get_congr_text: "\<lbrakk>inv s; tx k = tx k'\<rbrakk> \<Longrightarrow> getk (setk s k v) k' = Some v"
  by (simp add: get_set)

lemma set_set_get: "inv s \<Longrightarrow>
  getk (setk (setk s k v) k w) k' = getk (setk s k w) k'"
  by (simp add: get_set inv_set)

lemma set_commute_get:
  assumes "inv s" and "tx k \<noteq> tx l"
  shows "getk (setk (setk s k v) l w) k' = getk (setk (setk s l w) k v) k'"
  using assms by (cases "tx k = tx k'") (simp_all add: get_set inv_set)

end

end
