(* ===== verification/DohHash.thy ===== *)
theory DohHash
  imports DohString DohEvents AttrMap "HOL-Library.Multiset"
begin

text \<open>
  The hash table of Source/DOH/hash.c, which carries every attribute of a parse tree node and
  every symbol table. A chain is the list of its nodes, from the head; a node is a key and an
  object. Keys are string objects: a key is the object with its text, its hash value is the one
  that \<open>String_hash\<close> gives to the text (\<open>string_hash_respects_equal\<close>), and \<open>Cmp\<close> of two keys is
  equality of texts (\<open>string_cmp_is_lexicographic\<close>). The texts of keys do not change while
  they are in a table.
\<close>

section \<open>Interned keys\<close>

text \<open>\<open>strcmp\<close> compares unsigned characters; only the sign of its result is used.\<close>

fun strcmp :: "string \<Rightarrow> string \<Rightarrow> int" where
  "strcmp [] [] = 0"
| "strcmp [] (c # t) = -1"
| "strcmp (b # s) [] = 1"
| "strcmp (b # s) (c # t) =
     (if b = c then strcmp s t else if (of_char b :: nat) < of_char c then -1 else 1)"

datatype keytree = KNil | KNode keytree string nat keytree

text \<open>
  \<open>find_key\<close>: larger strings are on the left. The result is the interned string object and the
  tree; a new object is made by \<open>NewString\<close> and registered with \<open>DohIntern\<close>.
\<close>

fun find_key :: "(string \<Rightarrow> nat) \<Rightarrow> keytree \<Rightarrow> string \<Rightarrow> nat \<times> nat rc_event list \<times> keytree" where
  "find_key ns KNil c = (ns c, [RcNewString (ns c) c], KNode KNil c (ns c) KNil)"
| "find_key ns (KNode l s x r) c =
     (let d = strcmp s c
      in if d = 0 then (x, [], KNode l s x r)
         else if d < 0 then (case find_key ns l c of (y, es, l') \<Rightarrow> (y, es, KNode l' s x r))
         else (case find_key ns r c of (y, es, r') \<Rightarrow> (y, es, KNode l s x r')))"

type_synonym hkey = "nat \<times> string"

text \<open>\<open>if (!DohCheck(k)) k = find_key(k)\<close>: a key argument is a string object or a C string.\<close>

datatype key_arg = KeyObj nat string | KeyChar string

fun key_text :: "key_arg \<Rightarrow> string" where
  "key_text (KeyObj x t) = t"
| "key_text (KeyChar c) = c"

fun resolve_key ::
  "(string \<Rightarrow> nat) \<Rightarrow> keytree \<Rightarrow> key_arg \<Rightarrow> hkey \<times> nat rc_event list \<times> keytree" where
  "resolve_key ns root (KeyObj x t) = ((x, t), [], root)"
| "resolve_key ns root (KeyChar c) =
     (case find_key ns root c of (x, es, root') \<Rightarrow> ((x, c), es, root'))"

section \<open>The table\<close>

type_synonym hnode = "hkey \<times> nat"

record dhash =
  hfile :: "nat option"
  hline :: int
  hashtable :: "hnode list list"
  hashsize :: nat
  hnitems :: nat

definition HASH_INIT_SIZE :: nat where "HASH_INIT_SIZE = 7"

definition DohNewHash :: dhash where
  "DohNewHash = \<lparr>hfile = None, hline = 0, hashtable = replicate HASH_INIT_SIZE [],
     hashsize = HASH_INIT_SIZE, hnitems = 0\<rparr>"

definition bucket :: "nat \<Rightarrow> string \<Rightarrow> nat" where
  "bucket m t = nat (hash_of t) mod m"

definition NewNode :: "hkey \<Rightarrow> nat \<Rightarrow> hnode \<times> nat rc_event list" where
  "NewNode k obj = ((k, obj), [RcIncref (fst k), RcIncref obj])"

definition DelNode :: "hnode \<Rightarrow> nat rc_event list" where
  "DelNode n = [RcDelete (fst (fst n)), RcDelete (snd n)]"

definition Hash_clear :: "dhash \<Rightarrow> nat rc_event list \<times> dhash" where
  "Hash_clear h =
     (concat (map DelNode (concat (hashtable h))),
      h\<lparr>hashtable := map (\<lambda>_. []) (hashtable h), hnitems := 0\<rparr>)"

definition DelHash :: "dhash \<Rightarrow> nat rc_event list" where
  "DelHash h = concat (map DelNode (concat (hashtable h)))"

subsection \<open>The next size\<close>

text \<open>No odd factor from 3 up to half of the number: what the search loop stops at.\<close>

definition no_odd_factor :: "nat \<Rightarrow> bool" where
  "no_odd_factor n \<longleftrightarrow> (\<forall>p. odd p \<and> 3 \<le> p \<and> p < n div 2 \<longrightarrow> \<not> p dvd n)"

lemma no_odd_factor_above: "\<exists>m\<ge>n. even m = even n \<and> no_odd_factor m"
proof (cases "even n")
  case True
  have "n \<le> 2 ^ Suc n" using less_exp [of "Suc n"] by simp
  moreover have "no_odd_factor (2 ^ Suc n)"
  proof -
    have "\<not> p dvd 2 ^ Suc n" if "odd p" "3 \<le> p" for p :: nat
    proof -
      have "coprime p (2 ^ Suc n)" using that(1) by simp
      then show ?thesis using that(2) coprime_absorb_left [of p "2 ^ Suc n"] by auto
    qed
    then show ?thesis by (auto simp: no_odd_factor_def)
  qed
  ultimately show ?thesis using True by (intro exI [of _ "2 ^ Suc n"]) simp
next
  case False
  show ?thesis
  proof (cases "n = 1")
    case True
    then show ?thesis by (intro exI [of _ 1]) (simp add: no_odd_factor_def)
  next
    case one: False
    text \<open>The least divisor above 1 of \<open>fact n + 1\<close> is larger than \<open>n\<close> and has no proper factor.\<close>
    define q where "q = (LEAST d. 1 < d \<and> d dvd fact n + (1::nat))"
    have ex: "1 < fact n + (1::nat) \<and> fact n + 1 dvd fact n + (1::nat)" by simp
    have q: "1 < q" "q dvd fact n + 1"
      using LeastI [of "\<lambda>d. 1 < d \<and> d dvd fact n + (1::nat)", OF ex] by (simp_all add: q_def)
    have least: "q \<le> d" if "1 < d" "d dvd fact n + 1" for d
      unfolding q_def by (rule Least_le) (use that in simp)
    have big: "n < q"
    proof (rule ccontr)
      assume "\<not> n < q"
      then have "q dvd fact n" using q(1) by (intro dvd_fact) auto
      then have "q dvd 1" using q(2) dvd_add_right_iff by blast
      then show False using q(1) by simp
    qed
    have "no_odd_factor q"
      unfolding no_odd_factor_def
    proof (intro allI impI notI)
      fix p assume p: "odd p \<and> 3 \<le> p \<and> p < q div 2" "p dvd q"
      then have "q \<le> p" using least [of p] dvd_trans [OF p(2) q(2)] by simp
      then show False using p(1) div_le_dividend [of q 2] by linarith
    qed
    moreover have "odd q"
    proof
      assume "even q"
      then have "2 dvd fact n + (1::nat)" using q(2) dvd_trans by blast
      then have "q \<le> 2" by (intro least) simp_all
      then show False using big one False by (cases n) auto
    qed
    ultimately show ?thesis using False big by (intro exI [of _ q]) auto
  qed
qed

text \<open>
  The loop of \<open>resize\<close>: \<open>p\<close> counts up from 3 in steps of two and is reset when it divides the
  size. It stops because there is a size of the same parity that no such \<open>p\<close> divides.
\<close>

definition next_good :: "nat \<Rightarrow> nat" where
  "next_good n = (LEAST m. n \<le> m \<and> even m = even n \<and> no_odd_factor m)"

lemma next_good: "n \<le> next_good n" "even (next_good n) = even n" "no_odd_factor (next_good n)"
  using LeastI_ex [of "\<lambda>m. n \<le> m \<and> even m = even n \<and> no_odd_factor m"] no_odd_factor_above [of n]
  unfolding next_good_def by blast+

lemma next_good_le: "\<lbrakk>n \<le> m; even m = even n; no_odd_factor m\<rbrakk> \<Longrightarrow> next_good n \<le> m"
  unfolding next_good_def by (rule Least_le) simp

lemma next_good_step:
  assumes "\<not> no_odd_factor n"
  shows "next_good (n + 2) = next_good n" and "n < next_good n"
proof -
  have ne: "next_good n \<noteq> n" using next_good(3) [of n] assms by auto
  then show lt: "n < next_good n" using next_good(1) [of n] by simp
  have "next_good n \<noteq> n + 1" using next_good(2) [of n] by auto
  with lt have "n + 2 \<le> next_good n" by simp
  then have "next_good (n + 2) \<le> next_good n"
    using next_good [of n] by (intro next_good_le) auto
  moreover have "next_good n \<le> next_good (n + 2)"
    using next_good [of "n + 2"] by (intro next_good_le) auto
  ultimately show "next_good (n + 2) = next_good n" by simp
qed

function size_search :: "nat \<Rightarrow> nat \<Rightarrow> nat" where
  "size_search newsize p =
     (if p < newsize div 2
      then (if newsize div p * p = newsize then size_search (newsize + 2) 3
            else size_search newsize (p + 2))
      else newsize)"
  by pat_completeness auto

termination
proof (relation "measures [\<lambda>(n, p). if odd p \<and> 3 \<le> p then 0 else 1,
    \<lambda>(n, p). next_good n - n, \<lambda>(n, p). n - p]", goal_cases)
  case (2 n p)
  then have dvd: "p dvd n" by (metis dvd_triv_right)
  show ?case
  proof (cases "odd p \<and> 3 \<le> p")
    case True
    then have "\<not> no_odd_factor n" using dvd 2(1) by (auto simp: no_odd_factor_def)
    from next_good_step [OF this] have "next_good (n + 2) - (n + 2) < next_good n - n" by linarith
    then show ?thesis using True by simp
  qed auto
next
  case (3 n p)
  then have "p < n" using div_le_dividend [of n 2] by linarith
  then show ?case using 3 by (cases p) auto
qed simp

declare size_search.simps [simp del]

lemma size_search_ge: "n \<le> size_search n p"
proof (induction n p rule: size_search.induct)
  case (1 n p)
  then show ?case by (subst size_search.simps) auto
qed

lemma size_search_pos [simp]: "0 < size_search (Suc n) p"
  using size_search_ge [of "Suc n" p] by simp

lemma size_search_odd: "odd n \<Longrightarrow> odd (size_search n p)"
proof (induction n p rule: size_search.induct)
  case (1 n p)
  then show ?case by (subst size_search.simps) auto
qed

text \<open>What the search guarantees when it is started as \<open>resize\<close> starts it.\<close>

lemma size_search_good:
  assumes "odd p" and "3 \<le> p" and "\<And>d. \<lbrakk>odd d; 3 \<le> d; d < p\<rbrakk> \<Longrightarrow> \<not> d dvd n"
  shows "no_odd_factor (size_search n p) \<and> size_search n p \<le> next_good n"
  using assms
proof (induction n p rule: size_search.induct)
  case (1 n p)
  consider (stop) "\<not> p < n div 2" | (divides) "p < n div 2" "p dvd n" | (no) "p < n div 2" "\<not> p dvd n"
    by blast
  then show ?case
  proof cases
    case stop
    then show ?thesis using 1(5) next_good(1) [of n]
      by (subst (1 2) size_search.simps) (auto simp: no_odd_factor_def)
  next
    case divides
    then have "\<not> no_odd_factor n" using 1(3,4) by (auto simp: no_odd_factor_def)
    moreover have "no_odd_factor (size_search (n + 2) 3) \<and> size_search (n + 2) 3 \<le> next_good (n + 2)"
      using divides by (intro 1(1)) auto
    ultimately show ?thesis using divides next_good_step(1) [of n]
      by (subst (1 2) size_search.simps) simp
  next
    case no
    have "\<not> d dvd n" if "odd d" "3 \<le> d" "d < p + 2" for d
    proof (cases "d < p")
      case True then show ?thesis using 1(5) that by blast
    next
      case False
      moreover have "d \<noteq> p + 1" using that(1) 1(3) by auto
      ultimately have "d = p" using that by simp
      then show ?thesis using no by simp
    qed
    moreover have newsize_neq: "n div p * p \<noteq> n" using no(2) by (metis dvd_triv_right)
    ultimately have "no_odd_factor (size_search n (p + 2)) \<and> size_search n (p + 2) \<le> next_good n"
      using no 1(3,4) by (intro 1(2)) auto
    then show ?thesis using no newsize_neq by (subst (1 2) size_search.simps) simp
  qed
qed

subsection \<open>Resizing\<close>

text \<open>The walk over the old buckets: each node goes to the front of its new bucket.\<close>

definition place :: "nat \<Rightarrow> hnode \<Rightarrow> hnode list list \<Rightarrow> hnode list list" where
  "place newsize n table =
     (let hv = bucket newsize (snd (fst n)) in table[hv := n # table ! hv])"

definition resize :: "dhash \<Rightarrow> dhash" where
  "resize h =
     (if hnitems h < 2 * hashsize h then h
      else let newsize = size_search (2 * hashsize h + 1) 3;
               table = fold (place newsize) (concat (hashtable h)) (replicate newsize [])
           in h\<lparr>hashsize := newsize, hashtable := table\<rparr>)"

section \<open>Attributes\<close>

text \<open>
  The search along a chain. \<open>None\<close> when no key of the chain has the text; otherwise the new chain
  and the events. The key that is in the table stays.
\<close>

fun chain_replace :: "string \<Rightarrow> nat \<Rightarrow> hnode list \<Rightarrow> (hnode list \<times> nat rc_event list) option" where
  "chain_replace t obj [] = None"
| "chain_replace t obj ((k, x) # c) =
     (if snd k = t
      then Some (if x = obj then ((k, x) # c, []) else ((k, obj) # c, [RcDelete x, RcIncref obj]))
      else (case chain_replace t obj c of None \<Rightarrow> None
            | Some (c', es) \<Rightarrow> Some ((k, x) # c', es)))"

fun chain_remove :: "string \<Rightarrow> hnode list \<Rightarrow> (hnode list \<times> nat rc_event list) option" where
  "chain_remove t [] = None"
| "chain_remove t (n # c) =
     (if snd (fst n) = t then Some (c, DelNode n)
      else (case chain_remove t c of None \<Rightarrow> None | Some (c', es) \<Rightarrow> Some (n # c', es)))"

text \<open>\<open>Hash_getattr\<close> does not stop at the first match.\<close>

fun chain_last :: "string \<Rightarrow> hnode list \<Rightarrow> nat option \<Rightarrow> nat option" where
  "chain_last t [] obj = obj"
| "chain_last t ((k, x) # c) obj = chain_last t c (if t = snd k then Some x else obj)"

definition hash_delkey :: "dhash \<Rightarrow> hkey \<Rightarrow> int \<times> nat rc_event list \<times> dhash" where
  "hash_delkey h k =
     (let hv = bucket (hashsize h) (snd k)
      in case chain_remove (snd k) (hashtable h ! hv) of
           Some (c, es) \<Rightarrow>
             (1, es, h\<lparr>hashtable := (hashtable h)[hv := c], hnitems := hnitems h - 1\<rparr>)
         | None \<Rightarrow> (0, [], h))"

definition hash_setkey :: "dhash \<Rightarrow> hkey \<Rightarrow> nat \<Rightarrow> int \<times> nat rc_event list \<times> dhash" where
  "hash_setkey h k obj =
     (let hv = bucket (hashsize h) (snd k)
      in case chain_replace (snd k) obj (hashtable h ! hv) of
           Some (c, es) \<Rightarrow> (1, es, h\<lparr>hashtable := (hashtable h)[hv := c]\<rparr>)
         | None \<Rightarrow>
             (case NewNode k obj of (n, es) \<Rightarrow>
               (0, es, resize (h\<lparr>hashtable := (hashtable h)[hv := hashtable h ! hv @ [n]],
                                 hnitems := hnitems h + 1\<rparr>))))"

definition hash_getkey :: "dhash \<Rightarrow> hkey \<Rightarrow> nat option" where
  "hash_getkey h k = chain_last (snd k) (hashtable h ! bucket (hashsize h) (snd k)) None"

text \<open>
  The operations with their arguments: the interned keys are a global tree, threaded through. An
  object argument that is a C string becomes a new string object; NULL deletes the attribute.
\<close>

definition Hash_delattr ::
  "(string \<Rightarrow> nat) \<Rightarrow> keytree \<Rightarrow> dhash \<Rightarrow> key_arg \<Rightarrow>
   int \<times> nat rc_event list \<times> keytree \<times> dhash" where
  "Hash_delattr ns root h k =
     (case resolve_key ns root k of (ko, es, root') \<Rightarrow>
        (case hash_delkey h ko of (r, es', h') \<Rightarrow> (r, es @ es', root', h')))"

definition Hash_setattr ::
  "(string \<Rightarrow> nat) \<Rightarrow> keytree \<Rightarrow> dhash \<Rightarrow> key_arg \<Rightarrow> nat doh_arg \<Rightarrow>
   int \<times> nat rc_event list \<times> keytree \<times> dhash" where
  "Hash_setattr ns root h k obj =
     (case wrap_arg ns obj of
        None \<Rightarrow> Hash_delattr ns root h k
      | Some (x, es2) \<Rightarrow>
          (case resolve_key ns root k of (ko, es1, root') \<Rightarrow>
             (case hash_setkey h ko x of (r, es3, h') \<Rightarrow> (r, es1 @ es2 @ es3, root', h'))))"

definition Hash_getattr ::
  "(string \<Rightarrow> nat) \<Rightarrow> keytree \<Rightarrow> dhash \<Rightarrow> key_arg \<Rightarrow> nat option \<times> nat rc_event list \<times> keytree" where
  "Hash_getattr ns root h k =
     (case resolve_key ns root k of (ko, es, root') \<Rightarrow> (hash_getkey h ko, es, root'))"

definition Hash_len :: "dhash \<Rightarrow> nat" where
  "Hash_len h = hnitems h"

section \<open>Iterators\<close>

text \<open>\<open>_current\<close> is the node after the current one, so that the current one may be deleted.\<close>

record hash_iter =
  hit_current :: "hnode list"
  hit_index :: nat
  hit_item :: "nat option"
  hit_key :: "hkey option"

function skip_empty :: "dhash \<Rightarrow> nat \<Rightarrow> nat" where
  "skip_empty h i =
     (if i < hashsize h \<and> hashtable h ! i = [] then skip_empty h (i + 1) else i)"
  by pat_completeness auto
termination by (relation "measure (\<lambda>(h, i). hashsize h - i)") auto

declare skip_empty.simps [simp del]

definition Hash_firstiter :: "dhash \<Rightarrow> hash_iter" where
  "Hash_firstiter h =
     (let i = skip_empty h 0
      in if i \<ge> hashsize h
         then \<lparr>hit_current = [], hit_index = i, hit_item = None, hit_key = None\<rparr>
         else let c = hashtable h ! i
              in \<lparr>hit_current = tl c, hit_index = i, hit_item = Some (snd (hd c)),
                  hit_key = Some (fst (hd c))\<rparr>)"

definition Hash_nextiter :: "dhash \<Rightarrow> hash_iter \<Rightarrow> hash_iter" where
  "Hash_nextiter h it =
     (if hit_current it = []
      then let i = skip_empty h (hit_index it + 1)
           in if i \<ge> hashsize h
              then it\<lparr>hit_index := i, hit_item := None, hit_key := None, hit_current := []\<rparr>
              else let c = hashtable h ! i
                   in it\<lparr>hit_index := i, hit_key := Some (fst (hd c)),
                         hit_item := Some (snd (hd c)), hit_current := tl c\<rparr>
      else let c = hit_current it
           in it\<lparr>hit_key := Some (fst (hd c)), hit_item := Some (snd (hd c)),
                 hit_current := tl c\<rparr>)"

text \<open>
  \<open>for (i = First(so); i.key; i = Next(i)) Append(keys, i.key)\<close>. The fuel counts the rounds; a
  round ends on each node, so that the number of nodes is enough (\<open>hash_keys_total\<close>).
\<close>

fun keys_loop :: "nat \<Rightarrow> dhash \<Rightarrow> hash_iter \<Rightarrow> (hkey \<times> nat) list res" where
  "keys_loop f h it =
     (case (hit_key it, hit_item it) of
        (Some k, Some x) \<Rightarrow>
          (case f of 0 \<Rightarrow> Inl Hang
           | Suc f' \<Rightarrow> rbind (keys_loop f' h (Hash_nextiter h it)) (\<lambda>ks. Inr ((k, x) # ks)))
      | _ \<Rightarrow> Inr [])"

definition Hash_keys :: "dhash \<Rightarrow> (hkey list \<times> nat rc_event list) res" where
  "Hash_keys h = rbind (keys_loop (length (concat (hashtable h))) h (Hash_firstiter h))
     (\<lambda>ns. let ks = map fst ns in Inr (ks, map (\<lambda>k. RcIncref (fst k)) ks))"

section \<open>Copies and positions\<close>

text \<open>The copy sets the attributes one after the other, in the order of the old table.\<close>

fun copy_nodes :: "hnode list \<Rightarrow> dhash \<Rightarrow> nat rc_event list \<times> dhash" where
  "copy_nodes [] h = ([], h)"
| "copy_nodes ((k, x) # ns) h =
     (case hash_setkey h k x of (r, es, h') \<Rightarrow>
        (case copy_nodes ns h' of (es', h'') \<Rightarrow> (es @ es', h'')))"

definition CopyHash :: "dhash \<Rightarrow> nat rc_event list \<times> dhash" where
  "CopyHash h =
     (case copy_nodes (concat (hashtable h))
        (h\<lparr>hashtable := replicate (hashsize h) [], hnitems := 0\<rparr>) of
        (es, nh) \<Rightarrow> ((case hfile h of None \<Rightarrow> [] | Some f \<Rightarrow> [RcIncref f]) @ es, nh))"

definition Hash_setfile ::
  "(string \<Rightarrow> nat) \<Rightarrow> dhash \<Rightarrow> nat doh_arg \<Rightarrow> nat rc_event list \<times> dhash" where
  "Hash_setfile ns h file =
     (case wrap_arg ns (if file = NullArg then CharArg [] else file) of
        None \<Rightarrow> ([], h)
      | Some (f, es) \<Rightarrow>
          (es @ [RcIncref f] @ (case hfile h of None \<Rightarrow> [] | Some g \<Rightarrow> [RcDelete g]),
           h\<lparr>hfile := Some f\<rparr>))"

definition Hash_getfile :: "dhash \<Rightarrow> nat option" where "Hash_getfile h = hfile h"
definition Hash_setline :: "dhash \<Rightarrow> int \<Rightarrow> dhash" where "Hash_setline h n = h\<lparr>hline := n\<rparr>"
definition Hash_getline :: "dhash \<Rightarrow> int" where "Hash_getline h = hline h"

section \<open>The invariant and the map it stands for\<close>

abbreviation node_text :: "hnode \<Rightarrow> string" where
  "node_text n \<equiv> snd (fst n)"

definition assoc :: "hnode \<Rightarrow> string \<times> nat" where
  "assoc n = (node_text n, snd n)"

definition nodes :: "dhash \<Rightarrow> hnode list" where
  "nodes h = concat (hashtable h)"

definition placed :: "nat \<Rightarrow> hnode list list \<Rightarrow> bool" where
  "placed m table \<longleftrightarrow> 0 < m \<and> length table = m \<and>
     (\<forall>i<m. \<forall>n\<in>set (table ! i). bucket m (node_text n) = i)"

definition hash_inv :: "dhash \<Rightarrow> bool" where
  "hash_inv h \<longleftrightarrow> placed (hashsize h) (hashtable h) \<and> distinct (map node_text (nodes h)) \<and>
     hnitems h = length (nodes h) \<and> hnitems h < 2 * hashsize h"

definition hash_map :: "dhash \<Rightarrow> string \<Rightarrow> nat option" where
  "hash_map h = map_of (map assoc (nodes h))"

lemma assoc_simps [simp]: "fst (assoc n) = node_text n" "snd (assoc n) = snd n"
  by (simp_all add: assoc_def)

lemma texts_assoc: "fst ` set (map assoc c) = node_text ` set c"
  by (simp add: image_image)

lemma not_in_texts:
  "\<lbrakk>t \<notin> node_text ` set a; t \<notin> node_text ` set b\<rbrakk> \<Longrightarrow> t \<notin> fst ` set (map assoc (a @ b))"
  by (simp only: texts_assoc set_append image_Un Un_iff simp_thms)

lemma assoc_pair [simp]: "assoc (k, x) = (snd k, x)"
  by (simp add: assoc_def)

lemma map_fst_assoc [simp]: "map (fst \<circ> assoc) c = map node_text c"
  by (induction c) auto

lemma distinct_texts_mset:
  "mset xs = mset ys \<Longrightarrow> distinct (map node_text xs) \<longleftrightarrow> distinct (map node_text ys)"
  by (rule mset_eq_imp_distinct_iff) simp

lemma map_of_mset:
  assumes "mset xs = mset ys" and "distinct (map node_text ys)"
  shows "map_of (map assoc xs) = map_of (map assoc ys)"
proof -
  have "distinct (map node_text xs)" using distinct_texts_mset [OF assms(1)] assms(2) by simp
  moreover have "set xs = set ys" using assms(1) by (rule mset_eq_setD)
  ultimately show ?thesis using assms(2) by (subst map_of_inject_set) auto
qed

lemma mset_concat_update:
  "i < length xs \<Longrightarrow> mset (concat (xs[i := c])) + mset (xs ! i) = mset (concat xs) + mset c"
proof (induction xs arbitrary: i)
  case (Cons x xs)
  then show ?case by (cases i) (auto simp: ac_simps)
qed simp

lemma bucket_less: "0 < m \<Longrightarrow> bucket m t < m"
  by (simp add: bucket_def)

lemma nodes_in_bucket:
  assumes "placed (hashsize h) (hashtable h)" and "n \<in> set (nodes h)"
  shows "n \<in> set (hashtable h ! bucket (hashsize h) (node_text n))"
proof -
  obtain c where "c \<in> set (hashtable h)" "n \<in> set c" using assms(2) by (auto simp: nodes_def)
  then obtain i where "i < hashsize h" "n \<in> set (hashtable h ! i)"
    using assms(1) by (auto simp: placed_def in_set_conv_nth)
  then show ?thesis using assms(1) by (auto simp: placed_def)
qed

lemma bucket_subset: "i < length (hashtable h) \<Longrightarrow> set (hashtable h ! i) \<subseteq> set (nodes h)"
  using nth_mem by (fastforce simp: nodes_def)

lemma placed_update:
  assumes "placed m table" and "i < m" and "\<And>n. n \<in> set c \<Longrightarrow> bucket m (node_text n) = i"
  shows "placed m (table[i := c])"
  using assms by (auto simp: placed_def nth_list_update)

lemma concat_nth_split:
  "i < length xs \<Longrightarrow> concat xs = concat (take i xs) @ xs ! i @ concat (drop (Suc i) xs)"
  by (subst id_take_nth_drop [of i xs]) (simp_all del: append_take_drop_id)

lemma distinct_bucket:
  assumes "hash_inv h" and "i < hashsize h"
  shows "distinct (map node_text (hashtable h ! i))"
proof -
  have "nodes h = concat (take i (hashtable h)) @ hashtable h ! i @ concat (drop (Suc i) (hashtable h))"
    unfolding nodes_def using assms by (intro concat_nth_split) (simp add: hash_inv_def placed_def)
  then show ?thesis using assms(1) by (simp add: hash_inv_def)
qed

section \<open>The chains\<close>

lemma chain_replace_None: "chain_replace t x c = None \<longleftrightarrow> t \<notin> node_text ` set c"
proof (induction c)
  case (Cons n c)
  then show ?case by (cases n) (auto split: option.splits if_splits)
qed simp

lemma chain_replace_Some:
  "chain_replace t x c = Some (c', es) \<Longrightarrow>
   \<exists>a k y b. c = a @ ((k, t), y) # b \<and> c' = a @ ((k, t), x) # b \<and> t \<notin> node_text ` set a \<and>
     es = (if y = x then [] else [RcDelete y, RcIncref x])"
proof (induction c arbitrary: c')
  case (Cons n c)
  obtain k y where n: "n = (k, y)" by (cases n)
  show ?case
  proof (cases "snd k = t")
    case True
    then show ?thesis using Cons.prems n
      by (intro exI [of _ "[]"] exI [of _ "fst k"] exI [of _ y] exI [of _ c])
        (auto split: if_splits)
  next
    case False
    then obtain c1 where c1: "chain_replace t x c = Some (c1, es)" "c' = n # c1"
      using Cons.prems n by (auto split: option.splits)
    with Cons.IH [OF c1(1)] obtain a k' y' b where
      "c = a @ ((k', t), y') # b" "c1 = a @ ((k', t), x) # b" "t \<notin> node_text ` set a"
      "es = (if y' = x then [] else [RcDelete y', RcIncref x])" by blast
    then show ?thesis using False n c1(2)
      by (intro exI [of _ "n # a"] exI [of _ k'] exI [of _ y'] exI [of _ b]) auto
  qed
qed simp

lemma chain_remove_None: "chain_remove t c = None \<longleftrightarrow> t \<notin> node_text ` set c"
proof (induction c)
  case (Cons n c)
  then show ?case by (cases n) (auto split: option.splits if_splits)
qed simp

lemma chain_remove_Some:
  "chain_remove t c = Some (c', es) \<Longrightarrow>
   \<exists>a n b. c = a @ n # b \<and> c' = a @ b \<and> node_text n = t \<and> t \<notin> node_text ` set a \<and> es = DelNode n"
proof (induction c arbitrary: c')
  case (Cons n c)
  show ?case
  proof (cases "node_text n = t")
    case True
    then show ?thesis using Cons.prems
      by (intro exI [of _ "[]"] exI [of _ n] exI [of _ c]) auto
  next
    case False
    then obtain c1 where c1: "chain_remove t c = Some (c1, es)" "c' = n # c1"
      using Cons.prems by (auto split: option.splits)
    with Cons.IH [OF c1(1)] obtain a n' b where
      "c = a @ n' # b" "c1 = a @ b" "node_text n' = t" "t \<notin> node_text ` set a" "es = DelNode n'"
      by blast
    then show ?thesis using False c1(2)
      by (intro exI [of _ "n # a"] exI [of _ n'] exI [of _ b]) auto
  qed
qed simp

lemma chain_last_distinct:
  "distinct (map node_text c) \<Longrightarrow>
   chain_last t c x0 = (case map_of (map assoc c) t of None \<Rightarrow> x0 | Some x \<Rightarrow> Some x)"
proof (induction t c x0 rule: chain_last.induct)
  case (2 t k x c obj)
  have "map_of (map assoc c) (snd k) = None" if "snd k \<notin> node_text ` set c"
    using that by (auto simp: map_of_eq_None_iff image_image)
  with 2 show ?case by (auto split: option.splits)
qed simp

section \<open>The operations refine the map\<close>

lemma placed_place:
  assumes "placed m table"
  shows "placed m (place m n table)"
    and "mset (concat (place m n table)) = add_mset n (mset (concat table))"
proof -
  have lt: "bucket m (node_text n) < m" using assms by (auto simp: placed_def intro: bucket_less)
  show "placed m (place m n table)"
    unfolding place_def Let_def using assms lt
    by (intro placed_update) (auto simp: placed_def)
  show "mset (concat (place m n table)) = add_mset n (mset (concat table))"
    using mset_concat_update [of "bucket m (node_text n)" table "n # table ! bucket m (node_text n)"]
      lt assms
    by (simp add: place_def Let_def placed_def)
qed

lemma placed_fold:
  assumes "placed m table"
  shows "placed m (fold (place m) ns table) \<and>
    mset (concat (fold (place m) ns table)) = mset (concat table) + mset ns"
  using assms
proof (induction ns arbitrary: table)
  case (Cons n ns)
  then show ?case using placed_place [OF Cons.prems] by simp
qed simp

lemma resize_inv:
  assumes "placed (hashsize h) (hashtable h)" and "distinct (map node_text (nodes h))"
    and "hnitems h = length (nodes h)" and "hnitems h \<le> 2 * hashsize h"
  shows "hash_inv (resize h)" and "hash_map (resize h) = hash_map h"
    and "hnitems (resize h) = hnitems h" and "hashsize h \<le> hashsize (resize h)"
    and "mset (nodes (resize h)) = mset (nodes h)"
proof -
  define m where "m = size_search (2 * hashsize h + 1) 3"
  define table where "table = fold (place m) (nodes h) (replicate m [])"
  have m: "2 * hashsize h + 1 \<le> m" unfolding m_def by (rule size_search_ge)
  have "placed m (replicate m [])" using m by (simp add: placed_def)
  then have t: "placed m table" "mset (concat table) = mset (nodes h)"
    using placed_fold [of m "replicate m []" "nodes h"] by (simp_all add: table_def)
  have "length (concat table) = length (nodes h)" using t(2) by (rule mset_eq_length)
  moreover have r: "resize h = (if hnitems h < 2 * hashsize h then h
      else h\<lparr>hashsize := m, hashtable := table\<rparr>)"
    unfolding resize_def Let_def table_def m_def nodes_def by simp
  ultimately show "hash_inv (resize h)"
    using assms m t distinct_texts_mset [OF t(2)] by (simp add: hash_inv_def nodes_def)
  show "hash_map (resize h) = hash_map h"
    using assms(2) map_of_mset [OF t(2)] unfolding r hash_map_def by (simp add: nodes_def)
  show "hnitems (resize h) = hnitems h" "hashsize h \<le> hashsize (resize h)"
    using m unfolding r by simp_all
  show "mset (nodes (resize h)) = mset (nodes h)"
    using t(2) unfolding r by (simp add: nodes_def)
qed

text \<open>The nodes around one bucket.\<close>

lemma nodes_split:
  assumes "hash_inv h" and "i < hashsize h"
  obtains A C where "nodes h = A @ hashtable h ! i @ C"
    and "\<forall>c. concat ((hashtable h)[i := c]) = A @ c @ C"
    and "\<forall>n\<in>set A \<union> set C. bucket (hashsize h) (node_text n) \<noteq> i"
proof
  let ?t = "hashtable h"
  have len: "length ?t = hashsize h" using assms(1) by (simp add: hash_inv_def placed_def)
  then show "nodes h = concat (take i ?t) @ ?t ! i @ concat (drop (Suc i) ?t)"
    unfolding nodes_def using assms(2) by (intro concat_nth_split) simp
  show "\<forall>c. concat (?t[i := c]) = concat (take i ?t) @ c @ concat (drop (Suc i) ?t)"
    using len assms(2) by (simp add: upd_conv_take_nth_drop)
  show "\<forall>n\<in>set (concat (take i ?t)) \<union> set (concat (drop (Suc i) ?t)).
      bucket (hashsize h) (node_text n) \<noteq> i"
  proof
    fix n assume "n \<in> set (concat (take i ?t)) \<union> set (concat (drop (Suc i) ?t))"
    then obtain c where c: "n \<in> set c" "c \<in> set (take i ?t) \<or> c \<in> set (drop (Suc i) ?t)" by auto
    then obtain j where "j < hashsize h" "j \<noteq> i" "c = ?t ! j"
    proof (elim disjE)
      assume "c \<in> set (take i ?t)"
      then obtain j where "j < length (take i ?t)" "c = take i ?t ! j" by (metis in_set_conv_nth)
      then show thesis using that [of j] len by simp
    next
      assume "c \<in> set (drop (Suc i) ?t)"
      then obtain j where "j < length (drop (Suc i) ?t)" "c = drop (Suc i) ?t ! j"
        by (metis in_set_conv_nth)
      then show thesis using that [of "Suc i + j"] len by simp
    qed
    with c(1) show "bucket (hashsize h) (node_text n) \<noteq> i"
      using assms(1) by (auto simp: hash_inv_def placed_def)
  qed
qed

lemma map_of_at:
  assumes "t \<notin> fst ` set P"
  shows "map_of (P @ (t, x) # S) = (map_of (P @ S))(t \<mapsto> x)"
    and "map_of (P @ (t, x) # S) = (map_of (P @ (t, y) # S))(t \<mapsto> x)"
    and "t \<notin> fst ` set S \<Longrightarrow> map_of (P @ S) = (map_of (P @ (t, y) # S))(t := None)"
proof -
  have P: "map_of P t = None" using assms by (simp add: map_of_eq_None_iff)
  show "map_of (P @ (t, x) # S) = (map_of (P @ S))(t \<mapsto> x)"
       "map_of (P @ (t, x) # S) = (map_of (P @ (t, y) # S))(t \<mapsto> x)"
    using P by (auto simp: map_add_def fun_eq_iff split: option.splits)
  assume "t \<notin> fst ` set S"
  then have "map_of S t = None" by (simp add: map_of_eq_None_iff)
  then show "map_of (P @ S) = (map_of (P @ (t, y) # S))(t := None)"
    using P by (auto simp: map_add_def fun_eq_iff split: option.splits)
qed

text \<open>What the bucket of a key tells about the whole table.\<close>

lemma bucket_of_key:
  assumes "hash_inv h" and i: "i = bucket (hashsize h) t"
  obtains A C where "i < hashsize h" and "nodes h = A @ hashtable h ! i @ C"
    and "\<forall>c. concat ((hashtable h)[i := c]) = A @ c @ C"
    and "t \<notin> node_text ` set A" and "t \<notin> node_text ` set C"
    and "\<forall>n\<in>set (hashtable h ! i). bucket (hashsize h) (node_text n) = i"
proof -
  have lt: "i < hashsize h"
    using assms by (auto simp: hash_inv_def placed_def intro: bucket_less)
  obtain A C where "nodes h = A @ hashtable h ! i @ C"
    "\<forall>c. concat ((hashtable h)[i := c]) = A @ c @ C"
    "\<forall>n\<in>set A \<union> set C. bucket (hashsize h) (node_text n) \<noteq> i"
    using nodes_split [OF assms(1) lt] by metis
  with lt that [of A C] show thesis
    using assms(1) unfolding i by (force simp: hash_inv_def placed_def)
qed

lemma hash_getkey_map:
  assumes "hash_inv h"
  shows "hash_getkey h k = hash_map h (snd k)"
proof -
  define i where i: "i = bucket (hashsize h) (snd k)"
  obtain A C where A: "i < hashsize h" "nodes h = A @ hashtable h ! i @ C"
    "snd k \<notin> node_text ` set A" "snd k \<notin> node_text ` set C"
    using bucket_of_key [OF assms i] by metis
  have "map_of (map assoc A) (snd k) = None" "map_of (map assoc C) (snd k) = None"
    using A(3,4) by (auto simp: map_of_eq_None_iff image_image)
  then have "hash_map h (snd k) = map_of (map assoc (hashtable h ! i)) (snd k)"
    by (simp add: hash_map_def A(2) map_add_def split: option.split)
  then show ?thesis
    using chain_last_distinct [OF distinct_bucket [OF assms A(1)]]
    by (simp add: hash_getkey_def flip: i split: option.split)
qed

lemma hash_setkey_map:
  assumes "hash_inv h" and "hash_setkey h k x = (r, es, h')"
  shows "hash_inv h'" and "hash_map h' = (hash_map h)(snd k \<mapsto> x)"
    and "r = (if hash_map h (snd k) = None then 0 else 1)"
    and "es = (case hash_map h (snd k) of None \<Rightarrow> [RcIncref (fst k), RcIncref x]
              | Some y \<Rightarrow> if y = x then [] else [RcDelete y, RcIncref x])"
proof -
  define i where i: "i = bucket (hashsize h) (snd k)"
  obtain A C where A: "i < hashsize h" "nodes h = A @ hashtable h ! i @ C"
    "\<forall>c. concat ((hashtable h)[i := c]) = A @ c @ C"
    "snd k \<notin> node_text ` set A" "snd k \<notin> node_text ` set C"
    "\<forall>n\<in>set (hashtable h ! i). bucket (hashsize h) (node_text n) = i"
    using bucket_of_key [OF assms(1) i] by metis
  have pl: "placed (hashsize h) (hashtable h)" using assms(1) by (simp add: hash_inv_def)
  have "hash_inv h' \<and> hash_map h' = (hash_map h)(snd k \<mapsto> x) \<and>
    r = (if hash_map h (snd k) = None then 0 else 1) \<and>
    es = (case hash_map h (snd k) of None \<Rightarrow> [RcIncref (fst k), RcIncref x]
              | Some y \<Rightarrow> if y = x then [] else [RcDelete y, RcIncref x])"
  proof (cases "chain_replace (snd k) x (hashtable h ! i)")
    case (Some p)
    obtain c' es' where p: "p = (c', es')" by force
    obtain a k' y b where c: "hashtable h ! i = a @ ((k', snd k), y) # b"
      "c' = a @ ((k', snd k), x) # b" "snd k \<notin> node_text ` set a"
      "es' = (if y = x then [] else [RcDelete y, RcIncref x])"
      using chain_replace_Some [OF Some [unfolded p]] by blast
    have h': "r = 1" "es = es'" "h' = h\<lparr>hashtable := (hashtable h)[i := c']\<rparr>"
      using assms(2) Some p by (auto simp: hash_setkey_def simp flip: i)
    have "placed (hashsize h) ((hashtable h)[i := c'])"
      using A(6) c by (intro placed_update [OF pl A(1)]) auto
    then have inv: "hash_inv h'"
      using assms(1) c A(2,3) by (simp add: hash_inv_def h' nodes_def)
    have P: "snd k \<notin> fst ` set (map assoc (A @ a))" using A(4) c(3) by (rule not_in_texts)
    have "hash_map h' = (hash_map h)(snd k \<mapsto> x)"
      using map_of_at(2) [OF P, of x "map assoc (b @ C)" y]
      by (simp add: hash_map_def h' nodes_def A(3) c) (simp add: A(2) [unfolded nodes_def] c)
    moreover have "hash_map h (snd k) = Some y"
      using map_of_at(1) [OF P, of y "map assoc (b @ C)"] by (simp add: hash_map_def A(2) c)
    ultimately show ?thesis using inv h' c(4) by simp
  next
    case None
    then have nB: "snd k \<notin> node_text ` set (hashtable h ! i)" by (simp add: chain_replace_None)
    define B where "B = hashtable h ! i @ [(k, x)]"
    define h1 where "h1 = h\<lparr>hashtable := (hashtable h)[i := B], hnitems := hnitems h + 1\<rparr>"
    have h': "r = 0" "es = [RcIncref (fst k), RcIncref x]" "h' = resize h1"
      using assms(2) None by (auto simp: hash_setkey_def NewNode_def h1_def B_def simp flip: i)
    have n1: "nodes h1 = A @ hashtable h ! i @ (k, x) # C"
      by (simp add: h1_def nodes_def A(3) B_def)
    have "placed (hashsize h) ((hashtable h)[i := B])"
      using A(6) by (intro placed_update [OF pl A(1)]) (auto simp: B_def i)
    moreover have "distinct (map node_text (nodes h1))"
      using assms(1) nB A(4,5) unfolding n1 hash_inv_def A(2) by auto
    moreover have "hnitems h1 = length (nodes h1)" "hnitems h1 \<le> 2 * hashsize h1"
      using assms(1) by (simp_all add: n1 hash_inv_def A(2)) (simp_all add: h1_def)
    ultimately have rs: "hash_inv (resize h1)" "hash_map (resize h1) = hash_map h1"
      using resize_inv [of h1] by (simp_all add: h1_def)
    have P: "snd k \<notin> fst ` set (map assoc (A @ hashtable h ! i))"
      using A(4) nB by (rule not_in_texts)
    have "hash_map h1 = (hash_map h)(snd k \<mapsto> x)"
      using map_of_at(1) [OF P, of x "map assoc C"] by (simp add: hash_map_def n1 A(2))
    moreover have "hash_map h (snd k) = None"
      using A(4,5) nB by (auto simp: hash_map_def A(2) map_of_eq_None_iff image_image)
    ultimately show ?thesis using rs h' by simp
  qed
  then show "hash_inv h'" and "hash_map h' = (hash_map h)(snd k \<mapsto> x)"
    and "r = (if hash_map h (snd k) = None then 0 else 1)"
    and "es = (case hash_map h (snd k) of None \<Rightarrow> [RcIncref (fst k), RcIncref x]
              | Some y \<Rightarrow> if y = x then [] else [RcDelete y, RcIncref x])" by blast+
qed

lemma hash_delkey_map:
  assumes "hash_inv h" and "hash_delkey h k = (r, es, h')"
  shows "hash_inv h'" and "hash_map h' = (hash_map h)(snd k := None)"
    and "r = (if hash_map h (snd k) = None then 0 else 1)"
proof -
  define i where i: "i = bucket (hashsize h) (snd k)"
  obtain A C where A: "i < hashsize h" "nodes h = A @ hashtable h ! i @ C"
    "\<forall>c. concat ((hashtable h)[i := c]) = A @ c @ C"
    "snd k \<notin> node_text ` set A" "snd k \<notin> node_text ` set C"
    "\<forall>n\<in>set (hashtable h ! i). bucket (hashsize h) (node_text n) = i"
    using bucket_of_key [OF assms(1) i] by metis
  have pl: "placed (hashsize h) (hashtable h)" using assms(1) by (simp add: hash_inv_def)
  have "hash_inv h' \<and> hash_map h' = (hash_map h)(snd k := None) \<and>
    r = (if hash_map h (snd k) = None then 0 else 1)"
  proof (cases "chain_remove (snd k) (hashtable h ! i)")
    case (Some p)
    obtain c' es' where p: "p = (c', es')" by force
    obtain a n b where c: "hashtable h ! i = a @ n # b" "c' = a @ b" "node_text n = snd k"
      "snd k \<notin> node_text ` set a"
      using chain_remove_Some [OF Some [unfolded p]] by blast
    have h': "r = 1" "h' = h\<lparr>hashtable := (hashtable h)[i := c'], hnitems := hnitems h - 1\<rparr>"
      using assms(2) Some p by (auto simp: hash_delkey_def simp flip: i)
    have "placed (hashsize h) ((hashtable h)[i := c'])"
      using A(6) c by (intro placed_update [OF pl A(1)]) auto
    then have inv: "hash_inv h'"
      using assms(1) c A(2,3) by (auto simp: hash_inv_def h' nodes_def)
    have P: "snd k \<notin> fst ` set (map assoc (A @ a))" using A(4) c(4) by (rule not_in_texts)
    have "snd k \<notin> node_text ` set b"
      using assms(1) by (simp add: hash_inv_def A(2) c(1) flip: c(3))
    then have S: "snd k \<notin> fst ` set (map assoc (b @ C))" using A(5) by (rule not_in_texts)
    have n: "assoc n = (snd k, snd n)" using c(3) by (simp add: assoc_def)
    have "hash_map h' = (hash_map h)(snd k := None)"
      using map_of_at(3) [OF P S, of "snd n"] 
      by (simp add: hash_map_def h' nodes_def A(3) c) (simp add: A(2) [unfolded nodes_def] c n)
    moreover have "hash_map h (snd k) = Some (snd n)"
      using map_of_at(1) [OF P, of "snd n" "map assoc (b @ C)"] by (simp add: hash_map_def A(2) c n)
    ultimately show ?thesis using inv h' by simp
  next
    case None
    then have "snd k \<notin> node_text ` set (hashtable h ! i)" by (simp add: chain_remove_None)
    then have "hash_map h (snd k) = None"
      using A(4,5) by (auto simp: hash_map_def A(2) map_of_eq_None_iff image_image)
    moreover have "r = 0" "h' = h"
      using assms(2) None by (auto simp: hash_delkey_def simp flip: i)
    ultimately show ?thesis using assms(1) by (simp add: fun_upd_idem)
  qed
  then show "hash_inv h'" and "hash_map h' = (hash_map h)(snd k := None)"
    and "r = (if hash_map h (snd k) = None then 0 else 1)" by blast+
qed

section \<open>Iteration\<close>

lemma skip_empty_step:
  "i < hashsize h \<and> hashtable h ! i = [] \<Longrightarrow> skip_empty h i = skip_empty h (i + 1)"
  by (subst skip_empty.simps) simp

lemma skip_empty_stop: "\<not> (i < hashsize h \<and> hashtable h ! i = []) \<Longrightarrow> skip_empty h i = i"
  by (subst skip_empty.simps) (simp only: if_False)

lemma skip_empty_spec:
  assumes "length (hashtable h) = hashsize h" and "i \<le> hashsize h"
  shows "i \<le> skip_empty h i \<and> skip_empty h i \<le> hashsize h \<and>
    (skip_empty h i < hashsize h \<longrightarrow> hashtable h ! skip_empty h i \<noteq> []) \<and>
    concat (drop (skip_empty h i) (hashtable h)) = concat (drop i (hashtable h))"
  using assms
proof (induction h i rule: skip_empty.induct)
  case (1 h i)
  show ?case
  proof (cases "i < hashsize h \<and> hashtable h ! i = []")
    case True
    then have "drop i (hashtable h) = [] # drop (Suc i) (hashtable h)"
      using 1(2) by (metis Cons_nth_drop_Suc)
    moreover note skip_empty_step [OF True]
    ultimately show ?thesis using 1(1) [OF True] 1(2) True by simp
  next
    case False
    note skip_empty_stop [OF False]
    then show ?thesis using False 1(3) by auto
  qed
qed

text \<open>The nodes an iterator still has to show, the current one first.\<close>

definition iter_rest :: "dhash \<Rightarrow> hash_iter \<Rightarrow> hnode list" where
  "iter_rest h it =
     (case (hit_key it, hit_item it) of
        (Some k, Some x) \<Rightarrow> (k, x) # hit_current it @ concat (drop (Suc (hit_index it)) (hashtable h))
      | _ \<Rightarrow> [])"

definition iter_ok :: "dhash \<Rightarrow> hash_iter \<Rightarrow> bool" where
  "iter_ok h it \<longleftrightarrow> (hit_key it = None) = (hit_item it = None) \<and>
     (hit_key it \<noteq> None \<longrightarrow> hit_index it < hashsize h)"

lemma concat_drop_nth:
  "\<lbrakk>i < length xs; xs ! i \<noteq> []\<rbrakk> \<Longrightarrow>
   concat (drop i xs) = hd (xs ! i) # tl (xs ! i) @ concat (drop (Suc i) xs)"
  by (simp flip: Cons_nth_drop_Suc)

lemma Hash_firstiter_rest:
  assumes "length (hashtable h) = hashsize h"
  shows "iter_rest h (Hash_firstiter h) = nodes h" and "iter_ok h (Hash_firstiter h)"
  using skip_empty_spec [OF assms, of 0] assms
  by (auto simp: Hash_firstiter_def iter_rest_def iter_ok_def Let_def nodes_def concat_drop_nth)

lemma Hash_nextiter_rest:
  assumes "length (hashtable h) = hashsize h" and "iter_ok h it" and "hit_key it \<noteq> None"
  shows "iter_rest h (Hash_nextiter h it) = tl (iter_rest h it)" and "iter_ok h (Hash_nextiter h it)"
proof -
  obtain k x where kx: "hit_key it = Some k" "hit_item it = Some x" "hit_index it < hashsize h"
    using assms(2,3) by (auto simp: iter_ok_def)
  then have "Suc (hit_index it) \<le> hashsize h" by simp
  note sk = skip_empty_spec [OF assms(1) this]
  define i where "i = skip_empty h (Suc (hit_index it))"
  have i: "i \<le> hashsize h" "i < hashsize h \<longrightarrow> hashtable h ! i \<noteq> []"
    "concat (drop (Suc (hit_index it)) (hashtable h)) = concat (drop i (hashtable h))"
    using sk by (simp_all add: i_def)
  show "iter_rest h (Hash_nextiter h it) = tl (iter_rest h it)"
  proof (cases "hit_current it")
    case Nil
    show ?thesis
    proof (cases "i < hashsize h")
      case True
      then have "concat (drop i (hashtable h)) = hd (hashtable h ! i) # tl (hashtable h ! i)
          @ concat (drop (Suc i) (hashtable h))"
        using i(2) assms(1) by (intro concat_drop_nth) auto
      then show ?thesis using True kx Nil
        by (simp add: Hash_nextiter_def iter_rest_def Let_def i(3) flip: i_def)
    next
      case False
      then show ?thesis using kx Nil i(1) assms(1)
        by (simp add: Hash_nextiter_def iter_rest_def Let_def i(3) flip: i_def)
    qed
  qed (simp add: Hash_nextiter_def iter_rest_def kx)
  show "iter_ok h (Hash_nextiter h it)"
    using kx sk by (auto simp: Hash_nextiter_def iter_ok_def Let_def)
qed

lemma keys_loop_rest:
  assumes "length (hashtable h) = hashsize h" and "iter_ok h it" and "length (iter_rest h it) \<le> f"
  shows "keys_loop f h it = Inr (iter_rest h it)"
  using assms
proof (induction f arbitrary: it)
  case 0
  then show ?case by (auto simp: iter_rest_def iter_ok_def split: option.splits)
next
  case (Suc f)
  show ?case
  proof (cases "hit_key it")
    case None
    then show ?thesis by (simp add: iter_rest_def)
  next
    case (Some k)
    then obtain x where x: "hit_item it = Some x" using Suc.prems(2) by (auto simp: iter_ok_def)
    have ne: "hit_key it \<noteq> None" using Some by simp
    note nx = Hash_nextiter_rest [OF Suc.prems(1,2) ne]
    have "iter_rest h it = (k, x) # tl (iter_rest h it)" by (simp add: iter_rest_def Some x)
    moreover have "keys_loop f h (Hash_nextiter h it) = Inr (tl (iter_rest h it))"
      using Suc.IH [OF Suc.prems(1) nx(2)] Suc.prems(3) by (simp add: nx(1))
    ultimately show ?thesis by (simp add: Some x)
  qed
qed

lemma hash_keys_total:
  assumes "length (hashtable h) = hashsize h"
  shows "Hash_keys h = Inr (map fst (nodes h), map (\<lambda>n. RcIncref (fst (fst n))) (nodes h))"
  using keys_loop_rest [OF assms Hash_firstiter_rest(2) [OF assms]] Hash_firstiter_rest(1) [OF assms]
  by (simp add: Hash_keys_def Let_def o_def nodes_def [symmetric])

text \<open>Deleting the current item does not disturb the iteration.\<close>

lemma skip_empty_cong:
  assumes "hashsize h' = hashsize h" and "\<And>j. i \<le> j \<Longrightarrow> hashtable h' ! j = hashtable h ! j"
  shows "skip_empty h' i = skip_empty h i"
  using assms
proof (induction h i rule: skip_empty.induct)
  case (1 h i)
  show ?case
  proof (cases "i < hashsize h \<and> hashtable h ! i = []")
    case True
    then have "skip_empty h' (i + 1) = skip_empty h (i + 1)"
      by (rule 1(1) [OF _ 1(2)]) (use 1(3) in simp)
    moreover have "i < hashsize h' \<and> hashtable h' ! i = []" using True 1(2,3) by simp
    ultimately show ?thesis using skip_empty_step [OF True] skip_empty_step [of i h'] by simp
  next
    case False
    moreover have "\<not> (i < hashsize h' \<and> hashtable h' ! i = [])" using False 1(2,3) by simp
    ultimately show ?thesis using skip_empty_stop [of i h] skip_empty_stop [of i h'] by simp
  qed
qed

lemma Hash_nextiter_delkey:
  assumes "hash_inv h" and "bucket (hashsize h) (snd k) = hit_index it" 
    and "hash_delkey h k = (r, es, h')"
  shows "Hash_nextiter h' it = Hash_nextiter h it"
proof (cases "chain_remove (snd k) (hashtable h ! hit_index it)")
  case None
  then show ?thesis using assms(2,3) by (simp add: hash_delkey_def)
next
  case (Some p)
  then obtain c where h': "hashtable h' = (hashtable h)[hit_index it := c]" "hashsize h' = hashsize h"
    using assms(2,3) by (cases p) (auto simp: hash_delkey_def)
  then have same: "hashtable h' ! j = hashtable h ! j" if "hit_index it + 1 \<le> j" for j
    using that by simp
  have sk: "skip_empty h' (hit_index it + 1) = skip_empty h (hit_index it + 1)"
    using h'(2) same by (rule skip_empty_cong)
  have len: "length (hashtable h) = hashsize h" "hit_index it < hashsize h"
    using assms(1) bucket_less [of "hashsize h" "snd k"]
    by (auto simp: hash_inv_def placed_def simp flip: assms(2))
  have "hit_index it + 1 \<le> skip_empty h (hit_index it + 1)"
    using skip_empty_spec [OF len(1), of "hit_index it + 1"] len(2) by simp
  then show ?thesis
    unfolding Hash_nextiter_def Let_def sk h'(2) by (simp add: same)
qed

section \<open>Interned keys are unique\<close>

fun kt_find :: "keytree \<Rightarrow> string \<Rightarrow> nat option" where
  "kt_find KNil c = None"
| "kt_find (KNode l s x r) c =
     (let d = strcmp s c in if d = 0 then Some x else if d < 0 then kt_find l c else kt_find r c)"

lemma strcmp_0_iff [simp]: "strcmp s c = 0 \<longleftrightarrow> s = c"
  by (induction s c rule: strcmp.induct) auto

lemma find_key_find:
  "find_key ns t c = (x, es, t') \<Longrightarrow>
   (case kt_find t c of Some y \<Rightarrow> x = y \<and> es = [] \<and> t' = t
    | None \<Rightarrow> x = ns c \<and> es = [RcNewString (ns c) c] \<and>
        (\<forall>d. kt_find t' d = (if d = c then Some (ns c) else kt_find t d)))"
proof (induction ns t c arbitrary: x es t' rule: find_key.induct)
  case (2 ns l s y r c)
  consider "s = c" | "s \<noteq> c" "strcmp s c < 0" | "s \<noteq> c" "\<not> strcmp s c < 0" by blast
  then show ?case
  proof cases
    case 1
    then show ?thesis using 2(3) by auto
  next
    case a: 2
    then obtain l' where l: "find_key ns l c = (x, es, l')" "t' = KNode l' s y r"
      using 2(3) by (auto simp: Let_def split: prod.splits)
    have "strcmp s c \<noteq> 0" using a by simp
    note IH = 2(1) [OF refl this a(2) l(1)]
    show ?thesis using IH a l(2) by (auto simp: Let_def split: option.splits)
  next
    case a: 3
    then obtain r' where l: "find_key ns r c = (x, es, r')" "t' = KNode l s y r'"
      using 2(3) by (auto simp: Let_def split: prod.splits)
    have "strcmp s c \<noteq> 0" using a by simp
    note IH = 2(2) [OF refl this a(2) l(1)]
    show ?thesis using IH a l(2) by (auto simp: Let_def split: option.splits)
  qed
qed auto

text \<open>Interning a list of C strings, one after the other.\<close>

fun intern_all :: "(string \<Rightarrow> nat) \<Rightarrow> keytree \<Rightarrow> string list \<Rightarrow> nat list \<times> nat rc_event list \<times> keytree" where
  "intern_all ns t [] = ([], [], t)"
| "intern_all ns t (c # cs) =
     (case find_key ns t c of (x, es, t1) \<Rightarrow>
        (case intern_all ns t1 cs of (xs, es', t2) \<Rightarrow> (x # xs, es @ es', t2)))"

lemma intern_keeps: "\<lbrakk>intern_all ns t cs = (xs, es, t'); kt_find t d = Some x\<rbrakk> \<Longrightarrow>
  kt_find t' d = Some x"
proof (induction cs arbitrary: t xs es)
  case (Cons c cs)
  obtain y es1 t1 where 1: "find_key ns t c = (y, es1, t1)" by (metis prod_cases3)
  then obtain xs2 es2 where 2: "intern_all ns t1 cs = (xs2, es2, t')"
    using Cons.prems(1) by (auto split: prod.splits)
  have "kt_find t1 d = Some x"
    using find_key_find [OF 1] Cons.prems(2) by (auto split: option.splits if_splits)
  then show ?case using Cons.IH [OF 2] by simp
qed simp

lemma intern_all_find: "intern_all ns t cs = (xs, es, t') \<Longrightarrow>
  length xs = length cs \<and> (\<forall>i<length cs. kt_find t' (cs ! i) = Some (xs ! i))"
proof (induction cs arbitrary: t xs es)
  case (Cons c cs)
  obtain y es1 t1 where 1: "find_key ns t c = (y, es1, t1)" by (metis prod_cases3)
  then obtain xs2 es2 where 2: "intern_all ns t1 cs = (xs2, es2, t')" "xs = y # xs2"
    using Cons.prems(1) by (auto split: prod.splits)
  have "kt_find t1 c = Some y"
    using find_key_find [OF 1] by (auto split: option.splits)
  then have "kt_find t' c = Some y" using intern_keeps [OF 2(1)] by simp
  then show ?case using Cons.IH [OF 2(1)] by (auto simp: 2(2) nth_Cons split: nat.splits)
qed simp

section \<open>References\<close>

definition held :: "hnode list \<Rightarrow> nat list" where
  "held ns = concat (map (\<lambda>n. [fst (fst n), snd n]) ns)"

lemma held_simps [simp]:
  "held [] = []" "held (n # ns) = fst (fst n) # snd n # held ns" "held (ns @ ms) = held ns @ held ms"
  by (simp_all add: held_def)

lemma held_mset: "mset ns = mset ms \<Longrightarrow> count_list (held ns) a = count_list (held ms) a"
proof -
  have *: "count_list (held ns) a = (\<Sum>n\<in>#mset ns. (if fst (fst n) = a then 1 else 0)
      + (if snd n = a then 1 else 0))" for ns
    by (induction ns) auto
  show "mset ns = mset ms \<Longrightarrow> count_list (held ns) a = count_list (held ms) a"
    unfolding * by simp
qed

lemma rc_delta_DelNode: "rc_delta a (concat (map DelNode ns)) = - int (count_list (held ns) a)"
  by (induction ns) (auto simp: DelNode_def)

lemma hash_setkey_balance:
  assumes "hash_inv h" and "hash_setkey h k x = (r, es, h')"
  shows "int (count_list (held (nodes h')) a) = int (count_list (held (nodes h)) a) + rc_delta a es"
proof -
  define i where "i = bucket (hashsize h) (snd k)"
  have i: "i < length (hashtable h)"
    using assms(1) bucket_less [of "hashsize h" "snd k"] by (auto simp: i_def hash_inv_def placed_def)
  show ?thesis
  proof (cases "chain_replace (snd k) x (hashtable h ! i)")
    case (Some p)
    obtain c' es' where p: "p = (c', es')" by force
    obtain A k' y B where c: "hashtable h ! i = A @ ((k', snd k), y) # B"
      "c' = A @ ((k', snd k), x) # B" "es' = (if y = x then [] else [RcDelete y, RcIncref x])"
      using chain_replace_Some [OF Some [unfolded p]] by blast
    have h': "es = es'" "nodes h' = concat ((hashtable h)[i := c'])"
      using assms(2) Some p by (auto simp: hash_setkey_def nodes_def simp flip: i_def)
    have "mset (nodes h' @ hashtable h ! i) = mset (nodes h @ c')"
      using mset_concat_update [OF i, of c'] by (simp add: h'(2)) (simp add: nodes_def)
    then have "count_list (held (nodes h' @ hashtable h ! i)) a = count_list (held (nodes h @ c')) a"
      by (rule held_mset)
    then show ?thesis by (auto simp: c h'(1) split: if_splits)
  next
    case None
    define B where "B = hashtable h ! i @ [(k, x)]"
    define h1 where "h1 = h\<lparr>hashtable := (hashtable h)[i := B], hnitems := hnitems h + 1\<rparr>"
    have h': "es = [RcIncref (fst k), RcIncref x]" "h' = resize h1"
      using assms(2) None by (auto simp: hash_setkey_def NewNode_def h1_def B_def simp flip: i_def)
    have "mset (nodes h1 @ hashtable h ! i) = mset (nodes h @ B)"
      using mset_concat_update [OF i, of B] by (simp add: h1_def nodes_def)
    then have "count_list (held (nodes h1 @ hashtable h ! i)) a = count_list (held (nodes h @ B)) a"
      by (rule held_mset)
    moreover have "placed (hashsize h1) (hashtable h1)"
      using assms(1) by (auto simp: h1_def hash_inv_def B_def i_def bucket_less placed_def nth_list_update)
    then have "mset (nodes (resize h1)) = mset (nodes h1)"
      by (auto simp: resize_def Let_def nodes_def intro!: placed_fold [THEN conjunct2, THEN trans]
          simp: placed_def)
    then have "count_list (held (nodes h')) a = count_list (held (nodes h1)) a"
      unfolding h'(2) by (rule held_mset)
    ultimately show ?thesis by (auto simp: B_def h'(1) split: if_splits)
  qed
qed

lemma hash_delkey_balance:
  assumes "hash_inv h" and "hash_delkey h k = (r, es, h')"
  shows "int (count_list (held (nodes h')) a) = int (count_list (held (nodes h)) a) + rc_delta a es"
proof -
  define i where "i = bucket (hashsize h) (snd k)"
  have i: "i < length (hashtable h)"
    using assms(1) bucket_less [of "hashsize h" "snd k"] by (auto simp: i_def hash_inv_def placed_def)
  show ?thesis
  proof (cases "chain_remove (snd k) (hashtable h ! i)")
    case (Some p)
    obtain c' es' where p: "p = (c', es')" by force
    obtain A n B where c: "hashtable h ! i = A @ n # B" "c' = A @ B" "es' = DelNode n"
      using chain_remove_Some [OF Some [unfolded p]] by blast
    have h': "es = es'" "nodes h' = concat ((hashtable h)[i := c'])"
      using assms(2) Some p by (auto simp: hash_delkey_def nodes_def simp flip: i_def)
    have "mset (nodes h' @ hashtable h ! i) = mset (nodes h @ c')"
      using mset_concat_update [OF i, of c'] by (simp add: h'(2)) (simp add: nodes_def)
    then have "count_list (held (nodes h' @ hashtable h ! i)) a = count_list (held (nodes h @ c')) a"
      by (rule held_mset)
    then show ?thesis by (auto simp: c h'(1) DelNode_def split: if_splits)
  next
    case None
    then show ?thesis using assms(2) by (simp add: hash_delkey_def flip: i_def)
  qed
qed

end
