(* ===== verification/DohHashSpec.thy ===== *)
theory DohHashSpec
  imports DohHash
begin

text \<open>
  What the hash table of Source/DOH/hash.c guarantees: it implements the attribute-map contract,
  iteration shows each key once and survives the deletion of the current item, interned keys are
  unique, copies are equal, and the reference counts of keys and objects balance.
\<close>

section \<open>The attribute-map contract\<close>

definition put_key :: "dhash \<Rightarrow> hkey \<Rightarrow> nat \<Rightarrow> dhash" where
  "put_key h k x = snd (snd (hash_setkey h k x))"

definition del_key :: "dhash \<Rightarrow> hkey \<Rightarrow> dhash" where
  "del_key h k = snd (snd (hash_delkey h k))"

lemma put_key_map: "hash_inv h \<Longrightarrow> hash_inv (put_key h k x) \<and> hash_map (put_key h k x) = (hash_map h)(snd k \<mapsto> x)"
  using hash_setkey_map [of h k x] unfolding put_key_def by (metis prod.collapse)

lemma del_key_map: "hash_inv h \<Longrightarrow> hash_inv (del_key h k) \<and> hash_map (del_key h k) = (hash_map h)(snd k := None)"
  using hash_delkey_map [of h k] unfolding del_key_def by (metis prod.collapse)

interpretation ha: attribute_map hash_getkey put_key del_key snd hash_inv
proof
  fix h :: dhash and k k' :: hkey and x :: nat
  assume h: "hash_inv h"
  show "hash_inv (put_key h k x)" "hash_inv (del_key h k)"
    using put_key_map [OF h] del_key_map [OF h] by simp_all
  show "hash_getkey (put_key h k x) k' = (if snd k = snd k' then Some x else hash_getkey h k')"
    using put_key_map [OF h] h by (simp add: hash_getkey_map)
  show "hash_getkey (del_key h k) k' = (if snd k = snd k' then None else hash_getkey h k')"
    using del_key_map [OF h] h by (simp add: hash_getkey_map)
qed

lemma DohNewHash_inv: "hash_inv DohNewHash \<and> hash_map DohNewHash = (\<lambda>_. None)"
proof -
  have "concat (replicate n []) = []" for n by (induction n) auto
  then show ?thesis
    by (simp add: DohNewHash_def hash_inv_def placed_def HASH_INIT_SIZE_def nodes_def hash_map_def
        fun_eq_iff)
qed

text \<open>
  C6. On a table that satisfies its invariant, \<open>Hash_setattr\<close> with an object updates the map from
  key texts to objects at that key alone and returns 1 exactly when the key was present;
  \<open>Hash_setattr\<close> with NULL and \<open>Hash_delattr\<close> remove the key; the table may be resized and
  rehashed on the way. The invariant (every node in the bucket of its hash value, no text twice,
  the item count, the load below two nodes per bucket) is kept.
\<close>

theorem hash_setattr_refines_map:
  assumes "hash_inv h" and "Hash_setattr ns root h k obj = (r, es, root', h')"
  shows "hash_inv h' \<and>
    hash_map h' = (hash_map h)(key_text k :=
       (case obj of NullArg \<Rightarrow> None | DohArg x \<Rightarrow> Some x | CharArg s \<Rightarrow> Some (ns s))) \<and>
    (r = 1 \<longleftrightarrow> hash_map h (key_text k) \<noteq> None) \<and> (r = 0 \<or> r = 1)"
proof -
  obtain ko es1 root1 where k: "resolve_key ns root k = (ko, es1, root1)" by (metis prod_cases3)
  have tx: "snd ko = key_text k" using k by (cases k) (auto split: prod.splits)
  show ?thesis
  proof (cases "wrap_arg ns obj")
    case None
    then obtain es2 where "hash_delkey h ko = (r, es2, h')" "obj = NullArg"
      using assms(2) k by (auto simp: Hash_setattr_def Hash_delattr_def split: prod.splits)
    then show ?thesis using hash_delkey_map [OF assms(1), of ko r es2 h'] by (simp add: tx)
  next
    case (Some p)
    then obtain x es2 es3 where x: "wrap_arg ns obj = Some (x, es2)" "hash_setkey h ko x = (r, es3, h')"
      using assms(2) k by (cases p) (auto simp: Hash_setattr_def split: prod.splits)
    have "(case obj of NullArg \<Rightarrow> None | DohArg x \<Rightarrow> Some x | CharArg s \<Rightarrow> Some (ns s)) = Some x"
      using x(1) by (cases obj) auto
    then show ?thesis using hash_setkey_map [OF assms(1) x(2)] by (simp add: tx)
  qed
qed

theorem hash_setattr_refines_map_witness:
  "\<exists>r es root' h'. Hash_setattr length KNil DohNewHash (KeyChar ''name'') (DohArg 7) = (r, es, root', h') \<and>
     hash_inv h' \<and> hash_map h' = [''name'' \<mapsto> 7] \<and> r = 0"
proof -
  obtain r es root' h' where
    1: "Hash_setattr length KNil DohNewHash (KeyChar ''name'') (DohArg 7) = (r, es, root', h')"
    by (metis prod_cases4)
  show ?thesis using 1 hash_setattr_refines_map [OF _ 1] DohNewHash_inv by auto
qed

text \<open>
  C7. Whatever sequence of attributes is set and deleted, with whatever resizing, \<open>Hash_getattr\<close>
  returns the object last set for a key of that text, or what the table held before.
\<close>

theorem hash_getattr_last_value:
  assumes "hash_inv h"
  shows "fst (Hash_getattr ns root (run_upds put_key del_key us h) k)
    = last_value snd us (key_text k) (hash_map h (key_text k))"
proof -
  obtain ko es1 root1 where k: "resolve_key ns root k = (ko, es1, root1)" by (metis prod_cases3)
  have tx: "snd ko = key_text k" using k by (cases k) (auto split: prod.splits)
  have "fst (Hash_getattr ns root (run_upds put_key del_key us h) k)
      = hash_getkey (run_upds put_key del_key us h) ko"
    by (simp add: Hash_getattr_def k)
  also have "\<dots> = last_value snd us (snd ko) (hash_getkey h ko)"
    using assms by (rule ha.run_get)
  finally show ?thesis using assms by (simp add: tx hash_getkey_map)
qed

theorem hash_getattr_last_value_witness:
  "fst (Hash_getattr length KNil (run_upds put_key del_key
     [Put (1, ''a'') 10, Put (2, ''b'') 20, Put (3, ''a'') 30, Del (2, ''b'')] DohNewHash)
     (KeyChar ''a'')) = Some 30"
  using hash_getattr_last_value [of DohNewHash length KNil
      "[Put (1, ''a'') 10, Put (2, ''b'') 20, Put (3, ''a'') 30, Del (2, ''b'')]" "KeyChar ''a''"]
    DohNewHash_inv by simp

section \<open>Iteration\<close>



section \<open>Resizing\<close>

text \<open>
  C9. The search for the next table size ends, and from the start that \<open>resize\<close> gives it finds
  the least number of its parity, at or above twice the old size plus one, that has no odd factor
  from 3 up to its half; \<open>resize\<close> never loses or invents a node, and the load factor after it is
  below two.
\<close>

theorem hash_resize_sound:
  "(let n = size_search (2 * m + 1) 3 in
      2 * m + 1 \<le> n \<and> odd n \<and> no_odd_factor n \<and>
      (\<forall>n'. 2 * m + 1 \<le> n' \<and> odd n' \<and> no_odd_factor n' \<longrightarrow> n \<le> n')) \<and>
   (placed (hashsize h) (hashtable h) \<and> distinct (map node_text (nodes h)) \<and>
    hnitems h = length (nodes h) \<and> hnitems h \<le> 2 * hashsize h \<longrightarrow>
    hash_inv (resize h) \<and> hash_map (resize h) = hash_map h \<and> mset (nodes (resize h)) = mset (nodes h))"
proof (intro conjI impI)
  define n where "n = size_search (2 * m + 1) 3"
  have "no_odd_factor n \<and> n \<le> next_good (2 * m + 1)"
    unfolding n_def by (rule size_search_good) auto
  moreover have "2 * m + 1 \<le> n" unfolding n_def by (rule size_search_ge)
  moreover have "odd n" unfolding n_def by (rule size_search_odd) simp
  moreover have "n \<le> n'" if "2 * m + 1 \<le> n'" "odd n'" "no_odd_factor n'" for n'
    using that calculation(1) next_good_le [of "2 * m + 1" n'] by auto
  ultimately show "let n = size_search (2 * m + 1) 3 in
      2 * m + 1 \<le> n \<and> odd n \<and> no_odd_factor n \<and>
      (\<forall>n'. 2 * m + 1 \<le> n' \<and> odd n' \<and> no_odd_factor n' \<longrightarrow> n \<le> n')"
    unfolding Let_def n_def by blast
qed (use resize_inv [of h] in simp_all)

theorem hash_resize_sound_witness:
  "hash_inv (resize DohNewHash) \<and> odd (size_search (2 * 7 + 1) 3)"
  using hash_resize_sound [of 7 DohNewHash] DohNewHash_inv
  by (simp add: hash_inv_def Let_def)

section \<open>Interning\<close>

text \<open>
  C10. Interned keys are unique for the life of the program: after interning any list of C
  strings, interning one of them again finds the object made the first time and allocates nothing,
  and equal strings have been given equal objects.
\<close>

theorem find_key_interns:
  assumes "intern_all ns root cs = (xs, es, root')" and "i < length cs"
  shows "find_key ns' root' (cs ! i) = (xs ! i, [], root') \<and>
    (\<forall>j<length cs. cs ! j = cs ! i \<longrightarrow> xs ! j = xs ! i)"
proof -
  have f: "\<forall>j<length cs. kt_find root' (cs ! j) = Some (xs ! j)"
    using intern_all_find [OF assms(1)] by simp
  obtain y es1 t1 where 1: "find_key ns' root' (cs ! i) = (y, es1, t1)" by (metis prod_cases3)
  have "y = xs ! i \<and> es1 = [] \<and> t1 = root'"
    using find_key_find [OF 1] f assms(2) by simp
  moreover have "xs ! j = xs ! i" if "j < length cs" "cs ! j = cs ! i" for j
    using f that assms(2) by (metis option.inject)
  ultimately show ?thesis using 1 by simp
qed

theorem find_key_interns_witness:
  "find_key (\<lambda>_. 99) (snd (snd (intern_all length KNil [''name'', ''type'', ''kind'', ''name'']))) ''type''
   = (4, [], snd (snd (intern_all length KNil [''name'', ''type'', ''kind'', ''name''])))"
  using find_key_interns [of length KNil "[''name'', ''type'', ''kind'', ''name'']" "[4, 4, 4, 4]" _ _ 1 "\<lambda>_. 99"]
  by (simp add: Let_def)

section \<open>Copies and references\<close>

lemma copy_nodes_map:
  "\<lbrakk>hash_inv h; copy_nodes ns h = (es, h')\<rbrakk> \<Longrightarrow>
   hash_inv h' \<and> hash_map h' = hash_map h ++ map_of (rev (map assoc ns)) \<and>
   int (count_list (held (nodes h')) a) = int (count_list (held (nodes h)) a) + rc_delta a es"
proof (induction ns arbitrary: h es)
  case (Cons n ns)
  obtain k x where n: "n = (k, x)" by (cases n)
  obtain r es1 h1 where 1: "hash_setkey h k x = (r, es1, h1)" by (metis prod_cases3)
  obtain es2 where 2: "copy_nodes ns h1 = (es2, h')" "es = es1 @ es2"
    using Cons.prems(2) 1 by (auto simp: n split: prod.splits)
  note s1 = hash_setkey_map [OF Cons.prems(1) 1]
  have "hash_map h1 ++ map_of (rev (map assoc ns)) = hash_map h ++ map_of (rev (map assoc (n # ns)))"
    by (simp add: n s1(2) fun_eq_iff map_add_def split: option.split)
  then show ?case
    using Cons.IH [OF s1(1) 2(1)] hash_setkey_balance [OF Cons.prems(1) 1, of a]
    by (simp add: 2(2))
qed simp

lemma empty_buckets: "concat (replicate n []) = []"
  by (induction n) auto

text \<open>
  C11. Reference counts follow the contents of a hash table: setting (new, replaced or the same
  object), deleting, clearing and copying an attribute table change the count of every object by
  exactly the change in the number of places that hold it as a key or as a value; and a copy is a
  table with the same attributes that satisfies the invariant.
\<close>

theorem hash_reference_balance:
  assumes "hash_inv h"
  shows "(\<forall>k x r es h'. hash_setkey h k x = (r, es, h') \<longrightarrow>
      rc_delta a es = int (count_list (held (nodes h')) a) - int (count_list (held (nodes h)) a)) \<and>
    (\<forall>k r es h'. hash_delkey h k = (r, es, h') \<longrightarrow>
      rc_delta a es = int (count_list (held (nodes h')) a) - int (count_list (held (nodes h)) a)) \<and>
    (\<forall>es h'. Hash_clear h = (es, h') \<longrightarrow> hash_inv h' \<and> hash_map h' = (\<lambda>_. None) \<and>
      rc_delta a es = - int (count_list (held (nodes h)) a)) \<and>
    (\<forall>es nh. CopyHash h = (es, nh) \<longrightarrow> hash_inv nh \<and> hash_map nh = hash_map h \<and>
      rc_delta a es = int (count_list (held (nodes nh)) a) + (if hfile h = Some a then 1 else 0))"
proof (intro conjI allI impI)
  fix k x r es h' assume "hash_setkey h k x = (r, es, h')"
  then show "rc_delta a es = int (count_list (held (nodes h')) a) - int (count_list (held (nodes h)) a)"
    using hash_setkey_balance [OF assms, of k x r es h' a] by simp
next
  fix k r es h' assume "hash_delkey h k = (r, es, h')"
  then show "rc_delta a es = int (count_list (held (nodes h')) a) - int (count_list (held (nodes h)) a)"
    using hash_delkey_balance [OF assms, of k r es h' a] by simp
next
  fix es h' assume c: "Hash_clear h = (es, h')"
  have "concat (map (\<lambda>_. []) xs) = []" for xs :: "hnode list list" by (induction xs) auto
  then have n: "nodes h' = []" "hashtable h' = map (\<lambda>_. []) (hashtable h)" "hnitems h' = 0" 
    "hashsize h' = hashsize h" using c by (auto simp: Hash_clear_def nodes_def)
  then show "hash_inv h'" using assms by (auto simp: hash_inv_def placed_def)
  show "hash_map h' = (\<lambda>_. None)" by (simp add: hash_map_def n fun_eq_iff)
  show "rc_delta a es = - int (count_list (held (nodes h)) a)"
    using c by (auto simp: Hash_clear_def rc_delta_DelNode nodes_def)
next
  fix es nh assume c: "CopyHash h = (es, nh)"
  define h0 where "h0 = h\<lparr>hashtable := replicate (hashsize h) [], hnitems := 0\<rparr>"
  obtain es2 where es2: "copy_nodes (nodes h) h0 = (es2, nh)"
    "es = (case hfile h of None \<Rightarrow> [] | Some f \<Rightarrow> [RcIncref f]) @ es2"
    using c by (auto simp: CopyHash_def h0_def nodes_def split: prod.splits)
  have n0: "nodes h0 = []" by (simp add: h0_def nodes_def empty_buckets)
  have "hash_inv h0" using assms n0 by (auto simp: hash_inv_def placed_def h0_def)
  note cn = copy_nodes_map [OF this es2(1), of a]
  show "hash_inv nh" using cn by simp
  have "map_of (rev (map assoc (nodes h))) = map_of (map assoc (nodes h))"
    using map_of_mset [of "rev (nodes h)" "nodes h"] assms by (simp add: hash_inv_def rev_map)
  then show "hash_map nh = hash_map h" using cn n0 by (simp add: hash_map_def)
  show "rc_delta a es = int (count_list (held (nodes nh)) a) + (if hfile h = Some a then 1 else 0)"
    using cn n0 by (auto simp: es2(2) split: option.split)
qed

theorem hash_reference_balance_witness:
  "hash_inv (snd (CopyHash DohNewHash)) \<and> hash_map (snd (CopyHash DohNewHash)) = (\<lambda>_. None)"
  using hash_reference_balance [of DohNewHash 0] DohNewHash_inv
  by (metis prod.collapse)

end
