(* ===== verification/SwigTypeObj.thy ===== *)
theory SwigTypeObj
  imports SwigPrelude
begin

text \<open>
  The type strings of Source/Swig/typeobj.c: a C type is a text, its constructors prefixes that
  end in a dot (\<open>p.\<close>, \<open>r.\<close>, \<open>q(const).\<close>, \<open>a(3).\<close>, \<open>m(C).\<close>, \<open>f(int,p.char).\<close>), its base the rest.
  A \<open>SwigType *\<close> is a string object; here it is its text, which is what the edits of
  \<open>DohText\<close> are about, and an operation that changes it returns the new text. \<open>None\<close> is a NULL
  result.
\<close>

type_synonym stype = string

section \<open>Elements\<close>

text \<open>\<open>element_size\<close>: up to and including the first dot outside of parentheses.\<close>

function element_size :: "string \<Rightarrow> nat" where
  "element_size [] = 0"
| "element_size (x # xs) =
     (if x = CHR ''.'' then 1
      else if x = CHR ''('' then
        (let k = bracket_len (CHR ''('') (CHR '')'') 1 xs in
         if drop k xs = [] then Suc k
         else Suc (Suc k) + element_size (drop (Suc k) xs))
      else Suc (element_size xs))"
  by pat_completeness auto
termination by (relation "measure length") auto

definition SwigType_del_element :: "stype \<Rightarrow> stype" where
  "SwigType_del_element t = drop (element_size t) t"

definition SwigType_pop :: "stype \<Rightarrow> (stype \<times> stype) option" where
  "SwigType_pop t =
     (if t = [] then None
      else let sz = element_size t;
               rest = drop sz t
           in Some (take sz t, if starts_with ''.'' rest then drop 1 rest else rest))"

text \<open>The type after a \<open>SwigType_pop\<close> whose result is thrown away.\<close>

definition pop_rest :: "stype \<Rightarrow> stype" where
  "pop_rest t = (case SwigType_pop t of None \<Rightarrow> t | Some (e, t') \<Rightarrow> t')"

fun SwigType_parm :: "stype \<Rightarrow> string option" where
  "SwigType_parm [] = None"
| "SwigType_parm (x # xs) =
     (if x = CHR ''.'' then None
      else if x = CHR ''('' then Some (take (bracket_len (CHR ''('') (CHR '')'') 1 xs) xs)
      else SwigType_parm xs)"

lemma element_size_le [len_le]: "element_size t \<le> length t"
proof (induction t rule: element_size.induct)
  case (2 x xs)
  define k where "k = bracket_len (CHR ''('') (CHR '')'') (Suc 0) xs"
  have "k \<le> length xs" unfolding k_def by (rule bracket_len_le)
  with 2 show ?case by (auto simp: Let_def simp flip: k_def)
qed simp

lemma element_size_pos [simp]: "t \<noteq> [] \<Longrightarrow> 0 < element_size t"
  by (cases t) (auto simp: Let_def)

function SwigType_split :: "stype \<Rightarrow> stype list" where
  "SwigType_split t =
     (if t = [] then []
      else let len = element_size t;
               rest = drop len t
           in take len t # SwigType_split (if starts_with ''.'' rest then drop 1 rest else rest))"
  by pat_completeness auto
termination
proof (relation "measure length", goal_cases)
  case (2 t x xa)
  then show ?case using element_size_pos [of t] by (auto simp: Let_def)
qed simp

declare SwigType_split.simps [simp del]

text \<open>
  The loop of \<open>SwigType_parmlist\<close>. \<open>cur\<close> is the text from \<open>itemstart\<close> to the current position.
\<close>

function parmlist_loop :: "string \<Rightarrow> string \<Rightarrow> string list" where
  "parmlist_loop cur [] = (if cur = [] then [] else [cur])"
| "parmlist_loop cur (x # xs) =
     (if x = CHR '','' then cur # parmlist_loop [] xs
      else if x = CHR ''('' then
        (let k = bracket_len (CHR ''('') (CHR '')'') 1 xs
         in parmlist_loop (cur @ x # take (Suc k) xs) (drop (Suc k) xs))
      else if x = CHR '')'' then (if cur = [] then [] else [cur])
      else parmlist_loop (cur @ [x]) xs)"
  by pat_completeness auto
termination by (relation "measure (\<lambda>(c, s). length s)") auto

fun SwigType_parmlist :: "string \<Rightarrow> string list option res" where
  "SwigType_parmlist [] = Inr None"
| "SwigType_parmlist (x # xs) =
     (if x = CHR ''('' then Inr (Some (parmlist_loop [] xs))
      else if x = CHR ''.'' then Inl Assertion
      else SwigType_parmlist xs)"

section \<open>Pointers and references\<close>

text \<open>\<open>if (strncmp(c, "q(", 2) == 0) { c = strchr(c, '.'); ... c++; }\<close>\<close>

definition skip_qualifier :: "stype \<Rightarrow> stype option" where
  "skip_qualifier t =
     (if starts_with ''q('' t then map_option tl (strchr t (CHR ''.'')) else Some t)"

definition SwigType_add_pointer :: "stype \<Rightarrow> stype" where
  "SwigType_add_pointer t = ''p.'' @ t"

definition SwigType_del_pointer :: "stype \<Rightarrow> stype res" where
  "SwigType_del_pointer t =
     (case skip_qualifier t of
        None \<Rightarrow> Inl Assertion
      | Some c \<Rightarrow> if starts_with ''p.'' c then Inr (drop 2 c) else Inl Aborts)"

definition SwigType_ispointer :: "stype \<Rightarrow> bool" where
  "SwigType_ispointer t =
     (case skip_qualifier t of None \<Rightarrow> False | Some c \<Rightarrow> starts_with ''p.'' c)"

definition SwigType_add_reference :: "stype \<Rightarrow> stype" where
  "SwigType_add_reference t = ''r.'' @ t"

definition SwigType_del_reference :: "stype \<Rightarrow> stype res" where
  "SwigType_del_reference t = (if starts_with ''r.'' t then Inr (drop 2 t) else Inl Assertion)"

definition SwigType_isreference :: "stype \<Rightarrow> bool" where
  "SwigType_isreference t = starts_with ''r.'' t"

section \<open>Qualifiers\<close>

text \<open>
  \<open>strtok\<close> with the delimiters of \<open>SwigType_add_qualifier\<close>: the tokens of a text, all of them.
\<close>

definition is_delim :: "char \<Rightarrow> bool" where
  "is_delim c \<longleftrightarrow> c = CHR '' '' \<or> c = CHR '')'' \<or> c = CHR ''.''"

function strtok_all :: "string \<Rightarrow> string list" where
  "strtok_all s =
     (let r = dropWhile is_delim s
      in if r = [] then [] else takeWhile (\<lambda>c. \<not> is_delim c) r
           # strtok_all (dropWhile (\<lambda>c. \<not> is_delim c) r))"
  by pat_completeness auto
termination
proof (relation "measure length", goal_cases)
  case (2 s r)
  then obtain c r' where "r = c # r'" "\<not> is_delim c"
    by (metis hd_dropWhile list.exhaust_sel)
  then have "length (dropWhile (\<lambda>c. \<not> is_delim c) r) < length r"
    using length_dropWhile_le [of "\<lambda>c. \<not> is_delim c" r'] by simp
  then show ?case using 2(1) length_dropWhile_le [of is_delim s] by simp
qed simp

declare strtok_all.simps [simp del]

text \<open>\<open>strcmp(a, b) < 0\<close>, on unsigned characters.\<close>

fun str_less :: "string \<Rightarrow> string \<Rightarrow> bool" where
  "str_less s [] = False"
| "str_less [] (c # t) = True"
| "str_less (b # s) (c # t) = (if b = c then str_less s t else (of_char b :: nat) < of_char c)"

text \<open>
  The loop over the qualifiers there are: the text appended to \<open>newq\<close>, and \<open>added\<close>. A separating
  blank follows each token but the last.
\<close>

fun qual_loop :: "string \<Rightarrow> string list \<Rightarrow> string \<times> bool" where
  "qual_loop cqual [] = ([], False)"
| "qual_loop cqual (q # qs) =
     (case qual_loop cqual qs of (rest, added) \<Rightarrow>
        ((if str_less cqual q then cqual @ '' '' @ q else q) @ (if qs = [] then [] else '' '') @ rest,
         str_less cqual q \<or> added))"

text \<open>
  \<open>SwigType_add_qualifier\<close>. The buffers have 256 characters. \<open>strncpy(temp, c, sz)\<close> copies the
  element without a terminating NUL, so what \<open>strstr\<close> and \<open>strtok\<close> read goes on with what the
  uninitialised buffer happens to hold after it, up to its first NUL: \<open>junk\<close>.
\<close>

definition SwigType_add_qualifier :: "string \<Rightarrow> stype \<Rightarrow> string \<Rightarrow> stype res" where
  "SwigType_add_qualifier junk t cqual =
     (if \<not> starts_with ''q('' t
      then (if length cqual + 4 < 256 then Inr (''q('' @ cqual @ '').'' @ t) else Inl Out_of_bounds)
      else let sz = element_size t;
               temp = take sz t @ junk
           in if 256 \<le> length temp then Inl Out_of_bounds
              else if strstr temp cqual \<noteq> None then Inr t
              else (case qual_loop cqual (strtok_all (drop 2 temp)) of (body, added) \<Rightarrow>
                let newq = ''q('' @ body @ (if added then [] else '' '' @ cqual) @ '').''
                in if 256 \<le> length newq then Inl Out_of_bounds else Inr (newq @ drop sz t)))"

definition SwigType_del_qualifier :: "stype \<Rightarrow> stype res" where
  "SwigType_del_qualifier t =
     (if starts_with ''q('' t then Inr (SwigType_del_element t) else Inl Assertion)"

definition SwigType_isqualifier :: "stype \<Rightarrow> bool" where
  "SwigType_isqualifier t = starts_with ''q('' t"

section \<open>Function and member pointers\<close>

definition SwigType_isfunctionpointer :: "stype \<Rightarrow> bool" where
  "SwigType_isfunctionpointer t = starts_with ''p.f('' t"

text \<open>The parameters and what is left of the type; a second pop of nothing returns NULL.\<close>

definition SwigType_functionpointer_decompose :: "stype \<Rightarrow> (stype option \<times> stype) res" where
  "SwigType_functionpointer_decompose t =
     (if \<not> SwigType_isfunctionpointer t then Inl Assertion
      else let t1 = pop_rest t
           in Inr (case SwigType_pop t1 of None \<Rightarrow> (None, t1) | Some (p, t2) \<Rightarrow> (Some p, t2)))"

definition SwigType_add_memberpointer :: "stype \<Rightarrow> string \<Rightarrow> stype" where
  "SwigType_add_memberpointer t name = ''m('' @ name @ '').'' @ t"

definition SwigType_del_memberpointer :: "stype \<Rightarrow> stype res" where
  "SwigType_del_memberpointer t =
     (if starts_with ''m('' t then Inr (SwigType_del_element t) else Inl Assertion)"

definition SwigType_ismemberpointer :: "stype \<Rightarrow> bool" where
  "SwigType_ismemberpointer t = starts_with ''m('' t"

section \<open>Arrays\<close>

text \<open>The buffer of \<open>SwigType_add_array\<close> has 512 characters.\<close>

definition SwigType_add_array :: "stype \<Rightarrow> string \<Rightarrow> stype res" where
  "SwigType_add_array t sz =
     (if length sz + 4 < 512 then Inr (''a('' @ sz @ '').'' @ t) else Inl Out_of_bounds)"

definition SwigType_del_array :: "stype \<Rightarrow> stype res" where
  "SwigType_del_array t =
     (if starts_with ''a('' t then Inr (SwigType_del_element t) else Inl Assertion)"

definition SwigType_isarray :: "stype \<Rightarrow> bool" where
  "SwigType_isarray t = starts_with ''a('' t"

text \<open>\<open>c = strchr(c, '.'); c++;\<close>: without a dot the pointer is one past NULL and is read next.\<close>

definition after_dot :: "string \<Rightarrow> string res" where
  "after_dot c = (case strchr c (CHR ''.'') of None \<Rightarrow> Inl Undefined | Some r \<Rightarrow> Inr (tl r))"

definition SwigType_prefix_is_simple_1D_array :: "stype \<Rightarrow> bool res" where
  "SwigType_prefix_is_simple_1D_array t =
     (if starts_with ''a('' t then rbind (after_dot t) (\<lambda>c. Inr (c = [])) else Inr False)"

lemma after_dot_length: "after_dot c = Inr r \<Longrightarrow> length r < length c"
  by (auto simp: after_dot_def strchr_Some_iff split: option.splits)

lemma pop_rest_length: "t \<noteq> [] \<Longrightarrow> length (pop_rest t) < length t"
  using element_size_pos [of t] by (auto simp: pop_rest_def SwigType_pop_def Let_def)

function pop_arrays_loop :: "stype \<Rightarrow> string \<times> stype" where
  "pop_arrays_loop t =
     (if SwigType_isarray t
      then (case SwigType_pop t of None \<Rightarrow> ([], t)
            | Some (td, t') \<Rightarrow> (case pop_arrays_loop t' of (ta, t'') \<Rightarrow> (td @ ta, t'')))
      else ([], t))"
  by pat_completeness auto
termination
proof (relation "measure length", goal_cases)
  case (2 t x td t')
  then show ?case using pop_rest_length [of t] by (cases t) (auto simp: pop_rest_def SwigType_isarray_def)
qed simp

declare pop_arrays_loop.simps [simp del]

definition SwigType_pop_arrays :: "stype \<Rightarrow> (string \<times> stype) res" where
  "SwigType_pop_arrays t =
     (if SwigType_isarray t then Inr (pop_arrays_loop t) else Inl Assertion)"

definition SwigType_array_type :: "stype \<Rightarrow> stype" where
  "SwigType_array_type t = snd (pop_arrays_loop t)"

function SwigType_array_ndim :: "stype \<Rightarrow> nat res" where
  "SwigType_array_ndim c =
     (if starts_with ''a('' c
      then (case after_dot c of Inl e \<Rightarrow> Inl e | Inr c' \<Rightarrow> rbind (SwigType_array_ndim c') (\<lambda>n. Inr (Suc n)))
      else Inr 0)"
  by pat_completeness auto
termination by (relation "measure length") (auto dest: after_dot_length)

declare SwigType_array_ndim.simps [simp del]

text \<open>The walk to the \<open>n\<close>-th dimension: what is left of the count, and the position.\<close>

fun array_walk :: "nat \<Rightarrow> string \<Rightarrow> (nat \<times> string) res" where
  "array_walk 0 c = Inr (0, c)"
| "array_walk (Suc n) c =
     (if starts_with ''a('' c then (case after_dot c of Inl e \<Rightarrow> Inl e | Inr c' \<Rightarrow> array_walk n c')
      else Inr (Suc n, c))"

definition SwigType_array_setdim :: "stype \<Rightarrow> nat \<Rightarrow> string \<Rightarrow> stype res" where
  "SwigType_array_setdim t n rep =
     (if \<not> starts_with ''a('' t then Inl Aborts
      else rbind (array_walk n t) (\<lambda>(m, c).
        Inr (if m = 0
             then take (length t - length c) t @ ''a('' @ rep @ '')'' @
                  (case strchr c (CHR ''.'') of None \<Rightarrow> [] | Some r \<Rightarrow> r)
             else [])))"

section \<open>Functions\<close>

text \<open>The attributes of a parameter node that this file reads.\<close>

record parm =
  p_name :: "string option"
  p_type :: "string option"
  p_value :: "string option"
  p_default :: "string option"

definition NewParm :: "string \<Rightarrow> parm" where
  "NewParm ty = \<lparr>p_name = None, p_type = Some ty, p_value = None, p_default = None\<rparr>"

abbreviation str_or_empty :: "string option \<Rightarrow> string" where
  "str_or_empty x \<equiv> (case x of None \<Rightarrow> [] | Some s \<Rightarrow> s)"

fun comma_types :: "parm list \<Rightarrow> string" where
  "comma_types [] = []"
| "comma_types [p] = str_or_empty (p_type p)"
| "comma_types (p # ps) = str_or_empty (p_type p) @ '','' @ comma_types ps"

definition SwigType_add_function :: "stype \<Rightarrow> parm list \<Rightarrow> stype" where
  "SwigType_add_function t ps = ''f('' @ comma_types ps @ '').'' @ t"

definition SwigType_push :: "stype \<Rightarrow> string \<Rightarrow> stype" where
  "SwigType_push t cons =
     (if cons = [] then t
      else if t \<noteq> [] \<and> last cons \<noteq> CHR ''.'' then cons @ ''.'' @ t else cons @ t)"

text \<open>The popped function element, and the type without it.\<close>

definition SwigType_pop_function :: "stype \<Rightarrow> (stype \<times> stype) res" where
  "SwigType_pop_function t =
     (case (if starts_with ''q('' t then SwigType_pop t else None) of
        Some (f, t1) \<Rightarrow>
          (if starts_with ''f('' t1
           then (case SwigType_pop t1 of Some (g, t2) \<Rightarrow> Inr (SwigType_push g f, t2)
                 | None \<Rightarrow> Inl Aborts)
           else Inl Aborts)
      | None \<Rightarrow>
          (if starts_with ''f('' t
           then (case SwigType_pop t of Some (g, t2) \<Rightarrow> Inr (g, t2) | None \<Rightarrow> Inl Aborts)
           else Inl Aborts))"

definition SwigType_isfunction :: "stype \<Rightarrow> bool" where
  "SwigType_isfunction t =
     (case skip_qualifier t of None \<Rightarrow> False | Some c \<Rightarrow> starts_with ''f('' c)"

definition SwigType_function_parms :: "stype \<Rightarrow> parm list res" where
  "SwigType_function_parms t =
     rbind (SwigType_parmlist t)
       (\<lambda>l. Inr (case l of None \<Rightarrow> [] | Some items \<Rightarrow> map NewParm items))"

definition SwigType_isvarargs :: "stype \<Rightarrow> bool" where
  "SwigType_isvarargs t \<longleftrightarrow> t = ''v(...)''"

section \<open>Templates\<close>

text \<open>A comma goes before every parameter but the first of the list, the skipped ones included.\<close>

fun template_parms :: "bool \<Rightarrow> parm list \<Rightarrow> string" where
  "template_parms first [] = []"
| "template_parms first (p # ps) =
     (if p_default p \<noteq> None then template_parms False ps
      else (if first then [] else '','') @
           (case p_value p of Some v \<Rightarrow> v | None \<Rightarrow> str_or_empty (p_type p)) @
           template_parms False ps)"

definition SwigType_add_template :: "stype \<Rightarrow> parm list \<Rightarrow> stype" where
  "SwigType_add_template t ps = t @ ''<('' @ template_parms True ps @ '')>''"

definition SwigType_templateprefix :: "stype \<Rightarrow> string" where
  "SwigType_templateprefix t =
     (case strstr t ''<('' of None \<Rightarrow> t | Some c \<Rightarrow> take (length t - length c) t)"

fun SwigType_templatesuffix :: "stype \<Rightarrow> string" where
  "SwigType_templatesuffix [] = []"
| "SwigType_templatesuffix (x # xs) =
     (if x = CHR ''<'' \<and> starts_with ''('' xs then skip_nest (CHR ''<'') (CHR ''>'') 1 xs
      else SwigType_templatesuffix xs)"

fun SwigType_templateargs :: "stype \<Rightarrow> string option" where
  "SwigType_templateargs [] = None"
| "SwigType_templateargs (x # xs) =
     (if x = CHR ''<'' \<and> starts_with ''('' xs
      then Some (take (Suc (length xs) - length (skip_nest (CHR ''<'') (CHR ''>'') 1 xs)) (x # xs))
      else SwigType_templateargs xs)"

definition SwigType_istemplate :: "stype \<Rightarrow> bool" where
  "SwigType_istemplate t =
     (case strstr t ''<('' of None \<Rightarrow> False | Some ct \<Rightarrow> strstr (drop 2 ct) '')>'' \<noteq> None)"

section \<open>Base and prefix\<close>

text \<open>
  The loop of \<open>SwigType_base\<close>: \<open>lastop\<close> is the suffix after the last separating dot so far. A
  bracket that is not closed ends the search.
\<close>

function base_loop :: "string \<Rightarrow> string \<Rightarrow> string" where
  "base_loop lastop [] = lastop"
| "base_loop lastop (x # xs) =
     (if x = CHR ''.'' then base_loop (if xs \<noteq> [] then xs else lastop) xs
      else if x = CHR ''<'' then
        (if nest_left (CHR ''<'') (CHR ''>'') 1 xs \<noteq> 0 then lastop
         else base_loop lastop (skip_nest (CHR ''<'') (CHR ''>'') 1 xs))
      else if x = CHR ''('' then
        (if nest_left (CHR ''('') (CHR '')'') 1 xs \<noteq> 0 then lastop
         else base_loop lastop (skip_nest (CHR ''('') (CHR '')'') 1 xs))
      else base_loop lastop xs)"
  by pat_completeness auto
termination
  by (relation "measure (\<lambda>(l, s). length s)") (auto simp: less_Suc_eq_le skip_nest_length)

definition SwigType_base :: "stype \<Rightarrow> stype" where
  "SwigType_base t = base_loop t t"

text \<open>
  \<open>SwigType_prefix\<close> walks backwards; \<open>d\<close> is the index of the pointer. The inner loop is
  \<open>while ((d > c) && nest) { if (*d == r) nest++; if (*d == l) nest--; d--; }\<close>.
\<close>

fun back_skip :: "char \<Rightarrow> char \<Rightarrow> string \<Rightarrow> nat \<Rightarrow> nat \<Rightarrow> nat" where
  "back_skip l r t 0 d = d"
| "back_skip l r t (Suc n) 0 = 0"
| "back_skip l r t (Suc n) (Suc d) =
     (if t ! Suc d = r then back_skip l r t (Suc (Suc n)) d
      else if t ! Suc d = l then back_skip l r t n d
      else back_skip l r t (Suc n) d)"

lemma back_skip_le [len_le]: "back_skip l r t n d \<le> d"
  by (induction l r t n d rule: back_skip.induct) auto

text \<open>
  \<open>if (*d == r) { nest = 1; d--; ... }\<close>; when the bracket is the first character the pointer
  leaves the string and is read there.
\<close>

definition back_group :: "char \<Rightarrow> char \<Rightarrow> string \<Rightarrow> nat \<Rightarrow> nat res" where
  "back_group l r t d =
     (if t ! d = r then (if d = 0 then Inl Out_of_bounds else Inr (back_skip l r t 1 (d - 1)))
      else Inr d)"

lemma back_group_le: "back_group l r t d = Inr d' \<Longrightarrow> d' \<le> d"
  using back_skip_le [of l r t 1 "d - 1"] by (auto simp: back_group_def split: if_splits)

function prefix_loop :: "string \<Rightarrow> nat \<Rightarrow> string res" where
  "prefix_loop t 0 = Inr []"
| "prefix_loop t (Suc d) =
     (case back_group (CHR ''<'') (CHR ''>'') t d of Inl e \<Rightarrow> Inl e
      | Inr d2 \<Rightarrow>
          (case back_group (CHR ''('') (CHR '')'') t d2 of Inl e \<Rightarrow> Inl e
           | Inr d3 \<Rightarrow> if t ! d3 = CHR ''.'' then Inr (take (Suc d3) t) else prefix_loop t d3))"
  by pat_completeness auto
termination
  by (relation "measure snd") (auto dest!: back_group_le)

declare prefix_loop.simps [simp del]

definition SwigType_prefix :: "stype \<Rightarrow> string res" where
  "SwigType_prefix t =
     (let d = length t
      in prefix_loop t (if 0 < d \<and> t ! (d - 1) = CHR ''.'' then d - 1 else d))"

section \<open>Stripping qualifiers\<close>

text \<open>The static table of results is threaded through.\<close>

definition strip_elements :: "stype \<Rightarrow> stype" where
  "strip_elements t = concat (filter (\<lambda>e. \<not> SwigType_isqualifier e) (SwigType_split t))"

definition SwigType_strip_qualifiers ::
  "(stype \<Rightarrow> stype option) \<Rightarrow> stype \<Rightarrow> stype \<times> (stype \<Rightarrow> stype option)" where
  "SwigType_strip_qualifiers memo t =
     (case memo t of
        Some r \<Rightarrow> (r, memo)
      | None \<Rightarrow> let r = strip_elements t in (r, memo(t \<mapsto> r)))"

end
