(* ===== verification/TypeObjSpec.thy ===== *)
theory TypeObjSpec
  imports SwigTypeObj
begin

text \<open>
  Type strings as values: a type is a list of constructors and a base. The functions of
  Source/Swig/typeobj.c are shown to build, take apart and query such types as the constructors
  say, on every nesting of parentheses and template brackets that balances.
\<close>

section \<open>Constructors\<close>

datatype tcons = TPtr | TRef | TQual string | TArr string | TMem string | TFun "string list"

abbreviation paren_ok :: "string \<Rightarrow> bool" where
  "paren_ok \<equiv> balanced (CHR ''('') (CHR '')'')"

fun comma_text :: "string list \<Rightarrow> string" where
  "comma_text [] = []"
| "comma_text [a] = a"
| "comma_text (a # as) = a @ '','' @ comma_text as"

fun cons_text :: "tcons \<Rightarrow> string" where
  "cons_text TPtr = ''p.''"
| "cons_text TRef = ''r.''"
| "cons_text (TQual s) = ''q('' @ s @ '').''"
| "cons_text (TArr s) = ''a('' @ s @ '').''"
| "cons_text (TMem s) = ''m('' @ s @ '').''"
| "cons_text (TFun as) = ''f('' @ comma_text as @ '').''"

text \<open>An argument: not empty, its parentheses balance, no comma outside of them.\<close>

fun no_comma_from :: "nat \<Rightarrow> string \<Rightarrow> bool" where
  "no_comma_from n [] = True"
| "no_comma_from n (x # xs) =
     (if x = CHR ''('' then no_comma_from (Suc n) xs
      else if x = CHR '')'' then no_comma_from (n - 1) xs
      else (x = CHR '','' \<longrightarrow> n \<noteq> 0) \<and> no_comma_from n xs)"

definition arg_ok :: "string \<Rightarrow> bool" where
  "arg_ok a \<longleftrightarrow> a \<noteq> [] \<and> paren_ok a \<and> no_comma_from 0 a"

fun cons_ok :: "tcons \<Rightarrow> bool" where
  "cons_ok (TQual s) = paren_ok s"
| "cons_ok (TArr s) = paren_ok s"
| "cons_ok (TMem s) = paren_ok s"
| "cons_ok (TFun as) = list_all arg_ok as"
| "cons_ok _ = True"

text \<open>A base: one element, which does not begin with a dot.\<close>

definition base_ok :: "string \<Rightarrow> bool" where
  "base_ok b \<longleftrightarrow> b \<noteq> [] \<and> hd b \<noteq> CHR ''.'' \<and> element_size b = length b"

definition type_text :: "tcons list \<Rightarrow> string \<Rightarrow> stype" where
  "type_text es b = concat (map cons_text es) @ b"

lemma type_text_simps [simp]:
  "type_text [] b = b" "type_text (e # es) b = cons_text e @ type_text es b"
  by (simp_all add: type_text_def)

lemma paren_ok_comma: "list_all arg_ok as \<Longrightarrow> paren_ok (comma_text as)"
proof (induction as rule: comma_text.induct)
  case (3 a b as)
  then show ?case by (auto simp: arg_ok_def intro!: balanced_append)
qed (auto simp: arg_ok_def)

section \<open>Elements\<close>

lemma element_size_dot [simp]: "x \<noteq> CHR ''('' \<Longrightarrow> x \<noteq> CHR ''.'' \<Longrightarrow>
  element_size (x # CHR ''.'' # r) = 2"
  by simp

lemma element_size_paren:
  assumes "x \<noteq> CHR ''.''" and "x \<noteq> CHR ''(''" and "paren_ok s"
  shows "element_size (x # CHR ''('' # s @ CHR '')'' # CHR ''.'' # r) = length s + 4"
  using bracket_len_balanced [of "CHR ''(''" "CHR '')''" 0 s "CHR ''.'' # r"] assms
  by (simp add: Let_def)

lemma element_size_cons: "cons_ok e \<Longrightarrow> element_size (cons_text e @ r) = length (cons_text e)"
proof (cases e)
  case (TQual s)
  then show "cons_ok e \<Longrightarrow> ?thesis"
    using element_size_paren [of "CHR ''q''" s r] by (simp del: element_size.simps)
next
  case (TArr s)
  then show "cons_ok e \<Longrightarrow> ?thesis"
    using element_size_paren [of "CHR ''a''" s r] by (simp del: element_size.simps)
next
  case (TMem s)
  then show "cons_ok e \<Longrightarrow> ?thesis"
    using element_size_paren [of "CHR ''m''" s r] by (simp del: element_size.simps)
next
  case (TFun as)
  then show "cons_ok e \<Longrightarrow> ?thesis"
    using element_size_paren [of "CHR ''f''" "comma_text as" r] paren_ok_comma [of as]
    by (simp del: element_size.simps)
qed auto

lemma type_text_hd: "base_ok b \<Longrightarrow> \<not> starts_with ''.'' (type_text es b)"
proof (cases es)
  case Nil
  then show "base_ok b \<Longrightarrow> ?thesis" by (cases b) (auto simp: base_ok_def)
next
  case (Cons e es')
  then show ?thesis by (cases e) auto
qed

lemma type_text_not_Nil: "base_ok b \<Longrightarrow> type_text es b \<noteq> []"
  by (cases es) (auto simp: base_ok_def type_text_def)

lemma pop_type_text:
  "\<lbrakk>cons_ok e; base_ok b\<rbrakk> \<Longrightarrow>
   SwigType_pop (type_text (e # es) b) = Some (cons_text e, type_text es b)"
  using type_text_hd [of b es] type_text_not_Nil [of b "e # es"]
  by (simp add: SwigType_pop_def element_size_cons Let_def)

lemma pop_base: "base_ok b \<Longrightarrow> SwigType_pop b = Some (b, [])"
  by (auto simp: SwigType_pop_def base_ok_def Let_def)

lemma split_base: "base_ok b \<Longrightarrow> SwigType_split b = [b]"
  by (subst SwigType_split.simps)
    (auto simp: base_ok_def Let_def SwigType_split.simps [of "[]"])

lemma split_type_text:
  "\<lbrakk>list_all cons_ok es; base_ok b\<rbrakk> \<Longrightarrow> SwigType_split (type_text es b) = map cons_text es @ [b]"
proof (induction es)
  case (Cons e es)
  then show ?case
    using type_text_hd [of b es] type_text_not_Nil [of b "e # es"]
    by (subst SwigType_split.simps) (simp add: Let_def element_size_cons)
qed (simp add: split_base)

lemma strchr_paren: "c \<notin> set s \<Longrightarrow> c \<noteq> z \<Longrightarrow> strchr (s @ z # c # r) c = Some (c # r)"
  using strchr_append [of c "s @ [z]" r] by simp

lemma del_element_cons: "cons_ok e \<Longrightarrow> SwigType_del_element (cons_text e @ r) = r"
  by (simp add: SwigType_del_element_def element_size_cons)



section \<open>Parameter lists\<close>

text \<open>An opening bracket of a balanced text is closed again.\<close>

lemma balanced_close:
  assumes "l \<noteq> r" and "balanced_from l r (Suc n) s"
  obtains p q where "s = p @ r # q" and "balanced l r p" and "balanced_from l r n q"
proof -
  have "\<exists>p q. s = p @ r # q \<and> balanced_from l r m p \<and> balanced_from l r n q"
    if "balanced_from l r (Suc (m + n)) s" for m
    using that
  proof (induction s arbitrary: m)
    case (Cons x xs)
    show ?case
    proof (cases "x = r \<and> m = 0")
      case True
      then show ?thesis using Cons.prems assms(1) by (intro exI [of _ "[]"] exI [of _ xs]) auto
    next
      case False
      define m' where "m' = (if x = l then Suc m else if x = r then m - 1 else m)"
      have "balanced_from l r (Suc (m' + n)) xs"
        using Cons.prems False by (auto simp: m'_def split: if_splits)
      from Cons.IH [OF this] obtain p q where "xs = p @ r # q"
        "balanced_from l r m' p" "balanced_from l r n q" by blast
      then show ?thesis using False
        by (intro exI [of _ "x # p"] exI [of _ q]) (auto simp: m'_def)
    qed
  qed simp
  from this [of 0] show thesis using assms(2) that by auto
qed

lemmas balanced_split_paren = balanced_close [of "CHR ''(''" "CHR '')''", simplified]

lemma no_comma_balanced:
  "balanced_from (CHR ''('') (CHR '')'') n p \<Longrightarrow>
   no_comma_from (n + Suc m) (p @ q) = no_comma_from (Suc m) q"
proof (induction p arbitrary: n)
  case (Cons x xs)
  show ?case
  proof (cases "x = CHR ''(''")
    case True
    then show ?thesis using Cons.IH [of "Suc n"] Cons.prems by simp
  next
    case False
    then show ?thesis
      using Cons.IH [of n] Cons.IH [of "n - 1"] Cons.prems by (cases n) (auto split: if_splits)
  qed
qed simp

text \<open>Walking over an argument collects it whole.\<close>

lemma parmlist_loop_arg:
  assumes "paren_ok a" and "no_comma_from 0 a"
  shows "parmlist_loop cur (a @ rest) = parmlist_loop (cur @ a) rest"
  using assms
proof (induction "length a" arbitrary: a cur rule: less_induct)
  case less
  show ?case
  proof (cases a)
    case (Cons x xs)
    show ?thesis
    proof (cases "x = CHR ''(''")
      case True
      then have "balanced_from (CHR ''('') (CHR '')'') (Suc 0) xs" using less.prems Cons by simp
      then obtain p q where pq: "xs = p @ CHR '')'' # q" "paren_ok p" "paren_ok q"
        by (rule balanced_split_paren)
      have "no_comma_from 0 q"
        using less.prems(2) no_comma_balanced [OF pq(2), of 0 "CHR '')'' # q"]
        by (simp add: Cons True pq(1))
      then have "parmlist_loop (cur @ CHR ''('' # p @ '')'') (q @ rest)
          = parmlist_loop ((cur @ CHR ''('' # p @ '')'') @ q) rest"
        using pq(1,3) Cons by (intro less.hyps) auto
      moreover have "bracket_len (CHR ''('') (CHR '')'') (Suc 0) (xs @ rest) = length p"
        using bracket_len_balanced [OF _ pq(2), of "q @ rest"] by (simp add: pq(1))
      ultimately show ?thesis by (simp add: Cons True pq(1) Let_def)
    next
      case False
      moreover have "x \<noteq> CHR '')''" "x \<noteq> CHR '',''" "paren_ok xs" "no_comma_from 0 xs"
        using less.prems False Cons by (auto split: if_splits)
      ultimately show ?thesis using less.hyps [of xs "cur @ [x]"] by (simp add: Cons)
    qed
  qed simp
qed

lemma parmlist_loop_args:
  "list_all arg_ok as \<Longrightarrow> parmlist_loop [] (comma_text as @ CHR '')'' # r) = as"
proof (induction as rule: comma_text.induct)
  case (2 a)
  then show ?case by (simp add: parmlist_loop_arg arg_ok_def)
next
  case (3 a b as)
  then show ?case by (simp add: parmlist_loop_arg arg_ok_def)
qed simp

lemma comma_types_text: "comma_types ps = comma_text (map (\<lambda>p. str_or_empty (p_type p)) ps)"
  by (induction ps rule: comma_types.induct) auto

text \<open>
  C13. The parameters of a function type are read back as they were written: for any parameters
  whose types are non-empty, balanced and free of commas outside of parentheses,
  \<open>SwigType_parmlist\<close> and \<open>SwigType_function_parms\<close> of the type that \<open>SwigType_add_function\<close>
  makes return those types in order, and popping the function element gives the return type back.
\<close>

theorem function_parms_roundtrip:
  assumes "list_all (\<lambda>p. \<exists>ty. p_type p = Some ty \<and> arg_ok ty) ps" and "base_ok b"
    and "list_all cons_ok es"
  defines "f \<equiv> SwigType_add_function (type_text es b) ps"
  shows "SwigType_parmlist f = Inr (Some (map (\<lambda>p. the (p_type p)) ps)) \<and>
    SwigType_function_parms f = Inr (map (\<lambda>p. NewParm (the (p_type p))) ps) \<and>
    SwigType_isfunction f \<and>
    rbind (SwigType_pop_function f) (\<lambda>r. Inr (snd r)) = Inr (type_text es b)"
proof -
  define as where "as = map (\<lambda>p. the (p_type p)) ps"
  have as: "map (\<lambda>p. str_or_empty (p_type p)) ps = as" "list_all arg_ok as"
    using assms(1) by (auto simp: as_def list_all_iff)
  have f: "f = cons_text (TFun as) @ type_text es b"
    by (simp add: f_def SwigType_add_function_def comma_types_text as(1))
  have pl: "SwigType_parmlist f = Inr (Some as)"
    by (simp add: f parmlist_loop_args [OF as(2)])
  moreover have "SwigType_function_parms f = Inr (map (\<lambda>p. NewParm (the (p_type p))) ps)"
    by (simp add: SwigType_function_parms_def pl as_def)
  moreover have "SwigType_isfunction f" by (simp add: SwigType_isfunction_def skip_qualifier_def f)
  moreover have "SwigType_pop f = Some (cons_text (TFun as), type_text es b)"
    using pop_type_text [of "TFun as" b es] assms(2) as(2) by (simp add: f)
  then have "rbind (SwigType_pop_function f) (\<lambda>r. Inr (snd r)) = Inr (type_text es b)"
    by (simp add: SwigType_pop_function_def f)
  ultimately show ?thesis by (simp add: as_def)
qed

theorem function_parms_roundtrip_witness:
  "SwigType_parmlist ''f(int,p.f(char,int).void).p.char'' = Inr (Some [''int'', ''p.f(char,int).void''])"
  using function_parms_roundtrip [of "[NewParm ''int'', NewParm ''p.f(char,int).void'']" "''char''" "[TPtr]"]
  by (simp add: NewParm_def arg_ok_def base_ok_def SwigType_add_function_def)

section \<open>Templates\<close>

lemma templateargs_None_iff: "SwigType_templateargs t = None \<longleftrightarrow> strstr t ''<('' = None"
  by (induction t) (auto simp: starts_with_iff Cons_eq_append_conv)

lemma template_none:
  "strstr t ''<('' = None \<Longrightarrow> SwigType_templateprefix t = t \<and> SwigType_templatesuffix t = []"
proof -
  assume a: "strstr t ''<('' = None"
  have "strstr t ''<('' = None \<Longrightarrow> SwigType_templatesuffix t = []"
    by (induction t) (auto simp: starts_with_iff Cons_eq_append_conv split: if_splits)
  with a show ?thesis by (simp add: SwigType_templateprefix_def)
qed

lemma template_parts:
  "\<lbrakk>SwigType_templateargs t = Some a; strstr t ''<('' = Some c\<rbrakk> \<Longrightarrow>
   c = a @ SwigType_templatesuffix t"
proof (induction t)
  case (Cons x xs)
  show ?case
  proof (cases "x = CHR ''<'' \<and> starts_with ''('' xs")
    case True
    then have c: "c = x # xs" using Cons.prems(2) by simp
    define r where "r = skip_nest (CHR ''<'') (CHR ''>'') 1 xs"
    obtain p where p: "xs = p @ r" using skip_nest_suffix r_def by metis
    have "a = take (Suc (length xs) - length r) (x # xs)"
      using Cons.prems(1) True by (simp add: r_def)
    then have "a = x # p" by (simp add: p)
    moreover have "SwigType_templatesuffix (x # xs) = r" using True by (simp add: r_def)
    ultimately show ?thesis unfolding c by (simp only: p append_Cons)
  next
    case False
    then have "\<not> starts_with ''<('' (x # xs)" by (cases xs) auto
    then show ?thesis using Cons False by auto
  qed
qed simp

lemma strstr_first:
  "strstr w ''<('' = None \<Longrightarrow> strstr (w @ CHR ''<'' # CHR ''('' # r) ''<('' = Some (CHR ''<'' # CHR ''('' # r)"
proof (induction w)
  case (Cons x w)
  have "\<not> starts_with ''<('' (x # w @ CHR ''<'' # CHR ''('' # r)"
    using Cons.prems by (cases w) (auto split: if_splits)
  then show ?case using Cons by (auto split: if_splits)
qed simp

lemma strstr_middle: "strstr (p @ t @ r) t \<noteq> None"
  by (metis strstr_None_iff sublist_appendI)

text \<open>
  C14. Template names come apart without loss: when \<open>SwigType_templateargs\<close> returns arguments, then
  the template prefix, the arguments and the suffix are the whole name again, whatever it
  contains; otherwise the prefix is the name and the suffix is empty. On a name written as a
  prefix, \<open><(\<close>, arguments whose angle brackets balance, \<open>)>\<close> and a rest, the three functions
  return these parts, and it counts as a template; the name that \<open>SwigType_add_template\<close> builds is
  such a name.
\<close>

theorem template_parts_complete:
  "(case SwigType_templateargs t of
      Some a \<Rightarrow> SwigType_templateprefix t @ a @ SwigType_templatesuffix t = t
    | None \<Rightarrow> SwigType_templateprefix t = t \<and> SwigType_templatesuffix t = [] \<and> \<not> SwigType_istemplate t) \<and>
   (strstr w ''<('' = None \<and> balanced (CHR ''<'') (CHR ''>'') inner \<longrightarrow>
      (let n = w @ ''<('' @ inner @ '')>'' @ r in
       SwigType_templateprefix n = w \<and> SwigType_templateargs n = Some (''<('' @ inner @ '')>'') \<and>
       SwigType_templatesuffix n = r \<and> SwigType_istemplate n)) \<and>
   SwigType_add_template w ps = w @ ''<('' @ template_parms True ps @ '')>''"
proof (intro conjI impI)
  show "case SwigType_templateargs t of
      Some a \<Rightarrow> SwigType_templateprefix t @ a @ SwigType_templatesuffix t = t
    | None \<Rightarrow> SwigType_templateprefix t = t \<and> SwigType_templatesuffix t = [] \<and> \<not> SwigType_istemplate t"
  proof (cases "SwigType_templateargs t")
    case None
    then have "strstr t ''<('' = None" by (simp only: templateargs_None_iff)
    then show ?thesis using template_none [of t] None by (simp add: SwigType_istemplate_def)
  next
    case (Some a)
    then obtain c where c: "strstr t ''<('' = Some c" using templateargs_None_iff [of t] by auto
    obtain p where "t = p @ c" using strstr_suffix [OF c] by blast
    with template_parts [OF Some c] Some c show ?thesis by (simp add: SwigType_templateprefix_def)
  qed
next
  assume a: "strstr w ''<('' = None \<and> balanced (CHR ''<'') (CHR ''>'') inner"
  define n where "n = w @ ''<('' @ inner @ '')>'' @ r"
  have c: "strstr n ''<('' = Some (''<('' @ inner @ '')>'' @ r)"
    using strstr_first [of w "inner @ '')>'' @ r"] a by (simp add: n_def)
  have pre: "SwigType_templateprefix n = w" by (simp add: SwigType_templateprefix_def c) (simp add: n_def)
  have bal: "balanced (CHR ''<'') (CHR ''>'') (CHR ''('' # inner @ '')'')"
    using a balanced_append [of "CHR ''<''" "CHR ''>''" 0 inner "'')''"] by simp
  have suffix: "SwigType_templatesuffix (v @ ''<('' @ inner @ '')>'' @ r) = r" if "strstr v ''<('' = None" for v
    using that
  proof (induction v)
    case Nil
    then show ?case using skip_nest_balanced [OF _ bal, of r] by simp
  next
    case (Cons x v)
    have "\<not> (x = CHR ''<'' \<and> starts_with ''('' (v @ ''<('' @ inner @ '')>'' @ r))"
      using Cons.prems by (cases v) (auto split: if_splits)
    then show ?case using Cons by (auto split: if_splits)
  qed
  have suf: "SwigType_templatesuffix n = r" using suffix a by (simp add: n_def)
  obtain b where b: "SwigType_templateargs n = Some b" using templateargs_None_iff [of n] c by auto
  have "b = ''<('' @ inner @ '')>''" using template_parts [OF b c] suf by simp
  moreover have "SwigType_istemplate n"
    using strstr_middle [of inner "'')>''" r] by (simp add: SwigType_istemplate_def c)
  ultimately show "let n = w @ ''<('' @ inner @ '')>'' @ r in
       SwigType_templateprefix n = w \<and> SwigType_templateargs n = Some (''<('' @ inner @ '')>'') \<and>
       SwigType_templatesuffix n = r \<and> SwigType_istemplate n"
    using b pre suf unfolding Let_def n_def [symmetric] by simp
qed (simp add: SwigType_add_template_def)

theorem template_parts_complete_witness:
  "SwigType_templateprefix ''Foo<(p.Bar<(int)>)>::baz'' = ''Foo'' \<and>
   SwigType_templatesuffix ''Foo<(p.Bar<(int)>)>::baz'' = ''::baz''"
  using template_parts_complete [of "[]" "''Foo''" "''p.Bar<(int)>''" "''::baz''" "[]"]
  by (simp add: Let_def)

section \<open>Base and prefix\<close>

definition plain_char :: "char \<Rightarrow> bool" where
  "plain_char c \<longleftrightarrow> c \<notin> set ''.()<>''"

text \<open>A name: plain characters, and perhaps a template argument list.\<close>

definition base_name :: "string \<Rightarrow> string \<Rightarrow> bool" where
  "base_name w a \<longleftrightarrow> w \<noteq> [] \<and> (\<forall>c\<in>set w. plain_char c) \<and>
     (a = [] \<or> (\<exists>inner. a = CHR ''<'' # inner @ ''>'' \<and> balanced (CHR ''<'') (CHR ''>'') inner))"

lemma balanced_rev:
  "l \<noteq> r \<Longrightarrow> balanced_from l r n s \<Longrightarrow> balanced_from r l n u \<Longrightarrow> balanced_from r l 0 (rev s @ u)"
proof (induction s arbitrary: n u)
  case (Cons x xs)
  define m where "m = (if x = l then Suc n else if x = r then n - 1 else n)"
  have "balanced_from l r m xs" "balanced_from r l m (x # u)"
    using Cons.prems by (auto simp: m_def split: if_splits)
  then show ?case using Cons.IH [of m "x # u"] Cons.prems(1) by simp
qed simp

lemma back_skip_balanced:
  "\<lbrakk>l \<noteq> r; P \<noteq> []; balanced_from r l n (rev s)\<rbrakk> \<Longrightarrow>
   back_skip l r (P @ l # s @ rest) (Suc n) (length P + length s) = length P - 1"
proof (induction s arbitrary: n rest rule: rev_induct)
  case Nil
  then obtain k where k: "length P = Suc k" by (cases P) auto
  then have "(P @ l # rest) ! Suc k = l" by (metis nth_append_length)
  then show ?case using Nil k by simp
next
  case (snoc x s)
  have idx: "length P + length (s @ [x]) = Suc (length P + length s)" by simp
  have nth: "(P @ l # (s @ [x]) @ rest) ! Suc (length P + length s) = x"
    using nth_append_length [of "P @ l # s" x rest] by simp
  define m where "m = (if x = r then Suc n else if x = l then n - 1 else n)"
  have "balanced_from r l m (rev s)" using snoc.prems(3) by (auto simp: m_def split: if_splits)
  then have IH: "back_skip l r (P @ l # s @ x # rest) (Suc m) (length P + length s) = length P - 1"
    using snoc.IH [of m "x # rest"] snoc.prems by simp
  have "x = l \<Longrightarrow> n = Suc m" using snoc.prems(1,3) by (cases n) (auto simp: m_def)
  then show ?case unfolding idx using IH nth by (auto simp: m_def)
qed

lemma base_loop_plain: "\<forall>c\<in>set w. plain_char c \<Longrightarrow> base_loop l (w @ r) = base_loop l r"
  by (induction w) (auto simp: plain_char_def)

lemma base_loop_paren:
  assumes "paren_ok s"
  shows "base_loop l (CHR ''('' # s @ CHR '')'' # r) = base_loop l r"
  using skip_nest_balanced [OF _ assms, of r] nest_left_balanced [OF _ assms, of r] by simp

lemma base_loop_cons:
  assumes "cons_ok e" and "r \<noteq> []"
  shows "base_loop l (cons_text e @ r) = base_loop r r"
proof (cases e)
  case (TQual s)
  then show ?thesis using base_loop_paren [of s l "CHR ''.'' # r"] assms by (simp del: base_loop.simps(2)) (simp add: base_loop_paren)
next
  case (TArr s)
  then show ?thesis using base_loop_paren [of s l "CHR ''.'' # r"] assms by simp
next
  case (TMem s)
  then show ?thesis using base_loop_paren [of s l "CHR ''.'' # r"] assms by simp
next
  case (TFun as)
  then show ?thesis using base_loop_paren [of "comma_text as" l "CHR ''.'' # r"] paren_ok_comma assms by simp
qed (use assms in simp_all)

lemma prefix_step_plain:
  assumes "plain_char (t ! d)"
  shows "prefix_loop t (Suc d) = prefix_loop t d"
proof -
  have "t ! d \<noteq> CHR ''>''" "t ! d \<noteq> CHR '')''" "t ! d \<noteq> CHR ''.''"
    using assms by (auto simp: plain_char_def)
  then show ?thesis by (subst prefix_loop.simps) (simp add: back_group_def)
qed

lemma prefix_plain:
  "\<forall>c\<in>set w. plain_char c \<Longrightarrow> prefix_loop (E @ w @ r) (length E + length w) = prefix_loop (E @ w @ r) (length E)"
proof (induction w arbitrary: r rule: rev_induct)
  case (snoc x w)
  have "(E @ (w @ [x]) @ r) ! (length E + length w) = x"
    using nth_append_length [of "E @ w" x r] by simp
  then have "prefix_loop (E @ (w @ [x]) @ r) (Suc (length E + length w))
      = prefix_loop (E @ (w @ [x]) @ r) (length E + length w)"
    using snoc.prems by (intro prefix_step_plain) simp
  then show ?case using snoc.IH [of "x # r"] snoc.prems by simp
qed simp

lemma prefix_dot: "prefix_loop ((E @ ''.'') @ r) (Suc (length E)) = Inr (E @ ''.'')"
proof -
  have "((E @ ''.'') @ r) ! length E = CHR ''.''" by (simp add: nth_append)
  then show ?thesis by (subst prefix_loop.simps) (simp add: back_group_def)
qed

lemma cons_text_last: "\<exists>E. cons_text e = E @ ''.''"
  by (cases e) (auto simp: Cons_eq_append_conv)

lemma prefix_elements: "prefix_loop (concat (map cons_text es) @ r) (length (concat (map cons_text es)))
    = Inr (concat (map cons_text es))"
proof (cases es rule: rev_cases)
  case Nil
  then show ?thesis by (simp add: prefix_loop.simps)
next
  case (snoc es' e)
  obtain E where E: "cons_text e = E @ ''.''" using cons_text_last by blast
  show ?thesis using prefix_dot [of "concat (map cons_text es') @ E" r] by (simp add: snoc E)
qed

lemma prefix_name:
  assumes "base_name w a"
  shows "prefix_loop (E @ w @ a) (length E + length w + length a) = prefix_loop (E @ w @ a) (length E)"
proof (cases "a = []")
  case True
  then show ?thesis using prefix_plain [of w E "[]"] assms by (simp add: base_name_def)
next
  case False
  then obtain inner where a: "a = CHR ''<'' # inner @ ''>''" "balanced (CHR ''<'') (CHR ''>'') inner"
    using assms by (auto simp: base_name_def)
  have w: "w \<noteq> []" "\<forall>c\<in>set w. plain_char c" using assms by (auto simp: base_name_def)
  let ?t = "E @ w @ a"
  define d where "d = length (E @ w) + length inner"
  have last: "?t ! Suc d = CHR ''>''"
    using nth_append_length [of "E @ w @ CHR ''<'' # inner" "CHR ''>''" "[]"] by (simp add: a d_def add.assoc)
  have "balanced_from (CHR ''>'') (CHR ''<'') 0 (rev inner)"
    using balanced_rev [of "CHR ''<''" "CHR ''>''" 0 inner "[]"] a(2) by simp
  then have "back_skip (CHR ''<'') (CHR ''>'') ?t 1 d = length (E @ w) - 1"
    using back_skip_balanced [of "CHR ''<''" "CHR ''>''" "E @ w" 0 inner "''>''"] w(1)
    by (simp add: a d_def)
  then have g: "back_group (CHR ''<'') (CHR ''>'') ?t (Suc d) = Inr (length (E @ w) - 1)"
    unfolding back_group_def last by simp
  obtain w' x where x: "w = w' @ [x]" using w(1) by (cases w rule: rev_cases) auto
  define d2 where "d2 = length E + length w'"
  have d2: "length (E @ w) - 1 = d2" "Suc d2 = length E + length w" by (simp_all add: x d2_def)
  have "?t ! d2 = x" using nth_append_length [of "E @ w'" x a] by (simp add: x d2_def)
  then have px: "?t ! d2 \<noteq> CHR '')''" "?t ! d2 \<noteq> CHR ''.''" and pl: "plain_char (?t ! d2)"
    using w(2) x by (auto simp: plain_char_def)
  have g2: "back_group (CHR ''('') (CHR '')'') ?t d2 = Inr d2"
    unfolding back_group_def by (simp only: px if_False)
  have "prefix_loop ?t (Suc (Suc d)) = prefix_loop ?t d2"
    by (subst prefix_loop.simps) (simp only: g d2(1) g2 sum.case px if_False)
  also have "\<dots> = prefix_loop ?t (length E + length w)"
    using prefix_step_plain [OF pl] by (simp add: d2(2))
  also have "\<dots> = prefix_loop ?t (length E)" using w(2) by (rule prefix_plain)
  finally show ?thesis by (simp add: a d_def)
qed

lemma base_name_ok: "base_name w a \<Longrightarrow> w @ a \<noteq> [] \<and> last (w @ a) \<noteq> CHR ''.''"
proof -
  assume b: "base_name w a"
  show ?thesis
  proof (cases "a = []")
    case True
    then show ?thesis using b last_in_set [of w] by (auto simp: base_name_def plain_char_def)
  next
    case False
    then show ?thesis using b by (auto simp: base_name_def)
  qed
qed

lemma base_loop_name: "base_name w a \<Longrightarrow> base_loop l (w @ a) = l"
proof -
  assume b: "base_name w a"
  then have "base_loop l (w @ a) = base_loop l a" by (intro base_loop_plain) (simp add: base_name_def)
  also have "\<dots> = l"
  proof (cases "a = []")
    case False
    then obtain inner where a: "a = CHR ''<'' # inner @ ''>''" "balanced (CHR ''<'') (CHR ''>'') inner"
      using b by (auto simp: base_name_def)
    then show ?thesis
      using skip_nest_balanced [OF _ a(2), of "[]"] nest_left_balanced [OF _ a(2), of "[]"] by simp
  qed simp
  finally show ?thesis .
qed

lemma base_loop_elements:
  "\<lbrakk>list_all cons_ok es; r \<noteq> []; es \<noteq> [] \<or> l = r\<rbrakk> \<Longrightarrow> base_loop l (concat (map cons_text es) @ r) = base_loop r r"
proof (induction es arbitrary: l)
  case (Cons e es)
  then show ?case
    using base_loop_cons [of e "concat (map cons_text es) @ r" l] by (cases es) auto
qed simp

lemma base_prefix_parts:
  assumes "list_all cons_ok es" and "base_name w a"
  shows "SwigType_base (type_text es (w @ a)) = w @ a \<and>
    SwigType_prefix (type_text es (w @ a)) = Inr (concat (map cons_text es))"
proof
  have ne: "w @ a \<noteq> []" "last (w @ a) \<noteq> CHR ''.''" using base_name_ok assms(2) by blast+
  show "SwigType_base (type_text es (w @ a)) = w @ a"
  proof (cases "es = []")
    case True
    then show ?thesis using base_loop_name [OF assms(2)] by (simp add: SwigType_base_def)
  next
    case False
    then show ?thesis
      using base_loop_elements [OF assms(1) ne(1)] base_loop_name [OF assms(2)]
      by (simp add: SwigType_base_def type_text_def)
  qed
  let ?E = "concat (map cons_text es)"
  have "SwigType_prefix (type_text es (w @ a)) = prefix_loop (?E @ w @ a) (length ?E + length w + length a)"
    using ne by (simp add: SwigType_prefix_def type_text_def Let_def last_conv_nth [symmetric] add.assoc)
      (metis append_is_Nil_conv last_appendR last_conv_nth length_append One_nat_def add.assoc)
  also have "\<dots> = prefix_loop (?E @ w @ a) (length ?E)" using assms(2) by (rule prefix_name)
  also have "\<dots> = Inr ?E" by (rule prefix_elements)
  finally show "SwigType_prefix (type_text es (w @ a)) = Inr ?E" .
qed

text \<open>
  \<open>SwigType_base\<close> and \<open>SwigType_prefix\<close> cut a type at the same place: on any list of
  well-formed constructors and a name, with or without template arguments whose angle brackets
  balance, the base is the name and the prefix the constructors, without reading outside of the
  string.
\<close>

theorem base_prefix_decompose:
  assumes "list_all cons_ok es" and "base_name w a"
  shows "SwigType_base (type_text es (w @ a)) = w @ a \<and>
    SwigType_prefix (type_text es (w @ a)) = Inr (concat (map cons_text es))"
  using assms by (rule base_prefix_parts)

theorem base_prefix_decompose_witness:
  "SwigType_base ''p.a(3).vector<(p.f(int).void)>'' = ''vector<(p.f(int).void)>'' \<and>
   SwigType_prefix ''p.a(3).vector<(p.f(int).void)>'' = Inr ''p.a(3).''"
  using base_prefix_decompose [of "[TPtr, TArr ''3'']" "''vector''" "''<(p.f(int).void)>''"]
  by (simp add: base_name_def plain_char_def)

lemma prefix_leaves_string: "SwigType_prefix ''>'' = Inl Out_of_bounds"
  by code_simp

section \<open>Qualifiers\<close>

fun blank_text :: "string list \<Rightarrow> string" where
  "blank_text [] = []"
| "blank_text [q] = q"
| "blank_text (q # qs) = q @ '' '' @ blank_text qs"

definition word_ok :: "string \<Rightarrow> bool" where
  "word_ok q \<longleftrightarrow> q \<noteq> [] \<and> (\<forall>c\<in>set q. \<not> is_delim c \<and> c \<noteq> CHR ''('')"

lemma strtok_nil: "list_all is_delim s \<Longrightarrow> strtok_all s = []"
proof -
  assume "list_all is_delim s"
  then have "dropWhile is_delim s = []" by (auto simp: list_all_iff)
  then show ?thesis by (subst strtok_all.simps) simp
qed

lemma strtok_word:
  assumes "word_ok q" and "is_delim d"
  shows "strtok_all (q @ d # r) = q # strtok_all (d # r)"
proof -
  obtain c q' where q: "q = c # q'" "\<not> is_delim c" using assms(1) by (cases q) (auto simp: word_ok_def)
  have "takeWhile (\<lambda>c. \<not> is_delim c) (q @ d # r) = q" "dropWhile (\<lambda>c. \<not> is_delim c) (q @ d # r) = d # r"
    using assms by (auto simp: word_ok_def takeWhile_append dropWhile_append3)
  moreover have "dropWhile is_delim (q @ d # r) = q @ d # r" using q by simp
  moreover have "q @ d # r \<noteq> []" by simp
  ultimately show ?thesis by (subst strtok_all.simps) (simp only: Let_def if_False)
qed

lemma strtok_skip: "is_delim d \<Longrightarrow> strtok_all (d # r) = strtok_all r"
  by (subst (1 2) strtok_all.simps) simp

lemma strtok_blank_text:
  "list_all word_ok qs \<Longrightarrow> strtok_all (blank_text qs @ '').'') = qs"
proof (induction qs rule: blank_text.induct)
  case 1
  then show ?case by (simp add: strtok_nil is_delim_def)
next
  case (2 q)
  then show ?case by (simp add: strtok_word strtok_nil is_delim_def)
next
  case (3 q p qs)
  then show ?case by (simp add: strtok_word strtok_skip is_delim_def)
qed

lemma qual_loop_none:
  "\<forall>q\<in>set qs. \<not> str_less c q \<Longrightarrow> qual_loop c qs = (blank_text qs, False)"
  by (induction qs rule: blank_text.induct) auto

lemma qual_loop_one:
  "\<lbrakk>\<forall>q\<in>set lo. \<not> str_less c q; str_less c h\<rbrakk> \<Longrightarrow>
   qual_loop c (lo @ [h]) = (blank_text (lo @ [c, h]), True)"
  by (induction lo rule: blank_text.induct) auto

lemma blank_text_snoc: "qs \<noteq> [] \<Longrightarrow> blank_text (qs @ [c]) = blank_text qs @ '' '' @ c"
  by (induction qs rule: blank_text.induct) auto

lemma paren_ok_blank: "list_all word_ok qs \<Longrightarrow> paren_ok (blank_text qs)"
proof -
  have "CHR ''('' \<notin> set (blank_text qs) \<and> CHR '')'' \<notin> set (blank_text qs)" if "list_all word_ok qs"
    using that by (induction qs rule: blank_text.induct) (auto simp: word_ok_def is_delim_def)
  then show "list_all word_ok qs \<Longrightarrow> ?thesis" by (simp add: balanced_plain)
qed



text \<open>With two greater words the new one is inserted twice, and what the buffer held is read.\<close>

lemma add_qualifier_duplicates:
  "SwigType_add_qualifier [] ''q(restrict volatile).int'' ''const''
   = Inr ''q(const restrict const volatile).int''"
  by code_simp

lemma add_qualifier_reads_junk:
  "SwigType_add_qualifier ''xyz'' ''q(const).int'' ''volatile'' = Inr ''q(const volatile xyz).int''"
  by code_simp

section \<open>Arrays\<close>

definition dim_ok :: "string \<Rightarrow> bool" where
  "dim_ok d \<longleftrightarrow> paren_ok d \<and> CHR ''.'' \<notin> set d"

definition array_text :: "string list \<Rightarrow> stype \<Rightarrow> stype" where
  "array_text ds t = concat (map (\<lambda>d. cons_text (TArr d)) ds) @ t"

lemma array_text_simps [simp]:
  "array_text [] t = t" "array_text (d # ds) t = ''a('' @ d @ '').'' @ array_text ds t"
  by (simp_all add: array_text_def)

lemma array_text_append: "array_text (ds @ es) t = array_text ds (array_text es t)"
  by (simp add: array_text_def)

lemma after_dot_dim:
  "CHR ''.'' \<notin> set d \<Longrightarrow> after_dot (CHR ''a'' # CHR ''('' # d @ CHR '')'' # CHR ''.'' # r) = Inr r"
  by (simp add: after_dot_def strchr_paren)

lemma array_ndim_text:
  "\<lbrakk>list_all dim_ok ds; \<not> starts_with ''a('' t\<rbrakk> \<Longrightarrow> SwigType_array_ndim (array_text ds t) = Inr (length ds)"
proof (induction ds)
  case Nil
  then show ?case by (subst SwigType_array_ndim.simps) simp
next
  case (Cons d ds)
  then show ?case by (subst SwigType_array_ndim.simps) (simp add: after_dot_dim dim_ok_def)
qed

lemma array_walk_text:
  "list_all dim_ok ds \<Longrightarrow> array_walk (length ds) (array_text ds t) = Inr (0, t)"
  by (induction ds) (auto simp: after_dot_dim dim_ok_def)

lemma pop_arrays_text:
  "\<lbrakk>list_all dim_ok ds; \<not> starts_with ''a('' t; t \<noteq> []; hd t \<noteq> CHR ''.''\<rbrakk> \<Longrightarrow>
   pop_arrays_loop (array_text ds t) = (array_text ds [], t)"
proof (induction ds)
  case Nil
  then show ?case by (subst pop_arrays_loop.simps) (simp add: SwigType_isarray_def)
next
  case (Cons d ds)
  have sz: "element_size (cons_text (TArr d) @ array_text ds t) = length (cons_text (TArr d))"
    by (rule element_size_cons) (use Cons.prems in \<open>simp add: dim_ok_def\<close>)
  have "\<not> starts_with ''.'' (array_text ds t)" using Cons.prems by (cases ds; cases t) auto
  then have "SwigType_pop (array_text (d # ds) t) = Some (cons_text (TArr d), array_text ds t)"
    using sz by (simp add: SwigType_pop_def Let_def del: element_size.simps)
  moreover have "SwigType_isarray (array_text (d # ds) t)" by (simp add: SwigType_isarray_def)
  ultimately show ?case using Cons by (subst pop_arrays_loop.simps) simp
qed



section \<open>Stripping qualifiers\<close>

definition memo_ok :: "(stype \<Rightarrow> stype option) \<Rightarrow> bool" where
  "memo_ok memo \<longleftrightarrow> (\<forall>t r. memo t = Some r \<longrightarrow> r = strip_elements t)"

fun is_qual :: "tcons \<Rightarrow> bool" where
  "is_qual (TQual s) = True"
| "is_qual _ = False"

lemma isqualifier_cons: "SwigType_isqualifier (cons_text e) = is_qual e"
  by (cases e) (auto simp: SwigType_isqualifier_def)

text \<open>
  C17. \<open>SwigType_strip_qualifiers\<close> removes exactly the qualifier elements, at every level, and keeps
  the other constructors and the base in order; its static table of results never changes an
  answer.
\<close>

theorem strip_qualifiers_exact:
  assumes "memo_ok memo" and "list_all cons_ok es" and "base_ok b" and "\<not> SwigType_isqualifier b"
  shows "fst (SwigType_strip_qualifiers memo (type_text es b))
      = type_text (filter (\<lambda>e. \<not> is_qual e) es) b \<and>
    memo_ok (snd (SwigType_strip_qualifiers memo (type_text es b)))"
proof -
  have "strip_elements (type_text es b) = type_text (filter (\<lambda>e. \<not> is_qual e) es) b"
    using assms(4)
    unfolding strip_elements_def split_type_text [OF assms(2,3)]
    by (simp add: type_text_def filter_map o_def isqualifier_cons)
  then show ?thesis using assms(1)
    by (auto simp: SwigType_strip_qualifiers_def memo_ok_def Let_def split: option.split)
qed

theorem strip_qualifiers_exact_witness:
  "fst (SwigType_strip_qualifiers (\<lambda>_. None) ''q(const).p.q(volatile).int'') = ''p.int''"
  using strip_qualifiers_exact [of "\<lambda>_. None" "[TQual ''const'', TPtr, TQual ''volatile'']" "''int''"]
  by (simp add: memo_ok_def base_ok_def SwigType_isqualifier_def)

end
