(* ===== verification/ScopeName.thy ===== *)
theory ScopeName
  imports SwigPrelude
begin

text \<open>
  Qualified names, from Source/Swig/misc.c: the functions that cut a name like \<open>A::B<(C::D)>::f\<close>
  at its scope separators. Separators inside of angle brackets do not count, and a name with the
  text \<open>operator \<close> in it is cut in front of that. \<open>None\<close> is a NULL result.
\<close>

definition op_text :: string where "op_text = ''operator ''"

definition sep :: string where "sep = ''::''"

text \<open>
  The loop over the whole name: \<open>cc\<close> is the position of the last separator so far, \<open>i\<close> the current
  position.
\<close>

function scan_last :: "nat \<Rightarrow> nat \<Rightarrow> string \<Rightarrow> nat" where
  "scan_last cc i [] = cc"
| "scan_last cc i (x # xs) =
     (if x = CHR '':'' \<and> starts_with '':'' xs then scan_last i (i + 2) (tl xs)
      else if x = CHR ''<'' then
        (let r = skip_nest (CHR ''<'') (CHR ''>'') 1 xs
         in scan_last cc (i + (Suc (length xs) - length r)) r)
      else scan_last cc (i + 1) xs)"
  by pat_completeness auto
termination
  by (relation "measure (\<lambda>(c, i, s). length s)") (auto simp: less_Suc_eq_le skip_nest_length)

text \<open>
  The loop to the first separator. It gives the text from there on, or the empty text. The
  position \<open>co\<close> is given by the number of characters from it to the end; skipping over a template
  can jump past it.
\<close>

function scan_first :: "nat \<Rightarrow> string \<Rightarrow> string" where
  "scan_first co [] = []"
| "scan_first co (x # xs) =
     (if length (x # xs) = co then x # xs
      else if x = CHR '':'' \<and> starts_with '':'' xs then x # xs
      else if x = CHR ''<'' then scan_first co (skip_nest (CHR ''<'') (CHR ''>'') 1 xs)
      else scan_first co xs)"
  by pat_completeness auto
termination
  by (relation "measure (\<lambda>(c, s). length s)") (auto simp: less_Suc_eq_le skip_nest_length)

text \<open>\<open>NewStringWithSize\<close> of a prefix of the name; a negative size overruns the new buffer.\<close>

definition sized :: "string \<Rightarrow> int \<Rightarrow> string res" where
  "sized s n = (if n < 0 then Inl Out_of_bounds else Inr (take (nat n) s))"

definition Swig_scopename_split :: "string \<Rightarrow> (string option \<times> string) res" where
  "Swig_scopename_split s =
     (case strstr s op_text of
        Some co \<Rightarrow>
          if length co = length s then Inr (None, s)
          else rbind (sized s (int (length s) - int (length co) - 2)) (\<lambda>p. Inr (Some p, co))
      | None \<Rightarrow>
          let cc = scan_last 0 0 s
          in if cc \<noteq> 0 then Inr (Some (take cc s), drop (cc + 2) s) else Inr (None, s))"

definition Swig_scopename_prefix :: "string \<Rightarrow> string option res" where
  "Swig_scopename_prefix s =
     (if strstr s sep = None then Inr None
      else case strstr s op_text of
        Some co \<Rightarrow>
          if length co = length s then Inr None
          else rbind (sized s (int (length s) - int (length co) - 2)) (\<lambda>p. Inr (Some p))
      | None \<Rightarrow>
          let cc = scan_last 0 0 s in Inr (if cc \<noteq> 0 then Some (take cc s) else None))"

definition Swig_scopename_last :: "string \<Rightarrow> string" where
  "Swig_scopename_last s =
     (if strstr s sep = None then s
      else case strstr s op_text of
        Some co \<Rightarrow> co
      | None \<Rightarrow> drop (scan_last 0 0 s + 2) s)"

definition Swig_scopename_first :: "string \<Rightarrow> string option" where
  "Swig_scopename_first s =
     (if strstr s sep = None then None
      else let co = (case strstr s op_text of Some co \<Rightarrow> length co | None \<Rightarrow> 0)
           in if strstr s op_text \<noteq> None \<and> co = length s then None
              else let c = scan_first co s
                   in if c \<noteq> [] \<and> length c \<noteq> length s then Some (take (length s - length c) s)
                      else None)"

definition Swig_scopename_suffix :: "string \<Rightarrow> string option" where
  "Swig_scopename_suffix s =
     (if strstr s sep = None then None
      else if strstr s op_text = Some s then None
      else let c = scan_first 0 s
           in if c \<noteq> [] \<and> length c \<noteq> length s then Some (drop 2 c) else None)"

definition Swig_scopename_check :: "string \<Rightarrow> bool" where
  "Swig_scopename_check s =
     (if strstr s op_text = Some s then False
      else if strstr s sep = None then False
      else scan_first 0 s \<noteq> [])"

section \<open>Segments\<close>

text \<open>
  A segment of a qualified name: not empty, angle brackets closed, no colon outside of them.
\<close>

function seg_scan :: "string \<Rightarrow> bool" where
  "seg_scan [] = True"
| "seg_scan (x # xs) =
     (if x = CHR '':'' then False
      else if x = CHR ''<'' then
        nest_left (CHR ''<'') (CHR ''>'') 1 xs = 0 \<and> seg_scan (skip_nest (CHR ''<'') (CHR ''>'') 1 xs)
      else seg_scan xs)"
  by pat_completeness auto
termination by (relation "measure length") (auto simp: less_Suc_eq_le skip_nest_length)

definition seg_ok :: "string \<Rightarrow> bool" where
  "seg_ok s \<longleftrightarrow> s \<noteq> [] \<and> seg_scan s"

fun joined :: "string list \<Rightarrow> string" where
  "joined [] = []"
| "joined [s] = s"
| "joined (s # ss) = s @ sep @ joined ss"

lemma skip_nest_append:
  "nest_left l r n s = 0 \<Longrightarrow> skip_nest l r n (s @ t) = skip_nest l r n s @ t"
  by (induction l r n s rule: skip_nest.induct) auto

lemma scan_last_seg:
  "seg_scan s \<Longrightarrow> scan_last cc i (s @ r) = scan_last cc (i + length s) r"
proof (induction s arbitrary: i rule: seg_scan.induct)
  case (2 x xs)
  show ?case
  proof (cases "x = CHR ''<''")
    case True
    define q where "q = skip_nest (CHR ''<'') (CHR ''>'') 1 xs"
    have q: "length q \<le> length xs" unfolding q_def by (rule skip_nest_length)
    have "seg_scan q" "nest_left (CHR ''<'') (CHR ''>'') 1 xs = 0"
      using 2(3) True by (simp_all add: q_def)
    then have "scan_last cc (i + (Suc (length xs) - length q)) (q @ r)
        = scan_last cc (i + (Suc (length xs) - length q) + length q) r"
      using 2(1) True by (simp add: q_def)
    moreover have "skip_nest (CHR ''<'') (CHR ''>'') 1 (xs @ r) = q @ r"
      using skip_nest_append 2(3) True by (simp add: q_def)
    ultimately show ?thesis using True q by (simp add: Let_def)
  next
    case False
    then show ?thesis using 2 by (auto split: if_splits)
  qed
qed simp

lemma scan_first_seg:
  "\<lbrakk>seg_scan s; co < length r\<rbrakk> \<Longrightarrow> scan_first co (s @ r) = scan_first co r"
proof (induction s rule: seg_scan.induct)
  case (2 x xs)
  show ?case
  proof (cases "x = CHR ''<''")
    case True
    then have "skip_nest (CHR ''<'') (CHR ''>'') 1 (xs @ r) = skip_nest (CHR ''<'') (CHR ''>'') 1 xs @ r"
      using skip_nest_append 2(3) by simp
    then show ?thesis using 2 True by simp
  next
    case False
    then show ?thesis using 2 by (auto split: if_splits)
  qed
qed simp

lemma scan_first_one: "seg_scan s \<Longrightarrow> scan_first 0 s = []"
proof (induction s rule: seg_scan.induct)
  case (2 x xs)
  then show ?case by (auto split: if_splits)
qed simp

lemma scan_first_sep: "co < Suc (Suc (length r)) \<Longrightarrow> scan_first co (sep @ r) = sep @ r"
  by (simp add: sep_def)

lemma scan_last_sep: "scan_last cc i (sep @ r) = scan_last i (i + 2) r"
  by (simp add: sep_def)

lemma scan_last_joined:
  "\<lbrakk>list_all seg_ok ss; ss \<noteq> []\<rbrakk> \<Longrightarrow>
   scan_last cc i (joined ss) = (if length ss = 1 then cc else i + length (joined (butlast ss)))"
proof (induction ss arbitrary: cc i rule: joined.induct)
  case (2 s)
  then show ?case using scan_last_seg [of s cc i "[]"] by (simp add: seg_ok_def)
next
  case (3 s t ss)
  then have "scan_last cc i (joined (s # t # ss)) = scan_last (i + length s) (i + length s + 2) (joined (t # ss))"
    by (simp add: seg_ok_def scan_last_seg scan_last_sep)
  also have "\<dots> = (if length (t # ss) = 1 then i + length s
      else i + length s + 2 + length (joined (butlast (t # ss))))"
    using 3 by simp
  also have "\<dots> = i + length (joined (butlast (s # t # ss)))"
    by (cases ss) (auto simp: sep_def)
  finally show ?case by simp
qed simp

lemma joined_snoc: "ss \<noteq> [] \<Longrightarrow> joined (ss @ [s]) = joined ss @ sep @ s"
  by (induction ss rule: joined.induct) auto

lemma joined_not_Nil: "\<lbrakk>list_all seg_ok ss; ss \<noteq> []\<rbrakk> \<Longrightarrow> joined ss \<noteq> []"
  by (cases ss rule: joined.cases) (auto simp: seg_ok_def)

text \<open>
  C18. Qualified names are cut at their separators: for a name of at least two segments, templates
  included, without the text \<open>operator \<close>, \<open>Swig_scopename_first\<close> and \<open>Swig_scopename_suffix\<close> give
  its first segment and the rest, \<open>Swig_scopename_prefix\<close> and \<open>Swig_scopename_last\<close> give all but
  its last segment and the last, \<open>Swig_scopename_split\<close> agrees with them, and
  \<open>Swig_scopename_check\<close> holds; a name of one segment is its own last and has no prefix, no first
  and no suffix.
\<close>

theorem scopename_parts:
  assumes "list_all seg_ok ss" and "ss \<noteq> []" and "strstr (joined ss) op_text = None"
  shows "if length ss = 1
    then (strstr (joined ss) sep = None \<longrightarrow> Swig_scopename_last (joined ss) = joined ss) \<and>
      Swig_scopename_prefix (joined ss) = Inr None \<and> Swig_scopename_first (joined ss) = None \<and>
      Swig_scopename_suffix (joined ss) = None \<and> \<not> Swig_scopename_check (joined ss) \<and>
      Swig_scopename_split (joined ss) = Inr (None, joined ss)
    else Swig_scopename_first (joined ss) = Some (hd ss) \<and>
      Swig_scopename_suffix (joined ss) = Some (joined (tl ss)) \<and>
      Swig_scopename_prefix (joined ss) = Inr (Some (joined (butlast ss))) \<and>
      Swig_scopename_last (joined ss) = last ss \<and>
      Swig_scopename_split (joined ss) = Inr (Some (joined (butlast ss)), last ss) \<and>
      Swig_scopename_check (joined ss)"
proof (cases "length ss = 1")
  case True
  then obtain s where s: "ss = [s]" by (cases ss) auto
  have "seg_scan s" "s \<noteq> []" using assms(1) s by (auto simp: seg_ok_def)
  then have "scan_last 0 0 s = 0" "scan_first 0 s = []"
    using scan_last_seg [of s 0 0 "[]"] scan_first_one [of s] by simp_all
  then show ?thesis using assms(3) s
    by (auto simp: Swig_scopename_prefix_def Swig_scopename_first_def Swig_scopename_suffix_def
        Swig_scopename_check_def Swig_scopename_split_def Swig_scopename_last_def Let_def)
next
  case False
  then obtain s t us where ss: "ss = s # t # us" using assms(2) by (cases ss rule: joined.cases) auto
  let ?n = "joined ss"
  have n: "?n = s @ sep @ joined (t # us)" by (simp add: ss)
  have s: "seg_scan s" "s \<noteq> []" using assms(1) ss by (auto simp: seg_ok_def)
  have sepin: "strstr ?n sep \<noteq> None" unfolding n by (metis strstr_None_iff sublist_appendI)
  have f: "scan_first 0 ?n = sep @ joined (t # us)"
    unfolding n using s(1) by (simp add: scan_first_seg scan_first_sep sep_def)
  have cc: "scan_last 0 0 ?n = length (joined (butlast ss))"
    using scan_last_joined [OF assms(1,2)] False by simp
  have bl: "butlast ss \<noteq> []" "list_all seg_ok (butlast ss)"
    using assms(1) by (auto simp: ss list_all_iff dest: in_set_butlastD)
  have pos: "joined (butlast ss) \<noteq> []" using joined_not_Nil [OF bl(2,1)] .
  have nl: "?n = joined (butlast ss) @ sep @ last ss"
    using joined_snoc [OF bl(1), of "last ss"] assms(2) by simp
  have "Swig_scopename_first ?n = Some s"
    using sepin assms(3) s(2) by (simp add: Swig_scopename_first_def f) (simp add: n sep_def)
  moreover have "Swig_scopename_suffix ?n = Some (joined (t # us))"
    using sepin assms(3) s(2) by (simp add: Swig_scopename_suffix_def f) (simp add: n sep_def)
  moreover have "Swig_scopename_prefix ?n = Inr (Some (joined (butlast ss)))"
    using sepin assms(3) pos by (simp add: Swig_scopename_prefix_def cc Let_def) (simp add: nl)
  moreover have "Swig_scopename_last ?n = last ss"
    using sepin assms(3) by (simp add: Swig_scopename_last_def cc) (simp add: nl sep_def)
  moreover have "Swig_scopename_split ?n = Inr (Some (joined (butlast ss)), last ss)"
    using assms(3) pos by (simp add: Swig_scopename_split_def cc Let_def) (simp add: nl sep_def)
  moreover have "Swig_scopename_check ?n"
    using sepin assms(3) by (simp add: Swig_scopename_check_def f sep_def)
  ultimately show ?thesis using False by (simp add: ss)
qed

theorem scopename_parts_witness:
  "Swig_scopename_prefix ''A::B<(C::D)>::f'' = Inr (Some ''A::B<(C::D)>'') \<and>
   Swig_scopename_last ''A::B<(C::D)>::f'' = ''f''"
proof -
  have "strstr ''A::B<(C::D)>::f'' op_text = None" by code_simp
  then show ?thesis
    using scopename_parts [of "[''A'', ''B<(C::D)>'', ''f'']"] by (simp add: seg_ok_def sep_def)
qed

text \<open>A name whose only separators are inside of a template loses its first two characters.\<close>

lemma scopename_last_of_template: "Swig_scopename_last ''A<(B::C)>'' = ''(B::C)>''"
  by code_simp

lemma scopename_split_negative_size: "Swig_scopename_split ''xoperator new'' = Inl Out_of_bounds"
  by code_simp

end
