(* ===== verification/StringEnc.thy ===== *)
theory StringEnc
  imports DohString
begin

text \<open>
  The string encoders of Source/Swig/misc.c, the \<open>%(encoder)s\<close> directives: case conversions,
  escaping for C literals, mangling into identifiers, and the removal of C comments and of
  prefixes. The functions read the source string with \<open>Getc\<close> from its beginning and write a new
  string; they are functions on the texts. \<open>Swig_string_escape\<close> reads from where the file
  position is, which is the text it is given here.
\<close>

section \<open>Case\<close>

definition Swig_string_upper :: "string \<Rightarrow> string" where
  "Swig_string_upper s = map toupper s"

definition Swig_string_lower :: "string \<Rightarrow> string" where
  "Swig_string_lower s = map tolower s"

fun title_loop :: "bool \<Rightarrow> string \<Rightarrow> string" where
  "title_loop first [] = []"
| "title_loop first (c # s) = (if first then toupper c else tolower c) # title_loop False s"

definition Swig_string_title :: "string \<Rightarrow> string" where
  "Swig_string_title s = title_loop True s"

fun ccase_loop :: "bool \<Rightarrow> string \<Rightarrow> string" where
  "ccase_loop first [] = []"
| "ccase_loop first (c # s) =
     (if c = CHR ''_'' then ccase_loop True s
      else (if first then toupper c else c) # ccase_loop False s)"

definition Swig_string_ccase :: "string \<Rightarrow> string" where
  "Swig_string_ccase s = ccase_loop True s"

fun lccase_loop :: "bool \<Rightarrow> bool \<Rightarrow> string \<Rightarrow> string" where
  "lccase_loop first after_underscore [] = []"
| "lccase_loop first after_underscore (c # s) =
     (if c = CHR ''_'' then lccase_loop first True s
      else (if first then tolower c else if after_underscore then toupper c else c)
             # lccase_loop False False s)"

definition Swig_string_lccase :: "string \<Rightarrow> string" where
  "Swig_string_lccase s = lccase_loop True False s"

text \<open>\<open>lastC\<close> is NUL in front of the first character; \<open>nextC\<close> is \<open>EOF\<close> at the last one.\<close>

fun ucase_loop :: "char \<Rightarrow> string \<Rightarrow> string" where
  "ucase_loop lastC [] = []"
| "ucase_loop lastC (c # s) =
     (if (isdigit c \<and> isalpha lastC \<and> s \<noteq> []) \<or> (isupper c \<and> isalpha lastC \<and> \<not> isupper lastC)
      then [CHR ''_''] else []) @ tolower c # ucase_loop c s"

definition Swig_string_ucase :: "string \<Rightarrow> string" where
  "Swig_string_ucase s = ucase_loop NUL s"

fun Swig_string_first_upper :: "string \<Rightarrow> string" where
  "Swig_string_first_upper [] = []"
| "Swig_string_first_upper (c # s) = toupper c # s"

fun Swig_string_first_lower :: "string \<Rightarrow> string" where
  "Swig_string_first_lower [] = []"
| "Swig_string_first_lower (c # s) = tolower c # s"

definition Swig_string_schemify :: "string \<Rightarrow> string" where
  "Swig_string_schemify s = map (\<lambda>c. if c = CHR ''_'' then CHR ''-'' else c) s"

section \<open>Escapes\<close>

definition digit_char :: "nat \<Rightarrow> char" where
  "digit_char n = ''0123456789ABCDEF'' ! n"

text \<open>\<open>%o\<close> and \<open>%02X\<close>.\<close>

fun octal :: "nat \<Rightarrow> string" where
  "octal n = (if n < 8 then [digit_char n] else octal (n div 8) @ [digit_char (n mod 8)])"

fun hexa :: "nat \<Rightarrow> string" where
  "hexa n = (if n < 16 then [digit_char n] else hexa (n div 16) @ [digit_char (n mod 16)])"

definition hex02 :: "nat \<Rightarrow> string" where
  "hex02 n = (if n < 16 then ''0'' @ hexa n else hexa n)"

declare octal.simps [simp del] hexa.simps [simp del]

definition escape_char :: "char \<Rightarrow> string" where
  "escape_char c =
     (if c = CHR 0x0A then [CHR 0x5C, CHR ''n'']
      else if c = CHR 0x0D then [CHR 0x5C, CHR ''r'']
      else if c = CHR 0x09 then [CHR 0x5C, CHR ''t'']
      else if c = CHR 0x5C then [CHR 0x5C, CHR 0x5C]
      else if c = CHR 0x27 then [CHR 0x5C, CHR 0x27]
      else if c = CHR 0x22 then [CHR 0x5C, CHR 0x22]
      else if c = CHR '' '' then [c]
      else if \<not> isgraph c then CHR 0x5C # octal (of_char c)
      else [c])"

definition Swig_string_escape :: "string \<Rightarrow> string" where
  "Swig_string_escape s = concat (map escape_char s)"

section \<open>Mangling\<close>

text \<open>The letters for operator characters.\<close>

definition mangle_table :: "(char \<times> char) list" where
  "mangle_table = zip ''*&<>=,()[]^|~!%?+-/'' ''mAlgecpPbBxonNMqasd''"

definition mangle_code :: "char \<Rightarrow> string" where
  "mangle_code c =
     (if isalpha c then ''_S'' @ [c] @ ''_''
      else ''_S'' @ hex02 (if char_sint c < 0 then nat (char_sint c + 2 ^ 32) else nat (char_sint c)) @ ''_'')"

text \<open>The loop: \<open>space\<close>, \<open>state\<close>, and the character before the current one.\<close>

fun mangle_loop :: "nat \<Rightarrow> nat \<Rightarrow> char option \<Rightarrow> string \<Rightarrow> string" where
  "mangle_loop sc st prev [] = []"
| "mangle_loop sc st prev (c # s) =
     (if isalnum c \<or> c = CHR ''_''
      then (if sc = 1 then ''_SS_'' else []) @ c # mangle_loop 0 1 (Some c) s
      else if isspace c then mangle_loop st st (Some c) s
      else if c = CHR ''.'' then
        (if prev = Some (CHR ''p'') then ''_'' else mangle_code (CHR ''f''))
          @ mangle_loop 0 3 (Some c) s
      else if c = CHR '':'' then
        (case s of
           [] \<Rightarrow> mangle_code c
         | d # s' \<Rightarrow> if d = CHR '':'' then ''_'' @ mangle_loop 0 3 (Some d) s'
                     else mangle_code c @ mangle_loop 0 3 (Some c) s)
      else mangle_code (case map_of mangle_table c of Some m \<Rightarrow> m | None \<Rightarrow> c)
             @ mangle_loop 0 3 (Some c) s)"

text \<open>
  \<open>istemplate\<close> is \<open>SwigType_istemplate\<close>; \<open>expand\<close> is what the symbol tables make of a template name:
  \<open>SwigType_namestr\<close> of the qualified default type.
\<close>

definition Swig_string_mangle :: "(string \<Rightarrow> bool) \<Rightarrow> (string \<Rightarrow> string) \<Rightarrow> string \<Rightarrow> string" where
  "Swig_string_mangle istemplate expand s =
     mangle_loop 0 0 None (if istemplate s then expand s else s)"

definition Swig_string_emangle :: "(string \<Rightarrow> bool) \<Rightarrow> (string \<Rightarrow> string) \<Rightarrow> string \<Rightarrow> string" where
  "Swig_string_emangle = Swig_string_mangle"

section \<open>Comments and prefixes\<close>

text \<open>
  The loop of \<open>Swig_strip_c_comments\<close> before a comment begins: the text before it and the text from
  the character after the slash-star on. The character after a slash is skipped whatever it is.
\<close>

fun comment_begin :: "string \<Rightarrow> (string \<times> string) option" where
  "comment_begin [] = None"
| "comment_begin (c # s) =
     (if c = CHR ''/'' then
        (case s of
           [] \<Rightarrow> None
         | d # s' \<Rightarrow> if d = CHR ''*'' then Some ([], s')
                     else map_option (\<lambda>(p, r). (c # d # p, r)) (comment_begin s'))
      else map_option (\<lambda>(p, r). (c # p, r)) (comment_begin s))"

text \<open>The loop inside of a comment: it ends at the first star, which closes it or not.\<close>

fun comment_end :: "string \<Rightarrow> string option" where
  "comment_end [] = None"
| "comment_end (c # s) =
     (if c = CHR ''*'' then (case s of [] \<Rightarrow> None | d # s' \<Rightarrow> if d = CHR ''/'' then Some s' else None)
      else comment_end s)"

definition cut_comment :: "string \<Rightarrow> string option" where
  "cut_comment s =
     (case comment_begin s of None \<Rightarrow> None
      | Some (p, r) \<Rightarrow> (case comment_end r of None \<Rightarrow> None | Some q \<Rightarrow> Some (p @ q)))"

lemma comment_begin_length: "comment_begin s = Some (p, r) \<Longrightarrow> length p + length r + 2 = length s"
proof (induction s arbitrary: p rule: comment_begin.induct)
  case (2 c s)
  then show ?case by (auto split: if_splits list.splits)
qed simp

lemma comment_end_length: "comment_end r = Some q \<Longrightarrow> length q + 2 \<le> length r"
  by (induction r arbitrary: q rule: comment_end.induct) (auto split: if_splits list.splits)

lemma cut_comment_length: "cut_comment s = Some t \<Longrightarrow> length t < length s"
  by (auto simp: cut_comment_def dest!: comment_begin_length comment_end_length
      split: option.splits prod.splits)

text \<open>
  The do-loop: it strips what is left as long as \<open>Swig_strip_c_comments\<close> finds something. The inner
  call runs the same loop.
\<close>

function strip_all :: "string \<Rightarrow> string" where
  "strip_all s = (case cut_comment s of None \<Rightarrow> s | Some t \<Rightarrow> strip_all (strip_all t))"
  by pat_completeness auto

termination
proof (relation "measure length", goal_cases)
  case (3 s t)
  have shorter: "length (strip_all s) \<le> length s" if "strip_all_dom s" for s
    using that
  proof (induction rule: strip_all.pinduct)
    case (1 s)
    show ?case
    proof (cases "cut_comment s")
      case (Some t)
      then have "length (strip_all t) \<le> length t" "length (strip_all (strip_all t)) \<le> length (strip_all t)"
        using 1 by auto
      then show ?thesis using Some 1(1) cut_comment_length [OF Some] by (simp add: strip_all.psimps)
    qed (use 1(1) in \<open>simp add: strip_all.psimps\<close>)
  qed
  from 3 show ?case using shorter [of t] cut_comment_length [of s t] by simp
qed (auto dest: cut_comment_length)

declare strip_all.simps [simp del]

definition Swig_strip_c_comments :: "string \<Rightarrow> string option" where
  "Swig_strip_c_comments s = map_option strip_all (cut_comment s)"

text \<open>
  \<open>Swig_string_strip\<close>: the prefix between the brackets, which \<open>%.<n>s\<close> cuts to \<open>n\<close> characters; for
  an empty one, \<open>%.0s\<close> gives the empty prefix.
\<close>

definition Swig_string_strip :: "string \<Rightarrow> string" where
  "Swig_string_strip s =
     (case s of
        [] \<Rightarrow> []
      | c # cs \<Rightarrow>
          if c \<noteq> CHR ''['' then s
          else (case strchr s (CHR '']'') of
                  None \<Rightarrow> s
                | Some ce \<Rightarrow>
                    let prefix = take (length s - length ce - 1) cs
                    in if starts_with prefix (tl ce) then drop (length prefix) (tl ce) else tl ce))"

fun skip_delim :: "char \<Rightarrow> char \<Rightarrow> nat \<Rightarrow> string \<Rightarrow> string option" where
  "skip_delim pb pe lb [] = None"
| "skip_delim pb pe lb (c # s) =
     (let lb1 = (if c = pb then Suc lb else lb)
      in if c = pe then (if lb1 = 0 then Some (c # s) else skip_delim pb pe (lb1 - 1) s)
         else skip_delim pb pe lb1 s)"

section \<open>Mangled names are identifiers\<close>

definition ident_char :: "char \<Rightarrow> bool" where
  "ident_char c \<longleftrightarrow> isalnum c \<or> c = CHR ''_''"

lemma digit_char_alnum: "n < 16 \<Longrightarrow> isalnum (digit_char n)"
proof -
  have "\<forall>n<16. isalnum (digit_char n)" by code_simp
  then show "n < 16 \<Longrightarrow> ?thesis" by blast
qed

lemma hexa_alnum: "\<forall>c\<in>set (hexa n). isalnum c"
proof (induction n rule: hexa.induct)
  case (1 n)
  then show ?case by (subst hexa.simps) (auto simp: digit_char_alnum)
qed

lemma hex02_alnum: "\<forall>c\<in>set (hex02 n). isalnum c"
  using hexa_alnum [of n] by (auto simp: hex02_def ctype_defs)

lemma mangle_code_ident: "\<forall>d\<in>set (mangle_code c). ident_char d"
proof -
  have "ident_char (CHR ''S'')" by code_simp
  moreover have "isalpha c \<Longrightarrow> ident_char c" by (simp add: ident_char_def isalnum_def)
  ultimately show ?thesis using hex02_alnum by (auto simp: mangle_code_def ident_char_def)
qed

lemma SS_ident: "\<forall>d\<in>set ''_SS_''. ident_char d"
  by code_simp

lemma mangle_loop_ident: "\<forall>d\<in>set (mangle_loop sc st prev s). ident_char d"
proof (induction sc st prev s rule: mangle_loop.induct)
  case (2 sc st prev c s)
  have u: "ident_char (CHR ''_'')" by (simp add: ident_char_def)
  show ?case
  proof (cases "isalnum c \<or> c = CHR ''_''")
    case True
    then have "ident_char c" by (auto simp: ident_char_def)
    then show ?thesis using 2(1) True SS_ident by auto
  next
    case F1: False
    show ?thesis
    proof (cases "isspace c")
      case True
      then show ?thesis using 2(2) F1 by simp
    next
      case F2: False
      show ?thesis
      proof (cases "c = CHR ''.''")
        case True
        then show ?thesis using 2(3) F1 F2 u mangle_code_ident by (simp add: ball_Un)
      next
        case F3: False
        show ?thesis
        proof (cases "c = CHR '':''")
          case True
          then show ?thesis using 2(4,5) F1 F2 u mangle_code_ident by (cases s) (simp_all add: ball_Un)
        next
          case False
          then show ?thesis using 2(6) F1 F2 F3 mangle_code_ident by (simp add: ball_Un)
        qed
      qed
    qed
  qed
qed simp

section \<open>Escapes decode\<close>

text \<open>How a C compiler reads a literal: the escapes, with up to three octal digits.\<close>

definition oct_digit :: "char \<Rightarrow> bool" where
  "oct_digit c \<longleftrightarrow> CHR ''0'' \<le> c \<and> c \<le> CHR ''7''"

definition oct_value :: "char \<Rightarrow> nat" where
  "oct_value c = of_char c - 48"

fun read_octal :: "nat \<Rightarrow> nat \<Rightarrow> string \<Rightarrow> nat \<times> string" where
  "read_octal 0 v s = (v, s)"
| "read_octal (Suc k) v [] = (v, [])"
| "read_octal (Suc k) v (c # s) =
     (if oct_digit c then read_octal k (8 * v + oct_value c) s else (v, c # s))"

lemma read_octal_length [len_le]: "read_octal k v s = (w, r) \<Longrightarrow> length r \<le> length s"
  by (induction k v s rule: read_octal.induct) (auto split: if_splits)

function c_unescape :: "string \<Rightarrow> string" where
  "c_unescape [] = []"
| "c_unescape (c # s) =
     (if c \<noteq> CHR 0x5C then c # c_unescape s
      else (case s of
              [] \<Rightarrow> [c]
            | d # s' \<Rightarrow>
                if oct_digit d
                then (case read_octal 3 0 s of (v, r) \<Rightarrow> char_of v # c_unescape (drop (length s - length r) s))
                else (if d = CHR ''n'' then CHR 0x0A else if d = CHR ''r'' then CHR 0x0D
                      else if d = CHR ''t'' then CHR 0x09 else d) # c_unescape s'))"
  by pat_completeness auto
termination
  by (relation "measure length") auto

declare c_unescape.simps(2) [simp del]

lemma c_unescape_plain: "c \<noteq> CHR 0x5C \<Longrightarrow> c_unescape (c # s) = c # c_unescape s"
  by (simp add: c_unescape.simps(2))

text \<open>
  \<open>%o\<close> writes as few digits as it needs, so a character below 64 that is written in octal must not
  be followed by an octal digit.
\<close>

fun octal_safe :: "string \<Rightarrow> bool" where
  "octal_safe [] = True"
| "octal_safe [c] = True"
| "octal_safe (c # d # s) \<longleftrightarrow>
     (escape_char c = CHR 0x5C # octal (of_char c) \<and> (of_char c :: nat) < 64 \<longrightarrow> \<not> oct_digit d)
     \<and> octal_safe (d # s)"

lemma oct_digit_char: "n < 8 \<Longrightarrow> oct_digit (digit_char n) \<and> oct_value (digit_char n) = n"
proof -
  have "\<forall>n<8. oct_digit (digit_char n) \<and> oct_value (digit_char n) = n" by code_simp
  then show "n < 8 \<Longrightarrow> ?thesis" by blast
qed

lemma octal_digits:
  "n < 8 \<Longrightarrow> octal n = [digit_char n]"
  "8 \<le> n \<Longrightarrow> n < 64 \<Longrightarrow> octal n = [digit_char (n div 8), digit_char (n mod 8)]"
  "64 \<le> n \<Longrightarrow> n < 512 \<Longrightarrow> octal n = [digit_char (n div 64), digit_char (n div 8 mod 8), digit_char (n mod 8)]"
proof -
  show 1: "n < 8 \<Longrightarrow> octal n = [digit_char n]" for n by (subst octal.simps) simp
  show 2: "8 \<le> n \<Longrightarrow> n < 64 \<Longrightarrow> octal n = [digit_char (n div 8), digit_char (n mod 8)]" for n
    by (subst octal.simps) (simp add: 1 div_less_iff_less_mult)
  show "64 \<le> n \<Longrightarrow> n < 512 \<Longrightarrow>
      octal n = [digit_char (n div 64), digit_char (n div 8 mod 8), digit_char (n mod 8)]"
    by (subst octal.simps)
      (simp add: 2 div_less_iff_less_mult less_eq_div_iff_mult_less_eq div_mult2_eq [symmetric])
qed

lemma read_octal_stop: "\<forall>d. hd_opt = Some d \<longrightarrow> \<not> oct_digit d \<Longrightarrow>
   (case s of [] \<Rightarrow> hd_opt = None | d # r \<Rightarrow> hd_opt = Some d) \<Longrightarrow> read_octal k v s = (v, s)"
  by (cases k; cases s) auto

lemma read_octal_octal:
  assumes "n < 256" and "n < 64 \<longrightarrow> s = [] \<or> \<not> oct_digit (hd s)"
  shows "read_octal 3 0 (octal n @ s) = (n, s)"
proof -
  have stop: "read_octal k v s = (v, s)" if "n < 64" for k v
    using assms(2) that by (cases k; cases s) auto
  consider "n < 8" | "8 \<le> n" "n < 64" | "64 \<le> n" by linarith
  then show ?thesis
  proof cases
    case 1
    then show ?thesis using stop by (simp add: octal_digits oct_digit_char numeral_3_eq_3)
  next
    case 2
    then have "n div 8 < 8" by (simp add: div_less_iff_less_mult)
    then show ?thesis using 2 stop
      by (simp add: octal_digits oct_digit_char numeral_3_eq_3)
  next
    case 3
    have "n div 64 < 8" "8 * (8 * (n div 64) + n div 8 mod 8) + n mod 8 = n"
      using assms(1) by (simp_all add: div_less_iff_less_mult div_mult2_eq [of n 8 8, simplified])
    then show ?thesis using 3 assms(1)
      by (simp add: octal_digits oct_digit_char numeral_3_eq_3)
  qed
qed

lemma escape_head: "\<exists>x r. escape_char c = x # r \<and> (oct_digit x \<longrightarrow> x = c)"
  by (auto simp: escape_char_def oct_digit_def octal.simps [of "of_char c"])

lemma c_unescape_code:
  assumes "d \<in> {CHR ''n'', CHR ''r'', CHR ''t'', CHR 0x5C, CHR 0x27, CHR 0x22}"
  shows "c_unescape (CHR 0x5C # d # s) =
    (if d = CHR ''n'' then CHR 0x0A else if d = CHR ''r'' then CHR 0x0D
     else if d = CHR ''t'' then CHR 0x09 else d) # c_unescape s"
  using assms by (subst c_unescape.simps) (auto simp: oct_digit_def)

lemma c_unescape_octal:
  assumes "n < 256" and "n < 64 \<longrightarrow> s = [] \<or> \<not> oct_digit (hd s)"
  shows "c_unescape (CHR 0x5C # octal n @ s) = char_of n # c_unescape s"
proof -
  obtain d r where d: "octal n @ s = d # r" "oct_digit d"
  proof -
    consider "n < 8" | "8 \<le> n" "n < 64" | "64 \<le> n" by linarith
    then show thesis
    proof cases
      case 1
      then show thesis using that [of "digit_char n" s] by (simp add: octal_digits oct_digit_char)
    next
      case 2
      then show thesis using that [of "digit_char (n div 8)" "digit_char (n mod 8) # s"]
        by (simp add: octal_digits oct_digit_char div_less_iff_less_mult)
    next
      case 3
      then show thesis
        using that [of "digit_char (n div 64)" "digit_char (n div 8 mod 8) # digit_char (n mod 8) # s"] assms(1)
        by (simp add: octal_digits oct_digit_char div_less_iff_less_mult)
    qed
  qed
  have "drop (length (octal n @ s) - length s) (octal n @ s) = s" by simp
  then show ?thesis
    using read_octal_octal [OF assms] d by (subst c_unescape.simps) simp
qed

lemma escape_unescape_char:
  assumes "(of_char c :: nat) < 64 \<longrightarrow> s = [] \<or> \<not> oct_digit (hd s) \<or>
      escape_char c \<noteq> CHR 0x5C # octal (of_char c)"
  shows "c_unescape (escape_char c @ s) = c # c_unescape s"
proof (cases "escape_char c = CHR 0x5C # octal (of_char c)")
  case True
  then show ?thesis using c_unescape_octal [of "of_char c" s] assms by simp
next
  case False
  then show ?thesis
    by (auto simp: escape_char_def c_unescape_code c_unescape_plain split: if_splits)
qed

text \<open>
  C19. \<open>Swig_string_escape\<close> is decoded by the C rules for escapes: for every text in which no
  character below 64 that has to be written in octal is followed by an octal digit, reading the
  escaped text gives the text back; and the escaped text has only printable characters.
\<close>

theorem string_escape_roundtrip:
  assumes "octal_safe s"
  shows "c_unescape (Swig_string_escape s) = s \<and>
    (\<forall>c\<in>set (Swig_string_escape s). isgraph c \<or> c = CHR '' '')"
proof
  show "c_unescape (Swig_string_escape s) = s"
    using assms
  proof (induction s rule: octal_safe.induct)
    case (3 c d s)
    obtain x r where x: "escape_char d = x # r" "oct_digit x \<longrightarrow> x = d" using escape_head by blast
    have "c_unescape (escape_char c @ Swig_string_escape (d # s)) = c # c_unescape (Swig_string_escape (d # s))"
      using 3(2) x by (intro escape_unescape_char) (auto simp: Swig_string_escape_def)
    then show ?case using 3 by (simp add: Swig_string_escape_def)
  next
    case (2 c)
    then show ?case using escape_unescape_char [of c "[]"] by (simp add: Swig_string_escape_def)
  qed (simp add: Swig_string_escape_def)
  have oct: "\<forall>c\<in>set (octal n). isgraph c" for n
  proof (induction n rule: octal.induct)
    case (1 n)
    have "\<forall>k<8. isgraph (digit_char k)" by code_simp
    then show ?case using 1 by (subst octal.simps) auto
  qed
  have bs: "isgraph (CHR 0x5C)" by code_simp
  have "\<forall>d\<in>set (escape_char c). isgraph d \<or> d = CHR '' ''" for c
    using oct bs by (auto simp: escape_char_def isgraph_def)
  then show "\<forall>c\<in>set (Swig_string_escape s). isgraph c \<or> c = CHR '' ''"
    by (auto simp: Swig_string_escape_def)
qed

theorem string_escape_roundtrip_witness:
  "c_unescape (Swig_string_escape [CHR ''a'', CHR 0x22, CHR 0x0A, CHR 0x07, CHR ''x'', CHR 0x5C])
    = [CHR ''a'', CHR 0x22, CHR 0x0A, CHR 0x07, CHR ''x'', CHR 0x5C]"
proof -
  have "octal_safe [CHR ''a'', CHR 0x22, CHR 0x0A, CHR 0x07, CHR ''x'', CHR 0x5C]" by code_simp
  then show ?thesis by (rule string_escape_roundtrip [THEN conjunct1])
qed

text \<open>Without that condition two texts have the same escaped form.\<close>

lemma string_escape_ambiguous:
  "c_unescape (Swig_string_escape [CHR 0x01, CHR ''2'']) = [CHR 0x0A]"
  by code_simp

section \<open>Identifiers from names\<close>

lemma char_code: "isupper c \<longleftrightarrow> 65 \<le> (of_char c :: nat) \<and> (of_char c :: nat) \<le> 90"
  "islower c \<longleftrightarrow> 97 \<le> (of_char c :: nat) \<and> (of_char c :: nat) \<le> 122"
  by (simp_all add: isupper_def islower_def less_eq_char_def)

lemma char_codeE:
  "islower c \<Longrightarrow> (65 \<le> (of_char c :: nat) - 32 \<and> (of_char c :: nat) - 32 \<le> 90)"
  "isupper c \<Longrightarrow> (97 \<le> (of_char c :: nat) + 32 \<and> (of_char c :: nat) + 32 \<le> 122)"
  by (simp_all add: char_code le_diff_conv le_diff_conv2)

lemma toupper_code: "islower c \<Longrightarrow> (of_char (toupper c) :: nat) = of_char c - 32"
proof -
  assume c: "islower c"
  then have "(of_char c :: nat) - 32 < 256" using char_codeE(1) [OF c] by linarith
  then show ?thesis using c by (simp add: toupper_def)
qed

lemma tolower_code: "isupper c \<Longrightarrow> (of_char (tolower c) :: nat) = of_char c + 32"
proof -
  assume c: "isupper c"
  then have "(of_char c :: nat) + 32 < 256" using char_codeE(2) [OF c] by linarith
  then show ?thesis using c by (simp add: tolower_def)
qed

lemma toupper_lower [simp]: "\<not> islower (toupper c)"
proof (cases "islower c")
  case True
  then show ?thesis using toupper_code [OF True] char_codeE(1) [OF True] char_code(2) [of "toupper c"]
    by linarith
qed (simp add: toupper_def)

lemma tolower_upper [simp]: "\<not> isupper (tolower c)"
proof (cases "isupper c")
  case True
  then show ?thesis using tolower_code [OF True] char_codeE(2) [OF True] char_code(1) [of "tolower c"]
    by linarith
qed (simp add: tolower_def)

lemma toupper_score: "c \<noteq> CHR ''_'' \<Longrightarrow> toupper c \<noteq> CHR ''_''"
proof (cases "islower c")
  case True
  have "(of_char (CHR ''_'') :: nat) = 95" by simp
  then have "(of_char (toupper c) :: nat) \<noteq> of_char (CHR ''_'')"
    using toupper_code [OF True] char_codeE(1) [OF True] by linarith
  then show ?thesis by metis
qed (simp add: toupper_def)

lemma tolower_score: "c \<noteq> CHR ''_'' \<Longrightarrow> tolower c \<noteq> CHR ''_''"
proof (cases "isupper c")
  case True
  have "(of_char (CHR ''_'') :: nat) = 95" by simp
  then have "(of_char (tolower c) :: nat) \<noteq> of_char (CHR ''_'')"
    using tolower_code [OF True] char_codeE(2) [OF True] by linarith
  then show ?thesis by metis
qed (simp add: tolower_def)

lemma ccase_score: "CHR ''_'' \<notin> set (ccase_loop f s)"
  by (induction f s rule: ccase_loop.induct) (auto simp: toupper_score dest: sym)

lemma lccase_score: "CHR ''_'' \<notin> set (lccase_loop f u s)"
  by (induction f u s rule: lccase_loop.induct)
    (auto simp: toupper_score tolower_score dest: sym)

lemma ucase_upper: "\<forall>d\<in>set (ucase_loop l s). \<not> isupper d"
proof -
  have "\<not> isupper (CHR ''_'')" by code_simp
  then show ?thesis by (induction l s rule: ucase_loop.induct) auto
qed

lemma ucase_letters: "filter (\<lambda>c. c \<noteq> CHR ''_'') (ucase_loop l s) = map tolower (filter (\<lambda>c. c \<noteq> CHR ''_'') s)"
proof (induction l s rule: ucase_loop.induct)
  case (2 l c s)
  have "tolower (CHR ''_'') = CHR ''_''" by code_simp
  then show ?case using 2 tolower_score [of c] by auto
qed simp



section \<open>Comments\<close>

lemma strip_all_clean: "cut_comment (strip_all s) = None"
proof (induction s rule: strip_all.induct)
  case (1 s)
  then show ?case by (cases "cut_comment s") (simp_all add: strip_all.simps [of s])
qed

text \<open>A comment with a star inside stays, and so does all that follows it.\<close>

lemma strip_comment_with_star: "Swig_strip_c_comments ''a/* 2*3 */b'' = None"
  by code_simp

end
