(* ===== verification/DohReplace.thy ===== *)
theory DohReplace
  imports DohText
begin

text \<open>
  Replacement in a string object: \<open>replace_simple\<close> and \<open>String_replace\<close> of Source/DOH/string.c with
  the functions that find matches and the ends of quotes. Pointers into the buffer are indices;
  the C string functions read up to the first NUL. A string that does not grow is changed in its
  buffer, while the search goes on in it; a string that grows is counted through and then copied
  to a new buffer.
\<close>

section \<open>C string functions on the buffer\<close>

definition cstr :: "char list \<Rightarrow> nat \<Rightarrow> string" where
  "cstr b i = takeWhile (\<lambda>c. c \<noteq> NUL) (drop i b)"

definition find_text :: "char list \<Rightarrow> nat \<Rightarrow> string \<Rightarrow> nat option" where
  "find_text b i tok =
     (case strstr (cstr b i) tok of None \<Rightarrow> None
      | Some r \<Rightarrow> Some (i + (length (cstr b i) - length r)))"

definition find_pred :: "char list \<Rightarrow> nat \<Rightarrow> (char \<Rightarrow> bool) \<Rightarrow> nat option" where
  "find_pred b i P =
     (let s = cstr b i; n = length (takeWhile (\<lambda>c. \<not> P c) s)
      in if n < length s then Some (i + n) else None)"

definition is_quote :: "char \<Rightarrow> bool" where
  "is_quote c \<longleftrightarrow> c = CHR 0x22 \<or> c = CHR 0x27"

definition strpbrk_quote :: "char list \<Rightarrow> nat \<Rightarrow> nat option" where
  "strpbrk_quote b i = find_pred b i is_quote"

definition at :: "char list \<Rightarrow> nat \<Rightarrow> char" where
  "at b i = (if i < length b then b ! i else NUL)"

definition id_char :: "char \<Rightarrow> bool" where
  "id_char c \<longleftrightarrow> isalnum c \<or> c = CHR ''_''"

lemma length_cstr: "length (cstr b i) \<le> length b - i"
  unfolding cstr_def by (metis length_drop length_takeWhile_le)

lemma find_text_range:
  assumes "find_text b i tok = Some p"
  shows "i \<le> p \<and> p + length tok \<le> length b \<or> (tok = [] \<and> i \<le> p)"
proof -
  obtain r where r: "strstr (cstr b i) tok = Some r" "p = i + (length (cstr b i) - length r)"
    using assms by (auto simp: find_text_def split: option.splits)
  have "length tok \<le> length r" using strstr_Some_starts [OF r(1)] by (rule starts_with_length)
  moreover have "length r \<le> length (cstr b i)" using r(1) by (rule strstr_length)
  ultimately have "tok \<noteq> [] \<Longrightarrow> p + length tok \<le> length b"
    using length_cstr [of b i] r(2) by (cases "i \<le> length b") auto
  then show ?thesis using r(2) by (cases "tok = []") auto
qed

lemma find_pred_range: "find_pred b i P = Some p \<Longrightarrow> i \<le> p \<and> p < length b"
  using length_cstr [of b i] by (auto simp: find_pred_def Let_def split: if_splits)

section \<open>Matches\<close>

datatype match_kind = Match_simple | Match_identifier | Match_identifier_begin | Match_identifier_end

text \<open>The condition under which a match is passed over.\<close>

definition reject :: "match_kind \<Rightarrow> char list \<Rightarrow> nat \<Rightarrow> nat \<Rightarrow> bool" where
  "reject mk b p tokenlen =
     ((mk \<in> {Match_identifier, Match_identifier_begin} \<and> p > 0 \<and> id_char (at b (p - 1))) \<or>
      (mk \<in> {Match_identifier, Match_identifier_end} \<and> id_char (at b (p + tokenlen))))"

text \<open>
  The four match functions. \<open>match_simple\<close> never passes over a match. \<open>replace_simple\<close> does not call
  them with an empty token.
\<close>

function match_from :: "match_kind \<Rightarrow> char list \<Rightarrow> nat \<Rightarrow> string \<Rightarrow> nat option" where
  "match_from mk b s tok =
     (if tok = [] then None
      else case find_text b s tok of None \<Rightarrow> None
      | Some p \<Rightarrow> if reject mk b p (length tok) then match_from mk b (p + length tok) tok else Some p)"
  by pat_completeness auto
termination
proof (relation "measure (\<lambda>(mk, b, s, tok). length b - s)", goal_cases)
  case (2 mk b s tok p)
  then show ?case using find_text_range [of b s tok p] by (cases tok) auto
qed simp

declare match_from.simps [simp del]

lemma match_simple_find: "tok \<noteq> [] \<Longrightarrow> match_from Match_simple b s tok = find_text b s tok"
  by (subst match_from.simps) (auto simp: reject_def split: option.split)

section \<open>Quotes\<close>

text \<open>
  \<open>end_quote\<close>: the quote that closes the one at \<open>qs\<close>; \<open>qs\<close> itself when a line ends before that
  without a backslash, or when there is no further quote but a line end; NULL without both.
\<close>

datatype end_step = Stop "nat option" | Go nat

definition end_quote_step :: "char list \<Rightarrow> nat \<Rightarrow> nat \<Rightarrow> end_step" where
  "end_quote_step b qs s =
     (let q = strpbrk_quote b (s + 1); nl = find_pred b (s + 1) (\<lambda>c. c = NL)
      in if nl \<noteq> None \<and> q \<noteq> None \<and> the nl < the q
         then (if at b (the nl - 1) = CHR 0x5C then Go (the nl + 1) else Stop (Some qs))
         else if q = None then (if nl \<noteq> None then Stop (Some qs) else Stop None)
         else if at b (the q) = at b qs \<and> at b (the q - 1) \<noteq> CHR 0x5C then Stop q
         else Go (the q))"

lemma end_quote_step_range:
  "end_quote_step b qs s = Go s' \<Longrightarrow> s < s' \<and> s < length b"
  "\<lbrakk>end_quote_step b qs s = Stop (Some q); qs \<le> s\<rbrakk> \<Longrightarrow> qs \<le> q"
  using find_pred_range [of b "s + 1"]
  by (fastforce simp: end_quote_step_def strpbrk_quote_def Let_def split: if_splits)+

function end_quote_loop :: "char list \<Rightarrow> nat \<Rightarrow> nat \<Rightarrow> nat option" where
  "end_quote_loop b qs s =
     (case end_quote_step b qs s of Stop r \<Rightarrow> r | Go s' \<Rightarrow> end_quote_loop b qs s')"
  by pat_completeness auto
termination
  by (relation "measure (\<lambda>(b, qs, s). length b - s)") (auto dest: end_quote_step_range)

declare end_quote_loop.simps [simp del]

definition end_quote :: "char list \<Rightarrow> nat \<Rightarrow> nat option" where
  "end_quote b s = end_quote_loop b s s"

lemma end_quote_loop_ge: "\<lbrakk>end_quote_loop b qs s = Some q; qs \<le> s\<rbrakk> \<Longrightarrow> qs \<le> q"
proof (induction b qs s rule: end_quote_loop.induct)
  case (1 b qs s)
  show ?case
  proof (cases "end_quote_step b qs s")
    case (Stop r)
    then show ?thesis using 1(2,3) end_quote_step_range(2)
      by (simp add: end_quote_loop.simps [of b qs s])
  next
    case (Go s')
    then show ?thesis using 1 end_quote_step_range(1) [OF Go]
      by (simp add: end_quote_loop.simps [of b qs s])
  qed
qed

text \<open>
  \<open>while (q && (q < c)) { q2 = end_quote(q); ... }\<close>: a match inside of quotes is passed over. The
  result is the next match outside, and what \<open>noquote\<close> is afterwards.
\<close>

function quote_loop ::
  "match_kind \<Rightarrow> char list \<Rightarrow> string \<Rightarrow> nat option \<Rightarrow> nat option \<Rightarrow> nat option \<times> bool" where
  "quote_loop mk b tok q c =
     (case (q, c) of
        (Some q1, Some c1) \<Rightarrow>
          if q1 < c1 then
            (case end_quote b q1 of
               None \<Rightarrow> (None, True)
             | Some q2 \<Rightarrow>
                 (case (if q2 > c1 then match_from mk b (q2 + 1) tok else Some c1) of
                    None \<Rightarrow> (None, True)
                  | Some c2 \<Rightarrow>
                      (case strpbrk_quote b (q2 + 1) of
                         None \<Rightarrow> (Some c2, False)
                       | Some q3 \<Rightarrow> quote_loop mk b tok (Some q3) (Some c2))))
          else (c, True)
      | _ \<Rightarrow> (c, True))"
  by pat_completeness auto
termination
proof (relation "measure (\<lambda>(mk, b, tok, q, c). case q of None \<Rightarrow> 0 | Some q1 \<Rightarrow> length b - q1)", goal_cases)
  case (2 mk b tok q c x y q1 c1 q2 c2 q3)
  then have "q1 \<le> q2" using end_quote_loop_ge [of b q1 q1 q2] by (simp add: end_quote_def)
  moreover have "q2 + 1 \<le> q3 \<and> q3 < length b"
    using 2 find_pred_range by (simp add: strpbrk_quote_def)
  ultimately show ?case using 2 by auto
qed simp

declare quote_loop.simps [simp del]

text \<open>The next match from \<open>s\<close> on, with regard to quotes when \<open>noquote\<close> is set.\<close>

definition next_match ::
  "match_kind \<Rightarrow> char list \<Rightarrow> string \<Rightarrow> bool \<Rightarrow> nat \<Rightarrow> nat option \<times> bool" where
  "next_match mk b tok noquote s =
     (let c = match_from mk b s tok
      in if noquote
         then (case strpbrk_quote b s of None \<Rightarrow> (c, False) | Some q \<Rightarrow> quote_loop mk b tok (Some q) c)
         else (c, False))"

section \<open>Replacing in place\<close>

text \<open>
  The loop for a replacement that is not longer than the token: \<open>t\<close> is where to write, \<open>s\<close> the
  current match, \<open>ic\<close> the number of replacements left (negative for all). The fuel counts the
  rounds; each round moves \<open>s\<close> on by the length of the token, so that the size of the buffer is
  enough.
\<close>

fun shrink_loop ::
  "nat \<Rightarrow> match_kind \<Rightarrow> string \<Rightarrow> string \<Rightarrow> int \<Rightarrow> char list \<Rightarrow> int \<Rightarrow> nat option \<Rightarrow> int \<Rightarrow> int \<Rightarrow> int \<Rightarrow> bool \<Rightarrow>
   (char list \<times> int \<times> nat option \<times> int \<times> int) res" where
  "shrink_loop 0 mk tok rep len b t s ic rcount expand nq = Inl Hang"
| "shrink_loop (Suc f) mk tok rep len b t s ic rcount expand nq =
     (case s of
        None \<Rightarrow> Inr (b, t, s, rcount, expand)
      | Some s0 \<Rightarrow>
          if ic = 0 then Inr (b, t, s, rcount, expand)
          else
            let delta = int (length rep) - int (length tok)
            in rbind (if rep \<noteq> [] then buf_copy b t rep else Inr b) (\<lambda>b1.
            let t1 = t + int (length rep);
                s1 = s0 + length tok
            in if ic = 1 then Inr (b1, t1, Some s1, rcount + 1, expand + delta)
               else (case next_match mk b1 tok nq s1 of (c, nq1) \<Rightarrow>
                 if delta \<noteq> 0 then
                   (case c of
                      Some c1 \<Rightarrow> rbind (buf_move b1 t1 (int s1) (int c1 - int s1)) (\<lambda>b2.
                        shrink_loop f mk tok rep len b2 (t1 + (int c1 - int s1)) c (ic - 1)
                          (rcount + 1) (expand + delta) nq1)
                    | None \<Rightarrow> rbind (buf_move b1 t1 (int s1) (len - int s1 + 1)) (\<lambda>b2.
                        shrink_loop f mk tok rep len b2 t1 c (ic - 1) (rcount + 1) (expand + delta) nq1))
                 else shrink_loop f mk tok rep len b1
                        (case c of Some c1 \<Rightarrow> t1 + (int c1 - int s1) | None \<Rightarrow> t1) c (ic - 1)
                        (rcount + 1) (expand + delta) nq1)))"

section \<open>Replacing into a new buffer\<close>

text \<open>The first pass counts the replacements; with \<open>noquote\<close> it stops where no quote follows.\<close>

fun count_loop ::
  "nat \<Rightarrow> match_kind \<Rightarrow> string \<Rightarrow> char list \<Rightarrow> nat \<Rightarrow> int \<Rightarrow> nat \<Rightarrow> bool \<Rightarrow> (nat \<times> bool) res" where
  "count_loop 0 mk tok b s ic rcount nq = Inl Hang"
| "count_loop (Suc f) mk tok b s ic rcount nq =
     (if ic = 0 then Inr (rcount, nq)
      else case match_from mk b s tok of
        None \<Rightarrow> Inr (rcount, nq)
      | Some c0 \<Rightarrow>
          if nq \<and> strpbrk_quote b s = None then Inr (rcount, nq)
          else (case (if nq then quote_loop mk b tok (strpbrk_quote b s) (Some c0) else (Some c0, False)) of
                  (None, nq1) \<Rightarrow> Inr (rcount, nq1)
                | (Some c, nq1) \<Rightarrow> count_loop f mk tok b (c + length tok) (ic - 1) (rcount + 1) nq1))"

text \<open>The second pass copies; \<open>noquote\<close> is what the first one left.\<close>

fun copy_loop ::
  "nat \<Rightarrow> match_kind \<Rightarrow> string \<Rightarrow> string \<Rightarrow> int \<Rightarrow> char list \<Rightarrow> char list \<Rightarrow> int \<Rightarrow> nat \<Rightarrow> bool \<Rightarrow> char list res" where
  "copy_loop 0 mk tok rep len b ns t s nq = Inr ns"
| "copy_loop (Suc k) mk tok rep len b ns t s nq =
     rbind (buf_copy ns t rep) (\<lambda>ns1.
       let t1 = t + int (length rep);
           s1 = s + length tok
       in (case next_match mk b tok nq s1 of (c, nq1) \<Rightarrow>
         if k \<noteq> 0
         then (case c of
                 None \<Rightarrow> Inl Out_of_bounds
               | Some c1 \<Rightarrow> rbind (buf_copy ns1 t1 (slice b (int s1) (int c1))) (\<lambda>ns2.
                   copy_loop k mk tok rep len b ns2 (t1 + (int c1 - int s1)) c1 nq1))
         else buf_copy ns1 t1 (slice b (int s1) (len + 1))))"

section \<open>The replacement\<close>

definition replace_simple ::
  "dstring \<Rightarrow> string \<Rightarrow> string \<Rightarrow> bool \<Rightarrow> int \<Rightarrow> match_kind \<Rightarrow> (int \<times> dstring) res" where
  "replace_simple str0 tok rep noquote count mk =
     (if tok = [] then Inr (0, str0)
      else if match_from mk (str str0) 0 tok = None then Inr (0, str0)
      else let s0 = str0\<lparr>hashkey := -1\<rparr>;
               b = str str0;
               len = slen str0;
               delta = int (length rep) - int (length tok)
           in (case next_match mk b tok noquote 0 of
                 (None, nq) \<Rightarrow> Inr (0, s0)
               | (Some first, nq) \<Rightarrow>
                   if delta \<le> 0
                   then rbind (shrink_loop (Suc (length b)) mk tok rep len b (int first) (Some first) count 0 0 nq)
                          (\<lambda>(b1, t, s, rcount, expand).
                          rbind (case s of
                                   Some s1 \<Rightarrow> if delta \<noteq> 0 then buf_move b1 t (int s1) (len - int s1 + 1) else Inr b1
                                 | None \<Rightarrow> Inr b1) (\<lambda>b2.
                          rbind (buf_write b2 (len + expand) NUL) (\<lambda>b3.
                          Inr (rcount, s0\<lparr>slen := len + expand, str := b3,
                            sp := (if sp s0 \<ge> len + expand then sp s0 + expand else sp s0)\<rparr>))))
                   else rbind (count_loop (Suc (length b)) mk tok b (first + length tok) (count - 1) 1 nq)
                          (\<lambda>(rcount, nq1).
                          let expand = delta * int rcount
                          in rbind (grow (nat (len + expand + 1)) (maxsize s0) (len + expand)) (\<lambda>newsize.
                             rbind (buf_copy (replicate (nat newsize) NUL) 0 (take first b)) (\<lambda>ns.
                             rbind (copy_loop rcount mk tok rep len b ns (int first) first nq1) (\<lambda>ns1.
                             rbind (buf_write ns1 (len + expand) NUL) (\<lambda>ns2.
                             Inr (int rcount, s0\<lparr>slen := len + expand, str := ns2, maxsize := newsize,
                               sp := (if sp s0 \<ge> len then sp s0 + expand else sp s0)\<rparr>))))))))"

text \<open>The flags of \<open>String_replace\<close>, in the order it tests them.\<close>

record replace_flags =
  rf_noquote :: bool
  rf_first :: bool
  rf_id_end :: bool
  rf_id_begin :: bool
  rf_id :: bool

definition REPLACE_ANY :: replace_flags where
  "REPLACE_ANY = \<lparr>rf_noquote = False, rf_first = False, rf_id_end = False, rf_id_begin = False, rf_id = False\<rparr>"

definition String_replace :: "dstring \<Rightarrow> string \<Rightarrow> string \<Rightarrow> replace_flags \<Rightarrow> (int \<times> dstring) res" where
  "String_replace s tok rep fl =
     replace_simple s tok rep (rf_noquote fl) (if rf_first fl then 1 else -1)
       (if rf_id_end fl then Match_identifier_end
        else if rf_id_begin fl then Match_identifier_begin
        else if rf_id fl then Match_identifier else Match_simple)"

section \<open>The reference\<close>

function replace_all :: "string \<Rightarrow> string \<Rightarrow> string \<Rightarrow> string" where
  "replace_all tok rep s =
     (if tok = [] then s
      else case strstr s tok of
        None \<Rightarrow> s
      | Some r \<Rightarrow> take (length s - length r) s @ rep @ replace_all tok rep (drop (length tok) r))"
  by pat_completeness auto
termination
proof (relation "measure (\<lambda>(t, r, s). length s)", goal_cases)
  case (2 tok rep s r)
  then show ?case using strstr_length [of s tok r] strstr_Some_starts [of s tok r]
      starts_with_length [of tok r] by (cases tok) auto
qed simp

declare replace_all.simps [simp del]

text \<open>A buffer that holds a text without NUL, and then a NUL.\<close>

definition holds :: "char list \<Rightarrow> string \<Rightarrow> bool" where
  "holds b t \<longleftrightarrow> (\<exists>r. b = t @ NUL # r) \<and> NUL \<notin> set t"

lemma cstr_rest:
  assumes "NUL \<notin> set t" and "i \<le> length t" and "drop i b = drop i (t @ NUL # r)"
  shows "cstr b i = drop i t"
proof -
  have "drop i b = drop i t @ NUL # r" using assms(2,3) by simp
  moreover have "NUL \<notin> set (drop i t)" using assms(1) by (meson in_set_dropD)
  then have "takeWhile (\<lambda>c. c \<noteq> NUL) (drop i t @ NUL # r) = drop i t"
    by (subst takeWhile_append2) auto
  ultimately show ?thesis by (simp add: cstr_def)
qed

text \<open>The next match, in a buffer that agrees with the text from \<open>i\<close> on.\<close>

lemma find_text_rest:
  assumes "NUL \<notin> set t" and "i \<le> length t" and "drop i b = drop i (t @ NUL # r)"
  shows "find_text b i tok = (case strstr (drop i t) tok of None \<Rightarrow> None
    | Some q \<Rightarrow> Some (length t - length q))"
proof (cases "strstr (drop i t) tok")
  case (Some q)
  then have "length q \<le> length t - i" using strstr_length [OF Some] by simp
  then show ?thesis using Some assms(2) by (simp add: find_text_def cstr_rest [OF assms])
qed (simp add: find_text_def cstr_rest [OF assms])

lemma replace_all_step:
  assumes "tok \<noteq> []" and "i \<le> length t" and "strstr (drop i t) tok = Some q"
  shows "replace_all tok rep (drop i t)
      = take (length t - length q - i) (drop i t) @ rep @ replace_all tok rep (drop (length t - length q + length tok) t)"
    and "i \<le> length t - length q" and "length t - length q + length tok \<le> length t"
    and "drop (length t - length q) t = q"
proof -
  obtain p where p: "drop i t = p @ q" using strstr_suffix [OF assms(3)] by blast
  have len: "length t = i + length p + length q" using arg_cong [OF p, of length] assms(2) by simp
  have tq: "length tok \<le> length q" using strstr_Some_starts [OF assms(3)] by (rule starts_with_length)
  show "i \<le> length t - length q" "length t - length q + length tok \<le> length t"
    using len tq by simp_all
  have dq: "drop (length t - length q) t = q"
  proof -
    have "drop (length t - length q) t = drop (length p) (drop i t)" using len by (simp add: add.commute)
    then show ?thesis by (simp add: p)
  qed
  then show "drop (length t - length q) t = q" .
  have "drop (length tok) q = drop (length t - length q + length tok) t"
    using dq by (metis add.commute drop_drop)
  moreover have "length t - length q - i = length p" "length (drop i t) - length q = length p"
    using len by simp_all
  ultimately show "replace_all tok rep (drop i t)
      = take (length t - length q - i) (drop i t) @ rep @ replace_all tok rep (drop (length t - length q + length tok) t)"
    using assms(1,3) by (subst replace_all.simps) (simp add: p)
qed

lemma replace_all_none:
  "strstr (drop i t) tok = None \<Longrightarrow> replace_all tok rep (drop i t) = drop i t"
  by (subst replace_all.simps) simp

section \<open>In place\<close>

lemma buf_move_gap:
  assumes "b = out @ gap @ rest" and "int n = k" and "n \<le> length rest"
    and "d = int (length out)" and "s = int (length out + length gap)"
  shows "\<exists>gap'. buf_move b d s k = Inr ((out @ take n rest) @ gap' @ drop n rest) \<and> length gap' = length gap"
proof -
  define g where "g = take (length gap) (drop n (gap @ rest))"
  have "drop (length gap) (drop n (gap @ rest)) = drop n (drop (length gap) (gap @ rest))"
    by (simp only: drop_drop add.commute)
  then have "drop n (gap @ rest) = g @ drop n rest"
    unfolding g_def by (metis append_eq_conv_conj append_take_drop_id)
  then have "drop (length out + n) b = g @ drop n rest" using assms(1) by simp
  moreover have "length g = length gap" using assms(3) by (simp add: g_def)
  moreover have "drop (nat s) b = rest" using assms(1,5) by (simp add: nat_int_add)
  moreover have "nat k = n" "nat (d + k) = length out + n" using assms(2,4) by auto
  ultimately show ?thesis
    using assms by (intro exI [of _ g]) (simp add: buf_move_def)
qed

lemma starts_with_drop_split: "starts_with tok (drop s t) \<Longrightarrow> drop s t = tok @ drop (s + length tok) t"
  by (metis starts_with_drop add.commute drop_drop)

text \<open>
  One round at a match at \<open>s\<close>: \<open>out\<close> is written, \<open>gap\<close> is stale, the rest is untouched. The rounds
  end with everything written, when all matches are replaced.
\<close>

lemma shrink_loop_all:
  assumes "NUL \<notin> set t" and "tok \<noteq> []" and "length rep \<le> length tok" and "ic < 0"
    and "s \<le> length t" and "starts_with tok (drop s t)"
    and "b = out @ gap @ drop s t @ NUL # r" and "length out + length gap = s"
    and "int (length gap) = - expand"
    and "length rep = length tok \<Longrightarrow> gap = []"
    and "length t - s < f"
  shows "\<exists>b' p rc out' g. shrink_loop f Match_simple tok rep (int (length t)) b (int (length out)) (Some s) ic rcount expand False
      = Inr (b', p, None, rc, int (length out') - int (length t)) \<and>
    out' = out @ rep @ replace_all tok rep (drop (s + length tok) t) \<and>
    b' = out' @ g \<and> g \<noteq> [] \<and> length b' = length b"
  using assms
proof (induction f arbitrary: b s out gap ic rcount expand)
  case 0
  then show ?case by simp
next
  case (Suc f)
  define s1 where "s1 = s + length tok"
  define R where "R = drop s1 t @ NUL # r"
  define delta where "delta = int (length rep) - int (length tok)"
  have s1: "s1 \<le> length t" using Suc.prems(5,6) starts_with_length [of tok "drop s t"] by (simp add: s1_def)
  have b: "b = out @ gap @ tok @ R"
    using Suc.prems(7) starts_with_drop_split [OF Suc.prems(6)] by (simp add: R_def s1_def)
  define out1 where "out1 = out @ rep"
  define gap1 where "gap1 = drop (length rep) (gap @ tok)"
  have b1: "(if rep \<noteq> [] then buf_copy b (int (length out)) rep else Inr b) = Inr (out1 @ gap1 @ R)"
    using Suc.prems(3) by (auto simp: b out1_def gap1_def)
  have gap1: "length out1 + length gap1 = s1" "int (length gap1) = - (expand + delta)"
    using Suc.prems(3,8,9) by (auto simp: out1_def gap1_def s1_def delta_def)
  have gap1_0: "delta = 0 \<Longrightarrow> gap1 = []"
    using Suc.prems(10) by (simp add: delta_def gap1_def)
  have ic: "ic \<noteq> 0" "ic \<noteq> 1" "ic - 1 < 0" using Suc.prems(4) by auto
  have agree: "drop s1 (out1 @ gap1 @ R) = drop s1 (t @ NUL # r)"
    using gap1(1) s1 by (simp add: R_def flip: gap1(1))
  have nm: "next_match Match_simple (out1 @ gap1 @ R) tok False s1
      = ((case strstr (drop s1 t) tok of None \<Rightarrow> None | Some q \<Rightarrow> Some (length t - length q)), False)"
    using find_text_rest [OF Suc.prems(1) s1 agree] Suc.prems(2)
    by (simp add: next_match_def match_simple_find)
  have lenb: "length b = length (out1 @ gap1 @ R)"
    using Suc.prems(8) gap1(1) by (simp add: b s1_def)
  have lo: "int (length out) + int (length rep) = int (length out1)" by (simp add: out1_def)
  let ?L = "\<lambda>f. shrink_loop f Match_simple tok rep (int (length t))"
  have round: "?L (Suc f) b (int (length out)) (Some s) ic rcount expand False =
      (let c = (case strstr (drop s1 t) tok of None \<Rightarrow> None | Some q \<Rightarrow> Some (length t - length q))
       in if delta \<noteq> 0 then
            (case c of
               Some c1 \<Rightarrow> rbind (buf_move (out1 @ gap1 @ R) (int (length out1)) (int s1) (int c1 - int s1)) (\<lambda>b2.
                 ?L f b2 (int (length out1) + (int c1 - int s1)) c (ic - 1) (rcount + 1) (expand + delta) False)
             | None \<Rightarrow> rbind (buf_move (out1 @ gap1 @ R) (int (length out1)) (int s1) (int (length t) - int s1 + 1)) (\<lambda>b2.
                 ?L f b2 (int (length out1)) c (ic - 1) (rcount + 1) (expand + delta) False))
          else ?L f (out1 @ gap1 @ R)
            (case c of Some c1 \<Rightarrow> int (length out1) + (int c1 - int s1) | None \<Rightarrow> int (length out1)) c (ic - 1)
            (rcount + 1) (expand + delta) False)"
    using ic lo by (simp add: b1 Let_def nm s1_def [symmetric] delta_def [symmetric])
  show ?case
  proof (cases "strstr (drop s1 t) tok")
    case (Some q)
    define c where "c = length t - length q"
    note st = replace_all_step [OF Suc.prems(2) s1 Some, folded c_def]
    define n where "n = c - s1"
    define out2 where "out2 = out1 @ take n R"
    have n: "n \<le> length (drop s1 t)" "int c - int s1 = int n"
      using st(2,3) by (simp_all add: n_def)
    have rest: "drop n R = drop c t @ NUL # r" using st(2) n(1) by (simp add: n_def R_def)
    obtain gap2 where mv: "buf_move (out1 @ gap1 @ R) (int (length out1)) (int s1) (int n)
        = Inr (out2 @ gap2 @ drop c t @ NUL # r)" "length gap2 = length gap1"
      using buf_move_gap [of "out1 @ gap1 @ R" out1 gap1 R n "int n"
          "int (length out1)" "int s1"] n(1) gap1(1) rest by (auto simp: out2_def R_def)
    have len2: "int (length out1) + int n = int (length out2)" using n(1) by (simp add: out2_def R_def)
    obtain b2 gap3 where step: "?L (Suc f) b (int (length out)) (Some s) ic rcount expand False
        = ?L f b2 (int (length out2)) (Some c) (ic - 1) (rcount + 1) (expand + delta) False"
      "b2 = out2 @ gap3 @ drop c t @ NUL # r" "length gap3 = length gap1"
    proof (cases "delta = 0")
      case True
      have "out1 @ gap1 @ R = out2 @ [] @ drop c t @ NUL # r"
        using gap1_0 [OF True] rest append_take_drop_id [of n R] by (simp add: out2_def)
      then show thesis using that [of _ "[]"] True gap1_0 [OF True] round n(2) len2 Some
        by (simp add: Let_def c_def [symmetric])
    next
      case False
      then show thesis using that [of _ gap2] round mv n(2) len2 Some
        by (simp add: Let_def c_def [symmetric])
    qed
    have "\<exists>b' p rc out' g. ?L f b2 (int (length out2)) (Some c) (ic - 1) (rcount + 1) (expand + delta) False
        = Inr (b', p, None, rc, int (length out') - int (length t)) \<and>
      out' = out2 @ rep @ replace_all tok rep (drop (c + length tok) t) \<and> b' = out' @ g \<and> g \<noteq> [] \<and>
      length b' = length b2"
    proof (rule Suc.IH [OF Suc.prems(1-3) ic(3)])
      show "c \<le> length t" "starts_with tok (drop c t)"
        using st(3,4) strstr_Some_starts [OF Some] by (simp_all add: c_def)
      show "b2 = out2 @ gap3 @ drop c t @ NUL # r" by (rule step(2))
      show "length out2 + length gap3 = c"
        using step(3) gap1(1) n st(2) by (simp add: out2_def R_def)
      show "int (length gap3) = - (expand + delta)" using step(3) gap1(2) by simp
      show "length rep = length tok \<Longrightarrow> gap3 = []" using step(3) gap1_0 by (simp add: delta_def)
      show "length t - c < f"
        using Suc.prems(2,11) st(2) s1 by (cases tok) (auto simp: s1_def)
    qed
    moreover have "out2 @ rep @ replace_all tok rep (drop (c + length tok) t)
        = out @ rep @ replace_all tok rep (drop s1 t)"
      using st(1) n(1) by (simp add: out2_def out1_def n_def R_def)
    moreover have "length b2 = length b"
      unfolding lenb using step(2,3) n st(2) s1 by (simp add: out2_def R_def n_def)
    ultimately show ?thesis unfolding step(1) by (simp add: s1_def)
  next
    case None
    define n where "n = length (drop s1 t) + 1"
    have n: "int n = int (length t) - int s1 + 1" "n \<le> length R" "take n R = drop s1 t @ [NUL]"
      using s1 by (simp_all add: n_def R_def)
    define out' where "out' = out1 @ drop s1 t"
    have o: "out' = out @ rep @ replace_all tok rep (drop s1 t)"
      using replace_all_none [OF None] by (simp add: out'_def out1_def)
    have e: "expand + delta = int (length out') - int (length t)"
      using gap1 s1 by (simp add: out'_def)
    have f: "?L f b2 p None ic' rc ex False = Inr (b2, p, None, rc, ex)" for b2 p ic' rc ex
      using Suc.prems(2,5,11) s1 by (cases f) (auto simp: s1_def)
    obtain b2 g where b2: "?L (Suc f) b (int (length out)) (Some s) ic rcount expand False
        = Inr (b2, int (length out1), None, rcount + 1, expand + delta)"
      "b2 = out' @ g" "g \<noteq> []" "length b2 = length b"
    proof (cases "delta = 0")
      case True
      then show thesis
        using that [of _ "NUL # r"] round None f gap1_0 [OF True] lenb
        by (simp add: Let_def out'_def R_def)
    next
      case False
      obtain gap2 where mv: "buf_move (out1 @ gap1 @ R) (int (length out1)) (int s1) (int n)
          = Inr ((out1 @ take n R) @ gap2 @ drop n R)" "length gap2 = length gap1"
        using buf_move_gap [of "out1 @ gap1 @ R" out1 gap1 R n "int n"
            "int (length out1)" "int s1"] n(2) gap1(1) by auto
      have "length (out' @ NUL # gap2 @ drop n R) = length b"
        using lenb mv(2) by (simp add: out'_def n_def R_def)
      then show thesis
        using that [of _ "NUL # gap2 @ drop n R"] round mv None f False n
        by (simp add: Let_def out'_def del: shrink_loop.simps)
    qed
    then show ?thesis using o e by (auto simp: s1_def)
  qed
qed

section \<open>Into a new buffer\<close>

function occurrences :: "string \<Rightarrow> string \<Rightarrow> nat" where
  "occurrences tok s =
     (if tok = [] then 0
      else case strstr s tok of None \<Rightarrow> 0 | Some r \<Rightarrow> Suc (occurrences tok (drop (length tok) r)))"
  by pat_completeness auto
termination
proof (relation "measure (\<lambda>(t, s). length s)", goal_cases)
  case (2 tok s r)
  then show ?case using strstr_length [of s tok r] strstr_Some_starts [of s tok r]
      starts_with_length [of tok r] by (cases tok) auto
qed simp

declare occurrences.simps [simp del]

lemma occurrences_step:
  assumes "tok \<noteq> []" and "i \<le> length t" and "strstr (drop i t) tok = Some q"
  shows "occurrences tok (drop i t) = Suc (occurrences tok (drop (length t - length q + length tok) t))"
proof -
  have "drop (length tok) q = drop (length t - length q + length tok) t"
    using replace_all_step(4) [OF assms] by (metis add.commute drop_drop)
  then show ?thesis using assms by (subst occurrences.simps) simp
qed

lemma replace_all_length:
  "int (length (replace_all tok rep s))
   = int (length s) + int (occurrences tok s) * (int (length rep) - int (length tok))"
proof (induction tok s rule: occurrences.induct)
  case (1 tok s)
  show ?case
  proof (cases "tok = [] \<or> strstr s tok = None")
    case True
    then show ?thesis by (subst occurrences.simps, subst replace_all.simps) auto
  next
    case False
    then obtain q where q: "strstr s tok = Some q" "tok \<noteq> []" by auto
    have len: "length tok \<le> length q" "length q \<le> length s"
      using strstr_Some_starts [OF q(1)] starts_with_length strstr_length [OF q(1)] by blast+
    have "int (length (replace_all tok rep s))
        = int (length s - length q) + int (length rep) + int (length (replace_all tok rep (drop (length tok) q)))"
      using q by (subst replace_all.simps) simp
    moreover have "int (occurrences tok s) = 1 + int (occurrences tok (drop (length tok) q))"
      using q by (subst occurrences.simps) simp
    ultimately show ?thesis using 1 [OF q(2,1)] len by (simp add: algebra_simps)
  qed
qed

lemma match_text:
  "\<lbrakk>NUL \<notin> set t; tok \<noteq> []; i \<le> length t\<rbrakk> \<Longrightarrow> match_from Match_simple (t @ NUL # r) i tok
    = (case strstr (drop i t) tok of None \<Rightarrow> None | Some q \<Rightarrow> Some (length t - length q))"
  using find_text_rest [OF _ _ refl, of t i r tok] by (simp add: match_simple_find)

lemma count_loop_all:
  assumes t: "NUL \<notin> set t" and tok: "tok \<noteq> []"
  shows "\<lbrakk>s \<le> length t; ic < 0; length t - s < f\<rbrakk> \<Longrightarrow>
   count_loop f Match_simple tok (t @ NUL # r) s ic rc False = Inr (rc + occurrences tok (drop s t), False)"
proof (induction f arbitrary: s ic rc)
  case (Suc f)
  show ?case
  proof (cases "strstr (drop s t) tok")
    case None
    then show ?thesis using Suc.prems match_text [OF t tok]
      by (simp add: occurrences.simps [of tok "drop s t"])
  next
    case (Some q)
    define c where "c = length t - length q"
    note st = replace_all_step [OF tok Suc.prems(1) Some, folded c_def]
    have "count_loop f Match_simple tok (t @ NUL # r) (c + length tok) (ic - 1) (rc + 1) False
        = Inr (rc + 1 + occurrences tok (drop (c + length tok) t), False)"
      using Suc.prems st(2,3) tok by (intro Suc.IH) (cases tok; auto)+
    then show ?thesis
      using Suc.prems match_text [OF t tok, of s] Some occurrences_step [OF tok Suc.prems(1) Some, folded c_def]
      by (simp add: c_def [symmetric])
  qed
qed simp

lemma slice_text: "\<lbrakk>i \<le> j; j \<le> length t\<rbrakk> \<Longrightarrow> slice (t @ NUL # r) (int i) (int j) = take (j - i) (drop i t)"
  by (simp add: slice_def nat_diff_distrib)

lemma slice_rest: "i \<le> length t \<Longrightarrow> slice (t @ NUL # r) (int i) (int (length t) + 1) = drop i t @ [NUL]"
proof -
  assume "i \<le> length t"
  then have "nat (int (length t) + 1 - int i) = Suc (length t - i)" by simp
  then show ?thesis using \<open>i \<le> length t\<close> by (simp add: slice_def)
qed

lemma copy_loop_all:
  assumes t: "NUL \<notin> set t" and tok: "tok \<noteq> []"
  shows "\<lbrakk>s + length tok \<le> length t; k = occurrences tok (drop (s + length tok) t);
    length rep + length (replace_all tok rep (drop (s + length tok) t)) < length junk\<rbrakk> \<Longrightarrow>
   \<exists>junk'. copy_loop (Suc k) Match_simple tok rep (int (length t)) (t @ NUL # r) (out @ junk) (int (length out)) s False
     = Inr (out @ rep @ replace_all tok rep (drop (s + length tok) t) @ NUL # junk') \<and>
     length (rep @ replace_all tok rep (drop (s + length tok) t) @ NUL # junk') = length junk"
proof (induction k arbitrary: s out junk)
  case 0
  define s1 where "s1 = s + length tok"
  have none: "strstr (drop s1 t) tok = None"
    using 0(2) tok by (subst (asm) occurrences.simps) (auto simp: s1_def split: option.splits)
  then have nm: "next_match Match_simple (t @ NUL # r) tok False s1 = (None, False)"
    using match_text [OF t tok, of s1] 0(1) by (simp add: next_match_def s1_def)
  have ra: "replace_all tok rep (drop s1 t) = drop s1 t" using none by (rule replace_all_none)
  have sl: "slice (t @ NUL # r) (int s1) (int (length t) + 1) = drop s1 t @ [NUL]"
    using 0(1) by (intro slice_rest) (simp add: s1_def)
  define junk1 where "junk1 = drop (length rep) junk"
  have "buf_copy (out @ junk) (int (length out)) rep = Inr ((out @ rep) @ junk1)"
    using 0(3) by (simp add: junk1_def)
  moreover have "buf_copy ((out @ rep) @ junk1) (int (length out) + int (length rep)) (drop s1 t @ [NUL])
      = Inr ((out @ rep) @ (drop s1 t @ [NUL]) @ drop (Suc (length t - s1)) junk1)"
    using 0(3) by (subst buf_copy_at) (auto simp: junk1_def ra [unfolded s1_def] s1_def)
  ultimately show ?case
    using sl ra nm 0(3) by (simp add: Let_def s1_def junk1_def)
next
  case (Suc k)
  define s1 where "s1 = s + length tok"
  have s1: "s1 \<le> length t" using Suc.prems(1) by (simp add: s1_def)
  obtain q where q: "strstr (drop s1 t) tok = Some q"
    using Suc.prems(2) tok by (subst (asm) occurrences.simps) (auto simp: s1_def split: option.splits)
  define c where "c = length t - length q"
  note st = replace_all_step [OF tok s1 q, folded c_def]
  have k: "k = occurrences tok (drop (c + length tok) t)"
    using Suc.prems(2) occurrences_step [OF tok s1 q, folded c_def] by (simp add: s1_def)
  have nm: "next_match Match_simple (t @ NUL # r) tok False s1 = (Some c, False)"
    using match_text [OF t tok s1] q by (simp add: next_match_def c_def)
  define mid where "mid = take (c - s1) (drop s1 t)"
  have mid: "length mid = c - s1" "slice (t @ NUL # r) (int s1) (int c) = mid"
    using st(2,3) slice_text [of s1 c] by (simp_all add: mid_def)
  define junk1 where "junk1 = drop (length rep) junk"
  define junk2 where "junk2 = drop (length mid) junk1"
  have ra: "replace_all tok rep (drop s1 t) = mid @ rep @ replace_all tok rep (drop (c + length tok) t)"
    using st(1) by (simp add: mid_def)
  have room: "length mid + length rep + length (replace_all tok rep (drop (c + length tok) t)) < length junk1"
    using Suc.prems(3) by (simp add: junk1_def ra [unfolded s1_def])
  have w1: "buf_copy (out @ junk) (int (length out)) rep = Inr ((out @ rep) @ junk1)"
    using Suc.prems(3) by (simp add: junk1_def)
  have w2: "buf_copy ((out @ rep) @ junk1) (int (length out) + int (length rep)) mid
      = Inr ((out @ rep @ mid) @ junk2)"
    using room by (subst buf_copy_at) (auto simp: junk2_def)
  have pos: "int (length out) + int (length rep) + (int c - int s1) = int (length (out @ rep @ mid))"
    using mid(1) st(2) by simp
  have lt: "length rep + length (replace_all tok rep (drop (c + length tok) t)) < length junk2"
    using room by (simp add: junk2_def)
  obtain junk' where J: "copy_loop (Suc k) Match_simple tok rep (int (length t)) (t @ NUL # r)
      ((out @ rep @ mid) @ junk2) (int (length (out @ rep @ mid))) c False
     = Inr ((out @ rep @ mid) @ rep @ replace_all tok rep (drop (c + length tok) t) @ NUL # junk')"
    "length (rep @ replace_all tok rep (drop (c + length tok) t) @ NUL # junk') = length junk2"
    using Suc.IH [OF st(3) k lt, of "out @ rep @ mid"] by blast
  have "copy_loop (Suc (Suc k)) Match_simple tok rep (int (length t)) (t @ NUL # r) (out @ junk) (int (length out)) s False
     = Inr ((out @ rep @ mid) @ rep @ replace_all tok rep (drop (c + length tok) t) @ NUL # junk')"
    using w1 w2 pos nm mid(2) J(1)
    by (subst copy_loop.simps) (simp add: Let_def s1_def [symmetric] add.assoc del: copy_loop.simps)
  moreover have "length rep + (length mid + length junk2) = length junk"
    using room Suc.prems(3) by (simp add: junk2_def junk1_def)
  ultimately show ?case using J(2) by (auto simp: ra [unfolded s1_def])
qed

section \<open>Replacement is replacement\<close>

definition terminated :: "dstring \<Rightarrow> bool" where
  "terminated s \<longleftrightarrow> str s ! nat (slen s) = NUL \<and> NUL \<notin> set (contents s)"

lemma string_terminated:
  assumes "string_inv s" and "terminated s"
  obtains r where "str s = contents s @ NUL # r" and "slen s = int (length (contents s))"
    and "NUL \<notin> set (contents s)" and "length (str s) = Suc (length (contents s) + length r)"
proof -
  obtain t r where s: "str s = t @ r" "contents s = t" "slen s = int (length t)" "r \<noteq> []"
    using assms(1) by (rule string_invE)
  obtain x r' where r: "r = x # r'" using s(4) by (cases r) auto
  have "x = NUL" using assms(2) s r by (simp add: terminated_def)
  then show thesis using that [of r'] s r assms(2) by (simp add: terminated_def)
qed

lemma replaced_ok:
  assumes "str s' = t @ NUL # r" and "slen s' = int (length t)" and "hashkey s' = -1"
    and "maxsize s' \<le> int (length (str s'))" and "int (length t) \<le> maxsize s'" and "2 \<le> maxsize s'"
    and "sp s' = slen s'"
  shows "contents s' = t \<and> string_ok s'"
  using assms by (auto simp: string_ok_def string_inv_def alloc_def contents_def hash_ok_def)

text \<open>The first match found, and where the text of \<open>replace_all\<close> is split by it.\<close>

lemma first_match:
  assumes "NUL \<notin> set t" and "tok \<noteq> []" and "strstr t tok = Some q"
  defines "first \<equiv> length t - length q"
  shows "match_from Match_simple (t @ NUL # r) 0 tok = Some first"
    and "next_match Match_simple (t @ NUL # r) tok False 0 = (Some first, False)"
    and "replace_all tok rep t = take first t @ rep @ replace_all tok rep (drop (first + length tok) t)"
    and "first + length tok \<le> length t" and "starts_with tok (drop first t)"
    and "occurrences tok t = Suc (occurrences tok (drop (first + length tok) t))"
proof -
  have q0: "strstr (drop 0 t) tok = Some q" using assms(3) by simp
  note st = replace_all_step [OF assms(2) le0 q0, folded first_def]
  show "match_from Match_simple (t @ NUL # r) 0 tok = Some first"
    using match_text [OF assms(1,2), of 0 r] assms(3) by (simp add: first_def)
  then show "next_match Match_simple (t @ NUL # r) tok False 0 = (Some first, False)"
    by (simp add: next_match_def)
  show "replace_all tok rep t = take first t @ rep @ replace_all tok rep (drop (first + length tok) t)"
    using st(1) by simp
  show "first + length tok \<le> length t" using st(3) .
  show "starts_with tok (drop first t)" using st(4) strstr_Some_starts [OF assms(3)] by simp
  show "occurrences tok t = Suc (occurrences tok (drop (first + length tok) t))"
    using occurrences_step [OF assms(2) le0 q0, folded first_def] by simp
qed

lemma replace_shrinks:
  assumes str: "str s = t @ NUL # r" "slen s = int (length t)" and t: "NUL \<notin> set t" and tok: "tok \<noteq> []"
    and q: "strstr t tok = Some q" and le: "length rep \<le> length tok" and pos: "sp s = slen s"
  defines "t' \<equiv> replace_all tok rep t"
  shows "\<exists>n g. replace_simple s tok rep False (-1) Match_simple =
    Inr (n, s\<lparr>hashkey := -1, slen := int (length t'), str := t' @ NUL # g, sp := int (length t')\<rparr>) \<and>
    length (t' @ NUL # g) = length (str s)"
proof -
  define first where "first = length t - length q"
  note fm = first_match [OF t tok q, folded first_def]
  have tk: "length (take first t) = first" by (simp add: first_def)
  have split: "t = take first t @ drop first t" by simp
  have eq: "str s = take first t @ [] @ drop first t @ NUL # r" using str(1) split by simp
  have "length t - first < Suc (length (str s))" by (simp add: str(1))
  then have "\<exists>b' p rc out' g. shrink_loop (Suc (length (str s))) Match_simple tok rep (slen s) (str s)
      (int (length (take first t))) (Some first) (-1) 0 0 False
      = Inr (b', p, None, rc, int (length out') - int (length t)) \<and>
    out' = take first t @ rep @ replace_all tok rep (drop (first + length tok) t) \<and>
    b' = out' @ g \<and> g \<noteq> [] \<and> length b' = length (str s)"
    unfolding str(2) by (intro shrink_loop_all [OF t tok le _ _ fm(5) eq]) (use fm(4) tk in simp_all)
  then obtain b' p rc g where L: "shrink_loop (Suc (length (str s))) Match_simple tok rep (slen s) (str s) (int first)
      (Some first) (-1) 0 0 False = Inr (b', p, None, rc, int (length t') - int (length t))"
    "b' = t' @ g" "g \<noteq> []" "length b' = length (str s)"
    unfolding tk t'_def fm(3) by blast
  obtain x g' where g: "g = x # g'" using L(3) by (cases g) auto
  have "int (occurrences tok t) * (int (length rep) - int (length tok)) \<le> 0"
    using le by (simp add: mult_nonneg_nonpos)
  then have len: "length t' \<le> length t" using replace_all_length [of tok rep t] by (simp add: t'_def)
  have "replace_simple s tok rep False (-1) Match_simple =
      Inr (rc, s\<lparr>hashkey := -1, slen := int (length t'), str := t' @ NUL # g', sp := int (length t')\<rparr>)"
    using tok fm(1,2) [of r] le L(1,2) str pos len g
    by (simp add: replace_simple_def Let_def del: shrink_loop.simps)
  moreover have "length (t' @ NUL # g') = length (str s)" using L(2,4) g by simp
  ultimately show ?thesis by blast
qed

lemma replace_grows:
  assumes str: "str s = t @ NUL # r" "slen s = int (length t)" and t: "NUL \<notin> set t" and tok: "tok \<noteq> []"
    and q: "strstr t tok = Some q" and gt: "length tok < length rep" and pos: "sp s = slen s"
    and ms: "0 < maxsize s"
  defines "t' \<equiv> replace_all tok rep t"
  shows "\<exists>n m g. replace_simple s tok rep False (-1) Match_simple =
    Inr (n, s\<lparr>hashkey := -1, slen := int (length t'), str := t' @ NUL # g, maxsize := m, sp := int (length t')\<rparr>) \<and>
    length (t' @ NUL # g) = nat m \<and> int (length t') < m \<and> maxsize s \<le> m"
proof -
  define first where "first = length t - length q"
  note fm = first_match [OF t tok q, folded first_def]
  define k where "k = occurrences tok (drop (first + length tok) t)"
  have cl: "count_loop (Suc (length (str s))) Match_simple tok (str s) (first + length tok) (-2) 1 False
      = Inr (Suc k, False)"
    using count_loop_all [OF t tok, of "first + length tok" "-2" "Suc (length (str s))" r 1] fm(4) str
    by (simp add: k_def del: count_loop.simps)
  have len: "int (length t) + (int (length rep) - int (length tok)) * int (Suc k) = int (length t')"
    using replace_all_length [of tok rep t] by (simp add: t'_def fm(6) k_def algebra_simps)
  obtain m where m: "grow (nat (int (length t') + 1)) (maxsize s) (int (length t')) = Inr m"
    "int (length t') < m" "maxsize s \<le> m"
    using grow_total [of "maxsize s" "int (length t')" "nat (int (length t') + 1)"] ms by auto
  have t': "t' = take first t @ rep @ replace_all tok rep (drop (first + length tok) t)"
    using fm(3) by (simp add: t'_def)
  define junk where "junk = replicate (nat m - first) NUL"
  have tk: "length (take first t) = first" by (simp add: first_def)
  have room: "length rep + length (replace_all tok rep (drop (first + length tok) t)) < length junk"
    using m(2) arg_cong [OF t', of length] tk by (simp add: junk_def)
  have first_m: "first \<le> nat m" using m(2) arg_cong [OF t', of length] tk by simp
  have cp0: "buf_copy (replicate (nat m) NUL) 0 (take first (str s)) = Inr (take first t @ junk)"
    using first_m str(1) tk m(2) by (simp add: buf_copy_def junk_def)
  obtain g where cp: "copy_loop (Suc k) Match_simple tok rep (slen s) (str s) (take first t @ junk)
      (int first) first False = Inr (t' @ NUL # g)" "length (t' @ NUL # g) = nat m"
    using copy_loop_all [OF t tok fm(4) k_def room, of r "take first t"] tk str first_m
    by (auto simp: t' junk_def simp del: copy_loop.simps)
  have "replace_simple s tok rep False (-1) Match_simple =
      Inr (int (Suc k), s\<lparr>hashkey := -1, slen := int (length t'), str := t' @ NUL # g, maxsize := m,
        sp := int (length t')\<rparr>)"
    using tok fm(1,2) [of r] gt cl cp0 cp(1) m(1) str len pos
    by (simp add: replace_simple_def Let_def del: count_loop.simps copy_loop.simps)
  then show ?thesis using cp(2) m(2,3) by blast
qed

lemma String_replace_full:
  assumes "string_ok s" and "terminated s" and "sp s = slen s" and "tok \<noteq> []"
  shows "\<exists>n s'. String_replace s tok rep REPLACE_ANY = Inr (n, s') \<and>
    contents s' = replace_all tok rep (contents s) \<and> string_ok s' \<and> sp s' = slen s'"
proof -
  have inv: "string_inv s" using assms(1) by (simp add: string_ok_def)
  define t where "t = contents s"
  obtain r where r: "str s = t @ NUL # r" "slen s = int (length t)" and nul: "NUL \<notin> set t"
    using string_terminated [OF inv assms(2)] t_def by metis
  have ms: "maxsize s \<le> int (length (str s))" "int (length t) \<le> maxsize s" "2 \<le> maxsize s"
    using inv r(2) by (auto simp: string_inv_def alloc_def)
  have SR: "String_replace s tok rep REPLACE_ANY = replace_simple s tok rep False (-1) Match_simple"
    by (simp add: String_replace_def REPLACE_ANY_def)
  show ?thesis
  proof (cases "strstr t tok")
    case None
    then have "replace_all tok rep t = t" using replace_all_none [of 0 t] by simp
    moreover have "match_from Match_simple (str s) 0 tok = None"
      using match_text [OF nul assms(4), of 0 r] None by (simp add: r(1))
    ultimately show ?thesis using assms(1,3) by (auto simp: SR replace_simple_def t_def)
  next
    case (Some q)
    show ?thesis
    proof (cases "length rep \<le> length tok")
      case True
      have "int (occurrences tok t) * (int (length rep) - int (length tok)) \<le> 0"
        using True by (simp add: mult_nonneg_nonpos)
      then have "length (replace_all tok rep t) \<le> length t" using replace_all_length [of tok rep t] by simp
      then show ?thesis
        using replace_shrinks [OF r nul assms(4) Some True assms(3)] ms
        by (auto simp: SR t_def [symmetric] intro!: replaced_ok [THEN conjunct1] replaced_ok [THEN conjunct2])
    next
      case False
      then show ?thesis
        using replace_grows [OF r nul assms(4) Some _ assms(3), of rep] ms
        by (auto simp: SR t_def [symmetric] intro!: replaced_ok [THEN conjunct1] replaced_ok [THEN conjunct2])
    qed
  qed
qed

text \<open>
  C21. \<open>Replaceall\<close> replaces all occurrences, from left to right and without overlap, whatever the
  lengths: on a string object whose text has no NUL and whose file position is at its end,
  \<open>String_replace\<close> with \<open>DOH_REPLACE_ANY\<close> returns without leaving the buffer, in place when the
  replacement is not longer than the token and in a new buffer otherwise; both give the text of
  \<open>replace_all\<close>, keep the invariant and leave the position at the end.
\<close>

theorem string_replace_all:
  assumes "string_ok s" and "terminated s" and "sp s = slen s" and "tok \<noteq> []"
  shows "\<exists>n s'. String_replace s tok rep REPLACE_ANY = Inr (n, s') \<and>
    contents s' = replace_all tok rep (contents s) \<and> string_ok s' \<and> sp s' = slen s'"
  using assms by (rule String_replace_full)

theorem string_replace_all_witness:
  "(\<exists>n s'. String_replace (DohNewString (Some ''ab'')) ''b'' ''cdefghijklmnopqrst'' REPLACE_ANY = Inr (n, s') \<and>
     contents s' = ''acdefghijklmnopqrst'' \<and> string_ok s' \<and> sp s' = slen s')"
proof -
  have "string_ok (DohNewString (Some ''ab''))" "terminated (DohNewString (Some ''ab''))"
    "sp (DohNewString (Some ''ab'')) = slen (DohNewString (Some ''ab''))"
    by code_simp+
  moreover have "replace_all ''b'' ''cdefghijklmnopqrst'' (contents (DohNewString (Some ''ab''))) = ''acdefghijklmnopqrst''"
    by code_simp
  ultimately show ?thesis
    using string_replace_all [of "DohNewString (Some ''ab'')" "''b''" "''cdefghijklmnopqrst''"] by simp
qed

section \<open>Where the code departs from that\<close>

text \<open>
  With \<open>DOH_REPLACE_NOQUOTE\<close> a longer replacement is also made inside quotes: the counting pass
  clears \<open>noquote\<close> and the copying pass starts from what it left.
\<close>

lemma noquote_expansion_replaces_inside_quotes:
  "(case String_replace (DohNewString (Some (''a '' @ [CHR 0x22] @ ''a'' @ [CHR 0x22] @ '' a''))) ''a'' ''bb''
      (REPLACE_ANY\<lparr>rf_noquote := True\<rparr>) of
     Inr (n, s) \<Rightarrow> (n, contents s) | Inl _ \<Rightarrow> (0, []))
   = (2, ''bb '' @ [CHR 0x22] @ ''bb'' @ [CHR 0x22] @ '' a'')"
  by code_simp

text \<open>A string that shrinks below its file position gets the change added to the position, even where the result is negative.\<close>

lemma replace_negative_position:
  "(case String_replace ((DohNewString (Some ''aaaa''))\<lparr>sp := 1\<rparr>) ''a'' [] REPLACE_ANY of
     Inr (n, s) \<Rightarrow> sp s | Inl _ \<Rightarrow> 0) = -3"
  by code_simp

end
