(* ===== verification/SwigTypeStr.thy ===== *)
theory SwigTypeStr
  imports TypeObjSpec DohReplace ScopeName
begin

text \<open>
  Type strings as C text, and their conversions: Source/Swig/stype.c, with \<open>SwigType_array_getdim\<close> of
  typeobj.c, which needs it. The functions of the type system and of the symbol tables that these
  call (\<open>SwigType_typedef_resolve\<close>, \<open>SwigType_typedef_resolve_all\<close>, \<open>SwigType_typedef_qualified\<close>,
  \<open>Swig_symbol_template_deftype\<close>) depend on the declarations read so far; they are arguments here.
  A loop over typedefs that does not end is the value \<open>None\<close>.
\<close>

section \<open>Types from codes\<close>

definition type_names :: "(int \<times> string) list" where
  "type_names =
     [(1, ''bool''), (7, ''int''), (8, ''unsigned int''), (4, ''short''), (5, ''unsigned short''),
      (9, ''long''), (10, ''unsigned long''), (20, ''float''), (21, ''double''), (24, ''complex''),
      (29, ''char''), (2, ''signed char''), (3, ''unsigned char''), (11, ''long long''),
      (12, ''unsigned long long''), (32, ''void'')]"

definition NewSwigType :: "int \<Rightarrow> stype" where
  "NewSwigType t =
     (if t = 33 then SwigType_add_pointer ''char''
      else case map_of type_names t of Some s \<Rightarrow> s | None \<Rightarrow> [])"

section \<open>Queries\<close>

definition ends_with :: "string \<Rightarrow> stype \<Rightarrow> bool" where
  "ends_with e t \<longleftrightarrow> length e \<le> length t \<and> drop (length t - length e) t = e"

definition SwigType_ispointer_return :: "stype \<Rightarrow> bool" where
  "SwigType_ispointer_return t = ends_with '').p.'' t"

definition SwigType_isreference_return :: "stype \<Rightarrow> bool" where
  "SwigType_isreference_return t = ends_with '').r.'' t"

definition SwigType_isenum :: "stype \<Rightarrow> bool" where
  "SwigType_isenum t = starts_with ''enum '' t"

text \<open>
  \<open>SwigType_issimple\<close>. After a template the pointer is moved back to the last character that was
  skipped, and that one is looked at.
\<close>

function SwigType_issimple :: "stype \<Rightarrow> bool" where
  "SwigType_issimple [] = True"
| "SwigType_issimple (x # xs) =
     (if x = CHR ''<'' then
        (let r = skip_nest (CHR ''<'') (CHR ''>'') 1 xs;
             k = length xs - length r
         in if 0 < k \<and> xs ! (k - 1) = CHR ''.'' then False else SwigType_issimple r)
      else if x = CHR ''.'' then False
      else SwigType_issimple xs)"
  by pat_completeness auto
termination by (relation "measure length") (auto simp: less_Suc_eq_le skip_nest_length)

definition qualified_const :: "stype \<Rightarrow> bool" where
  "qualified_const t \<longleftrightarrow> starts_with ''q('' t \<and>
     (case SwigType_parm t of None \<Rightarrow> False | Some q \<Rightarrow> strstr q ''const'' \<noteq> None)"

partial_function (option) SwigType_isconst :: "(stype \<Rightarrow> stype option) \<Rightarrow> stype \<Rightarrow> bool option" where
  "SwigType_isconst resolve t =
     (if qualified_const t then Some True
      else if SwigType_issimple t
      then (case resolve t of None \<Rightarrow> Some False | Some td \<Rightarrow> SwigType_isconst resolve td)
      else Some False)"

declare SwigType_isconst.simps [code]

definition SwigType_ismutable ::
  "(stype \<Rightarrow> stype option) \<Rightarrow> (stype \<Rightarrow> stype) \<Rightarrow> stype \<Rightarrow> bool option" where
  "SwigType_ismutable resolve resolve_all t =
     (let qt = resolve_all t;
          qt1 = (if SwigType_isreference qt \<or> SwigType_isarray qt then pop_rest qt else qt)
      in map_option Not (SwigType_isconst resolve qt1))"

section \<open>C text\<close>

fun seq_res :: "'a res list \<Rightarrow> 'a list res" where
  "seq_res [] = Inr []"
| "seq_res (x # xs) = rbind x (\<lambda>y. rbind (seq_res xs) (\<lambda>ys. Inr (y # ys)))"

text \<open>The items of a parameter list that is there.\<close>

definition parm_items :: "string \<Rightarrow> string list" where
  "parm_items e = (case SwigType_parmlist e of Inr (Some l) \<Rightarrow> l | _ \<Rightarrow> [])"

abbreviation parm_text :: "stype \<Rightarrow> string" where
  "parm_text e \<equiv> str_or_empty (SwigType_parm e)"

text \<open>What an element is, in the order the code asks.\<close>

definition is_function :: "stype \<Rightarrow> bool" where
  "is_function e \<longleftrightarrow> \<not> SwigType_isqualifier e \<and> \<not> SwigType_ispointer e \<and> \<not> SwigType_ismemberpointer e \<and>
     \<not> SwigType_isreference e \<and> \<not> SwigType_isarray e \<and> SwigType_isfunction e"

definition is_base :: "stype \<Rightarrow> bool" where
  "is_base e \<longleftrightarrow> \<not> SwigType_isqualifier e \<and> \<not> SwigType_ispointer e \<and> \<not> SwigType_ismemberpointer e \<and>
     \<not> SwigType_isreference e \<and> \<not> SwigType_isarray e \<and> \<not> SwigType_isfunction e"

text \<open>Parentheses around a pointer declarator when a function or an array follows.\<close>

definition closes :: "stype list \<Rightarrow> string \<Rightarrow> string" where
  "closes es s =
     (case es of [] \<Rightarrow> s
      | n # _ \<Rightarrow> if SwigType_isfunction n \<or> SwigType_isarray n then ''('' @ s @ '')'' else s)"

text \<open>
  The walk over the elements of \<open>SwigType_str\<close>. The second components are the texts of the parameters
  of a function element and of the name of a base element.
\<close>

fun str_walk :: "string \<Rightarrow> stype list \<Rightarrow> string list \<Rightarrow> string" where
  "str_walk result (e # es) (txt # txts) =
     str_walk
       (if SwigType_isqualifier e then parm_text e @ '' '' @ result
        else if SwigType_ispointer e then closes es (''*'' @ result)
        else if SwigType_ismemberpointer e then closes es (parm_text e @ ''::*'' @ result)
        else if SwigType_isreference e then closes es (''&'' @ result)
        else if SwigType_isarray e then result @ ''['' @ parm_text e @ '']''
        else if SwigType_isfunction e then result @ ''('' @ txt @ '')''
        else if e = ''v(...)'' then ''...'' @ result
        else txt @ '' '' @ result) es txts"
| "str_walk result es txts = result"

lemma split_length: "e \<in> set (SwigType_split s) \<Longrightarrow> length e \<le> length s"
proof (induction s rule: SwigType_split.induct)
  case (1 t)
  show ?case
  proof (cases "t = []")
    case True
    then show ?thesis using 1(2) by (subst (asm) SwigType_split.simps) simp
  next
    case False
    define rest where "rest = drop (element_size t) t"
    define nt where "nt = (if starts_with ''.'' rest then drop 1 rest else rest)"
    have "length nt \<le> length t" by (simp add: nt_def rest_def)
    moreover have "e = take (element_size t) t \<or> e \<in> set (SwigType_split nt)"
      using 1(2) False by (subst (asm) SwigType_split.simps) (auto simp: Let_def nt_def rest_def)
    moreover have "e \<in> set (SwigType_split nt) \<Longrightarrow> length e \<le> length nt"
      using 1(1) [OF False refl rest_def] by (simp add: nt_def)
    ultimately show ?thesis by auto
  qed
qed

lemma parmlist_loop_length: "p \<in> set (parmlist_loop cur s) \<Longrightarrow> length p \<le> length cur + length s"
proof (induction cur s rule: parmlist_loop.induct)
  case (2 cur x xs)
  define k where "k = bracket_len (CHR ''('') (CHR '')'') 1 xs"
  have "k \<le> length xs" unfolding k_def by (rule bracket_len_le)
  with 2 show ?case
    by (cases "x = CHR ''(''") (auto simp: Let_def simp flip: k_def split: if_splits)
qed (auto split: if_splits)

lemma parmlist_length: "SwigType_parmlist e = Inr (Some l) \<Longrightarrow> p \<in> set l \<Longrightarrow> length p < length e"
  by (induction e rule: SwigType_parmlist.induct)
    (auto simp: less_Suc_eq_le dest: parmlist_loop_length split: if_splits)

lemma parm_items_length: "p \<in> set (parm_items e) \<Longrightarrow> length p < length e"
  by (cases "SwigType_parmlist e"; cases "projr (SwigType_parmlist e)")
    (auto simp: parm_items_def dest: parmlist_length)

text \<open>
  \<open>SwigType_namestr\<close> expands the first template argument list; it looks at the character before it,
  which is not there when the name begins with it.
\<close>

function SwigType_str :: "stype \<Rightarrow> string \<Rightarrow> string res"
  and SwigType_namestr :: "stype \<Rightarrow> string res" where
  "SwigType_str s ident =
     rbind (seq_res (map (\<lambda>e.
         if is_function e
         then rbind (seq_res (map (\<lambda>p. SwigType_str p []) (parm_items e))) (\<lambda>l. Inr (comma_text l))
         else if is_base e \<and> e \<noteq> ''v(...)'' then SwigType_namestr e
         else Inr []) (SwigType_split s)))
       (\<lambda>txts. Inr (rstrip (str_walk ident (SwigType_split s) txts)))"
| "SwigType_namestr t =
     (case strstr t ''<('' of
        None \<Rightarrow> Inr t
      | Some c \<Rightarrow>
          if strstr (drop 2 c) '')>'' = None then Inr t
          else if length c = length t then Inl Out_of_bounds
          else let pre = take (length t - length c) t
               in rbind (seq_res (map (\<lambda>p. SwigType_str p []) (parm_items (tl c)))) (\<lambda>strs.
                  Inr (pre @ (if last pre = CHR ''<'' then '' '' else []) @ ''<'' @
                       (if strs \<noteq> [] \<and> hd strs \<noteq> [] then '' '' else []) @ comma_text strs @ '' >'' @
                       SwigType_templatesuffix t)))"
  by pat_completeness auto
termination
proof (relation "measure (case_sum (\<lambda>(s, i). Suc (2 * length s)) (\<lambda>t. 2 * length t))", goal_cases)
  case (2 s i e p)
  then show ?case using split_length [of e s] parm_items_length [of p e] by simp
next
  case (3 s i e)
  then show ?case using split_length [of e s] by simp
next
  case (4 t c pre p)
  then show ?case using parm_items_length [of p "tl c"] strstr_length [of t "''<(''" c] by auto
qed simp

declare SwigType_str.simps [simp del] SwigType_namestr.simps [simp del]

definition SwigType_array_getdim :: "stype \<Rightarrow> nat \<Rightarrow> string option res" where
  "SwigType_array_getdim t n =
     rbind (array_walk n t) (\<lambda>(m, c).
       if m \<noteq> 0 then Inr None
       else case SwigType_parm c of
              None \<Rightarrow> Inl Undefined
            | Some dim \<Rightarrow>
                if SwigType_istemplate dim then rbind (SwigType_namestr dim) (\<lambda>d. Inr (Some d))
                else Inr (Some dim))"

section \<open>Assignable types\<close>

function nuke_qualifiers :: "stype \<Rightarrow> stype" where
  "nuke_qualifiers t = (if SwigType_isqualifier t then nuke_qualifiers (pop_rest t) else t)"
  by pat_completeness auto
termination
proof (relation "measure length", goal_cases)
  case (2 t)
  then show ?case using pop_rest_length [of t] by (cases t) (auto simp: SwigType_isqualifier_def)
qed simp

declare nuke_qualifiers.simps [simp del]

text \<open>
  The typedefs of a simple type, up to one that is read-only, an array or a reference: \<open>Some None\<close>
  when there is none.
\<close>

partial_function (option) resolve_readonly ::
  "(stype \<Rightarrow> stype option) \<Rightarrow> stype \<Rightarrow> stype option option" where
  "resolve_readonly resolve tt =
     (case resolve tt of
        None \<Rightarrow> Some None
      | Some td \<Rightarrow> Option.bind (SwigType_isconst resolve td) (\<lambda>c.
          if c \<or> SwigType_isarray td \<or> SwigType_isreference td then Some (Some td)
          else resolve_readonly resolve td))"

declare resolve_readonly.simps [code]

text \<open>The walk over the elements, with \<open>firstarray\<close> and \<open>notypeconv\<close>.\<close>

fun ltype_walk :: "bool \<Rightarrow> bool \<Rightarrow> stype list \<Rightarrow> stype" where
  "ltype_walk firstarray notypeconv [] = []"
| "ltype_walk firstarray notypeconv (e # es) =
     (let nc = (notypeconv \<or> SwigType_isfunction e)
      in if SwigType_isqualifier e then ltype_walk firstarray nc es
         else if SwigType_ispointer e then e @ ltype_walk False nc es
         else if SwigType_ismemberpointer e then e @ ltype_walk False nc es
         else if SwigType_isreference e then (if nc then e else ''p.'') @ ltype_walk False nc es
         else if SwigType_isarray e \<and> firstarray then (if nc then e else ''p.'') @ ltype_walk False nc es
         else if SwigType_isenum e
         then (if nc \<or> e \<noteq> ''enum '' then e else ''int'') @ ltype_walk firstarray nc es
         else e @ ltype_walk firstarray nc es)"

definition SwigType_ltype :: "(stype \<Rightarrow> stype option) \<Rightarrow> stype \<Rightarrow> stype option" where
  "SwigType_ltype resolve s =
     (let tc = nuke_qualifiers s
      in map_option (\<lambda>td. ltype_walk True False (SwigType_split (case td of None \<Rightarrow> tc | Some t \<Rightarrow> t)))
           (if SwigType_issimple tc then resolve_readonly resolve tc else Some None))"

definition SwigType_lstr :: "(stype \<Rightarrow> stype option) \<Rightarrow> stype \<Rightarrow> string \<Rightarrow> string res option" where
  "SwigType_lstr resolve s ident = map_option (\<lambda>tc. SwigType_str tc ident) (SwigType_ltype resolve s)"

section \<open>Casts\<close>

text \<open>The state of the walk in \<open>SwigType_rcaststr\<close>.\<close>

record rcast =
  rc_result :: string
  rc_clear :: bool
  rc_firstarray :: bool
  rc_isreference :: bool
  rc_isarray :: bool

fun rcast_walk :: "rcast \<Rightarrow> stype list \<Rightarrow> string list \<Rightarrow> rcast" where
  "rcast_walk r (e # es) (txt # txts) =
     rcast_walk
       (if SwigType_isqualifier e
        then r\<lparr>rc_result := parm_text e @ '' '' @ rc_result r, rc_clear := False\<rparr>
        else if SwigType_ispointer e
        then r\<lparr>rc_result := closes es (''*'' @ rc_result r), rc_firstarray := False\<rparr>
        else if SwigType_ismemberpointer e
        then r\<lparr>rc_result := closes es (parm_text e @ ''::*'' @ rc_result r), rc_firstarray := False\<rparr>
        else if SwigType_isreference e
        then r\<lparr>rc_result := closes es (''&'' @ rc_result r), rc_isreference := True\<rparr>
        else if SwigType_isarray e
        then (if rc_firstarray r \<and> \<not> rc_isreference r
              then r\<lparr>rc_result := rc_result r @ ''(*)'', rc_firstarray := False, rc_isarray := True\<rparr>
              else r\<lparr>rc_result := rc_result r @ ''['' @ parm_text e @ '']'', rc_clear := False,
                     rc_isarray := True\<rparr>)
        else if SwigType_isfunction e then r\<lparr>rc_result := rc_result r @ ''('' @ txt @ '')''\<rparr>
        else r\<lparr>rc_result := txt @ '' '' @ rc_result r\<rparr>) es txts"
| "rcast_walk r es txts = r"

definition element_texts :: "stype list \<Rightarrow> string list res" where
  "element_texts es =
     seq_res (map (\<lambda>e.
       if is_function e
       then rbind (seq_res (map (\<lambda>p. SwigType_str p []) (parm_items e))) (\<lambda>l. Inr (comma_text l))
       else if is_base e then SwigType_namestr e
       else Inr []) es)"

definition rcast_text :: "stype list \<Rightarrow> string option \<Rightarrow> string res" where
  "rcast_text es name =
     rbind (element_texts es) (\<lambda>txts.
       let r = rcast_walk \<lparr>rc_result = [], rc_clear = True, rc_firstarray = True,
                           rc_isreference = False, rc_isarray = False\<rparr> es txts;
           cast = (if rc_clear r then [] else ''('' @ rc_result r @ '')'')
       in Inr (case name of
                 None \<Rightarrow> cast
               | Some n \<Rightarrow>
                   (if rc_isreference r then (if rc_isarray r then [] else cast) @ ''*'' else cast) @ n))"

definition special :: "(stype \<Rightarrow> stype option) \<Rightarrow> stype \<Rightarrow> bool option" where
  "special resolve t =
     map_option (\<lambda>c. c \<or> SwigType_isarray t \<or> SwigType_isreference t) (SwigType_isconst resolve t)"

definition SwigType_rcaststr ::
  "(stype \<Rightarrow> stype option) \<Rightarrow> stype \<Rightarrow> string option \<Rightarrow> string res option" where
  "SwigType_rcaststr resolve s name =
     Option.bind (SwigType_isconst resolve s) (\<lambda>c.
       let rs = (if c then pop_rest s else s)
       in Option.bind (special resolve rs) (\<lambda>sp.
          case (if sp then None else resolve rs) of
            None \<Rightarrow> Some (rcast_text (SwigType_split rs) name)
          | Some td \<Rightarrow> map_option (\<lambda>sp2. rcast_text (SwigType_split (if sp2 then td else rs)) name)
                         (special resolve td)))"

text \<open>A NULL name is printed as nothing.\<close>

definition SwigType_lcaststr ::
  "(stype \<Rightarrow> stype option) \<Rightarrow> stype \<Rightarrow> string option \<Rightarrow> string res option" where
  "SwigType_lcaststr resolve s name =
     (let n = str_or_empty name
      in if SwigType_isarray s
         then map_option (\<lambda>r. rbind r (\<lambda>l. Inr (''('' @ l @ '')'' @ n))) (SwigType_lstr resolve s [])
         else if SwigType_isreference s
         then Some (rbind (SwigType_str s []) (\<lambda>l. Inr (''('' @ l @ '')'' @ n)))
         else if SwigType_isqualifier s
         then map_option (\<lambda>r. rbind r (\<lambda>l. Inr (''('' @ l @ '')'' @ n))) (SwigType_lstr resolve s [])
         else Some (Inr n))"

section \<open>Mangled names of types\<close>

text \<open>\<open>Replace\<close> on a text.\<close>

definition text_replace :: "string \<Rightarrow> string \<Rightarrow> string \<Rightarrow> replace_flags \<Rightarrow> string res" where
  "text_replace s tok rep fl =
     rbind (String_replace (DohNewString (Some s)) tok rep fl) (\<lambda>(n, s'). Inr (contents s'))"

definition mangle_prefix_char :: "char \<Rightarrow> char" where
  "mangle_prefix_char c = (if isalnum c then c else CHR ''_'')"

definition mangle_base_char :: "char \<Rightarrow> char" where
  "mangle_base_char c =
     (if c = CHR ''<'' then CHR ''T'' else if c = CHR ''>'' then CHR ''t''
      else if c = CHR ''*'' then CHR ''p'' else if c = CHR ''['' then CHR ''a''
      else if c = CHR '']'' then CHR ''A'' else if c = CHR ''&'' then CHR ''R''
      else if c = CHR ''('' then CHR ''f'' else if c = CHR '')'' then CHR ''F''
      else if isalnum c then c else CHR ''_'')"

definition strip_keywords :: "string \<Rightarrow> string res" where
  "strip_keywords base =
     rbind (text_replace base ''struct '' [] REPLACE_ANY) (\<lambda>b1.
     rbind (text_replace b1 ''class '' [] REPLACE_ANY) (\<lambda>b2.
     rbind (text_replace b2 ''union '' [] REPLACE_ANY) (\<lambda>b3.
     text_replace b3 ''enum '' [] REPLACE_ANY)))"

definition SwigType_manglestr_default ::
  "(stype \<Rightarrow> stype option) \<Rightarrow> (stype \<Rightarrow> stype) \<Rightarrow> (stype \<Rightarrow> stype) \<Rightarrow> (stype \<Rightarrow> stype) \<Rightarrow> stype \<Rightarrow>
   string res option" where
  "SwigType_manglestr_default resolve qualified resolve_all deftype s =
     (let ss = resolve_all (qualified s);
          s1 = (if SwigType_istemplate ss then deftype ss else ss)
      in map_option (\<lambda>lt.
           rbind (SwigType_prefix lt) (\<lambda>pre.
           let base = SwigType_base lt
           in rbind (if SwigType_istemplate base then SwigType_namestr base else Inr base) (\<lambda>b.
              rbind (strip_keywords b) (\<lambda>b1.
              Inr (''_'' @ map mangle_prefix_char pre @ map mangle_base_char b1)))))
         (SwigType_ltype resolve s1))"

definition SwigType_manglestr ::
  "(stype \<Rightarrow> stype option) \<Rightarrow> (stype \<Rightarrow> stype) \<Rightarrow> (stype \<Rightarrow> stype) \<Rightarrow> (stype \<Rightarrow> stype) \<Rightarrow> stype \<Rightarrow>
   string res option" where
  "SwigType_manglestr = SwigType_manglestr_default"

text \<open>\<open>SwigType_check_decl\<close>, with the table of stripped types.\<close>

definition SwigType_check_decl ::
  "(stype \<Rightarrow> stype) \<Rightarrow> (stype \<Rightarrow> stype option) \<Rightarrow> stype \<Rightarrow> stype \<Rightarrow>
   (bool \<times> (stype \<Rightarrow> stype option)) res" where
  "SwigType_check_decl resolve_all memo ty decl =
     (case SwigType_strip_qualifiers memo (resolve_all ty) of (t1, memo') \<Rightarrow>
        rbind (SwigType_prefix t1) (\<lambda>t2. Inr (t2 = decl, memo')))"

section \<open>Default types\<close>

text \<open>
  \<open>SwigType_default\<close> and \<open>SwigType_add_default\<close> call each other; the typedefs of a program can make
  them go on for ever. The fuel counts typedefs and constructors.
\<close>

fun resolve_end :: "(stype \<Rightarrow> stype option) \<Rightarrow> nat \<Rightarrow> stype \<Rightarrow> stype res" where
  "resolve_end resolve 0 r = Inl Hang"
| "resolve_end resolve (Suc n) r =
     (case resolve r of None \<Rightarrow> Inr r | Some r1 \<Rightarrow> resolve_end resolve n r1)"

abbreviation SWIGTYPE :: string where
  "SWIGTYPE \<equiv> ''SWIGTYPE''"

text \<open>The dimensions are looked at from the first on; the answer is the one for the last empty one.\<close>

fun empty_dims :: "stype \<Rightarrow> nat list \<Rightarrow> bool res" where
  "empty_dims r [] = Inr False"
| "empty_dims r (i # is) =
     rbind (SwigType_array_getdim r i) (\<lambda>dim.
     rbind (empty_dims r is) (\<lambda>later.
     Inr (later \<or> (str_or_empty dim = [] \<and> \<not> starts_with ''a(ANY).'' r))))"

fun SwigType_default :: "(stype \<Rightarrow> stype option) \<Rightarrow> nat \<Rightarrow> stype \<Rightarrow> stype option res"
  and SwigType_add_default :: "(stype \<Rightarrow> stype option) \<Rightarrow> nat \<Rightarrow> string \<Rightarrow> stype \<Rightarrow> string res" where
  "SwigType_default resolve 0 t = Inl Hang"
| "SwigType_default resolve (Suc n) t =
     (if SwigType_isvarargs t then Inr None
      else rbind (resolve_end resolve (Suc n) t) (\<lambda>r0.
      if SwigType_isqualifier r0 \<and> strstr (pop_rest r0) SWIGTYPE \<noteq> None then Inr (Some (pop_rest r0))
      else
        let r = (if SwigType_isqualifier r0 then pop_rest r0 else r0)
        in rbind
             (if r = ''p.SWIGTYPE'' then Inr SWIGTYPE
              else if SwigType_ispointer r
              then rbind (SwigType_del_pointer r) (\<lambda>nr.
                SwigType_add_default resolve n (if SwigType_isfunction nr then [] else ''p.'') nr)
              else if r = ''r.SWIGTYPE'' then Inr SWIGTYPE
              else if SwigType_isreference r
              then rbind (SwigType_del_reference r) (SwigType_add_default resolve n ''r.'')
              else if SwigType_isarray r
              then (if r = ''a().SWIGTYPE'' then Inr ''p.SWIGTYPE''
                    else if r = ''a(ANY).SWIGTYPE'' then Inr ''a().SWIGTYPE''
                    else rbind (SwigType_array_ndim r) (\<lambda>ndim.
                         rbind (empty_dims r [0..<ndim]) (\<lambda>empty.
                         rbind (SwigType_del_array r)
                           (SwigType_add_default resolve n (if empty then ''a().'' else ''a(ANY).'')))))
              else if SwigType_ismemberpointer r
              then Inr (if r = ''m(CLASS).SWIGTYPE'' then ''p.SWIGTYPE'' else ''m(CLASS).SWIGTYPE'')
              else if SwigType_isenum r
              then Inr (if r = ''enum SWIGTYPE'' then SWIGTYPE else ''enum SWIGTYPE'')
              else if SwigType_isfunction r
              then Inr (if r = ''f(ANY).SWIGTYPE'' then ''p.SWIGTYPE'' else ''p.f(ANY).SWIGTYPE'')
              else Inr SWIGTYPE)
             (\<lambda>def. Inr (if def = t then None else Some def))))"
| "SwigType_add_default resolve n def nr =
     (if nr = SWIGTYPE then Inr (def @ SWIGTYPE)
      else case (if SwigType_isqualifier nr then SwigType_pop nr else None) of
             Some (q, nr1) \<Rightarrow>
               if strstr nr1 SWIGTYPE \<noteq> None then Inr (def @ nr1)
               else rbind (SwigType_default resolve n nr1) (\<lambda>nd.
                 Inr (def @ (case nd of None \<Rightarrow> nr1 | Some d \<Rightarrow> if nr1 = q @ d then d else q @ d)))
           | None \<Rightarrow>
               rbind (SwigType_default resolve n nr) (\<lambda>nd.
                 Inr (def @ (case nd of None \<Rightarrow> nr | Some d \<Rightarrow> d))))"

section \<open>Replacing a type name\<close>

text \<open>
  \<open>SwigType_typename_replace\<close> changes the type it is given; here it returns the new text. A name without a
  first part is NULL, which ends the arguments of \<open>Printv\<close>.
\<close>

lemma scan_first_length: "length (scan_first co s) \<le> length s"
proof (induction co s rule: scan_first.induct)
  case (2 co x xs)
  then show ?case using skip_nest_length [of "CHR ''<''" "CHR ''>''" 1 xs] by (auto intro: le_trans le_SucI)
qed simp

lemma scopename_first_length: "Swig_scopename_first s = Some f \<Longrightarrow> length f < length s"
  by (cases s) (auto simp: Swig_scopename_first_def Let_def intro!: diff_less
      split: if_splits option.splits)

lemma scopename_suffix_length: "Swig_scopename_suffix s = Some r \<Longrightarrow> length r < length s"
  using scan_first_length [of 0 s]
  by (cases "scan_first 0 s") (auto simp: Swig_scopename_suffix_def Let_def split: if_splits)

function SwigType_typename_replace :: "stype \<Rightarrow> string \<Rightarrow> string \<Rightarrow> stype res" where
  "SwigType_typename_replace t pat rep =
     (if strstr t pat = None then Inr t
      else if t = pat then text_replace t pat rep REPLACE_ANY
      else rbind (seq_res (map (\<lambda>e.
        if SwigType_issimple e then
          (if e = pat then text_replace e pat rep REPLACE_ANY
           else if SwigType_istemplate e then
             (case SwigType_parmlist e of
                Inl f \<Rightarrow> Inl f
              | Inr _ \<Rightarrow>
                  rbind (seq_res (map (\<lambda>p. SwigType_typename_replace p pat rep) (parm_items e))) (\<lambda>ps.
                  Inr (SwigType_templateprefix e @ ''<('' @ comma_text ps @ '')>'' @ SwigType_templatesuffix e)))
           else if Swig_scopename_check e then
             rbind (case Swig_scopename_suffix e of None \<Rightarrow> Inr None
                    | Some rest \<Rightarrow> rbind (SwigType_typename_replace rest pat rep) (\<lambda>r. Inr (Some r))) (\<lambda>rest1.
             rbind (case Swig_scopename_first e of None \<Rightarrow> Inr None
                    | Some first \<Rightarrow> rbind (SwigType_typename_replace first pat rep) (\<lambda>f. Inr (Some f))) (\<lambda>first1.
             Inr (case first1 of None \<Rightarrow> [] | Some f \<Rightarrow> f @ ''::'' @ str_or_empty rest1)))
           else Inr e)
        else if SwigType_isfunction e then
          (case SwigType_parmlist e of
             Inl f \<Rightarrow> Inl f
           | Inr _ \<Rightarrow>
               rbind (seq_res (map (\<lambda>p. SwigType_typename_replace p pat rep) (parm_items e))) (\<lambda>ps.
               Inr (''f('' @ comma_text ps @ '').'')))
        else if SwigType_isarray e then text_replace e pat rep (REPLACE_ANY\<lparr>rf_id := True\<rparr>)
        else Inr e) (SwigType_split t))) (\<lambda>es. Inr (concat es)))"
  by pat_completeness auto
termination
  by (relation "measure (\<lambda>(t, pat, rep). length t)")
    (auto dest!: parm_items_length split_length scopename_first_length
      scopename_suffix_length intro: less_le_trans)

declare SwigType_typename_replace.simps [simp del]

end
