(* ===== verification/TypeStrSpec.thy ===== *)
theory TypeStrSpec
  imports SwigTypeStr
begin

text \<open>
  What the functions of Source/Swig/stype.c do with types: the C text of a type is its declarator,
  the assignable type is free of qualifiers and references, mangled names are identifiers, and the
  chain of default types ends.
\<close>

section \<open>Types as trees\<close>

datatype ctype =
    CName string
  | CTempl string "ctype list"
  | CPtr ctype
  | CRef ctype
  | CQual string ctype
  | CArr string ctype
  | CMem string ctype
  | CFun "ctype list" ctype

fun encode :: "ctype \<Rightarrow> stype" where
  "encode (CName n) = n"
| "encode (CTempl n ps) = n @ ''<('' @ comma_text (map encode ps) @ '')>''"
| "encode (CPtr t) = ''p.'' @ encode t"
| "encode (CRef t) = ''r.'' @ encode t"
| "encode (CQual q t) = ''q('' @ q @ '').'' @ encode t"
| "encode (CArr n t) = ''a('' @ n @ '').'' @ encode t"
| "encode (CMem c t) = ''m('' @ c @ '').'' @ encode t"
| "encode (CFun ps t) = ''f('' @ comma_text (map encode ps) @ '').'' @ encode t"

abbreviation angle_ok :: "string \<Rightarrow> bool" where
  "angle_ok \<equiv> balanced (CHR ''<'') (CHR ''>'')"

definition name_ok :: "string \<Rightarrow> bool" where
  "name_ok n \<longleftrightarrow> n \<noteq> [] \<and> set n \<inter> set ''().,<>'' = {}"

fun ctype_ok :: "ctype \<Rightarrow> bool" where
  "ctype_ok (CName n) = name_ok n"
| "ctype_ok (CTempl n ps) = (name_ok n \<and> list_all ctype_ok ps)"
| "ctype_ok (CPtr t) = ctype_ok t"
| "ctype_ok (CRef t) = ctype_ok t"
| "ctype_ok (CQual q t) = (paren_ok q \<and> angle_ok q \<and> CHR ''.'' \<notin> set q \<and> ctype_ok t)"
| "ctype_ok (CArr n t) = (paren_ok n \<and> angle_ok n \<and> ctype_ok t)"
| "ctype_ok (CMem c t) = (paren_ok c \<and> angle_ok c \<and> ctype_ok t)"
| "ctype_ok (CFun ps t) = (list_all ctype_ok ps \<and> ctype_ok t)"

text \<open>The same type as constructors in front of a base.\<close>

fun conses :: "ctype \<Rightarrow> tcons list" where
  "conses (CPtr t) = TPtr # conses t"
| "conses (CRef t) = TRef # conses t"
| "conses (CQual q t) = TQual q # conses t"
| "conses (CArr n t) = TArr n # conses t"
| "conses (CMem c t) = TMem c # conses t"
| "conses (CFun ps t) = TFun (map encode ps) # conses t"
| "conses t = []"

fun base_of :: "ctype \<Rightarrow> ctype" where
  "base_of (CPtr t) = base_of t"
| "base_of (CRef t) = base_of t"
| "base_of (CQual q t) = base_of t"
| "base_of (CArr n t) = base_of t"
| "base_of (CMem c t) = base_of t"
| "base_of (CFun ps t) = base_of t"
| "base_of t = t"

lemma encode_type_text: "encode t = type_text (conses t) (encode (base_of t))"
  by (induction t) auto

lemma balanced_skip: "balanced_from l r 0 s \<Longrightarrow> balanced_from l r n (s @ t) = balanced_from l r n t"
proof -
  have "balanced_from l r m s \<Longrightarrow> balanced_from l r (m + n) (s @ t) = balanced_from l r n t" for m
    by (induction l r m s rule: balanced_from.induct) (auto split: if_splits)
  from this [of 0] show "balanced_from l r 0 s \<Longrightarrow> ?thesis" by simp
qed

lemma no_comma_group: "paren_ok s \<Longrightarrow> no_comma_from (Suc 0) (s @ r) = no_comma_from (Suc 0) r"
  using no_comma_balanced [of 0 s 0 r] by simp

lemma name_plain:
  assumes "name_ok n"
  shows "balanced_from (CHR ''('') (CHR '')'') k (n @ s) = balanced_from (CHR ''('') (CHR '')'') k s"
    and "balanced_from (CHR ''<'') (CHR ''>'') k (n @ s) = balanced_from (CHR ''<'') (CHR ''>'') k s"
    and "no_comma_from k (n @ s) = no_comma_from k s"
    and "element_size (n @ s) = length n + element_size s"
    and "n \<noteq> []"
proof -
  have *: "\<forall>c\<in>set n. c \<noteq> CHR ''('' \<and> c \<noteq> CHR '')'' \<and> c \<noteq> CHR ''.'' \<and> c \<noteq> CHR '','' \<and> c \<noteq> CHR ''<'' \<and> c \<noteq> CHR ''>''"
    using assms by (auto simp: name_ok_def)
  show "balanced_from (CHR ''('') (CHR '')'') k (n @ s) = balanced_from (CHR ''('') (CHR '')'') k s"
    "balanced_from (CHR ''<'') (CHR ''>'') k (n @ s) = balanced_from (CHR ''<'') (CHR ''>'') k s"
    "no_comma_from k (n @ s) = no_comma_from k s"
    "element_size (n @ s) = length n + element_size s"
    using * by (induction n) auto
  show "n \<noteq> []" using assms by (simp add: name_ok_def)
qed

lemma angle_comma: "list_all angle_ok as \<Longrightarrow> angle_ok (comma_text as)"
  by (induction as rule: comma_text.induct) (auto simp: balanced_skip)

lemma encode_ok: "ctype_ok t \<Longrightarrow> arg_ok (encode t) \<and> angle_ok (encode t)"
proof (induction t)
  case (CName n)
  then show ?case using name_plain(1-3) [of n 0 "[]"] name_plain(5) [of n]
    by (auto simp: arg_ok_def)
next
  case (CTempl n ps)
  then have "list_all arg_ok (map encode ps)" "list_all angle_ok (map encode ps)"
    by (auto simp: list_all_iff)
  then have "paren_ok (comma_text (map encode ps))" "angle_ok (comma_text (map encode ps))"
    using paren_ok_comma angle_comma by blast+
  then show ?case using CTempl(2) by (auto simp: arg_ok_def name_plain balanced_skip no_comma_group)
next
  case (CFun ps t)
  then have "list_all arg_ok (map encode ps)" "list_all angle_ok (map encode ps)"
    by (auto simp: list_all_iff)
  then have "paren_ok (comma_text (map encode ps))" "angle_ok (comma_text (map encode ps))"
    using paren_ok_comma angle_comma by blast+
  then show ?case using CFun by (auto simp: arg_ok_def balanced_skip no_comma_group)
qed (auto simp: arg_ok_def balanced_skip no_comma_group)

lemma encode_args_ok: "list_all ctype_ok ps \<Longrightarrow> list_all arg_ok (map encode ps)"
  using encode_ok by (auto simp: list_all_iff)

lemma args_ok:
  assumes "list_all ctype_ok ps"
  shows "paren_ok (comma_text (map encode ps))" and "angle_ok (comma_text (map encode ps))"
  using assms encode_ok paren_ok_comma [OF encode_args_ok [OF assms]]
  by (auto intro!: angle_comma simp: list_all_iff)

lemma conses_ok: "ctype_ok t \<Longrightarrow> list_all cons_ok (conses t) \<and> ctype_ok (base_of t)"
  using encode_args_ok by (induction t) auto

lemma base_of_cases: "(\<exists>n. base_of t = CName n) \<or> (\<exists>n ps. base_of t = CTempl n ps)"
  by (induction t) auto

lemma name_hd: "name_ok n \<Longrightarrow> \<exists>c n'. n = c # n' \<and> c \<noteq> CHR ''.''"
  by (cases n) (auto simp: name_ok_def)

lemma base_encode_ok:
  assumes "ctype_ok t"
  shows "base_ok (encode (base_of t))"
  using base_of_cases [of t]
proof (elim disjE exE)
  fix n assume b: "base_of t = CName n"
  then have "name_ok n" using conses_ok [OF assms] by simp
  then show ?thesis using b name_hd [of n] name_plain(4) [of n "[]"] by (auto simp: base_ok_def)
next
  fix n ps assume b: "base_of t = CTempl n ps"
  then have n: "name_ok n" and ps: "list_all ctype_ok ps" using conses_ok [OF assms] by simp_all
  have "element_size (CHR ''('' # comma_text (map encode ps) @ '')>'') = length (comma_text (map encode ps)) + 3"
    using bracket_len_balanced [OF _ args_ok(1) [OF ps], of "''>''"] by (simp add: Let_def)
  then have "element_size (encode (CTempl n ps)) = length (encode (CTempl n ps))"
    using name_plain(4) [OF n] by simp
  then show ?thesis using b name_hd [OF n] by (auto simp: base_ok_def)
qed

lemma split_encode:
  "ctype_ok t \<Longrightarrow> SwigType_split (encode t) = map cons_text (conses t) @ [encode (base_of t)]"
  using split_type_text conses_ok base_encode_ok by (subst encode_type_text) blast

section \<open>Declarators\<close>

text \<open>
  The C syntax of a declaration: array and function parts follow the declarator and bind stronger
  than the pointer parts in front of it, which get parentheses then.
\<close>

fun postfix_type :: "ctype \<Rightarrow> bool" where
  "postfix_type (CArr n t) = True"
| "postfix_type (CFun ps t) = True"
| "postfix_type t = False"

definition grouped :: "ctype \<Rightarrow> string \<Rightarrow> string" where
  "grouped t d = (if postfix_type t then ''('' @ d @ '')'' else d)"

fun declare_text :: "ctype \<Rightarrow> string \<Rightarrow> string" where
  "declare_text (CName n) d = n @ '' '' @ d"
| "declare_text (CTempl n ps) d =
     (let args = map (\<lambda>p. rstrip (declare_text p [])) ps
      in n @ ''<'' @ (if args \<noteq> [] \<and> hd args \<noteq> [] then '' '' else []) @ comma_text args @ '' > '' @ d)"
| "declare_text (CPtr t) d = declare_text t (grouped t (''*'' @ d))"
| "declare_text (CRef t) d = declare_text t (grouped t (''&'' @ d))"
| "declare_text (CMem c t) d = declare_text t (grouped t (c @ ''::*'' @ d))"
| "declare_text (CQual q t) d = declare_text t (q @ '' '' @ d)"
| "declare_text (CArr n t) d = declare_text t (d @ ''['' @ n @ '']'')"
| "declare_text (CFun ps t) d =
     declare_text t (d @ ''('' @ comma_text (map (\<lambda>p. rstrip (declare_text p [])) ps) @ '')'')"

text \<open>The texts of the elements: of the parameters of a function, of the name of a base.\<close>

fun elem_texts :: "ctype \<Rightarrow> string list" where
  "elem_texts (CName n) = [n]"
| "elem_texts (CTempl n ps) =
     (let args = map (\<lambda>p. rstrip (declare_text p [])) ps
      in [n @ ''<'' @ (if args \<noteq> [] \<and> hd args \<noteq> [] then '' '' else []) @ comma_text args @ '' >''])"
| "elem_texts (CFun ps t) = comma_text (map (\<lambda>p. rstrip (declare_text p [])) ps) # elem_texts t"
| "elem_texts (CPtr t) = [] # elem_texts t"
| "elem_texts (CRef t) = [] # elem_texts t"
| "elem_texts (CQual q t) = [] # elem_texts t"
| "elem_texts (CArr n t) = [] # elem_texts t"
| "elem_texts (CMem c t) = [] # elem_texts t"

lemmas element_tests = SwigType_isqualifier_def SwigType_ispointer_def SwigType_ismemberpointer_def
  SwigType_isreference_def SwigType_isarray_def SwigType_isfunction_def skip_qualifier_def

lemma qual_tests:
  assumes "CHR ''.'' \<notin> set q"
  shows "\<not> SwigType_isfunction (cons_text (TQual q))" and "\<not> SwigType_ispointer (cons_text (TQual q))"
proof -
  have "strchr (''q('' @ q @ '').'') (CHR ''.'') = Some ''.''"
    using strchr_append [of "CHR ''.''" "''q('' @ q @ '')''" "[]"] assms by simp
  then show "\<not> SwigType_isfunction (cons_text (TQual q))" "\<not> SwigType_ispointer (cons_text (TQual q))"
    by (simp_all add: element_tests)
qed

lemma cons_tests [simp]:
  "SwigType_isqualifier (cons_text e) = (\<exists>q. e = TQual q)"
  "SwigType_ismemberpointer (cons_text e) = (\<exists>q. e = TMem q)"
  "SwigType_isreference (cons_text e) = (e = TRef)"
  "SwigType_isarray (cons_text e) = (\<exists>q. e = TArr q)"
  by (cases e; simp add: element_tests)+

lemma cons_tests2 [simp]:
  "\<forall>q. e \<noteq> TQual q \<Longrightarrow> SwigType_ispointer (cons_text e) = (e = TPtr)"
  "\<forall>q. e \<noteq> TQual q \<Longrightarrow> SwigType_isfunction (cons_text e) = (\<exists>ps. e = TFun ps)"
  by (cases e; simp add: element_tests)+

lemma parm_cons:
  assumes "paren_ok q"
  shows "SwigType_parm (''q('' @ q @ '').'') = Some q" and "SwigType_parm (''a('' @ q @ '').'') = Some q"
    and "SwigType_parm (''m('' @ q @ '').'') = Some q"
  using bracket_len_balanced [OF _ assms, of "''.''"] by simp_all

lemma items_cons: "list_all arg_ok as \<Longrightarrow> parm_items (''f('' @ comma_text as @ '').'') = as"
  by (simp add: parm_items_def parmlist_loop_args)

lemma base_tests:
  assumes "name_ok n" and "r = [] \<or> (\<exists>r'. r = CHR ''<'' # r')"
  shows "is_base (n @ r) \<and> n @ r \<noteq> ''v(...)''"
proof -
  obtain c n' where n: "n = c # n'" using name_hd [OF assms(1)] by blast
  have "\<not> starts_with [x, y] (n @ r)" if "y \<in> {CHR ''('', CHR ''.''}" for x y
    using assms that n by (cases n') (auto simp: name_ok_def)
  then have "is_base (n @ r)" by (simp add: is_base_def element_tests)
  moreover have "n @ r \<noteq> ''v(...)''"
    using assms n by (cases n') (auto simp: name_ok_def)
  ultimately show ?thesis by simp
qed

definition element_text :: "stype \<Rightarrow> string res" where
  "element_text e =
     (if is_function e
      then rbind (seq_res (map (\<lambda>p. SwigType_str p []) (parm_items e))) (\<lambda>l. Inr (comma_text l))
      else if is_base e \<and> e \<noteq> ''v(...)'' then SwigType_namestr e
      else Inr [])"

lemma str_elements:
  "SwigType_str s d = rbind (seq_res (map element_text (SwigType_split s)))
     (\<lambda>txts. Inr (rstrip (str_walk d (SwigType_split s) txts)))"
  unfolding element_text_def by (rule SwigType_str.simps)

lemma element_text_cons:
  "\<forall>ps. e \<noteq> TFun ps \<Longrightarrow> element_text (cons_text e) = Inr []"
  by (cases e) (auto simp: element_text_def is_function_def is_base_def element_tests)

lemma element_text_fun:
  "element_text (cons_text (TFun as)) =
     rbind (seq_res (map (\<lambda>p. SwigType_str p []) (parm_items (cons_text (TFun as))))) (\<lambda>l. Inr (comma_text l))"
  by (simp add: element_text_def is_function_def element_tests)

lemma seq_res_map: "\<forall>p\<in>set ps. f p = Inr (g p) \<Longrightarrow> seq_res (map f ps) = Inr (map g ps)"
  by (induction ps) auto

lemma seq_res_append: "seq_res (xs @ ys) = rbind (seq_res xs) (\<lambda>a. rbind (seq_res ys) (\<lambda>b. Inr (a @ b)))"
  by (induction xs) (auto simp: rbind_def split: sum.splits)

text \<open>What follows an element.\<close>

lemma closes_grouped:
  assumes "ctype_ok t"
  shows "closes (map cons_text (conses t) @ [encode (base_of t)]) s = grouped t s"
proof (cases t)
  case (CName n)
  then have "is_base n" using base_tests [of n "[]"] assms by simp
  then show ?thesis using CName by (simp add: closes_def grouped_def is_base_def)
next
  case (CTempl n ps)
  then have "is_base (encode t)" using base_tests [of n "encode t"] assms
    by (metis append_Cons base_tests ctype_ok.simps(2) encode.simps(2))
  then show ?thesis using CTempl by (simp add: closes_def grouped_def is_base_def)
next
  case (CQual q u)
  then have "\<not> SwigType_isfunction (cons_text (TQual q))" using qual_tests [of q] assms by simp
  then show ?thesis using CQual by (simp add: closes_def grouped_def del: cons_text.simps)
qed (simp_all add: closes_def grouped_def del: cons_text.simps)

lemma walk_declare:
  "ctype_ok t \<Longrightarrow> str_walk d (map cons_text (conses t) @ [encode (base_of t)]) (elem_texts t) = declare_text t d"
proof (induction t arbitrary: d)
  case (CName n)
  then have "is_base n \<and> n \<noteq> ''v(...)''" using base_tests [of n "[]"] by simp
  then show ?case by (simp add: is_base_def)
next
  case (CTempl n ps)
  then have "is_base (encode (CTempl n ps)) \<and> encode (CTempl n ps) \<noteq> ''v(...)''"
    using base_tests [of n "''<('' @ comma_text (map encode ps) @ '')>''"] by simp
  then show ?case by (simp add: is_base_def Let_def del: encode.simps)
next
  case (CPtr t)
  then show ?case using closes_grouped [of t] by (simp del: cons_text.simps)
next
  case (CRef t)
  then show ?case using closes_grouped [of t] by (simp del: cons_text.simps)
next
  case (CMem c t)
  then show ?case using closes_grouped [of t] parm_cons(3) [of c]
    by (simp del: cons_text.simps) (simp add: cons_text.simps)
next
  case (CQual q t)
  then show ?case using parm_cons(1) [of q]
    by (simp del: cons_text.simps) (simp add: cons_text.simps)
next
  case (CArr n t)
  then show ?case using parm_cons(2) [of n]
    by (simp del: cons_text.simps) (simp add: cons_text.simps)
next
  case (CFun ps t)
  then show ?case by (simp del: cons_text.simps)
qed

lemma namestr_plain: "name_ok n \<Longrightarrow> SwigType_namestr n = Inr n"
proof -
  assume "name_ok n"
  then have "CHR ''<'' \<notin> set n" by (auto simp: name_ok_def)
  then have "strstr n ''<('' = None" by (auto simp: strstr_None_iff sublist_def)
  then show ?thesis by (subst SwigType_namestr.simps) simp
qed

lemma template_encode:
  assumes n: "name_ok n" and ps: "list_all ctype_ok ps"
  defines "a \<equiv> comma_text (map encode ps)"
  shows "strstr (n @ ''<('' @ a @ '')>'') ''<('' = Some (''<('' @ a @ '')>'')"
    and "strstr (a @ '')>'') '')>'' \<noteq> None"
    and "parm_items (''('' @ a @ '')>'') = map encode ps"
    and "SwigType_templatesuffix (n @ ''<('' @ a @ '')>'') = []"
proof -
  have lt: "CHR ''<'' \<notin> set n" using n by (auto simp: name_ok_def)
  then have no: "strstr n ''<('' = None" by (auto simp: strstr_None_iff sublist_def)
  show "strstr (n @ ''<('' @ a @ '')>'') ''<('' = Some (''<('' @ a @ '')>'')"
    using strstr_first [OF no] by simp
  show "strstr (a @ '')>'') '')>'' \<noteq> None" using strstr_middle [of a "'')>''" "[]"] by simp
  show "parm_items (''('' @ a @ '')>'') = map encode ps"
    using parmlist_loop_args [OF encode_args_ok [OF ps], of "''>''"] by (simp add: parm_items_def a_def)
  have "angle_ok (''('' @ a @ '')'')" using args_ok(2) [OF ps] by (simp add: a_def balanced_skip)
  from skip_nest_balanced [OF _ this, of "[]"]
  have "skip_nest (CHR ''<'') (CHR ''>'') (Suc 0) (CHR ''('' # a @ '')>'') = []" by simp
  moreover have "SwigType_templatesuffix (n @ r) = SwigType_templatesuffix r" for r
    using lt by (induction n) auto
  ultimately show "SwigType_templatesuffix (n @ ''<('' @ a @ '')>'') = []" by simp
qed

lemma namestr_template:
  assumes n: "name_ok n" and ps: "list_all ctype_ok ps"
    and str: "\<forall>p\<in>set ps. SwigType_str (encode p) [] = Inr (rstrip (declare_text p []))"
  shows "SwigType_namestr (encode (CTempl n ps)) = Inr (hd (elem_texts (CTempl n ps)))"
proof -
  define a where "a = comma_text (map encode ps)"
  note te = template_encode [OF n ps, folded a_def]
  have last: "last n \<noteq> CHR ''<''"
    using n name_plain(5) [OF n] by (auto simp: name_ok_def dest: last_in_set)
  have strs: "seq_res (map (\<lambda>p. SwigType_str p []) (map encode ps)) = Inr (map (\<lambda>p. rstrip (declare_text p [])) ps)"
    using seq_res_map [of ps "\<lambda>p. SwigType_str (encode p) []"] str by (simp add: comp_def)
  have e: "encode (CTempl n ps) = n @ ''<('' @ a @ '')>''" by (simp add: a_def)
  show ?thesis
    unfolding e using te strs last name_plain(5) [OF n]
    by (subst SwigType_namestr.simps) (simp add: Let_def)
qed

lemma element_texts_encode:
  "ctype_ok t \<Longrightarrow> seq_res (map element_text (map cons_text (conses t) @ [encode (base_of t)])) = Inr (elem_texts t)"
proof (induction t)
  case (CName n)
  then show ?case using base_tests [of n "[]"] namestr_plain [of n]
    by (simp add: element_text_def is_function_def is_base_def)
next
  case (CTempl n ps)
  have "SwigType_str (encode p) [] = Inr (rstrip (declare_text p []))" if "p \<in> set ps" for p
    using CTempl.IH [OF that] CTempl.prems that walk_declare [of p "[]"]
    by (simp add: str_elements split_encode list_all_iff)
  then have "SwigType_namestr (encode (CTempl n ps)) = Inr (hd (elem_texts (CTempl n ps)))"
    using CTempl.prems by (intro namestr_template) auto
  moreover have "is_base (encode (CTempl n ps)) \<and> encode (CTempl n ps) \<noteq> ''v(...)''"
    using base_tests [of n "''<('' @ comma_text (map encode ps) @ '')>''"] CTempl.prems by simp
  ultimately show ?case
    by (simp add: element_text_def is_function_def is_base_def Let_def del: encode.simps)
next
  case (CFun ps t)
  have "SwigType_str (encode p) [] = Inr (rstrip (declare_text p []))" if "p \<in> set ps" for p
    using CFun.IH(1) [OF that] CFun.prems that walk_declare [of p "[]"]
    by (simp add: str_elements split_encode list_all_iff)
  then have "seq_res (map (\<lambda>p. SwigType_str p []) (map encode ps)) = Inr (map (\<lambda>p. rstrip (declare_text p [])) ps)"
    using seq_res_map [of ps "\<lambda>p. SwigType_str (encode p) []"] by (simp add: comp_def)
  moreover have "parm_items (cons_text (TFun (map encode ps))) = map encode ps"
    using items_cons [OF encode_args_ok] CFun.prems by simp
  ultimately have "element_text (cons_text (TFun (map encode ps)))
      = Inr (comma_text (map (\<lambda>p. rstrip (declare_text p [])) ps))"
    by (simp only: element_text_fun rbind_simps)
  then show ?case using CFun.IH(2) CFun.prems by (simp del: cons_text.simps)
qed (simp_all add: element_text_cons del: cons_text.simps)

lemma str_declares:
  assumes "ctype_ok t"
  shows "SwigType_str (encode t) d = Inr (rstrip (declare_text t d))"
  using element_texts_encode [OF assms] walk_declare [OF assms]
  by (simp add: str_elements split_encode [OF assms])



section \<open>Assignable types\<close>

text \<open>
  The assignable version of a type: qualifiers go, references turn into pointers, and so does the
  first array unless a pointer or a reference is in front of it. What a function returns is kept
  but for qualifiers; \<open>fa\<close> is true as long as no pointer, reference or array has been met, \<open>nc\<close>
  once a function has.
\<close>

fun assign_type :: "bool \<Rightarrow> bool \<Rightarrow> ctype \<Rightarrow> ctype" where
  "assign_type fa nc (CQual q t) = assign_type fa nc t"
| "assign_type fa nc (CPtr t) = CPtr (assign_type False nc t)"
| "assign_type fa nc (CMem c t) = CMem c (assign_type False nc t)"
| "assign_type fa nc (CRef t) = (if nc then CRef else CPtr) (assign_type False nc t)"
| "assign_type fa nc (CArr n t) =
     (if fa then (if nc then CArr n else CPtr) (assign_type False nc t) else CArr n (assign_type fa nc t))"
| "assign_type fa nc (CFun ps t) = CFun ps (assign_type fa True t)"
| "assign_type fa nc (CName n) = CName (if \<not> nc \<and> n = ''enum '' then ''int'' else n)"
| "assign_type fa nc (CTempl n ps) = CTempl n ps"

fun unqualified :: "ctype \<Rightarrow> bool" where
  "unqualified (CQual q t) = False"
| "unqualified (CPtr t) = unqualified t"
| "unqualified (CRef t) = unqualified t"
| "unqualified (CArr n t) = unqualified t"
| "unqualified (CMem c t) = unqualified t"
| "unqualified (CFun ps t) = unqualified t"
| "unqualified t = True"

fun no_reference :: "ctype \<Rightarrow> bool" where
  "no_reference (CRef t) = False"
| "no_reference (CPtr t) = no_reference t"
| "no_reference (CQual q t) = no_reference t"
| "no_reference (CArr n t) = no_reference t"
| "no_reference (CMem c t) = no_reference t"
| "no_reference t = True"

fun leading_unqualified :: "ctype \<Rightarrow> ctype" where
  "leading_unqualified (CQual q t) = leading_unqualified t"
| "leading_unqualified t = t"

lemma assign_unqualified: "unqualified (assign_type fa nc t)"
  by (induction fa nc t rule: assign_type.induct) auto

lemma assign_no_reference: "no_reference (assign_type fa False t)"
proof -
  have "\<not> nc \<Longrightarrow> no_reference (assign_type fa nc t)" for nc
    by (induction fa nc t rule: assign_type.induct) auto
  then show ?thesis by blast
qed

lemma assign_no_array: "assign_type True False t \<noteq> CArr n u"
proof -
  have "fa \<and> \<not> nc \<Longrightarrow> assign_type fa nc t \<noteq> CArr n u" for fa nc
    by (induction fa nc t rule: assign_type.induct) auto
  then show ?thesis by blast
qed

lemma assign_idem: "assign_type fa nc (assign_type fa nc t) = assign_type fa nc t"
  by (induction fa nc t rule: assign_type.induct) auto

lemma assign_leading: "assign_type fa nc (leading_unqualified t) = assign_type fa nc t"
  by (induction t) auto

lemma assign_ctype_ok: "ctype_ok t \<Longrightarrow> ctype_ok (assign_type fa nc t)"
  by (induction fa nc t rule: assign_type.induct) (auto simp: name_ok_def)

lemma leading_ctype_ok: "ctype_ok t \<Longrightarrow> ctype_ok (leading_unqualified t)"
  by (induction t) auto

lemma leading_idem: "unqualified t \<Longrightarrow> leading_unqualified t = t"
  by (cases t) auto

lemma isqualifier_encode: "ctype_ok t \<Longrightarrow> SwigType_isqualifier (encode t) \<longleftrightarrow> (\<exists>q u. t = CQual q u)"
proof (cases t)
  case (CName n)
  then show "ctype_ok t \<Longrightarrow> ?thesis" using base_tests [of n "[]"] by (simp add: is_base_def)
next
  case (CTempl n ps)
  then show "ctype_ok t \<Longrightarrow> ?thesis"
    using base_tests [of n "''<('' @ comma_text (map encode ps) @ '')>''"] by (simp add: is_base_def)
qed (simp_all add: SwigType_isqualifier_def)

lemma nuke_encode: "ctype_ok t \<Longrightarrow> nuke_qualifiers (encode t) = encode (leading_unqualified t)"
proof (induction t)
  case (CQual q t)
  have "SwigType_pop (type_text (TQual q # conses t) (encode (base_of t)))
      = Some (cons_text (TQual q), type_text (conses t) (encode (base_of t)))"
    using CQual.prems base_encode_ok [of t] by (intro pop_type_text) auto
  then have "pop_rest (encode (CQual q t)) = encode t"
    using encode_type_text [of "CQual q t"] encode_type_text [of t] by (simp add: pop_rest_def)
  moreover have "SwigType_isqualifier (encode (CQual q t))" by (simp add: SwigType_isqualifier_def)
  ultimately show ?case using CQual by (subst nuke_qualifiers.simps) simp
qed (subst nuke_qualifiers.simps; simp add: isqualifier_encode del: encode.simps)+

lemma ltype_walk_base:
  assumes "is_base e"
  shows "ltype_walk fa nc [e] = (if \<not> nc \<and> e = ''enum '' then ''int'' else e)"
  using assms by (auto simp: is_base_def Let_def SwigType_isenum_def)

lemma isenum_cons [simp]: "\<not> SwigType_isenum (cons_text e)"
  by (cases e) (auto simp: SwigType_isenum_def)

lemma ltype_walk_encode:
  "ctype_ok t \<Longrightarrow> ltype_walk fa nc (map cons_text (conses t) @ [encode (base_of t)]) = encode (assign_type fa nc t)"
proof (induction t arbitrary: fa nc)
  case (CName n)
  then have "is_base n" using base_tests [of n "[]"] by simp
  then show ?case by (simp add: ltype_walk_base SwigType_isenum_def del: ltype_walk.simps)
next
  case (CTempl n ps)
  then have "is_base (encode (CTempl n ps))"
    using base_tests [of n "''<('' @ comma_text (map encode ps) @ '')>''"] by simp
  moreover have "encode (CTempl n ps) \<noteq> ''enum ''"
  proof
    assume "encode (CTempl n ps) = ''enum ''"
    then have "last (encode (CTempl n ps)) = last ''enum ''" by (rule arg_cong)
    then show False by simp
  qed
  ultimately show ?case by (simp add: ltype_walk_base del: ltype_walk.simps encode.simps(2))
next
  case (CQual q t)
  then show ?case using qual_tests [of q] by (simp add: Let_def del: cons_text.simps)
next
  case (CFun ps t)
  then show ?case by (simp add: Let_def del: cons_text.simps) simp
next
  case (CPtr t)
  then show ?case by (simp add: Let_def del: cons_text.simps) simp
next
  case (CRef t)
  then show ?case by (simp add: Let_def del: cons_text.simps) simp
next
  case (CArr n t)
  then show ?case by (simp add: Let_def del: cons_text.simps) simp
next
  case (CMem c t)
  then show ?case by (simp add: Let_def del: cons_text.simps) simp
qed

lemma readonly_none: "resolve_readonly (\<lambda>_. None) x = Some None"
  by (subst resolve_readonly.simps) simp

lemma ltype_walk_split:
  "ctype_ok v \<Longrightarrow> ltype_walk True False (SwigType_split (encode v)) = encode (assign_type True False v)"
  using ltype_walk_encode [of v] split_encode [of v] by simp

lemma ltype_encode:
  assumes "ctype_ok t" and "list_all ctype_ok (case r of None \<Rightarrow> [] | Some u \<Rightarrow> [u])"
    and "SwigType_issimple (encode (leading_unqualified t)) \<Longrightarrow>
      resolve_readonly resolve (encode (leading_unqualified t)) = Some (map_option encode r)"
  shows "SwigType_ltype resolve (encode t) = Some (encode (assign_type True False
    (if SwigType_issimple (encode (leading_unqualified t)) then (case r of None \<Rightarrow> t | Some v \<Rightarrow> v) else t)))"
  using assms(3) ltype_walk_split [OF leading_ctype_ok [OF assms(1)]] ltype_walk_split assms(2)
  by (auto simp: SwigType_ltype_def nuke_encode [OF assms(1)] assign_leading Let_def split: option.split)

lemma nul_assign: "NUL \<notin> set (encode t) \<Longrightarrow> NUL \<notin> set (encode (assign_type fa nc t))"
  by (induction fa nc t rule: assign_type.induct) (auto simp: NUL_def)



section \<open>Mangled types\<close>

lemma replace_all_set: "set (replace_all tok [] s) \<subseteq> set s"
proof (induction "length s" arbitrary: s rule: less_induct)
  case less
  show ?case
  proof (cases "tok = [] \<or> strstr s tok = None")
    case True
    then show ?thesis by (subst replace_all.simps) auto
  next
    case False
    then obtain q where q: "tok \<noteq> []" "strstr s tok = Some q" by auto
    have len: "length tok \<le> length q" "length q \<le> length s"
      using strstr_Some_starts [OF q(2)] starts_with_length strstr_length [OF q(2)] by blast+
    have "0 < length tok" using q(1) by simp
    then have "length (drop (length tok) q) < length s" using len unfolding length_drop by linarith
    then have "set (replace_all tok [] (drop (length tok) q)) \<subseteq> set (drop (length tok) q)" by (rule less)
    also have "\<dots> \<subseteq> set s" using strstr_suffix [OF q(2)] set_drop_subset [of "length tok" q] by fastforce
    finally have "set (replace_all tok [] (drop (length tok) q)) \<subseteq> set s" .
    then show ?thesis
      using q set_take_subset [of "length s - length q" s] by (subst replace_all.simps) auto
  qed
qed

lemma text_replace_total:
  assumes "NUL \<notin> set s" and "tok \<noteq> []"
  shows "text_replace s tok rep REPLACE_ANY = Inr (replace_all tok rep s)"
proof -
  have "string_ok (DohNewString (Some s))" "contents (DohNewString (Some s)) = s"
    using DohNewString_inv [of "Some s"] by (simp_all add: string_ok_def)
  moreover have "terminated (DohNewString (Some s))" "sp (DohNewString (Some s)) = slen (DohNewString (Some s))"
    using assms(1) calculation(2) by (simp_all add: terminated_def DohNewString_def new_string_def Let_def)
  ultimately obtain n s' where "String_replace (DohNewString (Some s)) tok rep REPLACE_ANY = Inr (n, s')"
      "contents s' = replace_all tok rep s"
    using String_replace_full [of "DohNewString (Some s)" tok rep] assms(2) by auto
  then show ?thesis by (simp add: text_replace_def)
qed

lemma strip_keywords_total:
  assumes "NUL \<notin> set b"
  shows "\<exists>b'. strip_keywords b = Inr b'"
proof -
  have step: "text_replace c tok [] REPLACE_ANY = Inr (replace_all tok [] c) \<and> NUL \<notin> set (replace_all tok [] c)"
    if "NUL \<notin> set c" "tok \<noteq> []" for c tok
    using text_replace_total [OF that] replace_all_set [of tok c] that(1) by auto
  show ?thesis
    using step [OF assms, of "''struct ''"]
      step [of "replace_all ''struct '' [] b" "''class ''"]
      step [of "replace_all ''class '' [] (replace_all ''struct '' [] b)" "''union ''"]
      step [of "replace_all ''union '' [] (replace_all ''class '' [] (replace_all ''struct '' [] b))" "''enum ''"]
    by (simp add: strip_keywords_def)
qed

lemma nul_comma: "NUL \<notin> set (comma_text xs) \<longleftrightarrow> (\<forall>x\<in>set xs. NUL \<notin> set x)"
  by (induction xs rule: comma_text.induct) (auto simp: NUL_def)

lemma set_rstrip: "set (rstrip s) \<subseteq> set s"
  by (auto simp: rstrip_def dest: set_dropWhileD)

lemma nul_neq: "c \<noteq> CHR 0x00 \<Longrightarrow> NUL \<noteq> c"
  by (simp add: NUL_def)

lemma nul_declare: "\<lbrakk>NUL \<notin> set (encode t); NUL \<notin> set d\<rbrakk> \<Longrightarrow> NUL \<notin> set (declare_text t d)"
proof (induction t arbitrary: d)
  case (CTempl n ps)
  then have "\<forall>p\<in>set ps. NUL \<notin> set (rstrip (declare_text p []))"
    using set_rstrip by (fastforce simp: nul_comma)
  then show ?case using CTempl.prems by (auto simp: Let_def nul_comma nul_neq)
next
  case (CFun ps t)
  then have "\<forall>p\<in>set ps. NUL \<notin> set (rstrip (declare_text p []))"
    using set_rstrip by (fastforce simp: nul_comma)
  then show ?case using CFun.prems CFun.IH(2) by (auto simp: nul_comma nul_neq)
qed (auto simp: grouped_def nul_neq)

lemma base_name_encode:
  assumes "ctype_ok t"
  shows "\<exists>w a. encode (base_of t) = w @ a \<and> base_name w a"
  using base_of_cases [of t]
proof (elim disjE exE)
  fix n assume b: "base_of t = CName n"
  then have "name_ok n" using conses_ok [OF assms] by simp
  then have "base_name n []" by (auto simp: base_name_def name_ok_def plain_char_def)
  then show ?thesis using b by (intro exI [of _ n] exI [of _ "[]"]) simp
next
  fix n ps assume b: "base_of t = CTempl n ps"
  then have n: "name_ok n" and ps: "list_all ctype_ok ps" using conses_ok [OF assms] by simp_all
  define i where "i = ''('' @ comma_text (map encode ps) @ '')''"
  have "angle_ok i" using args_ok(2) [OF ps] by (simp add: i_def balanced_skip)
  then have "base_name n (CHR ''<'' # i @ ''>'')"
    using n unfolding base_name_def by (auto simp: name_ok_def plain_char_def)
  then show ?thesis using b by (intro exI [of _ n] exI [of _ "CHR ''<'' # i @ ''>''"]) (simp add: i_def)
qed

lemma namestr_base:
  assumes "ctype_ok t" and "NUL \<notin> set (encode t)"
  shows "\<exists>b. (if SwigType_istemplate (encode (base_of t)) then SwigType_namestr (encode (base_of t))
    else Inr (encode (base_of t))) = Inr b \<and> NUL \<notin> set b"
proof -
  have nul: "NUL \<notin> set (encode (base_of t))"
    using assms(2) encode_type_text [of t] by (auto simp: type_text_def)
  have "SwigType_str (encode (base_of t)) [] = Inr (rstrip (declare_text (base_of t) []))"
    using conses_ok [OF assms(1)] by (intro str_declares) simp
  have "\<exists>b. SwigType_namestr (encode (base_of t)) = Inr b \<and> NUL \<notin> set b"
    using base_of_cases [of t]
  proof (elim disjE exE)
    fix n assume b: "base_of t = CName n"
    then show ?thesis using namestr_plain [of n] conses_ok [OF assms(1)] nul by simp
  next
    fix n ps assume b: "base_of t = CTempl n ps"
    then have n: "name_ok n" and ps: "list_all ctype_ok ps" using conses_ok [OF assms(1)] by simp_all
    have "\<forall>p\<in>set ps. SwigType_str (encode p) [] = Inr (rstrip (declare_text p []))"
      using ps str_declares by (auto simp: list_all_iff)
    then have "SwigType_namestr (encode (base_of t)) = Inr (hd (elem_texts (base_of t)))"
      using namestr_template [OF n ps] b by simp
    moreover have "NUL \<notin> set (hd (elem_texts (base_of t)))"
      using nul_declare [of "base_of t" "[]"] nul b by (auto simp: Let_def)
    ultimately show ?thesis by simp
  qed
  then show ?thesis using nul by auto
qed



section \<open>Substitution of type names\<close>

fun subst_text :: "string \<Rightarrow> string \<Rightarrow> ctype \<Rightarrow> stype" where
  "subst_text pat rep (CName n) = (if n = pat then rep else n)"
| "subst_text pat rep (CTempl n ps) = n @ ''<('' @ comma_text (map (subst_text pat rep) ps) @ '')>''"
| "subst_text pat rep (CPtr t) = ''p.'' @ subst_text pat rep t"
| "subst_text pat rep (CRef t) = ''r.'' @ subst_text pat rep t"
| "subst_text pat rep (CQual q t) = ''q('' @ q @ '').'' @ subst_text pat rep t"
| "subst_text pat rep (CArr n t) = ''a('' @ n @ '').'' @ subst_text pat rep t"
| "subst_text pat rep (CMem c t) = ''m('' @ c @ '').'' @ subst_text pat rep t"
| "subst_text pat rep (CFun ps t) =
     ''f('' @ comma_text (map (subst_text pat rep) ps) @ '').'' @ subst_text pat rep t"

text \<open>
  Names without a scope, and array elements in whose text the pattern does not occur: there the
  code replaces it as an identifier, also in the constructor.
\<close>

fun subst_ok :: "string \<Rightarrow> ctype \<Rightarrow> bool" where
  "subst_ok pat (CName n) = (\<not> sublist ''::'' n)"
| "subst_ok pat (CTempl n ps) = list_all (subst_ok pat) ps"
| "subst_ok pat (CPtr t) = subst_ok pat t"
| "subst_ok pat (CRef t) = subst_ok pat t"
| "subst_ok pat (CQual q t) = subst_ok pat t"
| "subst_ok pat (CArr n t) = (\<not> sublist pat (''a('' @ n @ '').'') \<and> NUL \<notin> set n \<and> subst_ok pat t)"
| "subst_ok pat (CMem c t) = subst_ok pat t"
| "subst_ok pat (CFun ps t) = (list_all (subst_ok pat) ps \<and> subst_ok pat t)"

lemma sublist_comma: "x \<in> set xs \<Longrightarrow> sublist x (comma_text xs)"
  by (induction xs rule: comma_text.induct) (auto simp: sublist_append sublist_Cons_right)

lemma subst_absent: "\<not> sublist pat (encode t) \<Longrightarrow> subst_text pat rep t = encode t"
proof (induction t)
  case (CTempl n ps)
  have "\<not> sublist pat (encode p)" if "p \<in> set ps" for p
  proof
    assume "sublist pat (encode p)"
    then have "sublist pat (comma_text (map encode ps))"
      using sublist_comma [of "encode p" "map encode ps"] that by (auto intro: sublist_order.order.trans)
    then show False using CTempl.prems
      by (auto intro: sublist_order.order.trans simp: sublist_append sublist_Cons_right)
  qed
  then have "map (subst_text pat rep) ps = map encode ps" using CTempl.IH by simp
  then show ?case by (simp only: subst_text.simps encode.simps)
next
  case (CFun ps t)
  have "\<not> sublist pat (encode p)" if "p \<in> set ps" for p
  proof
    assume "sublist pat (encode p)"
    then have "sublist pat (comma_text (map encode ps))"
      using sublist_comma [of "encode p" "map encode ps"] that by (auto intro: sublist_order.order.trans)
    then show False using CFun.prems
      by (auto intro: sublist_order.order.trans simp: sublist_append sublist_Cons_right)
  qed
  then have "map (subst_text pat rep) ps = map encode ps" using CFun.IH by simp
  moreover have "\<not> sublist pat (encode t)"
    using CFun.prems by (auto simp: sublist_append sublist_Cons_right)
  then have "subst_text pat rep t = encode t" by (rule CFun.IH(2))
  ultimately show ?case by (simp only: subst_text.simps encode.simps)
qed (auto simp: sublist_append sublist_Cons_right)

lemma issimple_skip: "angle_ok s \<Longrightarrow> SwigType_issimple (s @ r) \<Longrightarrow> SwigType_issimple r"
proof (induction "length s" arbitrary: s rule: less_induct)
  case less
  show ?case
  proof (cases s)
    case (Cons x xs)
    show ?thesis
    proof (cases "x = CHR ''<''")
      case True
      then have "balanced_from (CHR ''<'') (CHR ''>'') (Suc 0) xs" using less.prems Cons by simp
      then obtain p q where pq: "xs = p @ CHR ''>'' # q" "angle_ok p" "angle_ok q"
        by (rule balanced_close [rotated]) simp_all
      have "skip_nest (CHR ''<'') (CHR ''>'') (Suc 0) (xs @ r) = q @ r"
        using skip_nest_balanced [OF _ pq(2), of "q @ r"] by (simp add: pq(1))
      then have "SwigType_issimple (q @ r)"
        using less.prems(2) Cons True by (simp add: Let_def split: if_splits)
      then show ?thesis using less.hyps [of q] pq Cons by simp
    next
      case False
      then show ?thesis using less.hyps [of xs] less.prems Cons by (auto split: if_splits)
    qed
  qed (use less.prems in simp)
qed

lemma issimple_cons:
  assumes "angle_ok s" and "x \<noteq> CHR ''<''"
  shows "\<not> SwigType_issimple (x # CHR ''('' # s @ '').'')"
proof
  assume "SwigType_issimple (x # CHR ''('' # s @ '').'')"
  then have "SwigType_issimple (s @ '').'')"
    using assms(2) by (auto split: if_splits)
  from issimple_skip [OF assms(1) this] show False by simp
qed

lemma issimple_name: "name_ok n \<Longrightarrow> SwigType_issimple (n @ r) = SwigType_issimple r"
proof -
  have "\<forall>c\<in>set n. c \<noteq> CHR ''.'' \<and> c \<noteq> CHR ''<'' \<Longrightarrow> ?thesis" by (induction n) auto
  then show "name_ok n \<Longrightarrow> ?thesis" by (auto simp: name_ok_def)
qed

lemma issimple_template:
  assumes "name_ok n" and "list_all ctype_ok ps"
  shows "SwigType_issimple (encode (CTempl n ps))"
proof -
  define a where "a = ''('' @ comma_text (map encode ps) @ '')''"
  have a: "angle_ok a" using args_ok(2) [OF assms(2)] by (simp add: a_def balanced_skip)
  have "skip_nest (CHR ''<'') (CHR ''>'') (Suc 0) (a @ ''>'') = []"
    using skip_nest_balanced [OF _ a, of "[]"] by simp
  then have "SwigType_issimple (CHR ''<'' # a @ ''>'')"
    by (simp add: Let_def nth_append)
  moreover have "encode (CTempl n ps) = n @ CHR ''<'' # a @ ''>''" by (simp add: a_def)
  ultimately show ?thesis using issimple_name [OF assms(1)] by (simp del: encode.simps)
qed

definition replace_element :: "string \<Rightarrow> string \<Rightarrow> stype \<Rightarrow> stype res" where
  "replace_element pat rep e =
     (if SwigType_issimple e then
        (if e = pat then text_replace e pat rep REPLACE_ANY
         else if SwigType_istemplate e then
           (case SwigType_parmlist e of
              Inl f \<Rightarrow> Inl f
            | Inr _ \<Rightarrow>
                rbind (seq_res (map (\<lambda>p. SwigType_typename_replace p pat rep) (parm_items e))) (\<lambda>ps.
                Inr (SwigType_templateprefix e @ ''<('' @ comma_text ps @ '')>'' @ SwigType_templatesuffix e)))
         else if Swig_scopename_check e then
           rbind (case Swig_scopename_suffix e of None \<Rightarrow> Inr None
                  | Some rest \<Rightarrow> rbind (SwigType_typename_replace rest pat rep) (\<lambda>r. Inr (Some r))) (\<lambda>rest1.
           rbind (case Swig_scopename_first e of None \<Rightarrow> Inr None
                  | Some first \<Rightarrow> rbind (SwigType_typename_replace first pat rep) (\<lambda>f. Inr (Some f))) (\<lambda>first1.
           Inr (case first1 of None \<Rightarrow> [] | Some f \<Rightarrow> f @ ''::'' @ str_or_empty rest1)))
         else Inr e)
      else if SwigType_isfunction e then
        (case SwigType_parmlist e of
           Inl f \<Rightarrow> Inl f
         | Inr _ \<Rightarrow>
             rbind (seq_res (map (\<lambda>p. SwigType_typename_replace p pat rep) (parm_items e))) (\<lambda>ps.
             Inr (''f('' @ comma_text ps @ '').'')))
      else if SwigType_isarray e then text_replace e pat rep (REPLACE_ANY\<lparr>rf_id := True\<rparr>)
      else Inr e)"

lemma typename_replace_elements:
  "SwigType_typename_replace t pat rep =
     (if strstr t pat = None then Inr t
      else if t = pat then text_replace t pat rep REPLACE_ANY
      else rbind (seq_res (map (replace_element pat rep) (SwigType_split t))) (\<lambda>es. Inr (concat es)))"
  unfolding replace_element_def by (rule SwigType_typename_replace.simps)

lemma text_replace_self:
  assumes "name_ok pat" and "NUL \<notin> set pat"
  shows "text_replace pat pat rep REPLACE_ANY = Inr rep"
proof -
  have ne: "pat \<noteq> []" using assms(1) by (simp add: name_ok_def)
  have "strstr pat pat = Some pat" using strstr_self [of pat "[]"] by simp
  moreover have "replace_all pat rep [] = []" using ne by (subst replace_all.simps) (cases pat; simp)
  ultimately have "replace_all pat rep pat = rep" using ne by (subst replace_all.simps) simp
  then show ?thesis using text_replace_total [OF assms(2) ne] by simp
qed

lemma text_replace_absent:
  assumes "\<not> sublist pat s"
  shows "text_replace s pat rep fl = Inr s"
proof -
  have "strstr (cstr (str (DohNewString (Some s))) 0) pat = None"
  proof -
    have "prefix (cstr (str (DohNewString (Some s))) 0) s"
      by (auto simp: cstr_def DohNewString_def new_string_def Let_def takeWhile_append takeWhile_is_prefix
          split: if_splits)
    then have "sublist (cstr (str (DohNewString (Some s))) 0) s" by (rule prefix_imp_sublist)
    then show ?thesis using assms sublist_order.order.trans by (auto simp: strstr_None_iff)
  qed
  then have "match_from mk (str (DohNewString (Some s))) 0 pat = None" for mk
    by (subst match_from.simps) (simp add: find_text_def)
  moreover have "contents (DohNewString (Some s)) = s" using DohNewString_inv [of "Some s"] by simp
  ultimately show ?thesis
    by (simp add: text_replace_def String_replace_def replace_simple_def)
qed

fun angle_cons :: "tcons \<Rightarrow> bool" where
  "angle_cons (TQual s) = (angle_ok s \<and> CHR ''.'' \<notin> set s)"
| "angle_cons (TArr s) = angle_ok s"
| "angle_cons (TMem s) = angle_ok s"
| "angle_cons (TFun as) = angle_ok (comma_text as)"
| "angle_cons e = True"

lemma not_simple_cons: "angle_cons e \<Longrightarrow> \<not> SwigType_issimple (cons_text e)"
proof (cases e)
  case (TQual s)
  then show "angle_cons e \<Longrightarrow> ?thesis" using issimple_cons [of s "CHR ''q''"] by simp
next
  case (TArr s)
  then show "angle_cons e \<Longrightarrow> ?thesis" using issimple_cons [of s "CHR ''a''"] by simp
next
  case (TMem s)
  then show "angle_cons e \<Longrightarrow> ?thesis" using issimple_cons [of s "CHR ''m''"] by simp
next
  case (TFun as)
  then show "angle_cons e \<Longrightarrow> ?thesis" using issimple_cons [of "comma_text as" "CHR ''f''"] by simp
qed simp_all

lemma angle_conses: "ctype_ok t \<Longrightarrow> list_all angle_cons (conses t)"
  by (induction t) (auto intro: args_ok(2))

lemma replace_cons_plain:
  assumes "angle_cons e" and "\<forall>as. e \<noteq> TFun as" and "\<forall>n. e \<noteq> TArr n"
  shows "replace_element pat rep (cons_text e) = Inr (cons_text e)"
proof -
  have "\<not> SwigType_isfunction (cons_text e)"
    using assms qual_tests(1) by (cases e) (auto simp del: cons_text.simps)
  then show ?thesis
    using not_simple_cons [OF assms(1)] assms(3) by (simp add: replace_element_def del: cons_text.simps)
qed

lemma replace_cons_array:
  assumes "angle_cons (TArr n)" and "\<not> sublist pat (cons_text (TArr n))"
  shows "replace_element pat rep (cons_text (TArr n)) = Inr (cons_text (TArr n))"
  using not_simple_cons [OF assms(1)] text_replace_absent [OF assms(2)]
  by (simp add: replace_element_def del: cons_text.simps)

lemma replace_cons_fun:
  assumes "angle_cons (TFun as)" and "list_all arg_ok as"
    and "seq_res (map (\<lambda>p. SwigType_typename_replace p pat rep) as) = Inr ps"
  shows "replace_element pat rep (cons_text (TFun as)) = Inr (''f('' @ comma_text ps @ '').'')"
proof -
  have "SwigType_parmlist (cons_text (TFun as)) = Inr (Some as)"
    using parmlist_loop_args [OF assms(2), of "''.''"] by simp
  moreover have "parm_items (cons_text (TFun as)) = as"
    using calculation by (simp add: parm_items_def)
  ultimately show ?thesis
    using not_simple_cons [OF assms(1)] assms(3) by (simp add: replace_element_def del: cons_text.simps)
qed

lemma replace_name:
  assumes "name_ok n" and "\<not> sublist ''::'' n" and "name_ok pat" and "NUL \<notin> set pat"
  shows "replace_element pat rep n = Inr (if n = pat then rep else n)"
proof (cases "n = pat")
  case True
  then show ?thesis
    using text_replace_self [OF assms(3,4)] issimple_name [OF assms(1), of "[]"]
    by (simp add: replace_element_def)
next
  case False
  have "CHR ''<'' \<notin> set n" using assms(1) by (auto simp: name_ok_def)
  then have "strstr n ''<('' = None" by (auto simp: strstr_None_iff sublist_def)
  then have "\<not> SwigType_istemplate n" by (simp add: SwigType_istemplate_def)
  moreover have "\<not> Swig_scopename_check n"
    using assms(2) by (simp add: Swig_scopename_check_def sep_def strstr_None_iff)
  ultimately show ?thesis
    using False issimple_name [OF assms(1), of "[]"] by (simp add: replace_element_def)
qed

lemma replace_template:
  assumes "name_ok n" and "list_all ctype_ok qs" and "name_ok pat"
    and "seq_res (map (\<lambda>p. SwigType_typename_replace p pat rep) (map encode qs)) = Inr ps"
  shows "replace_element pat rep (encode (CTempl n qs)) = Inr (n @ ''<('' @ comma_text ps @ '')>'')"
proof -
  define a where "a = comma_text (map encode qs)"
  note te = template_encode [OF assms(1,2), folded a_def]
  have e: "encode (CTempl n qs) = n @ ''<('' @ a @ '')>''" by (simp add: a_def)
  have "CHR ''('' \<notin> set pat" using assms(3) by (auto simp: name_ok_def)
  then have ne: "encode (CTempl n qs) \<noteq> pat" by auto
  have "\<forall>c\<in>set n. c \<noteq> CHR ''('' \<and> c \<noteq> CHR ''.''" using assms(1) by (auto simp: name_ok_def)
  then have "SwigType_parmlist (n @ r) = SwigType_parmlist r" for r by (induction n) auto
  then have pl: "SwigType_parmlist (encode (CTempl n qs)) = Inr (Some (map encode qs))"
    using parmlist_loop_args [OF encode_args_ok [OF assms(2)], of "''>''"] by simp
  have "SwigType_istemplate (encode (CTempl n qs))" unfolding e using te(1,2) by (simp add: SwigType_istemplate_def)
  moreover have "SwigType_templateprefix (encode (CTempl n qs)) = n"
    unfolding e using te(1) by (simp add: SwigType_templateprefix_def)
  moreover have "SwigType_templatesuffix (encode (CTempl n qs)) = []" unfolding e using te(4) by simp
  moreover have "parm_items (encode (CTempl n qs)) = map encode qs" using pl by (simp add: parm_items_def)
  ultimately show ?thesis
    using ne pl issimple_template [OF assms(1,2)] assms(4)
    by (simp add: replace_element_def del: encode.simps)
qed

lemma replace_type:
  assumes "name_ok pat" and "NUL \<notin> set pat" and "ctype_ok t"
    and "\<exists>es. seq_res (map (replace_element pat rep) (SwigType_split (encode t))) = Inr es \<and>
      concat es = subst_text pat rep t"
  shows "SwigType_typename_replace (encode t) pat rep = Inr (subst_text pat rep t)"
proof -
  consider (absent) "\<not> sublist pat (encode t)" | (same) "encode t = pat" | (inside) "sublist pat (encode t)" "encode t \<noteq> pat"
    by blast
  then show ?thesis
  proof cases
    case absent
    then show ?thesis using subst_absent by (simp add: typename_replace_elements strstr_None_iff)
  next
    case same
    then have "t = CName pat" using assms(1) by (cases t) (auto simp: name_ok_def)
    moreover have "strstr pat pat = Some pat" using strstr_self [of pat "[]"] by simp
    ultimately show ?thesis using text_replace_self [OF assms(1,2)]
      by (simp add: typename_replace_elements)
  next
    case inside
    then have "strstr (encode t) pat \<noteq> None" by (simp add: strstr_None_iff)
    then show ?thesis using inside assms(4) by (auto simp: typename_replace_elements)
  qed
qed

lemma replace_elements:
  assumes pat: "name_ok pat" "NUL \<notin> set pat"
  shows "\<lbrakk>ctype_ok t; subst_ok pat t\<rbrakk> \<Longrightarrow>
    \<exists>es. seq_res (map (replace_element pat rep) (map cons_text (conses t) @ [encode (base_of t)])) = Inr es \<and>
      concat es = subst_text pat rep t"
proof (induction t)
  case (CName n)
  then show ?case using replace_name [OF _ _ pat, of n rep] by simp
next
  case (CTempl n ps)
  have "SwigType_typename_replace (encode p) pat rep = Inr (subst_text pat rep p)" if "p \<in> set ps" for p
    using CTempl.IH [OF that] CTempl.prems that split_encode [of p]
    by (intro replace_type [OF pat]) (auto simp: list_all_iff)
  then have "seq_res (map (\<lambda>p. SwigType_typename_replace p pat rep) (map encode ps))
      = Inr (map (subst_text pat rep) ps)"
    using seq_res_map [of ps "\<lambda>p. SwigType_typename_replace (encode p) pat rep"] by (simp add: comp_def)
  then show ?case using replace_template [OF _ _ pat(1), of n ps] CTempl.prems by (simp del: encode.simps)
next
  case (CFun ps t)
  have "SwigType_typename_replace (encode p) pat rep = Inr (subst_text pat rep p)" if "p \<in> set ps" for p
    using CFun.IH(1) [OF that] CFun.prems that split_encode [of p]
    by (intro replace_type [OF pat]) (auto simp: list_all_iff)
  then have "seq_res (map (\<lambda>p. SwigType_typename_replace p pat rep) (map encode ps))
      = Inr (map (subst_text pat rep) ps)"
    using seq_res_map [of ps "\<lambda>p. SwigType_typename_replace (encode p) pat rep"] by (simp add: comp_def)
  then have "replace_element pat rep (cons_text (TFun (map encode ps)))
      = Inr (''f('' @ comma_text (map (subst_text pat rep) ps) @ '').'')"
    using CFun.prems args_ok(2) encode_args_ok by (intro replace_cons_fun) auto
  then show ?case using CFun.IH(2) CFun.prems by (auto simp del: cons_text.simps)
next
  case (CArr n t)
  then have "replace_element pat rep (cons_text (TArr n)) = Inr (cons_text (TArr n))"
    by (intro replace_cons_array) auto
  then show ?case using CArr by (auto simp del: cons_text.simps) simp
next
  case (CQual q t)
  then have "replace_element pat rep (cons_text (TQual q)) = Inr (cons_text (TQual q))"
    by (intro replace_cons_plain) auto
  then show ?case using CQual by (auto simp del: cons_text.simps) simp
next
  case (CMem c t)
  then have "replace_element pat rep (cons_text (TMem c)) = Inr (cons_text (TMem c))"
    by (intro replace_cons_plain) auto
  then show ?case using CMem by (auto simp del: cons_text.simps) simp
next
  case (CPtr t)
  have "replace_element pat rep (cons_text TPtr) = Inr (cons_text TPtr)" by (intro replace_cons_plain) auto
  then show ?case using CPtr by (auto simp del: cons_text.simps) simp
next
  case (CRef t)
  have "replace_element pat rep (cons_text TRef) = Inr (cons_text TRef)" by (intro replace_cons_plain) auto
  then show ?case using CRef by (auto simp del: cons_text.simps) simp
qed



text \<open>
  Where the conditions fail: a parameter named like the letter of the array constructor destroys
  the type, the name of a template and the class of a member pointer are not replaced, and a name in
  the global scope is lost altogether.
\<close>

lemma typename_replace_array_letter:
  "SwigType_typename_replace ''a(3).int'' ''a'' ''double'' = Inr ''double(3).int''"
  by code_simp

lemma typename_replace_not_everywhere:
  "SwigType_typename_replace ''T<(int)>'' ''T'' ''vector'' = Inr ''T<(int)>''"
  "SwigType_typename_replace ''m(T).int'' ''T'' ''Foo'' = Inr ''m(T).int''"
  by code_simp+

lemma typename_replace_global_scope:
  "SwigType_typename_replace ''p.::T'' ''T'' ''int'' = Inr ''p.''"
  by code_simp

end
