(* ===== verification/SwigScan.thy ===== *)
theory SwigScan
  imports SwigPrelude
begin

text \<open>
  The scanner of Source/Swig/scanner.c: a state machine over a stack of strings, each with its
  position and line number. The string that is read is the first of the list, and there is none
  when the list is empty (\<open>Scanner_push\<close> and \<open>nextchar\<close> keep \<open>str\<close> and \<open>scanobjs\<close> in step). A
  character is 0 at the end of the input, and so is a NUL in it. Bytes above 127 are in no class
  of characters. The text of a token is a string object with its cursor at the end and its line
  number.
\<close>

section \<open>Sources and characters\<close>

record source =
  so_text :: string
  so_pos :: nat
  so_line :: int
  so_file :: "string option"

record scanner =
  tx :: string
  tx_line :: int
  tx_file :: "string option"
  srcs :: "source list"
  idstart :: "string option"
  nexttoken :: int
  start_line :: int
  line :: int
  err :: "string option"
  err_line :: int
  freeze_line :: bool

abbreviation (input) LF :: char where "LF \<equiv> CHR 0x0A"
abbreviation (input) EOS :: char where "EOS \<equiv> CHR 0x00"

definition nl :: "char \<Rightarrow> int" where
  "nl c = (if c = LF then 1 else 0)"

definition nls :: "string \<Rightarrow> int" where
  "nls s = int (count_list s LF)"

text \<open>What the code does to the text: \<open>Putc\<close>, \<open>Append\<close>, \<open>Delitem(text, DOH_END)\<close>, \<open>Clear\<close>, \<open>Seek\<close> to 0.\<close>

definition put_tx :: "char \<Rightarrow> scanner \<Rightarrow> scanner" where
  "put_tx c s = s\<lparr>tx := tx s @ [c], tx_line := tx_line s + nl c\<rparr>"

definition app_tx :: "string \<Rightarrow> scanner \<Rightarrow> scanner" where
  "app_tx d s = s\<lparr>tx := tx s @ d, tx_line := tx_line s + nls d\<rparr>"

definition cut_tx :: "scanner \<Rightarrow> scanner" where
  "cut_tx s = (if tx s = [] then s else s\<lparr>tx := butlast (tx s), tx_line := tx_line s - nl (last (tx s))\<rparr>)"

definition clear_tx :: "scanner \<Rightarrow> scanner" where
  "clear_tx s = s\<lparr>tx := [], tx_line := 1\<rparr>"

definition cur_file :: "scanner \<Rightarrow> string option" where
  "cur_file s = (case srcs s of [] \<Rightarrow> None | x # _ \<Rightarrow> so_file x)"

text \<open>\<open>Clear\<close>, then \<open>Setline\<close> and \<open>Setfile\<close> from the string that is read.\<close>

definition mark_tx :: "scanner \<Rightarrow> scanner" where
  "mark_tx s = (clear_tx s)\<lparr>tx_line := (case srcs s of [] \<Rightarrow> 0 | x # _ \<Rightarrow> so_line x), tx_file := cur_file s\<rparr>"

section \<open>Operations on the scanner\<close>

definition NewScanner :: scanner where
  "NewScanner = \<lparr>tx = [], tx_line = 1, tx_file = None, srcs = [], idstart = None, nexttoken = -1,
     start_line = 1, line = 1, err = None, err_line = 0, freeze_line = False\<rparr>"

definition Scanner_clear :: "scanner \<Rightarrow> scanner" where
  "Scanner_clear s = (clear_tx s)\<lparr>srcs := [], err := None, line := 1, nexttoken := -1, start_line := 0\<rparr>"

definition Scanner_push :: "scanner \<Rightarrow> source \<Rightarrow> scanner" where
  "Scanner_push s x =
     s\<lparr>srcs := x # (case srcs s of [] \<Rightarrow> [] | y # ys \<Rightarrow> y\<lparr>so_line := line s\<rparr> # ys), line := so_line x\<rparr>"

definition SWIG_MAXTOKENS :: int where "SWIG_MAXTOKENS = 200"

text \<open>A value that is the scanner's own text stays as it is.\<close>

definition Scanner_pushtoken :: "scanner \<Rightarrow> int \<Rightarrow> string option \<Rightarrow> scanner res" where
  "Scanner_pushtoken s nt v =
     (if 0 \<le> nt \<and> nt < SWIG_MAXTOKENS
      then Inr ((case v of None \<Rightarrow> s | Some d \<Rightarrow> app_tx d (clear_tx s))\<lparr>nexttoken := nt\<rparr>)
      else Inl Assertion)"

definition Scanner_set_location :: "scanner \<Rightarrow> string option \<Rightarrow> int \<Rightarrow> scanner" where
  "Scanner_set_location s f l =
     s\<lparr>srcs := (case srcs s of [] \<Rightarrow> [] | x # xs \<Rightarrow> x\<lparr>so_line := l, so_file := f\<rparr> # xs), line := l\<rparr>"

definition Scanner_idstart :: "scanner \<Rightarrow> string option \<Rightarrow> scanner" where
  "Scanner_idstart s i = s\<lparr>idstart := i\<rparr>"

definition Scanner_freeze_line :: "scanner \<Rightarrow> bool \<Rightarrow> scanner" where
  "Scanner_freeze_line s v = s\<lparr>freeze_line := v\<rparr>"

definition set_error :: "scanner \<Rightarrow> int \<Rightarrow> string \<Rightarrow> scanner" where
  "set_error s l m = s\<lparr>err_line := l, err := Some m\<rparr>"

text \<open>\<open>Getc\<close> on the first string; exhausted strings are dropped.\<close>

fun next_source :: "source list \<Rightarrow> scanner \<Rightarrow> char \<times> scanner" where
  "next_source [] s = (EOS, s\<lparr>srcs := []\<rparr>)"
| "next_source (x # xs) s =
     (if so_pos x < length (so_text x)
      then let c = so_text x ! so_pos x
           in (c, put_tx c (s\<lparr>srcs := x\<lparr>so_pos := so_pos x + 1, so_line := so_line x + nl c\<rparr> # xs,
                              line := (if freeze_line s then line s else line s + nl c)\<rparr>))
      else next_source xs (case xs of [] \<Rightarrow> s | y # _ \<Rightarrow> s\<lparr>line := so_line y\<rparr>))"

definition nextchar :: "scanner \<Rightarrow> char \<times> scanner" where
  "nextchar s = next_source (srcs s) s"

text \<open>\<open>Seek(str, -1, SEEK_CUR)\<close>; without a string, it is \<open>fseek\<close> on a null pointer.\<close>

definition seek_back :: "scanner \<Rightarrow> scanner res" where
  "seek_back s =
     (case srcs s of
        [] \<Rightarrow> Inl Undefined
      | x # xs \<Rightarrow> Inr (s\<lparr>srcs := x\<lparr>so_pos := so_pos x - 1,
            so_line := so_line x - nls (take 1 (drop (so_pos x - 1) (take (so_pos x) (so_text x))))\<rparr> # xs\<rparr>))"

text \<open>
  The loop of \<open>retract\<close> looks at the character where the text ended at first, which is a NUL from
  the second round on.
\<close>

fun retract_loop :: "nat \<Rightarrow> char \<Rightarrow> scanner \<Rightarrow> scanner res" where
  "retract_loop 0 c s = Inr s"
| "retract_loop (Suc n) c s =
     rbind (seek_back (if c = LF \<and> \<not> freeze_line s then s\<lparr>line := line s - 1\<rparr> else s))
       (\<lambda>s1. retract_loop n EOS (cut_tx s1))"

definition retract :: "scanner \<Rightarrow> nat \<Rightarrow> scanner res" where
  "retract s n =
     (if n \<le> length (tx s) then retract_loop n (if tx s = [] then EOS else last (tx s)) s else Inl Assertion)"

text \<open>How much is left to read.\<close>

definition remaining :: "scanner \<Rightarrow> nat" where
  "remaining s = sum_list (map (\<lambda>x. length (so_text x) - so_pos x) (srcs s))"

lemma tx_updates [simp]:
  "srcs (put_tx c s) = srcs s" "srcs (app_tx d s) = srcs s" "srcs (cut_tx s) = srcs s"
  "srcs (clear_tx s) = srcs s" "srcs (mark_tx s) = srcs s"
  "remaining (put_tx c s) = remaining s" "remaining (app_tx d s) = remaining s"
  "remaining (cut_tx s) = remaining s" "remaining (clear_tx s) = remaining s" "remaining (mark_tx s) = remaining s"
  by (simp_all add: put_tx_def app_tx_def cut_tx_def clear_tx_def mark_tx_def remaining_def)

lemma next_source_remaining:
  "next_source xs s = (c, s') \<Longrightarrow>
   remaining s' \<le> sum_list (map (\<lambda>x. length (so_text x) - so_pos x) xs) \<and>
   (c \<noteq> EOS \<longrightarrow> sum_list (map (\<lambda>x. length (so_text x) - so_pos x) xs) = Suc (remaining s'))"
proof (induction xs s rule: next_source.induct)
  case (2 x xs s)
  show ?case
  proof (cases "so_pos x < length (so_text x)")
    case True
    then show ?thesis using 2(2) by (auto simp: Let_def remaining_def put_tx_def)
  next
    case False
    then show ?thesis using 2 by auto
  qed
qed (auto simp: remaining_def)

lemma nextchar_remaining:
  assumes "nextchar s = (c, s')"
  shows "remaining s' \<le> remaining s" and "c \<noteq> EOS \<Longrightarrow> remaining s = Suc (remaining s')"
  using next_source_remaining [of "srcs s" s c s'] assms by (simp_all add: nextchar_def remaining_def)

lemma retract_loop_remaining: "retract_loop n c s = Inr s' \<Longrightarrow> remaining s' \<le> remaining s + n"
proof (induction n arbitrary: c s)
  case (Suc n)
  define s0 where "s0 = (if c = LF \<and> \<not> freeze_line s then s\<lparr>line := line s - 1\<rparr> else s)"
  have r0: "remaining s0 = remaining s" by (simp add: s0_def remaining_def)
  obtain s1 where s1: "seek_back s0 = Inr s1" "retract_loop n EOS (cut_tx s1) = Inr s'"
    using Suc.prems unfolding retract_loop.simps s0_def [symmetric] by (rule rbind_InrE)
  have "remaining s1 \<le> remaining s0 + 1"
    using s1(1) by (auto simp: seek_back_def remaining_def split: list.splits)
  then show ?case using Suc.IH [OF s1(2)] r0 by simp
qed simp

lemma retract_remaining: "retract s n = Inr s' \<Longrightarrow> remaining s' \<le> remaining s + n"
  by (auto simp: retract_def dest: retract_loop_remaining split: if_splits)

section \<open>Escapes in strings\<close>

definition isxdigit :: "char \<Rightarrow> bool" where
  "isxdigit c \<longleftrightarrow> isdigit c \<or> (CHR ''a'' \<le> c \<and> c \<le> CHR ''f'') \<or> (CHR ''A'' \<le> c \<and> c \<le> CHR ''F'')"

definition xdigit :: "char \<Rightarrow> int" where
  "xdigit c = (if isdigit c then of_char c - 48 else 10 + (of_char (tolower c) - 97))"

text \<open>\<open>(result << k) + d\<close> on a signed \<open>int\<close>, and \<open>(char) result\<close>\<close>

definition shl_int :: "int \<Rightarrow> nat \<Rightarrow> int \<Rightarrow> int res" where
  "shl_int r k d = (if r * 2 ^ k + d < 2 ^ 31 then Inr (r * 2 ^ k + d) else Inl Undefined)"

definition char_cast :: "int \<Rightarrow> char" where
  "char_cast r = char_of (nat (r mod 256))"

text \<open>The letters after a backslash that stand for one character.\<close>

definition escape_letter :: "char \<Rightarrow> string option" where
  "escape_letter c =
     (if c = CHR ''n'' then Some [CHR 0x0A] else if c = CHR ''r'' then Some [CHR 0x0D]
      else if c = CHR ''t'' then Some [CHR 0x09] else if c = CHR ''a'' then Some [CHR 0x07]
      else if c = CHR ''b'' then Some [CHR 0x08] else if c = CHR ''f'' then Some [CHR 0x0C]
      else if c = CHR 0x5C then Some [CHR 0x5C] else if c = CHR ''v'' then Some [CHR 0x0B]
      else if c = CHR ''e'' then Some [CHR 0x1B] else if c = CHR 0x27 then Some [CHR 0x27]
      else if c = CHR 0x22 then Some [CHR 0x22] else if c = LF then Some [] else None)"

definition digit_in :: "nat \<Rightarrow> char \<Rightarrow> bool" where
  "digit_in k c = (if k = 3 then isdigit c else isxdigit c)"

text \<open>The states 10 (octal, a shift of 3) and 20 (hexadecimal, 4) of \<open>get_escape\<close>\<close>

function escape_digits :: "nat \<Rightarrow> int \<Rightarrow> scanner \<Rightarrow> scanner res" where
  "escape_digits k r s =
     (case nextchar s of (c, s1) \<Rightarrow>
        if c = EOS then Inr s1
        else if \<not> digit_in k c
        then rbind (retract s1 1) (\<lambda>s2. Inr (put_tx (char_cast r) s2))
        else (case shl_int r k (xdigit c) of
                Inl f \<Rightarrow> Inl f
              | Inr r1 \<Rightarrow> escape_digits k r1 (cut_tx s1)))"
  by pat_completeness auto
termination
  by (relation "measure (\<lambda>(k, r, s). remaining s)") (auto dest: nextchar_remaining(2) [OF sym])

declare escape_digits.simps [simp del]

definition get_escape :: "scanner \<Rightarrow> scanner res" where
  "get_escape s =
     (case nextchar s of (c, s1) \<Rightarrow>
        if c = EOS then Inr s1
        else case escape_letter c of
            Some d \<Rightarrow> Inr (app_tx d (cut_tx s1))
          | None \<Rightarrow>
              if isdigit c then escape_digits 3 (xdigit c) (cut_tx s1)
              else if c = CHR ''x'' then escape_digits 4 0 (cut_tx s1)
              else Inr (app_tx [CHR 0x5C, c] (cut_tx s1)))"

lemma escape_digits_remaining: "escape_digits k r s = Inr s' \<Longrightarrow> remaining s' \<le> remaining s"
proof (induction k r s rule: escape_digits.induct)
  case (1 k r s)
  obtain c s1 where n: "nextchar s = (c, s1)" by fastforce
  note rem = nextchar_remaining [OF n]
  show ?case
  proof (cases "c = EOS \<or> \<not> digit_in k c")
    case True
    then show ?thesis using 1(2) rem
      by (subst (asm) escape_digits.simps [of k r s]) (auto simp: n dest!: retract_remaining split: if_splits)
  next
    case False
    then obtain r1 where r1: "shl_int r k (xdigit c) = Inr r1" "escape_digits k r1 (cut_tx s1) = Inr s'"
      using 1(2) by (subst (asm) escape_digits.simps [of k r s]) (auto simp: n split: sum.splits)
    then show ?thesis using 1(1) [OF n [symmetric] _ _ r1] False rem by auto
  qed
qed

lemma get_escape_remaining: "get_escape s = Inr s' \<Longrightarrow> remaining s' \<le> remaining s"
  using nextchar_remaining [of s "fst (nextchar s)" "snd (nextchar s)"]
  by (auto simp: get_escape_def split: prod.splits if_splits option.splits dest!: escape_digits_remaining)

section \<open>The states of look\<close>

text \<open>
  Most states read a character, and for each one they go to a state, return a token, return a token
  after the deletion of the last character from the text, or return one after giving characters back.
\<close>

datatype act = Goto nat | Ret int | Cut int | Back nat int

text \<open>The states of operators: 3, 31 to 33, 5, 50, 60, 61, and 200 to 250.\<close>

definition operator_end :: "nat \<Rightarrow> int option" where
  "operator_end st =
     map_of [(3, 118), (31, 108), (32, 110), (33, 103), (5, 12), (50, 13), (60, 113), (61, 114), (200, 106),
       (210, 107), (211, 135), (220, 102), (230, 112), (240, 121), (250, 122)] st"

definition operator_goes :: "nat \<Rightarrow> (char \<times> act) list" where
  "operator_goes st =
     (case map_of
        [(3, [(CHR ''='', Ret 105)]),
         (31, [(CHR ''&'', Ret 109), (CHR ''='', Ret 129)]),
         (32, [(CHR ''|'', Ret 111), (CHR ''='', Ret 130)]),
         (33, [(CHR ''='', Ret 104)]),
         (5, [(CHR '':'', Goto 50)]),
         (50, [(CHR ''*'', Ret 14)]),
         (60, [(CHR ''<'', Goto 240), (CHR ''='', Ret 115)]),
         (61, [(CHR ''>'', Goto 250), (CHR ''='', Ret 116)]),
         (200, [(CHR ''+'', Ret 123), (CHR ''='', Ret 125)]),
         (210, [(CHR ''-'', Ret 124), (CHR ''='', Ret 126), (CHR ''>'', Goto 211)]),
         (211, [(CHR ''*'', Ret 136)]),
         (220, [(CHR ''='', Ret 127)]),
         (230, [(CHR ''='', Ret 131)]),
         (240, [(CHR ''='', Ret 132)]),
         (250, [(CHR ''='', Ret 133)])] st of Some xs \<Rightarrow> xs | None \<Rightarrow> [])"

definition operator_act :: "nat \<Rightarrow> int \<Rightarrow> char \<Rightarrow> act" where
  "operator_act st t c = (case map_of (operator_goes st) c of Some a \<Rightarrow> a | None \<Rightarrow> Back 1 t)"

text \<open>The states of numbers: 8, 80 to 88, 820, 870, 880, and 100 of a period.\<close>

definition number_end :: "nat \<Rightarrow> act option" where
  "number_end st =
     map_of [(8, Ret 18), (81, Ret 17), (82, Back 1 18), (820, Back 1 17), (83, Ret 18), (84, Ret 18),
       (85, Ret 18), (86, Ret 17), (87, Ret 20), (870, Ret 28), (88, Ret 19), (880, Ret 21), (100, Ret 0)] st"

abbreviation (input) either :: "char \<Rightarrow> char \<Rightarrow> char \<Rightarrow> bool" where
  "either a b c \<equiv> c = a \<or> c = b"

definition number_act :: "nat \<Rightarrow> char \<Rightarrow> act" where
  "number_act st c =
     (let l = (c = CHR ''l'' \<or> c = CHR ''L''); u = (c = CHR ''u'' \<or> c = CHR ''U'');
          e = (c = CHR ''e'' \<or> c = CHR ''E''); f = (c = CHR ''f'' \<or> c = CHR ''F'');
          sign = (c = CHR ''-'' \<or> c = CHR ''+'')
      in if st = 8
         then (if c = CHR ''.'' then Goto 81 else if e then Goto 82 else if f then Cut 16
               else if isdigit c then Goto 8 else if l then Goto 87 else if u then Goto 88 else Back 1 18)
         else if st = 81
         then (if isdigit c then Goto 81 else if e then Goto 820 else if f then Cut 16 else if l then Cut 17 else Back 1 17)
         else if st = 82 then (if isdigit c \<or> sign then Goto 86 else Back 2 18)
         else if st = 820 then (if isdigit c \<or> sign then Goto 86 else Back 2 17)
         else if st = 83
         then (if isdigit c then Goto 84 else if c = CHR ''x'' \<or> c = CHR ''X'' then Goto 85
               else if c = CHR ''.'' then Goto 81 else if l then Goto 87 else if u then Goto 88 else Back 1 18)
         else if st = 84 then (if isdigit c then Goto 84 else if l then Goto 87 else if u then Goto 88 else Back 1 18)
         else if st = 85 then (if isxdigit c then Goto 85 else if l then Goto 87 else if u then Goto 88 else Back 1 18)
         else if st = 86 then (if isdigit c then Goto 86 else if f then Cut 16 else if l then Cut 17 else Back 1 17)
         else if st = 87 then (if u then Ret 21 else if l then Goto 870 else Back 1 20)
         else if st = 870 then (if u then Ret 29 else Back 1 28)
         else if st = 88 then (if l then Goto 880 else Back 1 19)
         else if st = 880 then (if l then Ret 29 else Back 1 21)
         else (if isdigit c then Goto 81 else Back 1 23))"

text \<open>What a state does: go on in a state, or return a token.\<close>

datatype step = Next nat scanner | Token int scanner

definition perform :: "act \<Rightarrow> scanner \<Rightarrow> step res" where
  "perform a s =
     (case a of
        Goto st \<Rightarrow> Inr (Next st s)
      | Ret t \<Rightarrow> Inr (Token t s)
      | Cut t \<Rightarrow> Inr (Token t (cut_tx s))
      | Back n t \<Rightarrow> rbind (retract s n) (\<lambda>s1. Inr (Token t s1)))"

definition id_start :: "scanner \<Rightarrow> char \<Rightarrow> bool" where
  "id_start s c = (case idstart s of None \<Rightarrow> False | Some i \<Rightarrow> c \<in> set i)"

text \<open>State 0: skip white space.\<close>

definition blank_step :: "scanner \<Rightarrow> step res" where
  "blank_step s =
     (case nextchar s of (c, s1) \<Rightarrow>
        if c = EOS then Inr (Token 0 s1)
        else if c = LF then Inr (Token 9 s1)
        else if \<not> isspace c
        then rbind (retract s1 1) (\<lambda>s2. Inr (Next 1000 ((clear_tx s2)\<lparr>tx_line := line s2, tx_file := cur_file s2\<rparr>)))
        else Inr (Next 0 s1))"

text \<open>State 1000: the first character of a token. The characters that are tokens, and those that lead to a state:\<close>

definition first_acts :: "(char \<times> act) list" where
  "first_acts =
     [(CHR ''('', Ret 1), (CHR '')'', Ret 2), (CHR '';'', Ret 3), (CHR '','', Ret 101), (CHR ''*'', Goto 220),
      (CHR ''}'', Ret 5), (CHR ''{'', Ret 4), (CHR ''='', Goto 33), (CHR ''+'', Goto 200), (CHR ''-'', Goto 210),
      (CHR ''&'', Goto 31), (CHR ''|'', Goto 32), (CHR ''^'', Goto 230), (CHR ''<'', Goto 60), (CHR ''>'', Goto 61),
      (CHR ''~'', Ret 117), (CHR ''!'', Goto 3), (CHR 0x5C, Ret 8), (CHR ''['', Ret 6), (CHR '']'', Ret 7),
      (CHR ''@'', Ret 24), (CHR ''$'', Goto 75), (CHR ''#'', Ret 11), (CHR ''?'', Ret 30)]"

definition first_step :: "scanner \<Rightarrow> step res" where
  "first_step s0 =
     (case nextchar s0 of (c, s) \<Rightarrow>
        if c = EOS then Inr (Token 0 s)
        else if c = CHR ''%'' then Inr (Next 4 s)
        else if isalpha c \<or> c = CHR ''_'' \<or> id_start s c then Inr (Next 7 s)
        else case map_of first_acts c of
            Some a \<Rightarrow> perform a s
          | None \<Rightarrow>
              if c = CHR ''/'' then Inr (Next 1 (s\<lparr>start_line := line s\<rparr>))
              else if c = CHR 0x22 then Inr (Next 2 (clear_tx (s\<lparr>start_line := line s\<rparr>)))
              else if c = CHR '':'' then Inr (Next 5 s)
              else if c = CHR ''0'' then Inr (Next 83 s)
              else if c = CHR 0x27 then Inr (Next 9 (clear_tx (s\<lparr>start_line := line s\<rparr>)))
              else if c = CHR 0x60 then Inr (Next 900 (clear_tx (s\<lparr>start_line := line s\<rparr>)))
              else if c = CHR ''.'' then Inr (Next 100 s)
              else if isdigit c then Inr (Next 8 s)
              else Inr (Next 99 s))"

text \<open>States 1, 10, 11 and 12: comments. An unterminated one is an error, which is also printed.\<close>

definition comment_step :: "nat \<Rightarrow> scanner \<Rightarrow> step res" where
  "comment_step st s0 =
     (case nextchar s0 of (c, s) \<Rightarrow>
        if c = EOS then Inr (Token (if st = 1 then 0 else -1) s)
        else if st = 1
        then (if c = CHR ''/'' then Inr (Next 10 (app_tx ''//'' (mark_tx s)))
              else if c = CHR ''*'' then Inr (Next 11 (app_tx ''/*'' (mark_tx s)))
              else if c = CHR ''='' then Inr (Token 128 s)
              else perform (Back 1 119) s)
        else if st = 10
        then (if c = LF then perform (Back 1 31) s else Inr (Next 10 s))
        else if st = 11 then Inr (Next (if c = CHR ''*'' then 12 else 11) s)
        else (if c = CHR ''*'' then Inr (Next 12 s)
              else if c = CHR ''/'' then Inr (Token 31 s)
              else Inr (Next 11 s)))"

text \<open>States 2, 9 and 900: strings, character constants and texts in backquotes.\<close>

definition quote_of :: "nat \<Rightarrow> char" where
  "quote_of st = (if st = 2 then CHR 0x22 else if st = 9 then CHR 0x27 else CHR 0x60)"

definition quote_token :: "nat \<Rightarrow> int" where
  "quote_token st = (if st = 2 then 10 else if st = 9 then 22 else 27)"

definition string_step :: "nat \<Rightarrow> scanner \<Rightarrow> step res" where
  "string_step st s0 =
     (case nextchar s0 of (c, s) \<Rightarrow>
        if c = EOS then Inr (Token (-1) s)
        else if c = quote_of st then Inr (Token (quote_token st) (cut_tx s))
        else if c = CHR 0x5C \<and> st \<noteq> 900
        then rbind (get_escape (cut_tx s)) (\<lambda>s1. Inr (Next st s1))
        else Inr (Next st s))"

text \<open>States 4, 40 and 41: directives and code blocks.\<close>

definition block_step :: "nat \<Rightarrow> scanner \<Rightarrow> step res" where
  "block_step st s0 =
     (case nextchar s0 of (c, s) \<Rightarrow>
        if st = 4
        then (if c = EOS then Inr (Token 120 s)
              else if c = CHR ''{'' then Inr (Next 40 ((mark_tx s)\<lparr>start_line := line s\<rparr>))
              else if id_start s (CHR ''%'') \<and> (isalpha c \<or> c = CHR ''_'') then Inr (Next 7 s)
              else if c = CHR ''='' then Inr (Token 134 s)
              else perform (Back 1 120) s)
        else if st = 40
        then (if c = EOS then Inr (Token (-1) s) else Inr (Next (if c = CHR ''%'' then 41 else 40) s))
        else (if c = EOS then Inr (Token 0 (set_error s (start_line s) ''Unterminated code block''))
              else if c = CHR ''}''
              then Inr (Token 26 (let s1 = cut_tx (cut_tx s) in s1\<lparr>tx_line := tx_line s1 - nls (tx s1)\<rparr>))
              else Inr (Next 40 s)))"

text \<open>States 7 and 75: identifiers.\<close>

definition name_step :: "nat \<Rightarrow> scanner \<Rightarrow> step res" where
  "name_step st s0 =
     (case nextchar s0 of (c, s) \<Rightarrow>
        if c = EOS then Inr (Token (if st = 7 then 15 else 25) s)
        else if st = 7
        then (if isalnum c \<or> c = CHR ''_'' \<or> c = CHR ''$'' then Inr (Next 7 s) else perform (Back 1 15) s)
        else (if isalnum c \<or> c = CHR ''_'' \<or> c = CHR ''*'' \<or> c = CHR ''&'' then Inr (Next 7 s)
              else rbind (retract s 1) (\<lambda>s1. Inr (Token (if length (tx s1) = 1 then 25 else 15) s1))))"

definition look_step :: "nat \<Rightarrow> scanner \<Rightarrow> step res" where
  "look_step st s =
     (if st = 0 then blank_step s
      else if st = 1000 then first_step s
      else if st \<in> {1, 10, 11, 12} then comment_step st s
      else if st \<in> {2, 9, 900} then string_step st s
      else if st \<in> {4, 40, 41} then block_step st s
      else if st \<in> {7, 75} then name_step st s
      else case operator_end st of
          Some t \<Rightarrow> (case nextchar s of (c, s1) \<Rightarrow> perform (if c = EOS then Ret t else operator_act st t c) s1)
        | None \<Rightarrow>
            (case number_end st of
               Some a \<Rightarrow> (case nextchar s of (c, s1) \<Rightarrow> perform (if c = EOS then a else number_act st c) s1)
             | None \<Rightarrow> Inr (Token 99 s)))"

section \<open>Progress\<close>

text \<open>
  The number of characters a token has consumed at least when the scanner is in a state: none in
  the first two, one after the first character of a token, two where two can be given back.
\<close>

definition taken :: "nat \<Rightarrow> nat" where
  "taken st = (if st = 0 \<or> st = 1000 then 0 else if st = 82 \<or> st = 820 then 2 else 1)"

text \<open>
  \<open>progress st n\<close> holds for the result of a step in state \<open>st\<close> with \<open>n\<close> characters left: the scanner
  moves on, and a token that is not 0 has consumed a character.
\<close>

fun progress :: "nat \<Rightarrow> nat \<Rightarrow> step res \<Rightarrow> bool" where
  "progress st n (Inl f) = True"
| "progress st n (Inr (Next st' s')) =
     (remaining s' + taken st' \<le> n + taken st \<and>
      (if st = 0 then st' = 1000 \<or> st' = 0 \<and> remaining s' < n else st' \<noteq> 0 \<and> remaining s' < n))"
| "progress st n (Inr (Token t s')) = (remaining s' \<le> n + taken st \<and> (t = 0 \<or> remaining s' < n + taken st))"

lemma remaining_updates [simp]:
  "remaining (s\<lparr>start_line := l\<rparr>) = remaining s" "remaining (s\<lparr>tx_line := l\<rparr>) = remaining s"
  "remaining (s\<lparr>tx_file := f\<rparr>) = remaining s" "remaining (set_error s l m) = remaining s"
  "remaining (s\<lparr>err := e\<rparr>) = remaining s" "remaining (s\<lparr>nexttoken := t\<rparr>) = remaining s"
  by (simp_all add: remaining_def set_error_def)

lemma operator_goes_taken:
  "map_of (operator_goes st) c = Some a \<Longrightarrow> (case a of Goto st' \<Rightarrow> taken st' = 1 \<and> st' \<noteq> 0 | Ret t \<Rightarrow> t \<noteq> 0 | _ \<Rightarrow> False)"
  by (auto simp: operator_goes_def taken_def split: option.splits if_splits)

lemma first_acts_taken:
  "map_of first_acts c = Some a \<Longrightarrow> (case a of Goto st' \<Rightarrow> taken st' = 1 \<and> st' \<noteq> 0 | Ret t \<Rightarrow> t \<noteq> 0 | _ \<Rightarrow> False)"
  by (auto simp: first_acts_def taken_def split: if_splits)

lemma number_act_taken:
  "number_end st = Some e \<Longrightarrow>
   (case number_act st c of Goto st' \<Rightarrow> taken st' \<le> taken st + 1 \<and> st' \<noteq> 0 | Ret t \<Rightarrow> t \<noteq> 0
    | Cut t \<Rightarrow> t \<noteq> 0 | Back n t \<Rightarrow> t \<noteq> 0 \<and> n \<le> taken st)"
proof -
  assume "number_end st = Some e"
  then have "st \<in> set [8, 81, 82, 820, 83, 84, 85, 86, 87, 870, 88, 880, 100]"
    by (auto simp: number_end_def split: if_splits)
  then show ?thesis
    by (simp only: list.set insert_iff empty_iff simp_thms, elim disjE)
      (simp only:, simp add: number_act_def taken_def Let_def split: if_split)+
qed

lemma perform_progress:
  assumes "remaining s + 1 \<le> n"
    and "case a of Goto st' \<Rightarrow> taken st' \<le> taken st + 1 \<and> st' \<noteq> 0 | Ret t \<Rightarrow> True
      | Cut t \<Rightarrow> True | Back k t \<Rightarrow> k \<le> taken st \<and> t \<noteq> 0" and "st \<noteq> 0"
  shows "progress st n (perform a s)"
  using assms by (cases a) (auto simp: perform_def rbind_def dest!: retract_remaining split: sum.split)

lemma perform_end_progress:
  assumes "remaining s \<le> n" and "case a of Ret t \<Rightarrow> 1 \<le> taken st | Back k t \<Rightarrow> k < taken st | _ \<Rightarrow> False"
  shows "progress st n (perform a s)"
  using assms by (cases a) (auto simp: perform_def rbind_def dest!: retract_remaining split: sum.split)

lemma string_step_progress:
  assumes "st = 2 \<or> st = 9 \<or> st = 900"
  shows "progress st (remaining s) (string_step st s)"
proof -
  obtain c s1 where n: "nextchar s = (c, s1)" by fastforce
  have "remaining s' < remaining s" if "get_escape (cut_tx s1) = Inr s'" "c \<noteq> EOS" for s'
    using get_escape_remaining [OF that(1)] nextchar_remaining(2) [OF n that(2)] by simp
  then show ?thesis
    using assms nextchar_remaining [OF n]
    by (auto simp: string_step_def n quote_token_def taken_def rbind_def split: sum.split)
qed

lemma block_step_progress:
  assumes "st = 4 \<or> st = 40 \<or> st = 41"
  shows "progress st (remaining s) (block_step st s)"
proof -
  obtain c s1 where n: "nextchar s = (c, s1)" by fastforce
  have b: "progress 4 (remaining s) (perform (Back 1 120) s1)" if "c \<noteq> EOS"
    using nextchar_remaining [OF n] that by (intro perform_progress) (simp_all add: taken_def)
  show ?thesis
    using assms
    by (elim disjE; cases "c = EOS"; use nextchar_remaining [OF n] b in
      \<open>simp add: block_step_def n taken_def Let_def split: if_split\<close>)
qed

lemma comment_step_progress:
  assumes "st = 1 \<or> st = 10 \<or> st = 11 \<or> st = 12"
  shows "progress st (remaining s) (comment_step st s)"
proof -
  obtain c s1 where n: "nextchar s = (c, s1)" by fastforce
  have b: "progress 1 (remaining s) (perform (Back 1 119) s1)" "progress 10 (remaining s) (perform (Back 1 31) s1)"
    if "c \<noteq> EOS"
    using nextchar_remaining [OF n] that by (intro perform_progress; simp add: taken_def)+
  show ?thesis
  proof (cases "c = EOS")
    case True
    then show ?thesis using assms nextchar_remaining(1) [OF n] by (auto simp: comment_step_def n taken_def)
  next
    case False
    then have "remaining s = Suc (remaining s1)" using nextchar_remaining [OF n] by simp
    then show ?thesis
      using assms False b [OF False] by (elim disjE) (simp_all add: comment_step_def n taken_def)
  qed
qed

lemma name_step_progress:
  assumes "st = 7 \<or> st = 75"
  shows "progress st (remaining s) (name_step st s)"
proof -
  obtain c s1 where n: "nextchar s = (c, s1)" by fastforce
  have b: "progress 7 (remaining s) (perform (Back 1 15) s1)" if "c \<noteq> EOS"
    using nextchar_remaining [OF n] that by (intro perform_progress) (auto simp: taken_def)
  show ?thesis
  proof (cases "c = EOS")
    case True
    then show ?thesis using assms nextchar_remaining(1) [OF n] by (auto simp: name_step_def n taken_def)
  next
    case False
    then have r: "remaining s = Suc (remaining s1)" using nextchar_remaining [OF n] by simp
    have "progress 75 (remaining s) (rbind (retract s1 1) (\<lambda>s2. Inr (Token (if P s2 then 25 else 15) s2)))" for P
      using r by (cases "retract s1 1") (auto simp: taken_def dest: retract_remaining)
    then show ?thesis
      using assms False r b by (elim disjE) (simp_all add: name_step_def n taken_def)
  qed
qed

lemma first_step_progress: "progress 1000 (remaining s) (first_step s)"
proof -
  obtain c s1 where n: "nextchar s = (c, s1)" by fastforce
  have "progress 1000 (remaining s) (perform a s1)" if "map_of first_acts c = Some a" "c \<noteq> EOS" for a
    using nextchar_remaining [OF n] that(2) first_acts_taken [OF that(1)]
    by (intro perform_progress) (auto simp: taken_def split: act.splits)
  then show ?thesis
    using nextchar_remaining [OF n] by (auto simp: first_step_def n taken_def split: option.split)
qed

lemma blank_step_progress: "progress 0 (remaining s) (blank_step s)"
proof -
  obtain c s1 where n: "nextchar s = (c, s1)" by fastforce
  show ?thesis
    using nextchar_remaining [OF n]
    by (auto simp: blank_step_def n taken_def rbind_def dest!: retract_remaining split: sum.split)
qed

lemma look_step_progress: "progress st (remaining s) (look_step st s)"
proof -
  obtain c s1 where n: "nextchar s = (c, s1)" by fastforce
  note rem = nextchar_remaining [OF n]
  have op: "progress st (remaining s) (perform (if c = EOS then Ret t else operator_act st t c) s1)"
    if "operator_end st = Some t" for t
  proof -
    have st: "st \<noteq> 0" "1 \<le> taken st" "t \<noteq> 0"
      using that by (auto simp: operator_end_def taken_def split: if_splits)
    show ?thesis
    proof (cases "c = EOS")
      case True
      then show ?thesis using rem st by (auto intro!: perform_end_progress)
    next
      case False
      then show ?thesis using rem(2) st operator_goes_taken [of st c]
        by (auto intro!: perform_progress simp: operator_act_def split: option.split act.split)
    qed
  qed
  have num: "progress st (remaining s) (perform (if c = EOS then a else number_act st c) s1)"
    if "number_end st = Some a" for a
  proof -
    have st: "st \<noteq> 0" "case a of Ret t \<Rightarrow> 1 \<le> taken st | Back k t \<Rightarrow> k < taken st | _ \<Rightarrow> False"
      using that by (auto simp: number_end_def taken_def split: if_splits)
    show ?thesis
    proof (cases "c = EOS")
      case True
      then show ?thesis using rem st by (auto intro!: perform_end_progress)
    next
      case False
      then show ?thesis using rem(2) st number_act_taken [OF that, of c]
        by (auto intro!: perform_progress split: act.splits)
    qed
  qed
  have "0 < taken st" if "st \<noteq> 0" "st \<noteq> 1000" using that by (simp add: taken_def)
  then show ?thesis
    using op num blank_step_progress first_step_progress comment_step_progress [of st s] string_step_progress [of st s]
      block_step_progress [of st s] name_step_progress [of st s]
    unfolding look_step_def n by (auto split: option.split)
qed

section \<open>Tokens\<close>

function look_loop :: "nat \<Rightarrow> scanner \<Rightarrow> (int \<times> scanner) res" where
  "look_loop st s =
     (case look_step st s of
        Inl f \<Rightarrow> Inl f
      | Inr (Token t s') \<Rightarrow> Inr (t, s')
      | Inr (Next st' s') \<Rightarrow> look_loop st' s')"
  by pat_completeness auto
termination
proof (relation "measures [\<lambda>(st, s). if st = 0 then 1 else 0, \<lambda>(st, s). remaining s]")
  fix st s out st' s'
  assume "look_step st s = Inr out" "out = Next st' s'"
  then show "((st', s'), st, s) \<in> measures [\<lambda>(st, s). if st = 0 then 1 else 0, \<lambda>(st, s). remaining s]"
    using look_step_progress [of st s] by (auto split: if_splits)
qed simp

declare look_loop.simps [simp del]

definition look :: "scanner \<Rightarrow> (int \<times> scanner) res" where
  "look s = look_loop 0 ((clear_tx s)\<lparr>start_line := line s, tx_file := cur_file s\<rparr>)"

text \<open>A deleted error message is still what \<open>error\<close> points at; the model forgets it.\<close>

definition Scanner_token :: "scanner \<Rightarrow> (int \<times> scanner) res" where
  "Scanner_token s0 =
     (let s = s0\<lparr>err := None\<rparr>
      in if 0 \<le> nexttoken s then Inr (nexttoken s, s\<lparr>nexttoken := -1\<rparr>)
         else rbind (look (s\<lparr>start_line := 0\<rparr>)) (\<lambda>(t, s1).
           Inr (t, s1\<lparr>tx_line := (if start_line s1 = 0 then line s1 else start_line s1)\<rparr>)))"

definition Scanner_isoperator :: "int \<Rightarrow> bool" where
  "Scanner_isoperator t \<longleftrightarrow> 100 \<le> t"

lemma look_loop_progress:
  "look_loop st s = Inr (t, s') \<Longrightarrow>
   remaining s' \<le> remaining s + taken st \<and> (t \<noteq> 0 \<longrightarrow> remaining s' < remaining s + taken st)"
proof (induction st s rule: look_loop.induct)
  case (1 st s)
  note p = look_step_progress [of st s]
  show ?case
  proof (cases "look_step st s")
    case (Inr out)
    show ?thesis
    proof (cases out)
      case (Next st1 s1)
      then have "look_loop st1 s1 = Inr (t, s')" using 1(2) Inr by (simp add: look_loop.simps [of st s])
      then show ?thesis using 1(1) [OF Inr Next] p Inr Next by auto
    next
      case (Token t1 s1)
      then show ?thesis using 1(2) Inr p by (auto simp: look_loop.simps [of st s])
    qed
  qed (use 1(2) in \<open>simp add: look_loop.simps [of st s]\<close>)
qed

lemma look_progress: "look s = Inr (t, s') \<Longrightarrow> remaining s' \<le> remaining s \<and> (t \<noteq> 0 \<longrightarrow> remaining s' < remaining s)"
  unfolding look_def by (drule look_loop_progress) (simp add: taken_def)

lemma Scanner_token_progress:
  assumes "Scanner_token s = Inr (t, s')" and "nexttoken s < 0"
  shows "remaining s' \<le> remaining s \<and> (t \<noteq> 0 \<longrightarrow> remaining s' < remaining s)"
  using assms look_progress [of "s\<lparr>err := None, start_line := 0\<rparr>"] by (auto simp: Scanner_token_def Let_def)

text \<open>All tokens up to the end of the input, with their texts, from a scanner without a pushed token.\<close>

function scan_tokens :: "scanner \<Rightarrow> ((int \<times> string) list \<times> scanner) res" where
  "scan_tokens s =
     (case Scanner_token (s\<lparr>nexttoken := -1\<rparr>) of
        Inl f \<Rightarrow> Inl f
      | Inr (t, s') \<Rightarrow>
          if t = 0 then Inr ([], s')
          else rbind (scan_tokens s') (\<lambda>(ts, s''). Inr ((t, tx s') # ts, s'')))"
  by pat_completeness auto
termination
  by (relation "measure remaining") (auto dest: Scanner_token_progress)

declare scan_tokens.simps [simp del]

section \<open>Skipping\<close>

definition start_skip :: "scanner \<Rightarrow> scanner" where
  "start_skip s = (clear_tx s)\<lparr>tx_line := line s, tx_file := cur_file s\<rparr>"

function skip_line_loop :: "scanner \<Rightarrow> scanner" where
  "skip_line_loop s =
     (case nextchar s of (c, s1) \<Rightarrow>
        if c = EOS then s1
        else if c = CHR 0x5C then skip_line_loop (snd (nextchar s1))
        else if c = LF then s1
        else skip_line_loop s1)"
  by pat_completeness auto
termination
proof (relation "measure remaining")
  fix s c s1
  assume "(c, s1) = nextchar s" "c \<noteq> EOS"
  then have "remaining s1 < remaining s" using nextchar_remaining(2) [of s c s1] by simp
  then show "(snd (nextchar s1), s) \<in> measure remaining" "(s1, s) \<in> measure remaining"
    using nextchar_remaining(1) [of s1 "fst (nextchar s1)" "snd (nextchar s1)"] by simp_all
qed simp

declare skip_line_loop.simps [simp del]

definition Scanner_skip_line :: "scanner \<Rightarrow> scanner" where
  "Scanner_skip_line s = skip_line_loop (start_skip s)"

text \<open>The states of \<open>Scanner_skip_balanced\<close>: code, and inside of comments, strings and characters.\<close>

definition skip_state :: "char \<Rightarrow> char \<Rightarrow> nat \<Rightarrow> char \<Rightarrow> nat" where
  "skip_state l r st c =
     (if st = 0
      then (if c = l \<or> c = r then 0 else if c = CHR ''/'' then 10 else if c = CHR 0x22 then 20
            else if c = CHR 0x27 then 30 else 0)
      else if st = 10 then (if c = CHR ''/'' then 11 else if c = CHR ''*'' then 12 else 0)
      else if st = 11 then (if c = LF then 0 else 11)
      else if st = 12 then (if c = CHR ''*'' then 13 else 12)
      else if st = 13 then (if c = CHR ''*'' then 13 else if c = CHR ''/'' then 0 else 12)
      else if st = 20 then (if c = CHR 0x22 then 0 else if c = CHR 0x5C then 21 else 20)
      else if st = 21 then 20
      else if st = 30 then (if c = CHR 0x27 then 0 else if c = CHR 0x5C then 31 else 30)
      else if st = 31 then 30
      else st)"

definition skip_level :: "char \<Rightarrow> char \<Rightarrow> nat \<Rightarrow> char \<Rightarrow> nat \<Rightarrow> nat" where
  "skip_level l r st c n = (if st \<noteq> 0 then n else if c = l then n + 1 else if c = r then n - 1 else n)"

function skip_loop :: "char \<Rightarrow> char \<Rightarrow> nat \<Rightarrow> nat \<Rightarrow> scanner \<Rightarrow> int \<times> scanner" where
  "skip_loop l r n st s =
     (if n = 0 then (0, s)
      else case nextchar s of (c, s1) \<Rightarrow>
        if c = EOS then (-1, s1) else skip_loop l r (skip_level l r st c n) (skip_state l r st c) s1)"
  by pat_completeness auto
termination
  by (relation "measure (\<lambda>(l, r, n, st, s). remaining s)") (auto dest: nextchar_remaining(2) [OF sym])

declare skip_loop.simps [simp del]

definition Scanner_skip_balanced :: "scanner \<Rightarrow> char \<Rightarrow> char \<Rightarrow> int \<times> scanner" where
  "Scanner_skip_balanced s l r = skip_loop l r 1 0 (app_tx [l] (start_skip s))"

end
