(* ===== verification/ScanSpec.thy ===== *)
theory ScanSpec
  imports SwigScan StringEnc
begin

text \<open>
  What the scanner of Source/Swig/scanner.c does: it always comes to an end and keeps its line
  numbers, it reads back the tokens of a text that is written with blanks between them, strings
  included, and it skips balanced code.
\<close>

section \<open>A scanner in the middle of a text\<close>

text \<open>The text \<open>p\<close> has been read, \<open>r\<close> has not, and \<open>t\<close> is the text of the token so far.\<close>

definition reads :: "scanner \<Rightarrow> string \<Rightarrow> string \<Rightarrow> string \<Rightarrow> bool" where
  "reads s p t r \<longleftrightarrow> tx s = t \<and> idstart s = None \<and>
     (\<exists>x. srcs s = [x] \<and> so_text x = p @ r \<and> so_pos x = length p)"

lemma readsE:
  assumes "reads s p t r"
  obtains x where "srcs s = [x]" and "so_text x = p @ r" and "so_pos x = length p" and "tx s = t" and "idstart s = None"
  using assms by (auto simp: reads_def)

lemma nextchar_reads:
  assumes "reads s p t (c # r)"
  shows "\<exists>s'. nextchar s = (c, s') \<and> reads s' (p @ [c]) (t @ [c]) r"
  using assms by (auto simp: reads_def nextchar_def put_tx_def Let_def nth_append)

lemma nextchar_end:
  assumes "reads s p t []"
  shows "nextchar s = (EOS, s\<lparr>srcs := []\<rparr>)"
  using assms by (auto simp: reads_def nextchar_def)

lemma cut_reads: "reads s p (t @ [c]) r \<Longrightarrow> reads (cut_tx s) p t r"
  by (auto simp: reads_def cut_tx_def)

lemma app_reads: "reads s p t r \<Longrightarrow> reads (app_tx d s) p (t @ d) r"
  by (auto simp: reads_def app_tx_def)

lemma clear_reads: "reads s p t r \<Longrightarrow> reads (clear_tx s) p [] r"
  by (auto simp: reads_def clear_tx_def)

lemma reads_updates [simp]:
  "reads (s\<lparr>start_line := l\<rparr>) = reads s" "reads (s\<lparr>tx_line := l\<rparr>) = reads s" "reads (s\<lparr>tx_file := f\<rparr>) = reads s"
  "reads (s\<lparr>line := l\<rparr>) = reads s" "reads (s\<lparr>err := e\<rparr>) = reads s" "reads (s\<lparr>nexttoken := n\<rparr>) = reads s"
  by (auto simp: reads_def intro!: ext)

lemma retract_reads:
  assumes "reads s (p @ [c]) (t @ [d]) r"
  shows "\<exists>s'. retract s 1 = Inr s' \<and> reads s' p t (c # r)"
  using assms by (auto simp: reads_def retract_def seek_back_def cut_tx_def)

lemma retract2_reads:
  assumes "reads s (p @ [a, b]) (t @ [c, d]) r"
  shows "\<exists>s'. retract s 2 = Inr s' \<and> reads s' p t (a # b # r)"
  using assms by (auto simp: reads_def retract_def seek_back_def cut_tx_def numeral_2_eq_2 butlast_append)

section \<open>Strings\<close>

text \<open>
  The scanner takes all digits after a backslash for an octal escape: a character that is written in
  octal must not be followed by a digit.
\<close>

fun scan_safe :: "string \<Rightarrow> bool" where
  "scan_safe [] = True"
| "scan_safe [c] = True"
| "scan_safe (c # d # s) \<longleftrightarrow> (escape_char c = CHR 0x5C # octal (of_char c) \<longrightarrow> \<not> isdigit d) \<and> scan_safe (d # s)"

lemma digit_char_octal: "n < 8 \<Longrightarrow> isdigit (digit_char n) \<and> xdigit (digit_char n) = int n"
proof -
  have "\<forall>n<8. isdigit (digit_char n) \<and> xdigit (digit_char n) = int n" by code_simp
  then show "n < 8 \<Longrightarrow> ?thesis" by blast
qed

lemma escape_digits_step:
  assumes "reads s p t (digit_char n # r)" and "n < 8" and "v * 8 + int n < 2 ^ 31"
  shows "\<exists>s'. escape_digits 3 v s = escape_digits 3 (v * 8 + int n) s' \<and> reads s' (p @ [digit_char n]) t r"
proof -
  obtain s1 where s1: "nextchar s = (digit_char n, s1)" "reads s1 (p @ [digit_char n]) (t @ [digit_char n]) r"
    using nextchar_reads [OF assms(1)] by blast
  have d: "isdigit (digit_char n)" "xdigit (digit_char n) = int n" "digit_char n \<noteq> EOS"
    using digit_char_octal [OF assms(2)] by (auto simp: isdigit_def)
  have "escape_digits 3 v s = escape_digits 3 (v * 8 + int n) (cut_tx s1)"
    using d assms(3) by (simp add: escape_digits.simps [of 3 v s] s1(1) digit_in_def shl_int_def)
  then show ?thesis using cut_reads [OF s1(2)] by blast
qed

lemma escape_digits_stop:
  assumes "reads s p t (x # r)" and "\<not> isdigit x" and "x \<noteq> EOS"
  shows "\<exists>s'. escape_digits 3 v s = Inr s' \<and> reads s' p (t @ [char_cast v]) (x # r)"
proof -
  obtain s1 where s1: "nextchar s = (x, s1)" "reads s1 (p @ [x]) (t @ [x]) r"
    using nextchar_reads [OF assms(1)] by blast
  obtain s2 where s2: "retract s1 1 = Inr s2" "reads s2 p t (x # r)" using retract_reads [OF s1(2)] by blast
  have "reads (put_tx c s2) p (t @ [c]) (x # r)" for c using s2(2) by (auto simp: reads_def put_tx_def)
  moreover have "escape_digits 3 v s = Inr (put_tx (char_cast v) s2)"
    using assms(2,3) s2(1) by (simp add: escape_digits.simps [of 3 v s] s1(1) digit_in_def)
  ultimately show ?thesis by blast
qed

lemma escape_letter_digit: "n < 8 \<Longrightarrow> escape_letter (digit_char n) = None"
proof -
  have "\<forall>n<8. escape_letter (digit_char n) = None" by code_simp
  then show "n < 8 \<Longrightarrow> ?thesis" by blast
qed

lemma get_escape_first:
  assumes "reads s p t (digit_char n # r)" and "n < 8"
  shows "\<exists>s'. get_escape s = escape_digits 3 (int n) s' \<and> reads s' (p @ [digit_char n]) t r"
proof -
  obtain s1 where s1: "nextchar s = (digit_char n, s1)" "reads s1 (p @ [digit_char n]) (t @ [digit_char n]) r"
    using nextchar_reads [OF assms(1)] by blast
  have "isdigit (digit_char n)" "xdigit (digit_char n) = int n" "digit_char n \<noteq> EOS"
    using digit_char_octal [OF assms(2)] by (auto simp: isdigit_def)
  then have "get_escape s = escape_digits 3 (int n) (cut_tx s1)"
    using escape_letter_digit [OF assms(2)] by (simp add: get_escape_def s1(1))
  then show ?thesis using cut_reads [OF s1(2)] by blast
qed

lemma get_escape_octal:
  assumes "reads s p t (octal n @ x # r)" and "n < 256" and "\<not> isdigit x" and "x \<noteq> EOS"
  shows "\<exists>s'. get_escape s = Inr s' \<and> reads s' (p @ octal n) (t @ [char_of n]) (x # r)"
proof -
  have stop: "\<exists>s'. escape_digits 3 (int n) s1 = Inr s' \<and> reads s' q (t @ [char_of n]) (x # r)"
    if "reads s1 q t (x # r)" for s1 q
    using escape_digits_stop [OF that assms(3,4), of "int n"] assms(2)
    by (simp add: char_cast_def nat_mod_distrib)
  consider "n < 8" | "8 \<le> n" "n < 64" | "64 \<le> n" by linarith
  then show ?thesis
  proof cases
    case 1
    then obtain s1 where "get_escape s = escape_digits 3 (int n) s1" "reads s1 (p @ [digit_char n]) t (x # r)"
      using assms(1) get_escape_first [of s p t n] by (auto simp: octal_digits)
    then show ?thesis using stop 1 by (simp add: octal_digits)
  next
    case 2
    then have d: "n div 8 < 8" "n mod 8 < 8" by (simp_all add: div_less_iff_less_mult)
    obtain s1 where s1: "get_escape s = escape_digits 3 (int (n div 8)) s1"
        "reads s1 (p @ [digit_char (n div 8)]) t (digit_char (n mod 8) # x # r)"
      using assms(1) 2 get_escape_first [OF _ d(1), of s p t] by (auto simp: octal_digits)
    have v: "int (n div 8) * 8 + int (n mod 8) = int n" by (simp add: zdiv_int zmod_int)
    obtain s2 where "escape_digits 3 (int (n div 8)) s1 = escape_digits 3 (int n) s2"
        "reads s2 (p @ [digit_char (n div 8), digit_char (n mod 8)]) t (x # r)"
      using escape_digits_step [OF s1(2) d(2), of "int (n div 8)"] assms(2) v by auto
    then show ?thesis using stop s1(1) 2 by (simp add: octal_digits)
  next
    case 3
    then have d: "n div 64 < 8" "n div 8 mod 8 < 8" "n mod 8 < 8"
      using assms(2) by (simp_all add: div_less_iff_less_mult)
    obtain s1 where s1: "get_escape s = escape_digits 3 (int (n div 64)) s1"
        "reads s1 (p @ [digit_char (n div 64)]) t (digit_char (n div 8 mod 8) # digit_char (n mod 8) # x # r)"
      using assms(1,2) 3 get_escape_first [OF _ d(1), of s p t] by (auto simp: octal_digits)
    have v1: "int (n div 64) * 8 + int (n div 8 mod 8) = int (n div 8)"
      using div_mult2_eq [of n 8 8] by (simp add: zdiv_int zmod_int)
    have v2: "int (n div 8) * 8 + int (n mod 8) = int n" by (simp add: zdiv_int zmod_int)
    obtain s2 where s2: "escape_digits 3 (int (n div 64)) s1 = escape_digits 3 (int (n div 8)) s2"
        "reads s2 (p @ [digit_char (n div 64), digit_char (n div 8 mod 8)]) t (digit_char (n mod 8) # x # r)"
      using escape_digits_step [OF s1(2) d(2), of "int (n div 64)"] le_less_trans [OF div_le_dividend, of n 2147483648 8]
        assms(2) v1 by auto
    obtain s3 where "escape_digits 3 (int (n div 8)) s2 = escape_digits 3 (int n) s3"
        "reads s3 (p @ [digit_char (n div 64), digit_char (n div 8 mod 8), digit_char (n mod 8)]) t (x # r)"
      using escape_digits_step [OF s2(2) d(3), of "int (n div 8)"] assms(2) v2 by auto
    then show ?thesis using stop s1(1) s2(1) 3 assms(2) by (simp add: octal_digits)
  qed
qed

text \<open>One round of state 2 over what \<open>escape_char\<close> writes for a character.\<close>

lemma string_step_plain:
  assumes "reads s p t (c # r)" and "c \<notin> {EOS, CHR 0x22, CHR 0x5C}"
  shows "\<exists>s'. string_step 2 s = Inr (Next 2 s') \<and> reads s' (p @ [c]) (t @ [c]) r"
  using nextchar_reads [OF assms(1)] assms(2) by (auto simp: string_step_def quote_of_def)

lemma string_step_escape:
  assumes "reads s p t (CHR 0x5C # r)"
    and "\<And>s1. reads s1 (p @ [CHR 0x5C]) t r \<Longrightarrow> \<exists>s'. get_escape s1 = Inr s' \<and> reads s' q u r'"
  shows "\<exists>s'. string_step 2 s = Inr (Next 2 s') \<and> reads s' q u r'"
proof -
  obtain s1 where s1: "nextchar s = (CHR 0x5C, s1)" "reads s1 (p @ [CHR 0x5C]) (t @ [CHR 0x5C]) r"
    using nextchar_reads [OF assms(1)] by blast
  obtain s2 where "get_escape (cut_tx s1) = Inr s2" "reads s2 q u r'"
    using assms(2) [OF cut_reads [OF s1(2)]] by blast
  then show ?thesis by (simp add: string_step_def quote_of_def s1(1))
qed

lemma get_escape_letter:
  assumes "reads s p t (c # r)" and "escape_letter c = Some d" and "c \<noteq> EOS"
  shows "\<exists>s'. get_escape s = Inr s' \<and> reads s' (p @ [c]) (t @ d) r"
proof -
  obtain s1 where s1: "nextchar s = (c, s1)" "reads s1 (p @ [c]) (t @ [c]) r"
    using nextchar_reads [OF assms(1)] by blast
  then show ?thesis
    using assms(2,3) app_reads [OF cut_reads [OF s1(2)], of d] by (simp add: get_escape_def)
qed

lemma escape_char_cases:
  "(\<exists>d. escape_char c = [CHR 0x5C, d] \<and> escape_letter d = Some [c] \<and> d \<noteq> EOS) \<or>
   escape_char c = CHR 0x5C # octal (of_char c) \<or>
   escape_char c = [c] \<and> c \<notin> {EOS, CHR 0x22, CHR 0x5C}"
proof (cases "c \<in> {CHR 0x0A, CHR 0x0D, CHR 0x09, CHR 0x5C, CHR 0x27, CHR 0x22}")
  case True
  then show ?thesis by (elim insertE emptyE) (simp_all add: escape_char_def escape_letter_def)
next
  case False
  have "\<not> isgraph EOS" by code_simp
  then have "isgraph c \<Longrightarrow> c \<noteq> EOS" by blast
  then show ?thesis using False by (cases "isgraph c") (simp_all add: escape_char_def)
qed

lemma string_step_char:
  assumes "reads s p t (escape_char c @ x # r)" and "x \<noteq> EOS"
    and "escape_char c = CHR 0x5C # octal (of_char c) \<longrightarrow> \<not> isdigit x"
  shows "\<exists>s'. string_step 2 s = Inr (Next 2 s') \<and> reads s' (p @ escape_char c) (t @ [c]) (x # r)"
proof -
  consider d where "escape_char c = [CHR 0x5C, d]" "escape_letter d = Some [c]" "d \<noteq> EOS"
    | "escape_char c = CHR 0x5C # octal (of_char c)"
    | "escape_char c = [c]" "c \<notin> {EOS, CHR 0x22, CHR 0x5C}"
    using escape_char_cases [of c] by blast
  then show ?thesis
  proof cases
    case 1
    then show ?thesis
      using assms(1) get_escape_letter [of _ "p @ [CHR 0x5C]" t d "x # r" "[c]"]
        string_step_escape [of s p t "d # x # r" "p @ [CHR 0x5C, d]" "t @ [c]" "x # r"] by simp
  next
    case 2
    have n: "(of_char c :: nat) < 256" by simp
    show ?thesis
      using assms(1) get_escape_octal [of _ "p @ [CHR 0x5C]" t "of_char c" x r, OF _ n] assms(2,3) 2
        string_step_escape [of s p t "octal (of_char c) @ x # r" "p @ CHR 0x5C # octal (of_char c)" "t @ [c]" "x # r"]
      by simp
  next
    case 3
    then show ?thesis using assms(1) string_step_plain [of s p t c "x # r"] by simp
  qed
qed

lemma look_step_string [simp]: "look_step 2 = string_step 2"
  by (rule ext) (simp add: look_step_def)

lemma escape_starts: "\<exists>x r. escape_char c = x # r \<and> x \<noteq> EOS \<and> (isdigit x \<longrightarrow> x = c)"
proof -
  have "\<not> isdigit (CHR 0x5C)" by code_simp
  then show ?thesis using escape_char_cases [of c] by (elim disjE exE conjE) simp_all
qed

lemma look_string:
  "\<lbrakk>scan_safe w; reads s p t (Swig_string_escape w @ CHR 0x22 # r)\<rbrakk> \<Longrightarrow>
   \<exists>s'. look_loop 2 s = Inr (10, s') \<and> reads s' (p @ Swig_string_escape w @ [CHR 0x22]) (t @ w) r"
proof (induction w arbitrary: s p t rule: scan_safe.induct)
  case 1
  then obtain s1 where s1: "nextchar s = (CHR 0x22, s1)" "reads s1 (p @ [CHR 0x22]) (t @ [CHR 0x22]) r"
    using nextchar_reads [of s p t "CHR 0x22" r] by (auto simp: Swig_string_escape_def)
  then have "look_loop 2 s = Inr (10, cut_tx s1)"
    by (simp add: look_loop.simps [of 2 s] string_step_def quote_of_def quote_token_def)
  then show ?case using cut_reads [OF s1(2)] by (simp add: Swig_string_escape_def)
next
  case (2 c)
  obtain s1 where s1: "string_step 2 s = Inr (Next 2 s1)" "reads s1 (p @ escape_char c) (t @ [c]) (CHR 0x22 # r)"
    using string_step_char [of s p t c "CHR 0x22" r] 2(2) by (auto simp: Swig_string_escape_def isdigit_def)
  obtain s2 where s2: "nextchar s1 = (CHR 0x22, s2)"
      "reads s2 (p @ escape_char c @ [CHR 0x22]) (t @ [c, CHR 0x22]) r"
    using nextchar_reads [OF s1(2)] by auto
  then have "look_loop 2 s = Inr (10, cut_tx s2)"
    by (simp add: look_loop.simps [of 2 s] look_loop.simps [of 2 s1] s1 string_step_def [of 2 s1] quote_of_def quote_token_def)
  then show ?case using cut_reads [of s2 _ "t @ [c]"] s2(2) by (simp add: Swig_string_escape_def)
next
  case (3 c d w)
  obtain x xs where x: "escape_char d = x # xs" "x \<noteq> EOS" "isdigit x \<longrightarrow> x = d" using escape_starts by blast
  have e: "Swig_string_escape (c # d # w) = escape_char c @ Swig_string_escape (d # w)"
    "Swig_string_escape (d # w) @ CHR 0x22 # r = x # xs @ Swig_string_escape w @ CHR 0x22 # r"
    using x by (simp_all add: Swig_string_escape_def)
  obtain s1 where s1: "string_step 2 s = Inr (Next 2 s1)"
      "reads s1 (p @ escape_char c) (t @ [c]) (Swig_string_escape (d # w) @ CHR 0x22 # r)"
    using string_step_char [of s p t c x "xs @ Swig_string_escape w @ CHR 0x22 # r"] 3(2,3) x e by auto
  then show ?case using 3(1) [OF _ s1(2)] 3(2) e by (simp add: look_loop.simps [of 2 s])
qed

section \<open>Tokens\<close>

lemma look_Next: "look_step st s = Inr (Next st' s') \<Longrightarrow> look_loop st s = look_loop st' s'"
  by (simp add: look_loop.simps [of st s])

lemma look_Token: "look_step st s = Inr (Token t s') \<Longrightarrow> look_loop st s = Inr (t, s')"
  by (simp add: look_loop.simps [of st s])

text \<open>Names end at a character that is in none.\<close>

definition name_char :: "char \<Rightarrow> bool" where
  "name_char c \<longleftrightarrow> isalnum c \<or> c = CHR ''_'' \<or> c = CHR ''$''"

lemma name_char_not_EOS: "name_char c \<Longrightarrow> c \<noteq> EOS"
  by (auto simp: name_char_def ctype_defs)

lemma look_name:
  "\<lbrakk>list_all name_char w; \<not> name_char x; x \<noteq> EOS; reads s p t (w @ x # r)\<rbrakk> \<Longrightarrow>
   \<exists>s'. look_loop 7 s = Inr (15, s') \<and> reads s' (p @ w) (t @ w) (x # r)"
proof (induction w arbitrary: s p t)
  case Nil
  then obtain s1 where s1: "nextchar s = (x, s1)" "reads s1 (p @ [x]) (t @ [x]) r"
    using nextchar_reads [of s p t x r] by auto
  obtain s2 where s2: "retract s1 1 = Inr s2" "reads s2 p t (x # r)" using retract_reads [OF s1(2)] by blast
  have "look_step 7 s = Inr (Token 15 s2)"
    using Nil(2,3) s2(1) by (simp add: look_step_def name_step_def s1(1) name_char_def perform_def)
  then show ?case using look_Token s2(2) by simp
next
  case (Cons c w)
  then obtain s1 where s1: "nextchar s = (c, s1)" "reads s1 (p @ [c]) (t @ [c]) (w @ x # r)"
    using nextchar_reads [of s p t c "w @ x # r"] by auto
  have "look_step 7 s = Inr (Next 7 s1)"
    using Cons.prems(1) name_char_not_EOS [of c] by (auto simp: look_step_def name_step_def s1(1) name_char_def)
  then show ?case using Cons.IH [OF _ Cons.prems(2,3) s1(2)] Cons.prems(1) look_Next by simp
qed

text \<open>
  A run of the number states over characters: the token they come to before a blank, if they take
  all of the characters.
\<close>

fun number_run :: "nat \<Rightarrow> string \<Rightarrow> int option" where
  "number_run st [] = (case number_act st (CHR '' '') of Back n t \<Rightarrow> if n = 1 then Some t else None | _ \<Rightarrow> None)"
| "number_run st (c # w) =
     (case number_act st c of
        Goto st' \<Rightarrow> number_run st' w
      | Ret t \<Rightarrow> if w = [] then Some t else None
      | _ \<Rightarrow> None)"

definition number_states :: "nat list" where
  "number_states = [8, 81, 82, 820, 83, 84, 85, 86, 87, 870, 88, 880, 100]"

lemma number_step:
  assumes "st \<in> set number_states" and "reads s p t (c # r)" and "c \<noteq> EOS"
  shows "\<exists>s1. look_step st s = perform (number_act st c) s1 \<and> reads s1 (p @ [c]) (t @ [c]) r"
proof -
  obtain s1 where s1: "nextchar s = (c, s1)" "reads s1 (p @ [c]) (t @ [c]) r"
    using nextchar_reads [OF assms(2)] by blast
  have "\<forall>st\<in>set number_states. st \<notin> {0, 1000, 1, 10, 11, 12, 2, 9, 900, 4, 40, 41, 7, 75} \<and>
      operator_end st = None \<and> number_end st \<noteq> None" by code_simp
  with assms(1) have "st \<notin> {0, 1000, 1, 10, 11, 12, 2, 9, 900, 4, 40, 41, 7, 75}" "operator_end st = None"
    "number_end st \<noteq> None" by blast+
  then have "look_step st s = perform (number_act st c) s1"
    using assms(3) s1(1) by (auto simp: look_step_def)
  then show ?thesis using s1(2) by blast
qed

lemma number_goto: "number_act st c = Goto st' \<Longrightarrow> st' \<in> set number_states"
  by (auto simp: number_act_def number_states_def Let_def split: if_splits)

lemma look_number:
  "\<lbrakk>number_run st w = Some k; st \<in> set number_states; EOS \<notin> set w; reads s p t (w @ CHR '' '' # r)\<rbrakk> \<Longrightarrow>
   \<exists>s'. look_loop st s = Inr (k, s') \<and> reads s' (p @ w) (t @ w) (CHR '' '' # r)"
proof (induction w arbitrary: st s p t)
  case Nil
  then have a: "number_act st (CHR '' '') = Back 1 k" by (simp split: act.splits if_splits)
  obtain s1 where s1: "look_step st s = perform (Back 1 k) s1" "reads s1 (p @ '' '') (t @ '' '') r"
    using number_step [OF Nil(2), of s p t "CHR '' ''" r] Nil(4) a by auto
  obtain s2 where "retract s1 1 = Inr s2" "reads s2 p t (CHR '' '' # r)" using retract_reads [OF s1(2)] by blast
  then show ?case using look_Token [of st s k s2] s1(1) by (simp add: perform_def)
next
  case (Cons c w)
  obtain s1 where s1: "look_step st s = perform (number_act st c) s1" "reads s1 (p @ [c]) (t @ [c]) (w @ CHR '' '' # r)"
    using number_step [OF Cons.prems(2), of s p t c "w @ CHR '' '' # r"] Cons.prems(3,4) by auto
  show ?case
  proof (cases "number_act st c")
    case (Goto st')
    then have "look_loop st s = look_loop st' s1" using s1(1) by (intro look_Next) (simp add: perform_def)
    then show ?thesis
      using Cons.IH [OF _ number_goto [OF Goto] _ s1(2)] Cons.prems(1,3) Goto by simp
  next
    case (Ret n)
    then have "look_loop st s = Inr (k, s1)" "w = []"
      using s1(1) Cons.prems(1) by (auto intro!: look_Token simp: perform_def split: if_splits)
    then show ?thesis using s1(2) by simp
  qed (use Cons.prems(1) in auto)
qed

text \<open>Operators and punctuation.\<close>

definition symbols :: "(string \<times> int) list" where
  "symbols =
     [(''('', 1), ('')'', 2), ('';'', 3), (''{'', 4), (''}'', 5), (''['', 6), ('']'', 7), ([CHR 0x5C], 8), (''#'', 11),
      ('':'', 12), (''::'', 13), (''::*'', 14), (''.'', 23), (''@'', 24), (''$'', 25), (''?'', 30), ('','', 101),
      (''*'', 102), (''='', 103), (''=='', 104), (''!='', 105), (''+'', 106), (''-'', 107), (''&'', 108), (''&&'', 109),
      (''|'', 110), (''||'', 111), (''^'', 112), (''<'', 113), (''>'', 114), (''<='', 115), (''>='', 116), (''~'', 117),
      (''!'', 118), (''/'', 119), (''%'', 120), (''<<'', 121), (''>>'', 122), (''++'', 123), (''--'', 124), (''+='', 125),
      (''-='', 126), (''*='', 127), (''/='', 128), (''&='', 129), (''|='', 130), (''^='', 131), (''<<='', 132),
      (''>>='', 133), (''%='', 134), (''->'', 135), (''->*'', 136)]"

fun symbol_run :: "nat \<Rightarrow> string \<Rightarrow> int option" where
  "symbol_run st [] = (if map_of (operator_goes st) (CHR '' '') = None then operator_end st else None)"
| "symbol_run st (c # w) =
     (case map_of (operator_goes st) c of
        Some (Goto st') \<Rightarrow> symbol_run st' w
      | Some (Ret t) \<Rightarrow> if w = [] then Some t else None
      | _ \<Rightarrow> None)"

definition symbol_first :: "string \<Rightarrow> int option" where
  "symbol_first w =
     (case w of
        [] \<Rightarrow> None
      | c # w' \<Rightarrow>
          if isalpha c \<or> c = CHR ''%'' \<or> c = CHR ''_'' then None
          else case map_of first_acts c of
              Some (Ret t) \<Rightarrow> if w' = [] then Some t else None
            | Some (Goto st) \<Rightarrow> symbol_run st w'
            | _ \<Rightarrow> if c = CHR '':'' then symbol_run 5 w' else None)"

definition operator_states :: "nat list" where
  "operator_states = [3, 31, 32, 33, 5, 50, 60, 61, 200, 210, 211, 220, 230, 240, 250]"

lemma operator_states_end: "operator_end st \<noteq> None \<longleftrightarrow> st \<in> set operator_states"
  by (auto simp: operator_end_def operator_states_def split: if_splits)

lemma operator_step:
  assumes "st \<in> set operator_states" and "reads s p t (c # r)" and "c \<noteq> EOS"
  shows "\<exists>s1. look_step st s = perform (operator_act st (the (operator_end st)) c) s1 \<and> reads s1 (p @ [c]) (t @ [c]) r"
proof -
  obtain s1 where s1: "nextchar s = (c, s1)" "reads s1 (p @ [c]) (t @ [c]) r"
    using nextchar_reads [OF assms(2)] by blast
  have "\<forall>st\<in>set operator_states. st \<notin> {0, 1000, 1, 10, 11, 12, 2, 9, 900, 4, 40, 41, 7, 75}" by code_simp
  with assms(1) have "st \<notin> {0, 1000, 1, 10, 11, 12, 2, 9, 900, 4, 40, 41, 7, 75}" by blast
  moreover obtain k where "operator_end st = Some k" using operator_states_end assms(1) by auto
  ultimately have "look_step st s = perform (operator_act st (the (operator_end st)) c) s1"
    using assms(3) s1(1) by (auto simp: look_step_def)
  then show ?thesis using s1(2) by blast
qed

lemma operator_goto: "map_of (operator_goes st) c = Some (Goto st') \<Longrightarrow> st' \<in> set operator_states"
  by (auto simp: operator_goes_def operator_states_def split: option.splits if_splits)

lemma look_symbol:
  "\<lbrakk>symbol_run st w = Some k; st \<in> set operator_states; EOS \<notin> set w; reads s p t (w @ CHR '' '' # r)\<rbrakk> \<Longrightarrow>
   \<exists>s'. look_loop st s = Inr (k, s') \<and> reads s' (p @ w) (t @ w) (CHR '' '' # r)"
proof (induction w arbitrary: st s p t)
  case Nil
  then have a: "operator_act st (the (operator_end st)) (CHR '' '') = Back 1 k"
    by (auto simp: operator_act_def split: if_splits)
  obtain s1 where s1: "look_step st s = perform (Back 1 k) s1" "reads s1 (p @ '' '') (t @ '' '') r"
    using operator_step [OF Nil(2), of s p t "CHR '' ''" r] Nil(4) a by auto
  obtain s2 where "retract s1 1 = Inr s2" "reads s2 p t (CHR '' '' # r)" using retract_reads [OF s1(2)] by blast
  then show ?case using look_Token [of st s k s2] s1(1) by (simp add: perform_def)
next
  case (Cons c w)
  obtain s1 where s1: "look_step st s = perform (operator_act st (the (operator_end st)) c) s1"
      "reads s1 (p @ [c]) (t @ [c]) (w @ CHR '' '' # r)"
    using operator_step [OF Cons.prems(2), of s p t c "w @ CHR '' '' # r"] Cons.prems(3,4) by auto
  obtain a where a: "map_of (operator_goes st) c = Some a" using Cons.prems(1) by (auto split: option.splits)
  then have act: "operator_act st (the (operator_end st)) c = a" by (simp add: operator_act_def)
  show ?case
  proof (cases a)
    case (Goto st')
    then have "look_loop st s = look_loop st' s1" using s1(1) act by (intro look_Next) (simp add: perform_def)
    then show ?thesis
      using Cons.IH [OF _ operator_goto _ s1(2)] Cons.prems(1,3) Goto a by simp
  next
    case (Ret n)
    then have "look_loop st s = Inr (k, s1)" "w = []"
      using s1(1) act a Cons.prems(1) by (auto intro!: look_Token simp: perform_def split: if_splits)
    then show ?thesis using s1(2) by simp
  qed (use Cons.prems(1) a in auto)
qed

lemma first_reads:
  assumes "reads s p [] (c # r)" and "c \<noteq> EOS"
  obtains s1 where "nextchar s = (c, s1)" and "reads s1 (p @ [c]) [c] r" and "\<not> id_start s1 c"
    and "look_step 1000 s = first_step s"
  using nextchar_reads [OF assms(1)] by (auto simp: id_start_def look_step_def reads_def)

lemma first_goto: "map_of first_acts c = Some (Goto st) \<Longrightarrow> st = 75 \<or> st \<in> set operator_states"
  by (auto simp: first_acts_def operator_states_def split: if_splits)

lemma look_first_symbol:
  assumes "symbol_first w = Some k" and "EOS \<notin> set w" and "CHR ''$'' \<notin> set w" and "reads s p [] (w @ CHR '' '' # r)"
  shows "\<exists>s'. look_loop 1000 s = Inr (k, s') \<and> reads s' (p @ w) w (CHR '' '' # r)"
proof -
  obtain c w' where w: "w = c # w'" using assms(1) by (cases w) (auto simp: symbol_first_def)
  obtain s1 where s1: "nextchar s = (c, s1)" "reads s1 (p @ [c]) [c] (w' @ CHR '' '' # r)" "\<not> id_start s1 c"
      "look_step 1000 s = first_step s"
    using first_reads [of s p c "w' @ CHR '' '' # r"] assms(2,4) w by auto
  have c: "\<not> isalpha c" "c \<noteq> CHR ''%''" "c \<noteq> CHR ''_''" "c \<noteq> EOS"
    using assms(1,2) w by (auto simp: symbol_first_def split: if_splits)
  show ?thesis
  proof (cases "map_of first_acts c")
    case None
    then have c5: "c = CHR '':''" "symbol_run 5 w' = Some k"
      using assms(1) c w by (auto simp: symbol_first_def split: if_splits)
    have "first_step s = Inr (Next 5 s1)" using None c s1 c5(1) by (simp add: first_step_def)
    then show ?thesis
      using look_symbol [OF c5(2) _ _ s1(2)] look_Next [of 1000 s 5 s1] s1(4) assms(2) w
      by (simp add: operator_states_def)
  next
    case (Some a)
    then have st: "first_step s = perform a s1" using c s1(1,3) by (simp add: first_step_def)
    show ?thesis
    proof (cases a)
      case (Goto st')
      then have "st' \<in> set operator_states"
        using first_goto [of c st'] Some assms(3) w by (auto simp: first_acts_def split: if_splits)
      moreover have "symbol_run st' w' = Some k" using assms(1) Some Goto c w by (simp add: symbol_first_def)
      ultimately show ?thesis
        using look_symbol [OF _ _ _ s1(2)] look_Next [of 1000 s st' s1] s1(4) assms(2) w st Goto
        by (simp add: perform_def)
    next
      case (Ret t)
      then have "w' = []" "t = k" using assms(1) Some c w by (auto simp: symbol_first_def split: if_splits)
      then show ?thesis using s1 st Ret w look_Token [of 1000 s t s1] by (simp add: perform_def)
    qed (use assms(1) Some c w in \<open>auto simp: symbol_first_def first_acts_def split: if_splits\<close>)
  qed
qed

lemma blank_retract:
  assumes "reads s p t (CHR '' '' # r)"
  shows "\<exists>s1 s2. nextchar s = (CHR '' '', s1) \<and> retract s1 1 = Inr s2 \<and> reads s2 p t (CHR '' '' # r) \<and> idstart s1 = None"
proof -
  obtain s1 where s1: "nextchar s = (CHR '' '', s1)" "reads s1 (p @ '' '') (t @ '' '') r"
    using nextchar_reads [OF assms] by auto
  obtain s2 where "retract s1 1 = Inr s2" "reads s2 p t (CHR '' '' # r)" using retract_reads [OF s1(2)] by blast
  then show ?thesis using s1 by (auto simp: reads_def)
qed

lemma look_slash:
  assumes "reads s p [] (''/'' @ w @ CHR '' '' # r)" and "w = [] \<and> k = 119 \<or> w = ''='' \<and> k = 128"
  shows "\<exists>s'. look_loop 1000 s = Inr (k, s') \<and> reads s' (p @ ''/'' @ w) (''/'' @ w) (CHR '' '' # r)"
proof -
  obtain s1 where s1: "nextchar s = (CHR ''/'', s1)" "reads s1 (p @ ''/'') ''/'' (w @ CHR '' '' # r)"
      "\<not> id_start s1 (CHR ''/'')" "look_step 1000 s = first_step s"
    using first_reads [of s p "CHR ''/''" "w @ CHR '' '' # r"] assms(1) by auto
  define s2 where "s2 = s1\<lparr>start_line := line s1\<rparr>"
  have go: "look_loop 1000 s = look_loop 1 s2"
    using s1 by (intro look_Next) (simp add: first_step_def first_acts_def isalpha_def isupper_def islower_def s2_def)
  have st: "look_step (Suc 0) = comment_step (Suc 0)" by (rule ext) (simp add: look_step_def)
  have r2: "reads s2 (p @ ''/'') ''/'' (w @ CHR '' '' # r)" using s1(2) by (simp add: s2_def)
  from assms(2) show ?thesis
  proof
    assume w: "w = [] \<and> k = 119"
    then obtain s3 s4 where "nextchar s2 = (CHR '' '', s3)" "retract s3 1 = Inr s4" "reads s4 (p @ ''/'') ''/'' (CHR '' '' # r)"
      using blank_retract [of s2 "p @ ''/''" "''/''" r] r2 by auto
    then show ?thesis
      using go w look_Token [of 1 s2 119 s4] by (auto simp: st comment_step_def perform_def)
  next
    assume w: "w = ''='' \<and> k = 128"
    then obtain s3 where "nextchar s2 = (CHR ''='', s3)" "reads s3 (p @ ''/='') ''/='' (CHR '' '' # r)"
      using nextchar_reads [of s2 "p @ ''/''" "''/''" "CHR ''=''" "CHR '' '' # r"] r2 by auto
    then show ?thesis
      using go w look_Token [of 1 s2 128 s3] by (auto simp: st comment_step_def)
  qed
qed

lemma look_percent:
  assumes "reads s p [] (''%'' @ w @ CHR '' '' # r)" and "w = [] \<and> k = 120 \<or> w = ''='' \<and> k = 134"
  shows "\<exists>s'. look_loop 1000 s = Inr (k, s') \<and> reads s' (p @ ''%'' @ w) (''%'' @ w) (CHR '' '' # r)"
proof -
  obtain s1 where s1: "nextchar s = (CHR ''%'', s1)" "reads s1 (p @ ''%'') ''%'' (w @ CHR '' '' # r)"
      "look_step 1000 s = first_step s"
    using first_reads [of s p "CHR ''%''" "w @ CHR '' '' # r"] assms(1) by auto
  have go: "look_loop 1000 s = look_loop 4 s1" using s1 by (intro look_Next) (simp add: first_step_def)
  have st: "look_step 4 = block_step 4" by (rule ext) (simp add: look_step_def)
  from assms(2) show ?thesis
  proof
    assume w: "w = [] \<and> k = 120"
    then obtain s3 s4 where "nextchar s1 = (CHR '' '', s3)" "retract s3 1 = Inr s4" "reads s4 (p @ ''%'') ''%'' (CHR '' '' # r)"
        "idstart s3 = None"
      using blank_retract [of s1 "p @ ''%''" "''%''" r] s1(2) by auto
    then show ?thesis
      using go w look_Token [of 4 s1 120 s4] by (auto simp: st block_step_def perform_def id_start_def)
  next
    assume w: "w = ''='' \<and> k = 134"
    then obtain s3 where "nextchar s1 = (CHR ''='', s3)" "reads s3 (p @ ''%='') ''%='' (CHR '' '' # r)"
      using nextchar_reads [of s1 "p @ ''%''" "''%''" "CHR ''=''" "CHR '' '' # r"] s1(2) by auto
    then show ?thesis
      using go w look_Token [of 4 s1 134 s3] by (auto simp: st block_step_def id_start_def reads_def)
  qed
qed

lemma look_dollar:
  assumes "reads s p [] (''$ '' @ r)"
  shows "\<exists>s'. look_loop 1000 s = Inr (25, s') \<and> reads s' (p @ ''$'') ''$'' (CHR '' '' # r)"
proof -
  obtain s1 where s1: "nextchar s = (CHR ''$'', s1)" "reads s1 (p @ ''$'') ''$'' (CHR '' '' # r)"
      "\<not> id_start s1 (CHR ''$'')" "look_step 1000 s = first_step s"
    using first_reads [of s p "CHR ''$''" "CHR '' '' # r"] assms by auto
  have go: "look_loop 1000 s = look_loop 75 s1"
    using s1 by (intro look_Next) (simp add: first_step_def first_acts_def isalpha_def isupper_def islower_def perform_def)
  obtain s3 s4 where s34: "nextchar s1 = (CHR '' '', s3)" "retract s3 1 = Inr s4" "reads s4 (p @ ''$'') ''$'' (CHR '' '' # r)"
    using blank_retract [OF s1(2)] by auto
  then have "look_step 75 s1 = Inr (Token 25 s4)"
    by (simp add: look_step_def name_step_def isalnum_def isalpha_def isupper_def islower_def isdigit_def reads_def)
  then show ?thesis using go s34(3) look_Token by simp
qed

lemma isdigit_set: "isdigit c \<Longrightarrow> c \<in> set ''0123456789''"
proof -
  assume "isdigit c"
  then have "48 \<le> (of_char c :: nat)" "(of_char c :: nat) < 58" by (simp_all add: isdigit_def less_eq_char_def)
  then have "(of_char c :: nat) \<in> set [48..<58]" unfolding set_upt by (simp only: atLeastLessThan_iff)
  moreover have "set [48..<58] = (of_char :: char \<Rightarrow> nat) ` set ''0123456789''" by (simp add: upt_rec)
  ultimately have "(of_char c :: nat) \<in> of_char ` set ''0123456789''" by (simp only:)
  then show ?thesis by (auto simp only: of_char_eq_iff)
qed

lemma digit_first: "isdigit c \<Longrightarrow> map_of first_acts c = None \<and> \<not> isalpha c \<and>
  c \<notin> {EOS, CHR ''%'', CHR ''_'', CHR ''/'', CHR 0x22, CHR '':'', CHR 0x27, CHR 0x60, CHR ''.''}"
proof -
  have "list_all (\<lambda>c. map_of first_acts c = None \<and> \<not> isalpha c \<and>
    c \<notin> {EOS, CHR ''%'', CHR ''_'', CHR ''/'', CHR 0x22, CHR '':'', CHR 0x27, CHR 0x60, CHR ''.''}) ''0123456789''"
    by code_simp
  then show "isdigit c \<Longrightarrow> ?thesis" using isdigit_set [of c] unfolding list_all_iff by blast
qed

lemma look_digits:
  assumes "reads s p [] (c # w @ CHR '' '' # r)" and "isdigit c \<or> c = CHR ''.''" and "EOS \<notin> set w"
    and "number_run (if c = CHR ''.'' then 100 else if c = CHR ''0'' then 83 else 8) w = Some k"
  shows "\<exists>s'. look_loop 1000 s = Inr (k, s') \<and> reads s' (p @ c # w) (c # w) (CHR '' '' # r)"
proof -
  define st where "st = (if c = CHR ''.'' then 100 else if c = CHR ''0'' then 83 else 8 :: nat)"
  have c: "c \<noteq> EOS" using assms(2) by (auto simp: isdigit_def)
  obtain s1 where s1: "nextchar s = (c, s1)" "reads s1 (p @ [c]) [c] (w @ CHR '' '' # r)"
      "\<not> id_start s1 c" "look_step 1000 s = first_step s"
    using first_reads [OF assms(1) c] by blast
  have "first_step s = Inr (Next st s1)"
  proof (cases "c = CHR ''.''")
    case True
    then show ?thesis using s1(1,3)
      by (simp add: first_step_def first_acts_def st_def isalpha_def isupper_def islower_def)
  next
    case False
    then show ?thesis
      using assms(2) s1(1,3) digit_first [of c] by (simp add: first_step_def st_def)
  qed
  then have "look_loop 1000 s = look_loop st s1" using s1(4) by (intro look_Next) simp
  then show ?thesis
    using look_number [OF _ _ assms(3) s1(2), of st k] assms(4) by (simp add: st_def number_states_def)
qed

lemma look_any_symbol:
  assumes "(w, k) \<in> set symbols" and "reads s p [] (w @ CHR '' '' # r)"
  shows "\<exists>s'. look_loop 1000 s = Inr (k, s') \<and> reads s' (p @ w) w (CHR '' '' # r)"
proof -
  define special where "special = [(''$'', 25), (''/'', 119), (''/='', 128), (''%'', 120), (''%='', 134), (''.'', 23 :: int)]"
  have "list_all (\<lambda>(w, k). (w, k) \<in> set special \<or>
      symbol_first w = Some k \<and> EOS \<notin> set w \<and> CHR ''$'' \<notin> set w) symbols"
    unfolding special_def by code_simp
  then have "(w, k) \<in> set special \<or> symbol_first w = Some k \<and> EOS \<notin> set w \<and> CHR ''$'' \<notin> set w"
    using assms(1) by (auto simp: list_all_iff)
  then show ?thesis
  proof
    assume "(w, k) \<in> set special"
    then consider "w = ''$''" "k = 25" | v where "w = ''/'' @ v" "v = [] \<and> k = 119 \<or> v = ''='' \<and> k = 128"
      | v where "w = ''%'' @ v" "v = [] \<and> k = 120 \<or> v = ''='' \<and> k = 134" | "w = ''.''" "k = 23"
      by (auto simp: special_def)
    then show ?thesis
    proof cases
      case 1 then show ?thesis using look_dollar [of s p r] assms(2) by simp
    next
      case (2 v) then show ?thesis using look_slash [of s p v r k] assms(2) by simp
    next
      case (3 v) then show ?thesis using look_percent [of s p v r k] assms(2) by simp
    next
      case 4
      have "number_run 100 [] = Some 23" by code_simp
      then show ?thesis using look_digits [of s p "CHR ''.''" "[]" r 23] assms(2) 4 by simp
    qed
  qed (use look_first_symbol assms(2) in blast)
qed

section \<open>Reading tokens back\<close>

text \<open>
  What is written with blanks between the tokens: symbols, names, integers with a suffix, numbers with
  a point and an exponent, and strings.
\<close>

datatype lexeme =
    Symbol string
  | Name string
  | Integer string string
  | Floating string string string
  | Quoted string

definition int_suffixes :: "(string \<times> int) list" where
  "int_suffixes =
     [([], 18), (''u'', 19), (''U'', 19), (''l'', 20), (''L'', 20), (''ul'', 21), (''uL'', 21), (''Ul'', 21), (''UL'', 21),
      (''lu'', 21), (''lU'', 21), (''Lu'', 21), (''LU'', 21), (''ll'', 28), (''LL'', 28), (''ull'', 29), (''ULL'', 29),
      (''llu'', 29), (''LLU'', 29)]"

text \<open>Decimal digits, octal ones after a 0, hexadecimal ones after 0x.\<close>

definition integer_digits :: "string \<Rightarrow> bool" where
  "integer_digits ds =
     (case ds of
        [] \<Rightarrow> False
      | c # ds' \<Rightarrow>
          if c = CHR ''0''
          then list_all isdigit ds' \<or>
            (case ds' of [] \<Rightarrow> False | x # hs \<Rightarrow> (x = CHR ''x'' \<or> x = CHR ''X'') \<and> hs \<noteq> [] \<and> list_all isxdigit hs)
          else isdigit c \<and> list_all isdigit ds')"

definition exponent :: "string \<Rightarrow> bool" where
  "exponent x =
     (case x of
        [] \<Rightarrow> True
      | e # ds \<Rightarrow> (e = CHR ''e'' \<or> e = CHR ''E'') \<and>
          (let ds' = (case ds of c # r \<Rightarrow> if c = CHR ''-'' \<or> c = CHR ''+'' then r else ds | [] \<Rightarrow> [])
           in ds' \<noteq> [] \<and> list_all isdigit ds'))"

fun lexeme_ok :: "lexeme \<Rightarrow> bool" where
  "lexeme_ok (Symbol w) = (map_of symbols w \<noteq> None)"
| "lexeme_ok (Name w) = (w \<noteq> [] \<and> (isalpha (hd w) \<or> hd w = CHR ''_'') \<and> list_all name_char w)"
| "lexeme_ok (Integer ds x) = (integer_digits ds \<and> map_of int_suffixes x \<noteq> None)"
| "lexeme_ok (Floating a b x) =
     (list_all isdigit a \<and> (a = ''0'' \<or> a \<noteq> [] \<and> hd a \<noteq> CHR ''0'') \<and> list_all isdigit b \<and> exponent x)"
| "lexeme_ok (Quoted w) = scan_safe w"

text \<open>How they are written, and the token that the scanner returns with its text.\<close>

fun spelling :: "lexeme \<Rightarrow> string" where
  "spelling (Symbol w) = w"
| "spelling (Name w) = w"
| "spelling (Integer ds x) = ds @ x"
| "spelling (Floating a b x) = a @ ''.'' @ b @ x"
| "spelling (Quoted w) = CHR 0x22 # Swig_string_escape w @ [CHR 0x22]"

fun token_of :: "lexeme \<Rightarrow> int \<times> string" where
  "token_of (Symbol w) = (the (map_of symbols w), w)"
| "token_of (Name w) = (15, w)"
| "token_of (Integer ds x) = (the (map_of int_suffixes x), ds @ x)"
| "token_of (Floating a b x) = (17, a @ ''.'' @ b @ x)"
| "token_of (Quoted w) = (10, w)"

subsection \<open>Numbers\<close>

lemma digit_acts:
  assumes "isdigit c"
  shows "number_act 8 c = Goto 8" "number_act 81 c = Goto 81" "number_act 83 c = Goto 84" "number_act 84 c = Goto 84"
    "number_act 820 c = Goto 86" "number_act 86 c = Goto 86"
proof -
  have "list_all (\<lambda>c. number_act 8 c = Goto 8 \<and> number_act 81 c = Goto 81 \<and> number_act 83 c = Goto 84 \<and>
    number_act 84 c = Goto 84 \<and> number_act 820 c = Goto 86 \<and> number_act 86 c = Goto 86) ''0123456789''"
    by code_simp
  then show "number_act 8 c = Goto 8" "number_act 81 c = Goto 81" "number_act 83 c = Goto 84" "number_act 84 c = Goto 84"
    "number_act 820 c = Goto 86" "number_act 86 c = Goto 86"
    using isdigit_set [OF assms] unfolding list_all_iff by blast+
qed

lemma number_run_loop:
  assumes "\<And>c. P c \<Longrightarrow> number_act st c = Goto st"
  shows "list_all P ds \<Longrightarrow> number_run st (ds @ w) = number_run st w"
  using assms by (induction ds) auto

lemma number_run_hex: "list_all isxdigit ds \<Longrightarrow> number_run 85 (ds @ w) = number_run 85 w"
  by (rule number_run_loop) (auto simp: number_act_def)

lemma suffix_run:
  "map_of int_suffixes x = Some k \<Longrightarrow>
   number_run 8 x = Some k \<and> number_run 83 x = Some k \<and> number_run 84 x = Some k \<and> number_run 85 x = Some k"
proof -
  have "list_all (\<lambda>(x, k). number_run 8 x = Some k \<and> number_run 83 x = Some k \<and> number_run 84 x = Some k \<and>
    number_run 85 x = Some k) int_suffixes" by code_simp
  then show "map_of int_suffixes x = Some k \<Longrightarrow> ?thesis"
    by (auto simp: list_all_iff dest: map_of_SomeD)
qed

lemma integer_run:
  assumes "integer_digits (c # ds)" and "map_of int_suffixes x = Some k"
  shows "number_run (if c = CHR ''0'' then 83 else 8) (ds @ x) = Some k \<and> isdigit c"
proof (cases "c = CHR ''0''")
  case False
  then show ?thesis using assms suffix_run [OF assms(2)]
    by (auto simp: integer_digits_def number_run_loop [OF digit_acts(1)])
next
  case True
  have "isdigit c" using True by (simp add: isdigit_def)
  moreover from assms(1) True consider "list_all isdigit ds"
    | z hs where "ds = z # hs" "z = CHR ''x'' \<or> z = CHR ''X''" "list_all isxdigit hs"
    by (auto simp: integer_digits_def split: list.splits)
  then have "number_run 83 (ds @ x) = Some k"
  proof cases
    case 1
    then show ?thesis using suffix_run [OF assms(2)]
      by (cases ds) (auto simp: digit_acts number_run_loop [OF digit_acts(4)])
  next
    case 2
    have "number_act 83 z = Goto 85" using 2(2) by (auto simp: number_act_def isdigit_def)
    then show ?thesis using 2 suffix_run [OF assms(2)] by (simp add: number_run_hex)
  qed
  ultimately show ?thesis using True by simp
qed

lemma exponent_run: "exponent x \<Longrightarrow> number_run 81 x = Some 17"
proof -
  assume x: "exponent x"
  have end86: "number_run 86 [] = Some 17" by code_simp
  have signs: "number_act 820 (CHR ''-'') = Goto 86" "number_act 820 (CHR ''+'') = Goto 86"
    "number_act 81 (CHR ''e'') = Goto 820" "number_act 81 (CHR ''E'') = Goto 820" by code_simp+
  have ds: "number_run 86 ds = Some 17" if "list_all isdigit ds" for ds
    using number_run_loop [OF digit_acts(6), of _ ds "[]"] that end86 by simp
  show ?thesis
  proof (cases x)
    case Nil
    have "number_run 81 [] = Some 17" by code_simp
    then show ?thesis using Nil by simp
  next
    case (Cons e r)
    then have e: "number_act 81 e = Goto 820" using x signs by (auto simp: exponent_def)
    obtain c r' where r: "r = c # r'" using x Cons by (cases r) (auto simp: exponent_def Let_def)
    have "number_act 820 c = Goto 86 \<and> list_all isdigit r'"
      using x Cons r signs digit_acts(5) by (auto simp: exponent_def Let_def split: if_splits)
    then show ?thesis using Cons e r ds by simp
  qed
qed

lemma floating_run:
  assumes "lexeme_ok (Floating (c # a) b x)"
  shows "number_run (if c = CHR ''0'' then 83 else 8) (a @ ''.'' @ b @ x) = Some 17 \<and> isdigit c"
proof -
  have dots: "number_act 83 (CHR ''.'') = Goto 81" "number_act 8 (CHR ''.'') = Goto 81" by code_simp+
  have "number_run 81 (b @ x) = Some 17"
    using assms exponent_run number_run_loop [OF digit_acts(2), of _ b x] by simp
  then show ?thesis
    using assms dots number_run_loop [OF digit_acts(1), of _ a "''.'' @ b @ x"] by auto
qed

subsection \<open>One token\<close>

lemma char_ranges:
  "isspace c \<Longrightarrow> (of_char c :: nat) \<le> 32" "isdigit c \<Longrightarrow> 48 \<le> (of_char c :: nat)" "isalpha c \<Longrightarrow> 65 \<le> (of_char c :: nat)"
  by (auto simp: isspace_def isdigit_def isalpha_def isupper_def islower_def less_eq_char_def)

lemma word_start: "isdigit c \<or> isalpha c \<or> c = CHR ''_'' \<Longrightarrow> c \<noteq> EOS \<and> c \<noteq> CHR ''%'' \<and> \<not> isspace c \<and> c \<noteq> LF"
  using char_ranges [of c] by (auto simp: isspace_def)

lemma EOS_no_digit [simp]: "\<not> isdigit EOS" "\<not> isalpha EOS" "\<not> isxdigit EOS"
  by code_simp+

lemma digits_no_EOS: "list_all isdigit ds \<Longrightarrow> EOS \<notin> set ds"
  by (auto simp: list_all_iff)

lemma exponent_no_EOS:
  assumes "exponent x"
  shows "EOS \<notin> set x"
proof (cases x)
  case (Cons e ds)
  then have e: "e = CHR ''e'' \<or> e = CHR ''E''" using assms by (simp add: exponent_def)
  then have "e \<noteq> EOS" by (elim disjE) simp_all
  moreover have "EOS \<notin> set ds"
  proof (cases ds)
    case ds: (Cons c r)
    show ?thesis
    proof (cases "c = CHR ''-'' \<or> c = CHR ''+''")
      case True
      then have "list_all isdigit r" using assms Cons ds by (simp add: exponent_def)
      then show ?thesis using True digits_no_EOS ds by (elim disjE) simp_all
    next
      case False
      then have "list_all isdigit ds" using assms Cons ds by (simp add: exponent_def)
      then show ?thesis by (rule digits_no_EOS)
    qed
  qed simp
  ultimately show ?thesis using Cons by simp
qed simp

lemma first_name:
  assumes "nextchar s0 = (c, s)" and "isalpha c \<or> c = CHR ''_''"
  shows "first_step s0 = Inr (Next 7 s)"
proof -
  have "(c = EOS) = False" "(c = CHR ''%'') = False" "(isalpha c \<or> c = CHR ''_'' \<or> id_start s c) = True"
    using word_start [of c] assms(2) by blast+
  then show ?thesis unfolding first_step_def assms(1) by (simp only: prod.case if_True if_False)
qed

lemma look_lexeme:
  assumes "lexeme_ok l" and "reads s p [] (spelling l @ CHR '' '' # r)"
  shows "\<exists>s'. look_loop 1000 s = Inr (fst (token_of l), s') \<and> reads s' (p @ spelling l) (snd (token_of l)) (CHR '' '' # r)"
proof (cases l)
  case (Symbol w)
  then obtain k where "map_of symbols w = Some k" using assms(1) by auto
  then show ?thesis using look_any_symbol [of w k s p r] assms(2) Symbol by (auto dest: map_of_SomeD)
next
  case (Name w)
  obtain c w' where w: "w = c # w'" using assms(1) Name by (cases w) auto
  have c: "isalpha c \<or> c = CHR ''_''" "list_all name_char w'" using assms(1) Name w by auto
  have "c \<noteq> EOS" using word_start [of c] c(1) by blast
  moreover have "reads s p [] (c # w' @ CHR '' '' # r)" using assms(2) Name w by simp
  ultimately obtain s1 where s1: "nextchar s = (c, s1)" "reads s1 (p @ [c]) [c] (w' @ CHR '' '' # r)"
      "look_step 1000 s = first_step s"
    using first_reads by blast
  have "look_loop 1000 s = look_loop 7 s1"
    using first_name [OF s1(1) c(1)] s1(3) by (intro look_Next) simp
  moreover have "\<not> name_char (CHR '' '')" by code_simp
  ultimately show ?thesis using look_name [OF c(2) _ _ s1(2)] Name w by simp
next
  case (Integer ds x)
  obtain c ds' where ds: "ds = c # ds'" using assms(1) Integer by (cases ds) (auto simp: integer_digits_def)
  obtain k where k: "map_of int_suffixes x = Some k" using assms(1) Integer by auto
  have run: "number_run (if c = CHR ''0'' then 83 else 8) (ds' @ x) = Some k" "isdigit c"
    using integer_run [OF _ k, of c ds'] assms(1) Integer ds by auto
  have "EOS \<notin> set (ds' @ x)"
  proof -
    have "list_all (\<lambda>(x, k). EOS \<notin> set x) int_suffixes" by code_simp
    then have "EOS \<notin> set x" using k by (auto simp: list_all_iff dest: map_of_SomeD)
    moreover have "EOS \<notin> set ds'"
    proof (cases "list_all isdigit ds'")
      case True
      then show ?thesis by (rule digits_no_EOS)
    next
      case False
      then obtain z hs where z: "ds' = z # hs" "z = CHR ''x'' \<or> z = CHR ''X''" "list_all isxdigit hs"
        using assms(1) Integer ds by (auto simp: integer_digits_def split: if_splits list.splits)
      have "EOS \<notin> set hs" using z(3) by (auto simp: list_all_iff)
      then show ?thesis using z(1,2) by (elim disjE) simp_all
    qed
    ultimately show ?thesis by simp
  qed
  then show ?thesis using look_digits [of s p c "ds' @ x" r k] run digit_first [OF run(2)] assms(2) Integer ds k by simp
next
  case (Floating a b x)
  obtain c a' where a: "a = c # a'" using assms(1) Floating by (cases a) auto
  have run: "number_run (if c = CHR ''0'' then 83 else 8) (a' @ ''.'' @ b @ x) = Some 17" "isdigit c"
    using floating_run [of c a' b x] assms(1) Floating a by auto
  have "EOS \<notin> set (a' @ ''.'' @ b @ x)"
  proof -
    show ?thesis using assms(1) Floating a exponent_no_EOS [of x] digits_no_EOS by simp
  qed
  then show ?thesis
    using look_digits [of s p c "a' @ ''.'' @ b @ x" r 17] run digit_first [OF run(2)] assms(2) Floating a by simp
next
  case (Quoted w)
  obtain s1 where s1: "nextchar s = (CHR 0x22, s1)" "reads s1 (p @ [CHR 0x22]) [CHR 0x22] (Swig_string_escape w @ CHR 0x22 # CHR '' '' # r)"
      "\<not> id_start s1 (CHR 0x22)" "look_step 1000 s = first_step s"
    using first_reads [of s p "CHR 0x22" "Swig_string_escape w @ CHR 0x22 # CHR '' '' # r"] assms(2) Quoted by auto
  define s2 where "s2 = clear_tx (s1\<lparr>start_line := line s1\<rparr>)"
  have "map_of first_acts (CHR 0x22) = None" by code_simp
  then have "look_loop 1000 s = look_loop 2 s2"
    using s1 by (intro look_Next) (simp add: first_step_def isalpha_def isupper_def islower_def s2_def)
  moreover have "reads s2 (p @ [CHR 0x22]) [] (Swig_string_escape w @ CHR 0x22 # CHR '' '' # r)"
    using clear_reads [of "s1\<lparr>start_line := line s1\<rparr>"] s1(2) by (simp add: s2_def)
  ultimately show ?thesis
    using look_string [of w s2 "p @ [CHR 0x22]" "[]" "CHR '' '' # r"] assms(1) Quoted by auto
qed

lemma blank_step_blank:
  assumes "reads s p t (CHR '' '' # r)"
  shows "\<exists>s'. look_loop 0 s = look_loop 0 s' \<and> reads s' (p @ '' '') (t @ '' '') r"
proof -
  obtain s1 where s1: "nextchar s = (CHR '' '', s1)" "reads s1 (p @ '' '') (t @ '' '') r"
    using nextchar_reads [OF assms] by auto
  then have "look_step 0 s = Inr (Next 0 s1)" by (simp add: look_step_def blank_step_def isspace_def)
  then show ?thesis using look_Next s1(2) by blast
qed

lemma blank_step_token:
  assumes "reads s p t (c # r)" and "c \<noteq> EOS" and "\<not> isspace c"
  shows "\<exists>s'. look_loop 0 s = look_loop 1000 s' \<and> reads s' p [] (c # r)"
proof -
  obtain s1 where s1: "nextchar s = (c, s1)" "reads s1 (p @ [c]) (t @ [c]) r" using nextchar_reads [OF assms(1)] by auto
  obtain s2 where s2: "retract s1 1 = Inr s2" "reads s2 p t (c # r)" using retract_reads [OF s1(2)] by blast
  have "c \<noteq> LF" using assms(3) by (auto simp: isspace_def)
  then have "look_loop 0 s = look_loop 1000 ((clear_tx s2)\<lparr>tx_line := line s2, tx_file := cur_file s2\<rparr>)"
    using s1(1) s2(1) assms(2,3) by (intro look_Next) (simp add: look_step_def blank_step_def)
  then show ?thesis using clear_reads [OF s2(2)] by auto
qed

lemma spelling_starts:
  assumes "lexeme_ok l"
  shows "\<exists>c r. spelling l = c # r \<and> c \<noteq> EOS \<and> \<not> isspace c"
proof (cases l)
  case (Symbol w)
  have "list_all (\<lambda>(w, k). case w of [] \<Rightarrow> False | c # _ \<Rightarrow> c \<noteq> EOS \<and> \<not> isspace c) symbols" by code_simp
  then show ?thesis using assms Symbol by (auto simp: list_all_iff dest!: map_of_SomeD split: list.splits)
next
  case (Name w)
  then show ?thesis using assms word_start by (cases w) auto
next
  case (Integer ds x)
  then obtain c r where "ds = c # r" "isdigit c"
    using assms by (cases ds) (auto simp: integer_digits_def isdigit_def split: if_splits)
  then show ?thesis using Integer word_start by auto
next
  case (Floating a b x)
  then obtain c r where "a = c # r" "isdigit c" using assms by (cases a) auto
  then show ?thesis using Floating word_start by auto
next
  case (Quoted w)
  have "\<not> isspace (CHR 0x22)" by code_simp
  then show ?thesis using Quoted by simp
qed

subsection \<open>All tokens\<close>

definition written :: "lexeme list \<Rightarrow> string" where
  "written ls = concat (map (\<lambda>l. spelling l @ '' '') ls)"

lemma blank_run:
  assumes "reads s p t (b @ c # r)" and "b = [] \<or> b = '' ''" and "c \<noteq> EOS" and "\<not> isspace c"
  shows "\<exists>s'. look_loop 0 s = look_loop 1000 s' \<and> reads s' (p @ b) [] (c # r)"
  using assms(2)
proof
  assume "b = '' ''"
  then obtain s1 where s1: "look_loop 0 s = look_loop 0 s1" "reads s1 (p @ '' '') (t @ '' '') (c # r)"
    using blank_step_blank [of s p t "c # r"] assms(1) by auto
  then show ?thesis using blank_step_token [OF s1(2) assms(3,4)] \<open>b = '' ''\<close> by simp
qed (use blank_step_token [of s p t c r] assms in simp)

lemma token_lexeme:
  assumes "lexeme_ok l" and "reads s p t (b @ spelling l @ CHR '' '' # r)" and "b = [] \<or> b = '' ''" and "nexttoken s < 0"
  shows "\<exists>s'. Scanner_token s = Inr (fst (token_of l), s') \<and>
    reads s' (p @ b @ spelling l) (snd (token_of l)) (CHR '' '' # r)"
proof -
  define s0 where "s0 = (clear_tx (s\<lparr>err := None, start_line := 0\<rparr>))\<lparr>start_line := line s, tx_file := cur_file s\<rparr>"
  have r0: "reads s0 p [] (b @ spelling l @ CHR '' '' # r)"
    using clear_reads [of "s\<lparr>err := None, start_line := 0\<rparr>"] assms(2) by (simp add: s0_def)
  obtain c q where c: "spelling l = c # q" "c \<noteq> EOS" "\<not> isspace c" using spelling_starts [OF assms(1)] by blast
  obtain s1 where s1: "look_loop 0 s0 = look_loop 1000 s1" "reads s1 (p @ b) [] (spelling l @ CHR '' '' # r)"
    using blank_run [of s0 p "[]" b c "q @ CHR '' '' # r"] r0 assms(3) c by auto
  obtain s2 where s2: "look_loop 1000 s1 = Inr (fst (token_of l), s2)"
      "reads s2 ((p @ b) @ spelling l) (snd (token_of l)) (CHR '' '' # r)"
    using look_lexeme [OF assms(1) s1(2)] by blast
  have "look (s\<lparr>err := None, start_line := 0\<rparr>) = Inr (fst (token_of l), s2)"
    using s1(1) s2(1) by (simp add: look_def s0_def cur_file_def)
  then show ?thesis using s2(2) assms(4) by (simp add: Scanner_token_def)
qed

lemma token_end:
  assumes "reads s p t b" and "b = [] \<or> b = '' ''" and "nexttoken s < 0"
  shows "\<exists>s'. Scanner_token s = Inr (0, s') \<and> srcs s' = []"
proof -
  define s0 where "s0 = (clear_tx (s\<lparr>err := None, start_line := 0\<rparr>))\<lparr>start_line := line s, tx_file := cur_file s\<rparr>"
  have r0: "reads s0 p [] b"
    using clear_reads [of "s\<lparr>err := None, start_line := 0\<rparr>"] assms(1) by (simp add: s0_def)
  have fin: "\<exists>s'. look_loop 0 s1 = Inr (0, s') \<and> srcs s' = []" if "reads s1 q u []" for s1 q u
    using nextchar_end [OF that] by (auto simp: look_loop.simps [of 0 s1] look_step_def blank_step_def)
  have "\<exists>s'. look_loop 0 s0 = Inr (0, s') \<and> srcs s' = []"
    using assms(2)
  proof
    assume "b = '' ''"
    then obtain s1 where "look_loop 0 s0 = look_loop 0 s1" "reads s1 (p @ '' '') ('' '') []"
      using blank_step_blank [of s0 p "[]" "[]"] r0 by auto
    then show ?thesis using fin by simp
  qed (use fin r0 in simp)
  then obtain s' where "look (s\<lparr>err := None, start_line := 0\<rparr>) = Inr (0, s')" "srcs s' = []"
    by (auto simp: look_def s0_def cur_file_def)
  then show ?thesis using assms(3) by (simp add: Scanner_token_def)
qed

lemma scan_lexemes:
  "\<lbrakk>list_all lexeme_ok ls; b = [] \<or> b = '' ''; reads s p t (b @ written ls)\<rbrakk> \<Longrightarrow>
   (\<forall>l\<in>set ls. fst (token_of l) \<noteq> 0) \<longrightarrow>
   (\<exists>s'. scan_tokens s = Inr (map token_of ls, s') \<and> srcs s' = [])"
proof (induction ls arbitrary: s p t b)
  case Nil
  then obtain s' where "Scanner_token (s\<lparr>nexttoken := -1\<rparr>) = Inr (0, s')" "srcs s' = []"
    using token_end [of "s\<lparr>nexttoken := -1\<rparr>" p t b] by (auto simp: written_def)
  then show ?case by (simp add: scan_tokens.simps [of s])
next
  case (Cons l ls)
  obtain s1 where s1: "Scanner_token (s\<lparr>nexttoken := -1\<rparr>) = Inr (fst (token_of l), s1)"
      "reads s1 (p @ b @ spelling l) (snd (token_of l)) ('' '' @ written ls)"
    using token_lexeme [of l "s\<lparr>nexttoken := -1\<rparr>" p t b "written ls"] Cons.prems by (auto simp: written_def)
  have tx: "tx s1 = snd (token_of l)" using s1(2) by (simp add: reads_def)
  show ?case
  proof
    assume nz: "\<forall>l\<in>set (l # ls). fst (token_of l) \<noteq> 0"
    then obtain s' where "scan_tokens s1 = Inr (map token_of ls, s')" "srcs s' = []"
      using Cons.IH [OF _ _ s1(2)] Cons.prems(1) by auto
    then show "\<exists>s'. scan_tokens s = Inr (map token_of (l # ls), s') \<and> srcs s' = []"
      using s1(1) tx nz by (simp add: scan_tokens.simps [of s])
  qed
qed

lemma token_not_zero: "lexeme_ok l \<Longrightarrow> fst (token_of l) \<noteq> 0"
proof -
  have "list_all (\<lambda>(w, k). k \<noteq> 0) symbols" "list_all (\<lambda>(w, k). k \<noteq> 0) int_suffixes" by code_simp+
  then have "map_of symbols w = Some k \<Longrightarrow> k \<noteq> 0" "map_of int_suffixes w = Some k \<Longrightarrow> k \<noteq> 0" for w k
    by (auto simp: list_all_iff dest!: map_of_SomeD)
  then show "lexeme_ok l \<Longrightarrow> ?thesis" by (cases l) auto
qed

text \<open>A scanner that is cleared and gets a text.\<close>

definition scan_text :: "scanner \<Rightarrow> string \<Rightarrow> int \<Rightarrow> string option \<Rightarrow> scanner" where
  "scan_text s w l f =
     Scanner_push (Scanner_clear s) \<lparr>so_text = w, so_pos = 0, so_line = l, so_file = f\<rparr>"

lemma scan_written:
  assumes "list_all lexeme_ok ls" and "idstart s = None"
  shows "\<exists>s'. scan_tokens (scan_text s (written ls) l f) = Inr (map token_of ls, s') \<and> srcs s' = []"
proof -
  have "reads (scan_text s (written ls) l f) [] [] ([] @ written ls)"
    using assms(2) by (simp add: reads_def scan_text_def Scanner_push_def Scanner_clear_def clear_tx_def)
  moreover have "\<forall>l\<in>set ls. fst (token_of l) \<noteq> 0" using assms(1) token_not_zero by (auto simp: list_all_iff)
  ultimately show ?thesis using scan_lexemes [OF assms(1)] by blast
qed

text \<open>
  C28. The scanner reads back what is written with a blank after each token: every symbol, name,
  integer with its suffix, floating point number and string (escaped by \<open>Swig_string_escape\<close>) gives its
  token with its text, in order, and then the end of the input. For a cleared scanner in any state,
  any length of the text, and strings in which no character that is escaped in octal is followed
  by a digit.
\<close>

theorem scanner_reads_tokens:
  assumes "list_all lexeme_ok ls" and "idstart s = None"
  shows "\<exists>s'. scan_tokens (scan_text s (written ls) l f) = Inr (map token_of ls, s') \<and> srcs s' = []"
  using scan_written [OF assms] .

theorem scanner_reads_tokens_witness:
  "\<exists>s'. scan_tokens (scan_text NewScanner
      (written [Name ''x'', Symbol ''->*'', Integer ''0x1F'' ''UL'', Floating ''1'' ''5'' ''e-3'', Symbol ''/'',
        Quoted [CHR ''a'', CHR 0x0A, CHR 0x01, CHR 0x22]]) 1 None)
    = Inr ([(15, ''x''), (136, ''->*''), (21, ''0x1FUL''), (17, ''1.5e-3''), (119, ''/''),
        (10, [CHR ''a'', CHR 0x0A, CHR 0x01, CHR 0x22])], s') \<and> srcs s' = []"
proof -
  have ok: "list_all lexeme_ok [Name ''x'', Symbol ''->*'', Integer ''0x1F'' ''UL'', Floating ''1'' ''5'' ''e-3'', Symbol ''/'',
        Quoted [CHR ''a'', CHR 0x0A, CHR 0x01, CHR 0x22]]" by code_simp
  have "map token_of [Name ''x'', Symbol ''->*'', Integer ''0x1F'' ''UL'', Floating ''1'' ''5'' ''e-3'', Symbol ''/'',
        Quoted [CHR ''a'', CHR 0x0A, CHR 0x01, CHR 0x22]]
      = [(15, ''x''), (136, ''->*''), (21, ''0x1FUL''), (17, ''1.5e-3''), (119, ''/''),
        (10, [CHR ''a'', CHR 0x0A, CHR 0x01, CHR 0x22])]" by code_simp
  then show ?thesis using scanner_reads_tokens [OF ok, of NewScanner 1 None] by (simp add: NewScanner_def)
qed

section \<open>Skipping balanced code\<close>

text \<open>
  Code in brackets \<open>l\<close> and \<open>r\<close>, as pieces: plain characters, a division sign with the character after
  it, comments, strings and character constants with their escapes, and groups in brackets.
\<close>

datatype piece =
    Plain char
  | Slash char
  | Line_comment string
  | Block_comment string
  | Str_const "string list"
  | Char_const "string list"
  | Group "piece list"

fun no_star_slash :: "string \<Rightarrow> bool" where
  "no_star_slash (a # b # s) \<longleftrightarrow> \<not> (a = CHR ''*'' \<and> b = CHR ''/'') \<and> no_star_slash (b # s)"
| "no_star_slash _ = True"

text \<open>A character of a literal, or a backslash with any character.\<close>

definition literal_ok :: "char \<Rightarrow> string \<Rightarrow> bool" where
  "literal_ok q w = (case w of [c] \<Rightarrow> c \<notin> {q, CHR 0x5C, EOS} | [b, c] \<Rightarrow> b = CHR 0x5C \<and> c \<noteq> EOS | _ \<Rightarrow> False)"

fun piece_ok :: "char \<Rightarrow> char \<Rightarrow> piece \<Rightarrow> bool" where
  "piece_ok l r (Plain c) = (c \<notin> {l, r, CHR ''/'', CHR 0x22, CHR 0x27, EOS})"
| "piece_ok l r (Slash c) = (c \<notin> {l, r, CHR ''/'', CHR ''*'', CHR 0x22, CHR 0x27, EOS})"
| "piece_ok l r (Line_comment s) = (LF \<notin> set s \<and> EOS \<notin> set s)"
| "piece_ok l r (Block_comment s) = (no_star_slash (s @ ''*'') \<and> EOS \<notin> set s)"
| "piece_ok l r (Str_const ws) = list_all (literal_ok (CHR 0x22)) ws"
| "piece_ok l r (Char_const ws) = list_all (literal_ok (CHR 0x27)) ws"
| "piece_ok l r (Group ps) = list_all (piece_ok l r) ps"

fun piece_text :: "char \<Rightarrow> char \<Rightarrow> piece \<Rightarrow> string" where
  "piece_text l r (Plain c) = [c]"
| "piece_text l r (Slash c) = [CHR ''/'', c]"
| "piece_text l r (Line_comment s) = ''//'' @ s @ [LF]"
| "piece_text l r (Block_comment s) = ''/*'' @ s @ ''*/''"
| "piece_text l r (Str_const ws) = CHR 0x22 # concat ws @ [CHR 0x22]"
| "piece_text l r (Char_const ws) = CHR 0x27 # concat ws @ [CHR 0x27]"
| "piece_text l r (Group ps) = l # concat (map (piece_text l r) ps) @ [r]"

text \<open>The brackets are none of the characters that start or end the other pieces.\<close>

definition brackets_ok :: "char \<Rightarrow> char \<Rightarrow> bool" where
  "brackets_ok l r \<longleftrightarrow> l \<noteq> r \<and> {l, r} \<inter> {CHR ''/'', CHR 0x22, CHR 0x27, EOS} = {}"

text \<open>A run over characters: the level and the state it ends with.\<close>

fun skip_run :: "char \<Rightarrow> char \<Rightarrow> nat \<Rightarrow> nat \<Rightarrow> string \<Rightarrow> (nat \<times> nat) option" where
  "skip_run l r n st [] = Some (n, st)"
| "skip_run l r n st (c # w) =
     (if n = 0 \<or> c = EOS then None else skip_run l r (skip_level l r st c n) (skip_state l r st c) w)"

lemma skip_run_append:
  "skip_run l r n st w = Some (m, st') \<Longrightarrow> skip_run l r n st (w @ v) = skip_run l r m st' v"
  by (induction l r n st w rule: skip_run.induct) (auto split: if_splits)

lemma skip_loop_run:
  "\<lbrakk>skip_run l r n st w = Some (m, st'); reads s p t (w @ v)\<rbrakk> \<Longrightarrow>
   \<exists>s'. skip_loop l r n st s = skip_loop l r m st' s' \<and> reads s' (p @ w) (t @ w) v"
proof (induction l r n st w arbitrary: s p t rule: skip_run.induct)
  case (2 l r n st c w)
  have n: "n \<noteq> 0" "c \<noteq> EOS" "skip_run l r (skip_level l r st c n) (skip_state l r st c) w = Some (m, st')"
    using 2(2) by (auto split: if_splits)
  obtain s1 where s1: "nextchar s = (c, s1)" "reads s1 (p @ [c]) (t @ [c]) (w @ v)"
    using nextchar_reads [of s p t c "w @ v"] 2(3) by auto
  have "skip_loop l r n st s = skip_loop l r (skip_level l r st c n) (skip_state l r st c) s1"
    using n s1(1) by (simp add: skip_loop.simps [of l r n st s])
  then show ?case using 2(1) [OF _ n(3) s1(2)] n by auto
qed (auto simp: append_assoc)

text \<open>Inside of a piece the level does not change.\<close>

lemma skip_stay:
  assumes "\<And>c. c \<in> set w \<Longrightarrow> skip_state l r st c = st \<and> c \<noteq> EOS" and "st \<noteq> 0" and "0 < n"
  shows "skip_run l r n st w = Some (n, st)"
  using assms(1) by (induction w) (simp_all add: skip_level_def assms(2,3))

lemma skip_block:
  "\<lbrakk>no_star_slash (s @ ''*''); EOS \<notin> set s; 0 < n\<rbrakk> \<Longrightarrow>
   skip_run l r n 12 (s @ ''*'') = Some (n, 13) \<and>
   (s = [] \<or> hd s \<noteq> CHR ''/'' \<longrightarrow> skip_run l r n 13 (s @ ''*'') = Some (n, 13))"
proof (induction s)
  case Nil
  then show ?case by (simp add: skip_level_def skip_state_def)
next
  case (Cons c s)
  have IH: "skip_run l r n 12 (s @ ''*'') = Some (n, 13)"
      "s = [] \<or> hd s \<noteq> CHR ''/'' \<Longrightarrow> skip_run l r n 13 (s @ ''*'') = Some (n, 13)"
    using Cons by (cases s; auto)+
  have ce: "c \<noteq> EOS" using Cons.prems(2) by auto
  have star: "c = CHR ''*'' \<Longrightarrow> s = [] \<or> hd s \<noteq> CHR ''/''" using Cons.prems(1) by (cases s) auto
  show ?case
  proof (cases "c = CHR ''*''")
    case True
    then show ?thesis using IH(2) [OF star] Cons.prems(3) by (simp add: skip_level_def skip_state_def)
  next
    case False
    then show ?thesis using IH(1) ce Cons.prems(3) by (simp add: skip_level_def skip_state_def)
  qed
qed

lemma skip_quote:
  assumes "q = CHR 0x22 \<and> st = 20 \<or> q = CHR 0x27 \<and> st = 30" and "0 < n"
  shows "skip_run l r n st [q] = Some (n, 0)"
    and "c \<notin> {q, CHR 0x5C, EOS} \<Longrightarrow> skip_run l r n st [c] = Some (n, st)"
    and "c \<noteq> EOS \<Longrightarrow> skip_run l r n st [CHR 0x5C, c] = Some (n, st)"
  using assms by (elim disjE conjE; simp add: skip_level_def skip_state_def)+

lemma skip_literals:
  assumes "q = CHR 0x22 \<and> st = 20 \<or> q = CHR 0x27 \<and> st = 30" and "0 < n"
  shows "list_all (literal_ok q) ws \<Longrightarrow> skip_run l r n st (concat ws @ [q]) = Some (n, 0)"
proof (induction ws)
  case Nil
  then show ?case using skip_quote(1) [OF assms] by simp
next
  case (Cons w ws)
  then have IH: "skip_run l r n st (concat ws @ [q]) = Some (n, 0)" by simp
  obtain c where "w = [c] \<and> c \<notin> {q, CHR 0x5C, EOS} \<or> w = [CHR 0x5C, c] \<and> c \<noteq> EOS"
    using Cons.prems by (auto simp: literal_ok_def split: list.splits)
  then have "skip_run l r n st w = Some (n, st)"
    using skip_quote(2,3) [OF assms] by blast
  then show ?case using skip_run_append IH by simp
qed

lemma skip_step:
  assumes "0 < n" and "c \<noteq> EOS"
  shows "skip_run l r n st (c # w) = skip_run l r (skip_level l r st c n) (skip_state l r st c) w"
  using assms by simp

lemma skip_open:
  assumes "brackets_ok l r"
  shows "skip_state l r 0 l = 0" "skip_level l r 0 l n = n + 1" "skip_state l r 0 r = 0" "skip_level l r 0 r n = n - 1"
    "l \<noteq> EOS" "r \<noteq> EOS"
  using assms by (auto simp: brackets_ok_def skip_state_def skip_level_def)

lemma skip_enter:
  assumes "brackets_ok l r" and "c \<in> {CHR ''/'', CHR 0x22, CHR 0x27}"
  shows "skip_level l r 0 c n = n" and "skip_state l r 0 c = (if c = CHR ''/'' then 10 else if c = CHR 0x22 then 20 else 30)"
proof -
  have "c \<noteq> l" "c \<noteq> r" using assms by (auto simp: brackets_ok_def)
  then show "skip_level l r 0 c n = n" "skip_state l r 0 c = (if c = CHR ''/'' then 10 else if c = CHR 0x22 then 20 else 30)"
    using assms(2) by (auto simp: skip_level_def skip_state_def)
qed

lemma skip_inside [simp]: "st \<noteq> 0 \<Longrightarrow> skip_level l r st c n = n"
  by (simp add: skip_level_def)

lemma skip_comment_states:
  "skip_state l r 10 (CHR ''/'') = 11" "skip_state l r 10 (CHR ''*'') = 12" "skip_state l r 11 LF = 0"
  "skip_state l r 13 (CHR ''/'') = 0" "c \<noteq> LF \<Longrightarrow> skip_state l r 11 c = 11"
  "c \<noteq> CHR ''/'' \<Longrightarrow> c \<noteq> CHR ''*'' \<Longrightarrow> skip_state l r 10 c = 0"
  by (simp_all add: skip_state_def)

lemma skip_line_comment:
  assumes "LF \<notin> set s" and "EOS \<notin> set s" and "0 < n"
  shows "skip_run l r n 11 (s @ [LF]) = Some (n, 0)"
proof -
  have "skip_run l r n 11 s = Some (n, 11)"
  proof (rule skip_stay)
    fix c assume "c \<in> set s"
    then have "c \<noteq> LF" "c \<noteq> EOS" using assms(1,2) by blast+
    then show "skip_state l r 11 c = 11 \<and> c \<noteq> EOS" by (simp add: skip_comment_states)
  qed (simp_all add: assms(3))
  then show ?thesis using skip_run_append [of l r n 11 s n 11 "[LF]"] assms(3) by (simp add: skip_comment_states)
qed

lemma skip_piece:
  assumes "brackets_ok l r"
  shows "piece_ok l r x \<Longrightarrow> 0 < n \<Longrightarrow> skip_run l r n 0 (piece_text l r x) = Some (n, 0)"
proof (induction x arbitrary: n)
  case (Plain c)
  then show ?case by (simp add: skip_level_def skip_state_def)
next
  case (Slash c)
  then show ?case using skip_enter [OF assms, of "CHR ''/''"] by (simp add: skip_comment_states)
next
  case (Line_comment s)
  then show ?case using skip_enter [OF assms, of "CHR ''/''"] skip_line_comment [of s n l r]
    by (simp add: skip_comment_states)
next
  case (Block_comment s)
  then have "skip_run l r n 12 (s @ ''*'') = Some (n, 13)" using skip_block [of s n l r] by simp
  from skip_run_append [OF this, of "''/''"] show ?case
    using Block_comment skip_enter [OF assms, of "CHR ''/''"] by (simp add: skip_comment_states)
next
  case (Str_const ws)
  then show ?case using skip_enter [OF assms, of "CHR 0x22"] skip_literals [of "CHR 0x22" 20 n ws l r] by simp
next
  case (Char_const ws)
  then show ?case using skip_enter [OF assms, of "CHR 0x27"] skip_literals [of "CHR 0x27" 30 n ws l r] by simp
next
  case (Group ps)
  have "skip_run l r (Suc n) 0 (concat (map (piece_text l r) ps)) = Some (Suc n, 0)"
    using Group by (induction ps) (auto simp: skip_run_append)
  from skip_run_append [OF this, of "[r]"] show ?case
    using Group.prems(2) skip_open [OF assms] by simp
qed

lemma skip_pieces:
  assumes "brackets_ok l r" and "list_all (piece_ok l r) ps"
  shows "skip_run l r 1 0 (concat (map (piece_text l r) ps) @ [r]) = Some (0, 0)"
proof -
  have "skip_run l r 1 0 (concat (map (piece_text l r) ps)) = Some (1, 0)"
    using assms(2) by (induction ps) (auto simp: skip_run_append skip_piece [OF assms(1)])
  from skip_run_append [OF this, of "[r]"] show ?thesis using skip_open [OF assms(1)] by simp
qed

text \<open>
  C29. \<open>Scanner_skip_balanced\<close>, called after an opening bracket, takes the code up to the bracket that
  closes it: for code of any nesting, in which brackets inside of comments, strings and character
  constants do not count, it returns 0 with the code as the text and the scanner right after the
  closing bracket; when the text ends before that bracket, it returns -1.
\<close>

theorem skip_balanced_takes_group:
  assumes "brackets_ok l r" and "list_all (piece_ok l r) ps"
  shows "(reads s p t (concat (map (piece_text l r) ps) @ r # v) \<longrightarrow>
      (\<exists>s'. Scanner_skip_balanced s l r = (0, s') \<and>
        reads s' (p @ concat (map (piece_text l r) ps) @ [r]) (piece_text l r (Group ps)) v)) \<and>
    (reads s p t (concat (map (piece_text l r) ps)) \<longrightarrow> fst (Scanner_skip_balanced s l r) = -1)"
proof (intro conjI impI)
  define body where "body = concat (map (piece_text l r) ps)"
  define s0 where "s0 = app_tx [l] (start_skip s)"
  have s0: "reads s0 p [l] w" if "reads s p t w" for w
    using that app_reads [OF clear_reads [OF that], of "[l]"] by (simp add: reads_def s0_def start_skip_def app_tx_def)
  show "\<exists>s'. Scanner_skip_balanced s l r = (0, s') \<and>
        reads s' (p @ concat (map (piece_text l r) ps) @ [r]) (piece_text l r (Group ps)) v"
    if "reads s p t (concat (map (piece_text l r) ps) @ r # v)"
  proof -
    have "reads s0 p [l] ((body @ [r]) @ v)" using s0 [OF that] by (simp add: body_def)
    with skip_loop_run [OF skip_pieces [OF assms, folded body_def]]
    obtain s' where "skip_loop l r 1 0 s0 = skip_loop l r 0 0 s'" "reads s' (p @ body @ [r]) ([l] @ body @ [r]) v"
      by blast
    then show ?thesis
      by (simp add: Scanner_skip_balanced_def s0_def [symmetric] skip_loop.simps [of l r 0] body_def)
  qed
  show "fst (Scanner_skip_balanced s l r) = -1" if "reads s p t (concat (map (piece_text l r) ps))"
  proof -
    have run: "skip_run l r 1 0 body = Some (1, 0)"
      unfolding body_def using assms(2) by (induction ps) (auto simp: skip_run_append skip_piece [OF assms(1)])
    have "reads s0 p [l] (body @ [])" using s0 [OF that] by (simp add: body_def)
    with skip_loop_run [OF run]
    obtain s' where s': "skip_loop l r 1 0 s0 = skip_loop l r 1 0 s'" "reads s' (p @ body) ([l] @ body) []" by blast
    have "skip_loop l r 1 0 s' = (-1, s'\<lparr>srcs := []\<rparr>)"
      by (simp add: skip_loop.simps [of l r _ _ s'] nextchar_end [OF s'(2)])
    then show ?thesis using s'(1) by (simp add: Scanner_skip_balanced_def s0_def)
  qed
qed

theorem skip_balanced_takes_group_witness:
  "(\<exists>s'. Scanner_skip_balanced (scan_text NewScanner ''a{b/*c}d*/}}rest'' 1 None) (CHR ''{'') (CHR ''}'') = (0, s') \<and>
      reads s' ''a{b/*c}d*/}}'' ''{a{b/*c}d*/}}'' ''rest'') \<and>
   fst (Scanner_skip_balanced (scan_text NewScanner ''a{b/*c}d*/}'' 1 None) (CHR ''{'') (CHR ''}'')) = -1"
proof -
  define ps where "ps = [Plain (CHR ''a''), Group [Plain (CHR ''b''), Block_comment ''c}d'']]"
  have ok: "brackets_ok (CHR ''{'') (CHR ''}'')" "list_all (piece_ok (CHR ''{'') (CHR ''}'')) ps"
    by (simp add: brackets_ok_def) (simp add: ps_def)
  have body: "concat (map (piece_text (CHR ''{'') (CHR ''}'')) ps) = ''a{b/*c}d*/}''" by (simp add: ps_def)
  have reads: "reads (scan_text NewScanner w 1 None) [] [] w" for w
    by (simp add: reads_def scan_text_def Scanner_push_def Scanner_clear_def clear_tx_def NewScanner_def)
  show ?thesis
    using skip_balanced_takes_group [OF ok, of "scan_text NewScanner ''a{b/*c}d*/}}rest'' 1 None" "[]" "[]" "''rest''"]
      skip_balanced_takes_group [OF ok, of "scan_text NewScanner ''a{b/*c}d*/}'' 1 None" "[]" "[]"]
      reads [of "''a{b/*c}d*/}}rest''"] reads [of "''a{b/*c}d*/}''"]
    by (simp add: body)
qed

section \<open>Lines and positions\<close>

text \<open>
  For a scanner that reads one string: its line counter is the one of the string, and the position is
  not past the end, as long as line counting is not suspended.
\<close>

definition scan_inv :: "scanner \<Rightarrow> bool" where
  "scan_inv s \<longleftrightarrow> \<not> freeze_line s \<and>
     (case srcs s of [] \<Rightarrow> True | [x] \<Rightarrow> so_pos x \<le> length (so_text x) \<and> line s = so_line x | _ \<Rightarrow> False)"

text \<open>
  The last \<open>n\<close> characters of the text can be given back: they are there, the last one is the one read
  last, and none of the others ends a line.
\<close>

definition can_retract :: "nat \<Rightarrow> scanner \<Rightarrow> bool" where
  "can_retract n s \<longleftrightarrow> n \<le> length (tx s) \<and>
     (case srcs s of
        [] \<Rightarrow> True
      | x # _ \<Rightarrow> n \<le> so_pos x \<and>
          (0 < n \<longrightarrow> so_text x ! (so_pos x - 1) = last (tx s)) \<and>
          (1 < n \<longrightarrow> so_text x ! (so_pos x - 2) \<noteq> LF))"

text \<open>The same before a character is read: the one in front of the position does not end a line.\<close>

definition ready :: "nat \<Rightarrow> scanner \<Rightarrow> bool" where
  "ready n s \<longleftrightarrow> n \<le> length (tx s) \<and>
     (0 < n \<longrightarrow> (case srcs s of [] \<Rightarrow> True | x # _ \<Rightarrow> 0 < so_pos x \<and> so_text x ! (so_pos x - 1) \<noteq> LF))"

lemma scan_inv_updates [simp]:
  "scan_inv (put_tx c s) = scan_inv s" "scan_inv (app_tx d s) = scan_inv s" "scan_inv (cut_tx s) = scan_inv s"
  "scan_inv (clear_tx s) = scan_inv s" "scan_inv (mark_tx s) = scan_inv s" "scan_inv (set_error s k m) = scan_inv s"
  "scan_inv (s\<lparr>start_line := l\<rparr>) = scan_inv s" "scan_inv (s\<lparr>tx_line := l\<rparr>) = scan_inv s"
  "scan_inv (s\<lparr>tx_file := f\<rparr>) = scan_inv s" "scan_inv (s\<lparr>err := e\<rparr>) = scan_inv s" "scan_inv (s\<lparr>nexttoken := n\<rparr>) = scan_inv s"
  by (simp_all add: scan_inv_def put_tx_def app_tx_def cut_tx_def clear_tx_def mark_tx_def set_error_def split: list.split)

lemma scan_invE:
  assumes "scan_inv s"
  obtains "srcs s = []" "\<not> freeze_line s"
  | x where "srcs s = [x]" "so_pos x \<le> length (so_text x)" "line s = so_line x" "\<not> freeze_line s"
  using assms by (auto simp: scan_inv_def split: list.splits)

lemma nextchar_inv_all:
  assumes "nextchar s = (c, s')" and "scan_inv s"
  shows "scan_inv s' \<and> (c \<noteq> EOS \<longrightarrow> can_retract 1 s') \<and> (c \<noteq> EOS \<longrightarrow> ready 1 s \<longrightarrow> can_retract 2 s') \<and>
      (ready 1 s \<longrightarrow> can_retract 1 s') \<and> (c \<noteq> EOS \<longrightarrow> c \<noteq> LF \<longrightarrow> ready 1 s')"
  using assms(2)
proof (cases rule: scan_invE)
  case 1
  then show ?thesis
    using assms(1) by (auto simp: nextchar_def scan_inv_def can_retract_def ready_def)
next
  case (2 x)
  then show ?thesis
    using assms(1)
    by (auto simp: nextchar_def scan_inv_def can_retract_def ready_def put_tx_def Let_def nl_def split: if_splits)
qed

lemma nextchar_inv:
  assumes "nextchar s = (c, s')" and "scan_inv s"
  shows "scan_inv s'" and "c \<noteq> EOS \<Longrightarrow> can_retract 1 s'" and "c \<noteq> EOS \<Longrightarrow> ready 1 s \<Longrightarrow> can_retract 2 s'"
    and "ready 1 s \<Longrightarrow> can_retract 1 s'" and "c \<noteq> EOS \<Longrightarrow> c \<noteq> LF \<Longrightarrow> ready 1 s'"
  using nextchar_inv_all [OF assms] by simp_all

lemma retract_inv:
  assumes "scan_inv s" and "can_retract n s" and "n \<le> 2"
  shows "case retract s n of Inl f \<Rightarrow> f = Undefined | Inr s' \<Rightarrow> scan_inv s'"
  using assms(1)
proof (cases rule: scan_invE)
  case 1
  then show ?thesis using assms(1,2) by (cases n) (auto simp: retract_def seek_back_def can_retract_def)
next
  case (2 x)
  have nls1: "nls (take 1 (drop (k - 1) (take k w))) = nl (w ! (k - 1))" if "0 < k" "k \<le> length w" for k w
    using that by (cases k) (auto simp: nls_def nl_def take_Suc_conv_app_nth)
  consider "n = 0" | "n = 1" | "n = 2" using assms(3) by linarith
  then show ?thesis
  proof cases
    case 1
    then show ?thesis using assms(1) by (simp add: retract_def)
  next
    case n: 2
    then show ?thesis
      using 2 assms(2) nls1 [of "so_pos x" "so_text x"]
      by (auto simp: retract_def seek_back_def can_retract_def cut_tx_def scan_inv_def nl_def)
  next
    case n: 3
    then show ?thesis
      using 2 assms(2) nls1 [of "so_pos x" "so_text x"] nls1 [of "so_pos x - 1" "so_text x"]
      by (auto simp: retract_def seek_back_def can_retract_def cut_tx_def scan_inv_def nl_def numeral_2_eq_2)
  qed
qed

fun sound :: "scanner res \<Rightarrow> bool" where
  "sound (Inl f) = (f = Undefined)"
| "sound (Inr s) = scan_inv s"

lemma retract_sound: "scan_inv s \<Longrightarrow> can_retract n s \<Longrightarrow> n \<le> 2 \<Longrightarrow> sound (retract s n)"
  using retract_inv [of s n] by (cases "retract s n") auto

lemma escape_digits_sound: "scan_inv s \<Longrightarrow> sound (escape_digits k r s)"
proof (induction k r s rule: escape_digits.induct)
  case (1 k r s)
  obtain c s1 where n: "nextchar s = (c, s1)" by fastforce
  note inv = nextchar_inv(1,2) [OF n 1(2)]
  show ?case
  proof (cases "c = EOS \<or> \<not> digit_in k c")
    case True
    then show ?thesis using inv retract_sound [of s1 1]
      by (cases "retract s1 1") (auto simp: escape_digits.simps [of k r s] n)
  next
    case False
    then show ?thesis
      using inv(1) 1(1) [OF n [symmetric], of r] 1(1) [OF n [symmetric]]
      by (auto simp: escape_digits.simps [of k r s] n shl_int_def)
  qed
qed

lemma get_escape_sound:
  assumes "scan_inv s"
  shows "sound (get_escape s)"
proof -
  obtain c s1 where n: "nextchar s = (c, s1)" by fastforce
  show ?thesis
    using nextchar_inv(1) [OF n assms] escape_digits_sound [of "cut_tx s1"]
    by (auto simp: get_escape_def n split: option.split)
qed

text \<open>What a state relies on, and what its steps keep.\<close>

definition state_inv :: "nat \<Rightarrow> scanner \<Rightarrow> bool" where
  "state_inv st s \<longleftrightarrow> scan_inv s \<and> (st = 82 \<or> st = 820 \<longrightarrow> ready 1 s)"

fun step_sound :: "step res \<Rightarrow> bool" where
  "step_sound (Inl f) = (f = Undefined)"
| "step_sound (Inr (Next st s)) = state_inv st s"
| "step_sound (Inr (Token t s)) = scan_inv s"

lemma state_inv_plain: "st \<noteq> 82 \<Longrightarrow> st \<noteq> 820 \<Longrightarrow> state_inv st s = scan_inv s"
  by (simp add: state_inv_def)

lemma perform_sound:
  assumes "scan_inv s"
    and "case a of Goto st \<Rightarrow> st = 82 \<or> st = 820 \<longrightarrow> ready 1 s | Back n t \<Rightarrow> can_retract n s \<and> n \<le> 2 | _ \<Rightarrow> True"
  shows "step_sound (perform a s)"
proof (cases a)
  case (Back n t)
  then show ?thesis using retract_sound [of s n] assms by (cases "retract s n") (auto simp: perform_def)
qed (use assms in \<open>auto simp: perform_def state_inv_def\<close>)

lemma number_act_sound:
  "case number_act st c of Goto st' \<Rightarrow> st' = 82 \<or> st' = 820 \<longrightarrow> c = CHR ''e'' \<or> c = CHR ''E''
   | Back n t \<Rightarrow> n = 1 \<or> n = 2 \<and> (st = 82 \<or> st = 820) | _ \<Rightarrow> True"
  by (simp add: number_act_def Let_def split: if_split)

lemma back_sound:
  assumes "nextchar s = (c, s1)" and "scan_inv s" and "c \<noteq> EOS"
  shows "step_sound (perform (Back 1 t) s1)"
  using nextchar_inv(1,2) [OF assms(1,2)] assms(3) by (intro perform_sound) simp_all

lemma string_step_sound: "scan_inv s \<Longrightarrow> st = 2 \<or> st = 9 \<or> st = 900 \<Longrightarrow> step_sound (string_step st s)"
proof -
  assume s: "scan_inv s" "st = 2 \<or> st = 9 \<or> st = 900"
  obtain c s1 where n: "nextchar s = (c, s1)" by fastforce
  note inv = nextchar_inv(1) [OF n s(1)]
  have "st \<noteq> 82" "st \<noteq> 820" using s(2) by auto
  then show ?thesis using inv get_escape_sound [of "cut_tx s1"]
    by (cases "get_escape (cut_tx s1)") (simp_all add: string_step_def n state_inv_plain)
qed

lemma block_step_sound: "scan_inv s \<Longrightarrow> step_sound (block_step st s)"
proof -
  assume s: "scan_inv s"
  obtain c s1 where n: "nextchar s = (c, s1)" by fastforce
  show ?thesis using nextchar_inv(1) [OF n s] back_sound [OF n s, of 120]
    by (simp add: block_step_def n state_inv_plain Let_def)
qed

lemma comment_step_sound: "scan_inv s \<Longrightarrow> step_sound (comment_step st s)"
proof -
  assume s: "scan_inv s"
  obtain c s1 where n: "nextchar s = (c, s1)" by fastforce
  show ?thesis using nextchar_inv(1) [OF n s] back_sound [OF n s, of 119] back_sound [OF n s, of 31]
    by (simp add: comment_step_def n state_inv_plain)
qed

lemma name_step_sound: "scan_inv s \<Longrightarrow> step_sound (name_step st s)"
proof -
  assume s: "scan_inv s"
  obtain c s1 where n: "nextchar s = (c, s1)" by fastforce
  have "step_sound (rbind (retract s1 1) (\<lambda>s2. Inr (Token (f s2) s2)))" if "c \<noteq> EOS" for f
    using retract_sound [of s1 1] nextchar_inv(1,2) [OF n s] that by (cases "retract s1 1") auto
  then show ?thesis using nextchar_inv(1) [OF n s] back_sound [OF n s, of 15]
    by (simp add: name_step_def n state_inv_plain)
qed

lemma blank_step_sound: "scan_inv s \<Longrightarrow> step_sound (blank_step s)"
proof -
  assume s: "scan_inv s"
  obtain c s1 where n: "nextchar s = (c, s1)" by fastforce
  have "step_sound (rbind (retract s1 1) (\<lambda>s2. Inr (Next 1000 ((clear_tx s2)\<lparr>tx_line := line s2, tx_file := cur_file s2\<rparr>))))"
    if "c \<noteq> EOS"
    using retract_sound [of s1 1] nextchar_inv(1,2) [OF n s] that by (cases "retract s1 1") (auto simp: state_inv_plain)
  then show ?thesis using nextchar_inv(1) [OF n s] by (simp add: blank_step_def n state_inv_plain)
qed

lemma first_step_sound: "scan_inv s \<Longrightarrow> step_sound (first_step s)"
proof -
  assume s: "scan_inv s"
  obtain c s1 where n: "nextchar s = (c, s1)" by fastforce
  have "list_all (\<lambda>(c, a). case a of Goto st \<Rightarrow> st \<noteq> 82 \<and> st \<noteq> 820 | Back n t \<Rightarrow> False | _ \<Rightarrow> True) first_acts"
    by code_simp
  then have "step_sound (perform a s1)" if "map_of first_acts c = Some a" for a
    using that nextchar_inv(1) [OF n s]
    by (intro perform_sound) (auto simp: list_all_iff dest!: map_of_SomeD split: act.splits)
  then show ?thesis using nextchar_inv(1) [OF n s] by (simp add: first_step_def n state_inv_plain split: option.split)
qed

lemma look_step_sound:
  assumes "state_inv st s"
  shows "step_sound (look_step st s)"
proof -
  obtain c s1 where n: "nextchar s = (c, s1)" by fastforce
  have s: "scan_inv s" using assms by (simp add: state_inv_def)
  note inv = nextchar_inv [OF n s]
  have op: "step_sound (perform (if c = EOS then Ret t else operator_act st t c) s1)" if "operator_end st = Some t" for t
  proof -
    have "\<forall>a. map_of (operator_goes st) c = Some a \<longrightarrow>
        (case a of Goto st' \<Rightarrow> st' \<noteq> 82 \<and> st' \<noteq> 820 | Back n t \<Rightarrow> False | _ \<Rightarrow> True)"
      by (auto simp: operator_goes_def split: option.splits if_splits)
    then show ?thesis using inv(1,2)
      by (intro perform_sound) (auto simp: operator_act_def split: option.splits act.splits)
  qed
  have num: "step_sound (perform (if c = EOS then a else number_act st c) s1)" if a: "number_end st = Some a" for a
  proof (cases "c = EOS")
    case True
    have "case a of Back n t \<Rightarrow> n = 1 \<and> (st = 82 \<or> st = 820) | Goto _ \<Rightarrow> False | _ \<Rightarrow> True"
      using a by (auto simp: number_end_def split: if_splits)
    then show ?thesis using True inv(1,4) assms
      by (intro perform_sound) (auto simp: state_inv_def split: act.splits)
  next
    case False
    then show ?thesis using inv assms number_act_sound [where st = st and c = c]
      by (intro perform_sound) (auto simp: state_inv_def split: act.splits)
  qed
  show ?thesis
    using op num s blank_step_sound first_step_sound comment_step_sound string_step_sound block_step_sound name_step_sound
    unfolding look_step_def n by (simp split: option.split)
qed

lemma look_loop_sound:
  "state_inv st s \<Longrightarrow> (case look_loop st s of Inl f \<Rightarrow> f = Undefined | Inr (t, s') \<Rightarrow> scan_inv s')"
proof (induction st s rule: look_loop.induct)
  case (1 st s)
  note p = look_step_sound [OF 1(2)]
  show ?case
  proof (cases "look_step st s")
    case (Inr out)
    then show ?thesis using 1(1) [OF Inr] p by (cases out) (auto simp: look_loop.simps [of st s])
  qed (use p in \<open>simp add: look_loop.simps [of st s]\<close>)
qed

lemma Scanner_token_sound:
  assumes "scan_inv s"
  shows "case Scanner_token s of Inl f \<Rightarrow> f = Undefined | Inr (t, s') \<Rightarrow> scan_inv s'"
proof -
  define s0 where "s0 = (clear_tx (s\<lparr>err := None, start_line := 0\<rparr>))\<lparr>start_line := line s, tx_file := cur_file s\<rparr>"
  have "state_inv 0 s0" using assms by (simp add: state_inv_plain s0_def)
  moreover have "look (s\<lparr>err := None, start_line := 0\<rparr>) = look_loop 0 s0" by (simp add: look_def s0_def cur_file_def)
  ultimately show ?thesis
    using look_loop_sound [of 0 s0] assms
    by (cases "look_loop 0 s0") (auto simp: Scanner_token_def Let_def)
qed

lemma skip_line_inv: "scan_inv s \<Longrightarrow> scan_inv (skip_line_loop s)"
proof (induction s rule: skip_line_loop.induct)
  case (1 s)
  obtain c s1 where n: "nextchar s = (c, s1)" by fastforce
  obtain d s2 where n2: "nextchar s1 = (d, s2)" by fastforce
  have "scan_inv s1" "scan_inv s2" using nextchar_inv(1) [OF n 1(3)] nextchar_inv(1) [OF n2] by blast+
  then show ?case using 1(1,2) [OF n [symmetric]] by (simp add: skip_line_loop.simps [of s] n n2)
qed

lemma skip_loop_inv: "scan_inv s \<Longrightarrow> scan_inv (snd (skip_loop l r n st s))"
proof (induction l r n st s rule: skip_loop.induct)
  case (1 l r n st s)
  obtain c s1 where n: "nextchar s = (c, s1)" by fastforce
  show ?case using 1(1) [OF _ n [symmetric]] 1(2) nextchar_inv(1) [OF n 1(2)]
    by (simp add: skip_loop.simps [of l r n st s] n)
qed

text \<open>
  C30. While the scanner reads one string, \<open>Scanner_token\<close> and the functions that skip keep its line
  counter equal to the one of the string, and its position inside of it, whatever the text: through
  comments, strings, escapes, and the characters that are given back. A token that is not 0 consumes
  a character, so that the tokens come to an end. No assertion fails; the only fault is what C leaves
  undefined (giving back at the end of the input, overflow in an escape).
\<close>

theorem scanner_keeps_lines:
  assumes "scan_inv s"
  shows "(case Scanner_token s of
        Inl f \<Rightarrow> f = Undefined
      | Inr (t, s') \<Rightarrow> scan_inv s' \<and> (t \<noteq> 0 \<and> nexttoken s < 0 \<longrightarrow> remaining s' < remaining s)) \<and>
    scan_inv (Scanner_skip_line s) \<and> scan_inv (snd (Scanner_skip_balanced s l r)) \<and>
    scan_inv (scan_text s w k f)"
proof (intro conjI)
  show "case Scanner_token s of
        Inl f \<Rightarrow> f = Undefined
      | Inr (t, s') \<Rightarrow> scan_inv s' \<and> (t \<noteq> 0 \<and> nexttoken s < 0 \<longrightarrow> remaining s' < remaining s)"
    using Scanner_token_sound [OF assms] Scanner_token_progress [of s] by (auto split: sum.splits)
  show "scan_inv (Scanner_skip_line s)" "scan_inv (snd (Scanner_skip_balanced s l r))"
    using assms by (simp_all add: Scanner_skip_line_def Scanner_skip_balanced_def start_skip_def skip_line_inv skip_loop_inv)
  show "scan_inv (scan_text s w k f)"
    using assms by (simp add: scan_inv_def scan_text_def Scanner_push_def Scanner_clear_def clear_tx_def)
qed

theorem scanner_keeps_lines_witness:
  "case Scanner_token (scan_text NewScanner [CHR ''/'', CHR ''*'', LF, CHR ''*'', CHR ''/'', LF, CHR ''x''] 7 None) of
      Inl f \<Rightarrow> False
    | Inr (t, s') \<Rightarrow> scan_inv s' \<and> remaining s' < 7"
proof -
  define s where "s = scan_text NewScanner [CHR ''/'', CHR ''*'', LF, CHR ''*'', CHR ''/'', LF, CHR ''x''] 7 None"
  have inv: "scan_inv s" by (simp add: s_def scan_text_def scan_inv_def Scanner_push_def Scanner_clear_def clear_tx_def NewScanner_def)
  have run: "(case Scanner_token s of Inl f \<Rightarrow> False | Inr (t, s') \<Rightarrow> t = 31)" unfolding s_def by code_simp
  have rem: "remaining s = 7" "nexttoken s = -1" unfolding s_def by code_simp+
  show ?thesis
    using scanner_keeps_lines [OF inv, THEN conjunct1] run rem by (auto simp: s_def [symmetric] split: sum.splits)
qed

section \<open>Where the scanner is wrong\<close>

text \<open>The codes and texts of all tokens, for a text in a new scanner.\<close>

definition tokens_in :: "string \<Rightarrow> (int \<times> string) list res" where
  "tokens_in w = rbind (scan_tokens (scan_text NewScanner w 1 None)) (\<lambda>(ts, s). Inr ts)"

text \<open>A number that ends in e at the end of the input: the character is given back to no string.\<close>

lemma scan_exponent_at_end: "tokens_in ''1e'' = Inl Undefined"
  by code_simp

text \<open>A period or a slash at the end is lost, and a comment to the end of the last line is an error.\<close>

lemma scan_lost_at_end: "tokens_in ''a.'' = Inr [(15, ''a'')]" "tokens_in ''a/'' = Inr [(15, ''a'')]"
  "tokens_in ''a//b'' = Inr [(15, ''a''), (-1, ''//b'')]"
  by code_simp+

text \<open>A code block is not closed by a percent sign after another one.\<close>

lemma scan_block_percent: "rbind (tokens_in ''%{ a %%} b'') (\<lambda>ts. Inr (map fst ts)) = Inr [-1]"
  by code_simp

text \<open>A zero with an exponent, which is a floating point number, is an integer and a name.\<close>

lemma scan_zero_exponent: "tokens_in ''0e1'' = Inr [(18, ''0''), (15, ''e1'')]"
  by code_simp

text \<open>An octal escape takes more than three digits.\<close>

lemma scan_long_octal: "tokens_in [CHR 0x22, CHR 0x5C, CHR ''1'', CHR ''0'', CHR ''1'', CHR ''1'', CHR 0x22] = Inr [(10, [CHR 0x09])]"
  by code_simp

text \<open>\<open>Scanner_skip_balanced\<close> does not look at the character after a slash: the bracket in \<open>1/(2)\<close> is not counted.\<close>

lemma skip_balanced_slash:
  "(case Scanner_skip_balanced (scan_text NewScanner ''1/(2))x)'' 1 None) (CHR ''('') (CHR '')'') of
     (k, s) \<Rightarrow> (k, tx s)) = (0, ''(1/(2)'')"
  by code_simp

text \<open>
  Characters that are given back after the end of an inner string move the outer one: the newline in
  front of \<open>;\<close> is read again, the \<open>e\<close> is lost, and the lines are no longer those of the string.
\<close>

lemma scan_retract_other_string:
  "(case Scanner_token (scan_text NewScanner [LF, CHR '';''] 1 None) of
      Inr (t, s) \<Rightarrow>
        (case Scanner_token (Scanner_push s \<lparr>so_text = ''1e'', so_pos = 0, so_line = 1, so_file = None\<rparr>) of
           Inr (u, s') \<Rightarrow> (case scan_tokens s' of Inr (ts, s'') \<Rightarrow> Some (t, u, map fst ts) | _ \<Rightarrow> None)
         | _ \<Rightarrow> None)
    | _ \<Rightarrow> None) = Some (9, 18, [9, 3])"
  by code_simp

end
