(* ===== verification/ExprEval.thy ===== *)
theory ExprEval
  imports SwigPrelude "HOL-Library.Word" "HOL-Library.Signed_Division"
begin

text \<open>
  The evaluator of preprocessor expressions, Source/Preprocessor/expr.c: a machine with a static
  stack of 256 cells, which keeps its contents from one expression to the next. A token is its code
  (Source/Swig/swigscan.h) with its text; the scanner delivers them, and their list ends where it
  returns 0. A \<open>long\<close> has 64 bits; where C leaves the result of an operation on it undefined
  (overflow, division by zero, wide shifts), the model stops with that fault.
\<close>

unbundle bit_operations_syntax

section \<open>Cells\<close>

datatype expr_op = EXPR_TOP | EXPR_VALUE | EXPR_OP | EXPR_GROUP

text \<open>A string pointer: NULL, to a string object, or to one that has been deleted.\<close>

datatype sval = No_str | Str string | Freed

record cell =
  c_op :: expr_op
  c_value :: int
  c_svalue :: sval

type_synonym etoken = "int \<times> string"

definition EXPR_UMINUS :: int where "EXPR_UMINUS = 100"

definition TOK_LPAREN :: int where "TOK_LPAREN = 1"
definition TOK_RPAREN :: int where "TOK_RPAREN = 2"
definition TOK_STRING :: int where "TOK_STRING = 10"
definition TOK_ID :: int where "TOK_ID = 15"
definition TOK_PLUS :: int where "TOK_PLUS = 106"
definition TOK_MINUS :: int where "TOK_MINUS = 107"
definition TOK_NOT :: int where "TOK_NOT = 117"
definition TOK_LNOT :: int where "TOK_LNOT = 118"

lemmas tok_defs = EXPR_UMINUS_def TOK_LPAREN_def TOK_RPAREN_def TOK_STRING_def TOK_ID_def
  TOK_PLUS_def TOK_MINUS_def TOK_NOT_def TOK_LNOT_def

text \<open>\<open>init_precedence\<close>; the other entries of the static table are 0.\<close>

definition prec_table :: "(int \<times> int) list" where
  "prec_table =
     [(117, 10), (100, 10), (102, 20), (119, 20), (120, 20), (106, 30), (107, 30), (121, 40), (122, 40),
      (108, 50), (112, 60), (110, 70), (104, 80), (105, 80), (113, 80), (114, 80), (115, 80), (116, 80),
      (118, 90), (109, 100), (111, 110)]"

definition prec :: "int \<Rightarrow> int" where
  "prec t = (case map_of prec_table t of Some p \<Rightarrow> p | None \<Rightarrow> 0)"

definition UNARY_OP :: "int \<Rightarrow> bool" where
  "UNARY_OP t \<longleftrightarrow> t = TOK_NOT \<or> t = TOK_LNOT \<or> t = EXPR_UMINUS"

definition binary_ops :: "int list" where
  "binary_ops = [102, 104, 105, 106, 107, 108, 109, 110, 111, 112, 113, 114, 115, 116, 119, 120, 121, 122]"

section \<open>Arithmetic\<close>

definition long_res :: "int \<Rightarrow> int res" where
  "long_res v = (if - (2 ^ 63) \<le> v \<and> v < 2 ^ 63 then Inr v else Inl Undefined)"

definition truth :: "bool \<Rightarrow> int" where
  "truth b = (if b then 1 else 0)"

text \<open>The operators on integers; \<open>None\<close> for a code that is none.\<close>

definition binary_value :: "int \<Rightarrow> int \<Rightarrow> int \<Rightarrow> int res option" where
  "binary_value t a b =
     (if t = 102 then Some (long_res (a * b))
      else if t = 104 then Some (Inr (truth (a = b)))
      else if t = 105 then Some (Inr (truth (a \<noteq> b)))
      else if t = 106 then Some (long_res (a + b))
      else if t = 107 then Some (long_res (a - b))
      else if t = 108 then Some (Inr (a AND b))
      else if t = 109 then Some (Inr (truth (a \<noteq> 0 \<and> b \<noteq> 0)))
      else if t = 110 then Some (Inr (a OR b))
      else if t = 111 then Some (Inr (truth (a \<noteq> 0 \<or> b \<noteq> 0)))
      else if t = 112 then Some (Inr (a XOR b))
      else if t = 113 then Some (Inr (truth (a < b)))
      else if t = 114 then Some (Inr (truth (a > b)))
      else if t = 115 then Some (Inr (truth (a \<le> b)))
      else if t = 116 then Some (Inr (truth (a \<ge> b)))
      else if t = 119 then Some (if b = 0 then Inl Undefined else long_res (a sdiv b))
      else if t = 120 then Some (if b = 0 \<or> (a = - (2 ^ 63) \<and> b = -1) then Inl Undefined else Inr (a smod b))
      else if t = 121 then Some (if b < 0 \<or> 64 \<le> b \<or> a < 0 then Inl Undefined else long_res (a * 2 ^ nat b))
      else if t = 122 then Some (if b < 0 \<or> 64 \<le> b then Inl Undefined else Inr (a div 2 ^ nat b))
      else None)"

definition unary_value :: "int \<Rightarrow> int \<Rightarrow> int res" where
  "unary_value t a =
     (if t = TOK_NOT then Inr (NOT a) else if t = TOK_LNOT then Inr (truth (a = 0)) else long_res (- a))"

text \<open>\<open>strtol(c, 0, 0)\<close> on the text of a number token, which has no sign and no blanks.\<close>

definition digit_value :: "char \<Rightarrow> nat option" where
  "digit_value c =
     (if isdigit c then Some (of_char c - 48)
      else if CHR ''a'' \<le> c \<and> c \<le> CHR ''f'' then Some (of_char c - 87)
      else if CHR ''A'' \<le> c \<and> c \<le> CHR ''F'' then Some (of_char c - 55)
      else None)"

fun read_digits :: "nat \<Rightarrow> nat \<Rightarrow> string \<Rightarrow> nat" where
  "read_digits b acc [] = acc"
| "read_digits b acc (c # s) =
     (case digit_value c of
        Some d \<Rightarrow> if d < b then read_digits b (acc * b + d) s else acc
      | None \<Rightarrow> acc)"

definition strtol0 :: "string \<Rightarrow> int" where
  "strtol0 s =
     (let v = (case s of
                 CHR ''0'' # x # d # r \<Rightarrow>
                   if (x = CHR ''x'' \<or> x = CHR ''X'') \<and> digit_value d \<noteq> None then read_digits 16 0 (d # r)
                   else read_digits 8 0 s
               | CHR ''0'' # r \<Rightarrow> read_digits 8 0 s
               | _ \<Rightarrow> read_digits 10 0 s)
      in min (int v) (2 ^ 63 - 1))"

section \<open>Reductions\<close>

definition STACK_SIZE :: nat where "STACK_SIZE = 256"

text \<open>A write to a cell; past the end of the array it is out of bounds.\<close>

definition put :: "cell list \<Rightarrow> nat \<Rightarrow> (cell \<Rightarrow> cell) \<Rightarrow> cell list res" where
  "put st i f = (if i < length st then Inr (st[i := f (st ! i)]) else Inl Out_of_bounds)"

text \<open>What can happen: an error message, with the stack as it is left, or a result.\<close>

datatype 'a outcome = Failed string "cell list" | Fine 'a

definition string_compare :: "cell list \<Rightarrow> nat \<Rightarrow> bool res" where
  "string_compare st sp =
     (case (c_svalue (st ! (sp - 2)), c_svalue (st ! sp)) of
        (Str a, Str b) \<Rightarrow> Inr (a = b)
      | _ \<Rightarrow> Inl Undefined)"

text \<open>What both branches end with: the cell at the new stack pointer is an integer value.\<close>

definition reduced :: "cell list \<Rightarrow> nat \<Rightarrow> int \<Rightarrow> (cell list \<times> nat) outcome res" where
  "reduced st i v =
     Inr (Fine (st[i := (st ! i)\<lparr>c_op := EXPR_VALUE, c_value := v, c_svalue := No_str\<rparr>], i))"

definition reduce_op :: "cell list \<Rightarrow> nat \<Rightarrow> (cell list \<times> nat) outcome res" where
  "reduce_op st sp =
     (let t = c_value (st ! (sp - 1))
      in if sp = 0 \<or> c_op (st ! (sp - 1)) \<noteq> EXPR_OP then Inl Assertion
         else if c_op (st ! sp) \<noteq> EXPR_VALUE then Inr (Failed ''Right-hand side is not value'' st)
         else if UNARY_OP t \<and> c_svalue (st ! sp) \<noteq> No_str
         then Inr (Failed ''Syntax error: attempt to apply unary operator to string'' st)
         else if \<not> UNARY_OP t \<and> sp = 1
         then Inr (Failed ''Missing left-hand side for binary operator'' st)
         else if \<not> UNARY_OP t \<and> (c_svalue (st ! (sp - 2)) = No_str) \<noteq> (c_svalue (st ! sp) = No_str)
         then Inr (Failed ''Can't mix strings and integers in expression'' st)
         else if c_svalue (st ! sp) \<noteq> No_str
         then (if t = 104 \<or> t = 105
               then rbind (string_compare st sp) (\<lambda>eq.
                    reduced (st[sp := (st ! sp)\<lparr>c_svalue := Freed\<rparr>]) (sp - 2) (truth (eq = (t = 104))))
               else Inr (Failed ''Syntax error: bad binary operator for strings'' st))
         else if UNARY_OP t
         then rbind (unary_value t (c_value (st ! sp))) (\<lambda>v. reduced st (sp - 1) v)
         else (case binary_value t (c_value (st ! (sp - 2))) (c_value (st ! sp)) of
                 Some r \<Rightarrow> rbind r (\<lambda>v. reduced st (sp - 2) v)
               | None \<Rightarrow> Inr (Failed ''Syntax error: bad operator'' st)))"

lemma reduce_op_decreases: "reduce_op st sp = Inr (Fine (st', sp')) \<Longrightarrow> sp' < sp \<and> length st' = length st"
  by (auto simp: reduce_op_def reduced_def Let_def UNARY_OP_def split: if_splits option.splits)

section \<open>The evaluator\<close>

text \<open>At the end of the input: \<open>while (sp > 0)\<close>, reduce.\<close>

function reduce_all :: "cell list \<Rightarrow> nat \<Rightarrow> (cell list \<times> int) outcome res" where
  "reduce_all st sp =
     (if sp = 0 then Inr (Fine (st, c_value (st ! 0)))
      else if c_op (st ! (sp - 1)) = EXPR_OP
      then (case reduce_op st sp of
              Inl f \<Rightarrow> Inl f
            | Inr (Failed m st') \<Rightarrow> Inr (Failed m st')
            | Inr (Fine (st', sp')) \<Rightarrow> reduce_all st' sp')
      else if c_op (st ! (sp - 1)) = EXPR_GROUP
      then Inr (Failed (''Missing '' @ [CHR 0x27, CHR '')'', CHR 0x27]) st)
      else Inr (Failed ''Syntax error'' st))"
  by pat_completeness auto
termination by (relation "measure snd") (auto dest: reduce_op_decreases)

text \<open>At a closing parenthesis: reduce the operators in front of it.\<close>

function reduce_group :: "cell list \<Rightarrow> nat \<Rightarrow> (cell list \<times> nat) outcome res" where
  "reduce_group st sp =
     (if 0 < sp \<and> c_op (st ! (sp - 1)) = EXPR_OP
      then (case reduce_op st sp of
              Inl f \<Rightarrow> Inl f
            | Inr (Failed m st') \<Rightarrow> Inr (Failed m st')
            | Inr (Fine (st', sp')) \<Rightarrow> reduce_group st' sp')
      else Inr (Fine (st, sp)))"
  by pat_completeness auto
termination by (relation "measure snd") (auto dest: reduce_op_decreases)

declare reduce_all.simps [simp del] reduce_group.simps [simp del]

definition push_op :: "cell list \<Rightarrow> nat \<Rightarrow> int \<Rightarrow> (cell list \<times> nat) outcome res" where
  "push_op st sp t =
     rbind (put st (sp + 1) (\<lambda>c. c\<lparr>c_op := EXPR_OP, c_value := t\<rparr>)) (\<lambda>st1.
     rbind (put st1 (sp + 2) (\<lambda>c. c\<lparr>c_op := EXPR_TOP, c_value := 0\<rparr>)) (\<lambda>st2.
     Inr (Fine (st2, sp + 2))))"

text \<open>A round of the loop when the top of the stack is \<open>EXPR_TOP\<close>.\<close>

definition top_step :: "cell list \<Rightarrow> nat \<Rightarrow> etoken \<Rightarrow> (cell list \<times> nat) outcome res" where
  "top_step st sp tok =
     (case tok of (t, x) \<Rightarrow>
        if t \<in> {18, 19, 20, 21}
        then Inr (Fine (st[sp := \<lparr>c_op = EXPR_VALUE, c_value = strtol0 x, c_svalue = No_str\<rparr>], sp))
        else if t = TOK_PLUS then Inr (Fine (st, sp))
        else if t \<in> {TOK_MINUS, TOK_LNOT, TOK_NOT}
        then rbind (put (st[sp := (st ! sp)\<lparr>c_op := EXPR_OP,
                        c_value := (if t = TOK_MINUS then EXPR_UMINUS else t)\<rparr>]) (sp + 1)
                     (\<lambda>c. c\<lparr>c_op := EXPR_TOP, c_svalue := No_str\<rparr>)) (\<lambda>st1. Inr (Fine (st1, sp + 1)))
        else if t = TOK_LPAREN
        then rbind (put (st[sp := (st ! sp)\<lparr>c_op := EXPR_GROUP\<rparr>]) (sp + 1)
                     (\<lambda>c. \<lparr>c_op = EXPR_TOP, c_value = 0, c_svalue = No_str\<rparr>)) (\<lambda>st1. Inr (Fine (st1, sp + 1)))
        else if t = TOK_STRING
        then Inr (Fine (st[sp := (st ! sp)\<lparr>c_op := EXPR_VALUE, c_svalue := Str x\<rparr>], sp))
        else if t = TOK_ID
        then Inr (Fine (st[sp := \<lparr>c_op = EXPR_VALUE, c_value = 0, c_svalue = No_str\<rparr>], sp))
        else Inr (Failed ''Syntax error'' st))"

definition extra_rparen :: string where
  "extra_rparen = ''Extra '' @ [CHR 0x27, CHR '')'', CHR 0x27]"

text \<open>A round of the loop when it is a value.\<close>

definition value_step :: "cell list \<Rightarrow> nat \<Rightarrow> etoken \<Rightarrow> (cell list \<times> nat) outcome res" where
  "value_step st sp tok =
     (case tok of (t, x) \<Rightarrow>
        if t \<in> set binary_ops
        then (if sp = 0 \<or> c_op (st ! (sp - 1)) = EXPR_GROUP then push_op st sp t
              else if c_op (st ! (sp - 1)) \<noteq> EXPR_OP
              then Inr (Failed ''Syntax error: expected operator'' st)
              else if prec (c_value (st ! (sp - 1))) \<le> prec t
              then (case reduce_op st sp of
                      Inl f \<Rightarrow> Inl f
                    | Inr (Failed m st') \<Rightarrow> Inr (Failed m st')
                    | Inr (Fine (st', sp')) \<Rightarrow> push_op st' sp' t)
              else push_op st sp t)
        else if t = TOK_RPAREN
        then (if sp = 0 then Inr (Failed extra_rparen st)
              else (case reduce_group st sp of
                      Inl f \<Rightarrow> Inl f
                    | Inr (Failed m st') \<Rightarrow> Inr (Failed m st')
                    | Inr (Fine (st', sp')) \<Rightarrow>
                        if sp' = 0 \<or> c_op (st' ! (sp' - 1)) \<noteq> EXPR_GROUP then Inr (Failed extra_rparen st')
                        else Inr (Fine (st'[sp' - 1 := (st' ! (sp' - 1))\<lparr>c_op := EXPR_VALUE,
                                              c_value := c_value (st' ! sp')\<rparr>], sp' - 1))))
        else Inr (Failed ''Syntax error: expected operator'' st))"

fun expr_run :: "cell list \<Rightarrow> nat \<Rightarrow> etoken list \<Rightarrow> (cell list \<times> int) outcome res" where
  "expr_run st sp [] =
     (if c_op (st ! sp) = EXPR_TOP then Inr (Failed ''Expected an expression'' st)
      else if c_op (st ! sp) = EXPR_VALUE then reduce_all st sp
      else Inl Aborts)"
| "expr_run st sp (tok # toks) =
     (case (if c_op (st ! sp) = EXPR_TOP then top_step st sp tok
            else if c_op (st ! sp) = EXPR_VALUE then value_step st sp tok
            else Inl Aborts) of
        Inl f \<Rightarrow> Inl f
      | Inr (Failed m st') \<Rightarrow> Inr (Failed m st')
      | Inr (Fine (st', sp')) \<Rightarrow> expr_run st' sp' toks)"

text \<open>\<open>expr_token\<close> passes over backslashes, line ends and comments.\<close>

definition expr_tokens :: "etoken list \<Rightarrow> etoken list" where
  "expr_tokens toks = filter (\<lambda>(t, x). t \<notin> {8, 9, 31}) toks"

text \<open>The result is an \<open>int\<close>: the low 32 bits of the value.\<close>

definition Preprocessor_expr :: "cell list \<Rightarrow> etoken list \<Rightarrow> (cell list \<times> int) outcome res" where
  "Preprocessor_expr st toks =
     (case expr_run (st[0 := (st ! 0)\<lparr>c_op := EXPR_TOP, c_value := 0\<rparr>]) 0 (expr_tokens toks) of
        Inr (Fine (st', v)) \<Rightarrow> Inr (Fine (st', signed_take_bit 31 v))
      | r \<Rightarrow> r)"

text \<open>The stack of a program that starts.\<close>

definition initial_stack :: "cell list" where
  "initial_stack = replicate STACK_SIZE \<lparr>c_op = EXPR_TOP, c_value = 0, c_svalue = No_str\<rparr>"

end
