(* ===== verification/ExprSpec.thy ===== *)
theory ExprSpec
  imports ExprEval
begin

text \<open>
  What the evaluator of Source/Preprocessor/expr.c computes: the value of an expression whose
  operators are all in parentheses, and for any input a value or an error message, never an
  internal error. The last section shows where expressions without parentheses go wrong.
\<close>

section \<open>Expressions\<close>

datatype pexpr = Num string | Ident string | Unop int pexpr | Binop int pexpr pexpr

fun pexpr_ok :: "pexpr \<Rightarrow> bool" where
  "pexpr_ok (Unop t e) = (t \<in> {TOK_MINUS, TOK_NOT, TOK_LNOT} \<and> pexpr_ok e)"
| "pexpr_ok (Binop t a b) = (t \<in> set binary_ops \<and> pexpr_ok a \<and> pexpr_ok b)"
| "pexpr_ok e = True"

fun tokens_of :: "pexpr \<Rightarrow> etoken list" where
  "tokens_of (Num s) = [(18, s)]"
| "tokens_of (Ident s) = [(TOK_ID, s)]"
| "tokens_of (Unop t e) = [(TOK_LPAREN, ''(''), (t, [])] @ tokens_of e @ [(TOK_RPAREN, '')'')]"
| "tokens_of (Binop t a b) =
     [(TOK_LPAREN, ''('')] @ tokens_of a @ [(t, [])] @ tokens_of b @ [(TOK_RPAREN, '')'')]"

text \<open>The value: identifiers are 0, operands are evaluated from left to right, without short cuts.\<close>

fun value_of :: "pexpr \<Rightarrow> int res" where
  "value_of (Num s) = Inr (strtol0 s)"
| "value_of (Ident s) = Inr 0"
| "value_of (Unop t e) = rbind (value_of e) (unary_value (if t = TOK_MINUS then EXPR_UMINUS else t))"
| "value_of (Binop t a b) =
     rbind (value_of a) (\<lambda>x. rbind (value_of b) (\<lambda>y. the (binary_value t x y)))"

text \<open>How many cells above its own an expression needs.\<close>

fun depth_of :: "pexpr \<Rightarrow> nat" where
  "depth_of (Num s) = 0"
| "depth_of (Ident s) = 0"
| "depth_of (Unop t e) = 2 + depth_of e"
| "depth_of (Binop t a b) = max (1 + depth_of a) (3 + depth_of b)"

text \<open>A stack without strings.\<close>

definition no_strings :: "cell list \<Rightarrow> bool" where
  "no_strings st \<longleftrightarrow> (\<forall>c\<in>set st. c_svalue c = No_str)"

text \<open>
  The stack after a value has been read at \<open>sp\<close>: that cell holds it, the cells below are as before.
\<close>

definition value_at :: "cell list \<Rightarrow> nat \<Rightarrow> int \<Rightarrow> cell list \<Rightarrow> bool" where
  "value_at st sp v st' \<longleftrightarrow> length st' = length st \<and> no_strings st' \<and> take sp st' = take sp st \<and>
     st' ! sp = \<lparr>c_op = EXPR_VALUE, c_value = v, c_svalue = No_str\<rparr>"

lemma no_strings_nth: "no_strings st \<Longrightarrow> i < length st \<Longrightarrow> c_svalue (st ! i) = No_str"
  by (simp add: no_strings_def)

lemma no_strings_update: "no_strings st \<Longrightarrow> c_svalue c = No_str \<Longrightarrow> no_strings (st[i := c])"
  by (auto simp: no_strings_def dest: set_update_subset_insert [THEN subsetD])

lemma value_at_below: "value_at st sp v st' \<Longrightarrow> i < sp \<Longrightarrow> st' ! i = st ! i"
  by (metis nth_take value_at_def)

lemma binary_total: "t \<in> set binary_ops \<Longrightarrow> \<exists>r. binary_value t x y = Some r"
  by (auto simp: binary_ops_def binary_value_def)

lemma binary_not_unary: "t \<in> set binary_ops \<Longrightarrow> \<not> UNARY_OP t"
  by (auto simp: binary_ops_def UNARY_OP_def tok_defs)

abbreviation value_cell :: "int \<Rightarrow> cell" where
  "value_cell v \<equiv> \<lparr>c_op = EXPR_VALUE, c_value = v, c_svalue = No_str\<rparr>"

lemma cell_updates [simp]:
  "c\<lparr>c_op := a, c_value := v, c_svalue := d\<rparr> = \<lparr>c_op = a, c_value = v, c_svalue = d\<rparr>"
  "c_svalue c = No_str \<Longrightarrow> c\<lparr>c_op := EXPR_VALUE, c_value := v\<rparr> = value_cell v"
  by (cases c; simp)+

lemma reduced_cell: "reduced st i = (\<lambda>v. Inr (Fine (st[i := value_cell v], i)))"
  by (rule ext) (simp add: reduced_def)

lemma close_unary:
  assumes "no_strings st" and "sp + 2 < length st" and "st ! (sp + 2) = value_cell v"
    and "c_op (st ! (sp + 1)) = EXPR_OP" and "c_value (st ! (sp + 1)) = u" and "UNARY_OP u"
    and "c_op (st ! sp) = EXPR_GROUP"
  shows "value_step st (sp + 2) (TOK_RPAREN, x) =
    rbind (unary_value u v) (\<lambda>w. Inr (Fine (st[sp + 1 := value_cell w, sp := value_cell w], sp)))"
proof -
  have nb: "TOK_RPAREN \<notin> set binary_ops" by (simp add: binary_ops_def tok_defs)
  have sv: "c_svalue (st ! sp) = No_str" "c_svalue (st ! (sp + 1)) = No_str"
    using assms(1,2) by (auto intro: no_strings_nth)
  have r: "reduce_op st (sp + 2) = rbind (unary_value u v) (\<lambda>w. Inr (Fine (st[sp + 1 := value_cell w], sp + 1)))"
    using assms sv by (simp add: reduce_op_def reduced_cell Let_def numeral_2_eq_2)
  show ?thesis
  proof (cases "unary_value u v")
    case (Inl f)
    then show ?thesis using r assms nb
      by (subst value_step_def) (simp add: reduce_group.simps [of st "Suc (Suc sp)"] numeral_2_eq_2)
  next
    case (Inr w)
    then show ?thesis using r assms nb sv
      by (subst value_step_def)
        (simp add: reduce_group.simps [of st "Suc (Suc sp)"] reduce_group.simps [of "st[Suc sp := value_cell w]"] numeral_2_eq_2)
  qed
qed

lemma close_binary:
  assumes "no_strings st" and "sp + 3 < length st" and "st ! (sp + 3) = value_cell y"
    and "c_op (st ! (sp + 2)) = EXPR_OP" and "c_value (st ! (sp + 2)) = t" and "t \<in> set binary_ops"
    and "st ! (sp + 1) = value_cell x" and "c_op (st ! sp) = EXPR_GROUP"
  shows "value_step st (sp + 3) (TOK_RPAREN, z) =
    rbind (the (binary_value t x y)) (\<lambda>w. Inr (Fine (st[sp + 1 := value_cell w, sp := value_cell w], sp)))"
proof -
  have nb: "TOK_RPAREN \<notin> set binary_ops" by (simp add: binary_ops_def tok_defs)
  have sv: "c_svalue (st ! sp) = No_str" using assms(1,2) by (auto intro: no_strings_nth)
  obtain r where bv: "binary_value t x y = Some r" using binary_total [OF assms(6)] by blast
  have r: "reduce_op st (sp + 3) = rbind r (\<lambda>w. Inr (Fine (st[sp + 1 := value_cell w], sp + 1)))"
    using assms bv binary_not_unary [OF assms(6)]
    by (simp add: reduce_op_def reduced_cell Let_def numeral_3_eq_3 numeral_2_eq_2)
  show ?thesis
  proof (cases r)
    case (Inl f)
    then show ?thesis using r bv assms nb
      by (subst value_step_def) (simp add: reduce_group.simps [of st "Suc (Suc (Suc sp))"] numeral_3_eq_3 numeral_2_eq_2)
  next
    case (Inr w)
    then show ?thesis using r bv assms nb sv
      by (subst value_step_def)
        (simp add: reduce_group.simps [of st "Suc (Suc (Suc sp))"] reduce_group.simps [of "st[Suc sp := value_cell w]"]
          numeral_3_eq_3 numeral_2_eq_2)
  qed
qed

lemma closed_value:
  assumes "no_strings st'" and "length st' = length st" and "take sp st' = take sp st" and "sp < length st"
  shows "value_at st sp w (st'[sp + 1 := value_cell w, sp := value_cell w])"
  using assms by (simp add: value_at_def no_strings_update)

lemma expr_run_value:
  "\<lbrakk>pexpr_ok e; no_strings st; sp + depth_of e < length st; c_op (st ! sp) = EXPR_TOP\<rbrakk> \<Longrightarrow>
   (case value_of e of
      Inl f \<Rightarrow> expr_run st sp (tokens_of e @ rest) = Inl f
    | Inr v \<Rightarrow> \<exists>st'. value_at st sp v st' \<and> expr_run st sp (tokens_of e @ rest) = expr_run st' sp rest)"
proof (induction e arbitrary: st sp rest)
  case (Num s)
  define st' where "st' = st[sp := \<lparr>c_op = EXPR_VALUE, c_value = strtol0 s, c_svalue = No_str\<rparr>]"
  have "value_at st sp (strtol0 s) st'"
    using Num by (simp add: value_at_def st'_def no_strings_update)
  then show ?case using Num by (auto simp: top_step_def st'_def)
next
  case (Ident s)
  define st' where "st' = st[sp := \<lparr>c_op = EXPR_VALUE, c_value = 0, c_svalue = No_str\<rparr>]"
  have "value_at st sp 0 st'"
    using Ident by (simp add: value_at_def st'_def no_strings_update)
  then show ?case using Ident by (auto simp: top_step_def st'_def tok_defs)
next
  case (Unop t e)
  define u where "u = (if t = TOK_MINUS then EXPR_UMINUS else t)"
  have u: "UNARY_OP u" "t \<notin> {18, 19, 20, 21}" "t \<noteq> TOK_PLUS" "t \<in> {TOK_MINUS, TOK_LNOT, TOK_NOT}"
    using Unop.prems(1) by (auto simp: u_def UNARY_OP_def tok_defs)
  define st1 where "st1 = st[sp := (st ! sp)\<lparr>c_op := EXPR_GROUP\<rparr>, sp + 1 := \<lparr>c_op = EXPR_TOP, c_value = 0, c_svalue = No_str\<rparr>]"
  define st2 where "st2 = st1[sp + 1 := \<lparr>c_op = EXPR_OP, c_value = u, c_svalue = No_str\<rparr>,
    sp + 2 := (st1 ! (sp + 2))\<lparr>c_op := EXPR_TOP, c_svalue := No_str\<rparr>]"
  have s1: "top_step st sp (TOK_LPAREN, ''('') = Inr (Fine (st1, sp + 1))"
    using Unop.prems by (simp add: top_step_def put_def st1_def tok_defs)
  have s2: "top_step st1 (sp + 1) (t, []) = Inr (Fine (st2, sp + 2))"
    using Unop.prems u by (simp add: top_step_def put_def st1_def st2_def u_def)
  have clean: "no_strings st2" "length st2 = length st" "c_op (st2 ! (sp + 2)) = EXPR_TOP"
    using Unop.prems no_strings_nth [OF Unop.prems(2)] by (simp_all add: st1_def st2_def no_strings_update)
  have low: "take sp st2 = take sp st" "c_op (st2 ! sp) = EXPR_GROUP" "c_svalue (st2 ! sp) = No_str"
      "st2 ! (sp + 1) = \<lparr>c_op = EXPR_OP, c_value = u, c_svalue = No_str\<rparr>"
    using Unop.prems no_strings_nth [OF Unop.prems(2)] by (simp_all add: st1_def st2_def)
  have run: "expr_run st sp (tokens_of (Unop t e) @ rest)
      = expr_run st2 (sp + 2) (tokens_of e @ (TOK_RPAREN, '')'') # rest)"
    using Unop.prems(3,4) s1 s2 by (simp add: st1_def)
  show ?case
  proof (cases "value_of e")
    case (Inl f)
    then show ?thesis using Unop.IH [of st2 "sp + 2" "(TOK_RPAREN, '')'') # rest"] Unop.prems clean run
      by (simp add: u_def)
  next
    case (Inr v)
    then obtain st3 where st3: "value_at st2 (sp + 2) v st3"
      "expr_run st2 (sp + 2) (tokens_of e @ (TOK_RPAREN, '')'') # rest) = expr_run st3 (sp + 2) ((TOK_RPAREN, '')'') # rest)"
      using Unop.IH [of st2 "sp + 2" "(TOK_RPAREN, '')'') # rest"] Unop.prems clean by auto
    have low3: "st3 ! (sp + 1) = st2 ! (sp + 1)" "st3 ! sp = st2 ! sp" "take sp st3 = take sp st"
      using value_at_below [OF st3(1)] st3(1) low(1) by (auto simp: value_at_def min_def dest: arg_cong [of _ _ "take sp"])
    have close: "value_step st3 (sp + 2) (TOK_RPAREN, '')'') =
        rbind (unary_value u v) (\<lambda>w. Inr (Fine (st3[sp + 1 := value_cell w, sp := value_cell w], sp)))"
      using st3(1) low low3 u(1) Unop.prems clean
      by (intro close_unary) (auto simp: value_at_def)
    have "value_at st sp w (st3[sp + 1 := value_cell w, sp := value_cell w])" for w
      using st3(1) low3 Unop.prems clean by (intro closed_value) (auto simp: value_at_def)
    moreover have "expr_run st sp (tokens_of (Unop t e) @ rest) =
        (case unary_value u v of Inl f \<Rightarrow> Inl f
         | Inr w \<Rightarrow> expr_run (st3[sp + 1 := value_cell w, sp := value_cell w]) sp rest)"
      using st3 close unfolding run by (simp add: value_at_def split: sum.split)
    ultimately show ?thesis
      using Inr by (simp add: u_def [symmetric] split: sum.split del: tokens_of.simps) blast
  qed
next
  case (Binop t a b)
  have t: "t \<in> set binary_ops" using Binop.prems(1) by simp
  have room: "sp + 1 + depth_of a < length st" "sp + 3 + depth_of b < length st"
    using Binop.prems(3) by (simp_all split: if_splits add: max_def)
  define st1 where "st1 = st[sp := (st ! sp)\<lparr>c_op := EXPR_GROUP\<rparr>, sp + 1 := \<lparr>c_op = EXPR_TOP, c_value = 0, c_svalue = No_str\<rparr>]"
  have s1: "top_step st sp (TOK_LPAREN, ''('') = Inr (Fine (st1, sp + 1))"
    using Binop.prems by (simp add: top_step_def put_def st1_def tok_defs)
  have clean: "no_strings st1" "length st1 = length st" "c_op (st1 ! (sp + 1)) = EXPR_TOP"
      "take sp st1 = take sp st" "c_op (st1 ! sp) = EXPR_GROUP"
    using Binop.prems no_strings_nth [OF Binop.prems(2)] by (simp_all add: st1_def no_strings_update)
  define r1 where "r1 = (t, []) # tokens_of b @ (TOK_RPAREN, '')'') # rest"
  have run: "expr_run st sp (tokens_of (Binop t a b) @ rest) = expr_run st1 (sp + 1) (tokens_of a @ r1)"
    using Binop.prems(3,4) s1 by (simp add: st1_def r1_def)
  show ?case
  proof (cases "value_of a")
    case (Inl f)
    then show ?thesis using Binop.IH(1) [of st1 "sp + 1" r1] Binop.prems room clean run by simp
  next
    case (Inr x)
    then obtain st2 where st2: "value_at st1 (sp + 1) x st2"
      "expr_run st1 (sp + 1) (tokens_of a @ r1) = expr_run st2 (sp + 1) r1"
      using Binop.IH(1) [of st1 "sp + 1" r1] Binop.prems room clean by auto
    have low2: "st2 ! sp = st1 ! sp" "take sp st2 = take sp st" "length st2 = length st" "no_strings st2"
        "st2 ! (sp + 1) = value_cell x"
      using value_at_below [OF st2(1)] st2(1) clean
      by (auto simp: value_at_def min_def dest: arg_cong [of _ _ "take sp"])
    define st3 where "st3 = st2[sp + 2 := (st2 ! (sp + 2))\<lparr>c_op := EXPR_OP, c_value := t\<rparr>,
      sp + 3 := (st2 ! (sp + 3))\<lparr>c_op := EXPR_TOP, c_value := 0\<rparr>]"
    have s2: "value_step st2 (sp + 1) (t, []) = Inr (Fine (st3, sp + 3))"
      using t low2 clean Binop.prems room by (simp add: value_step_def push_op_def put_def st3_def numeral_2_eq_2 numeral_3_eq_3)
    have clean3: "no_strings st3" "length st3 = length st" "c_op (st3 ! (sp + 3)) = EXPR_TOP"
        "take sp st3 = take sp st" "st3 ! sp = st2 ! sp" "st3 ! (sp + 1) = value_cell x"
        "c_op (st3 ! (sp + 2)) = EXPR_OP" "c_value (st3 ! (sp + 2)) = t"
      using Binop.prems room low2 no_strings_nth [OF low2(4)] by (simp_all add: st3_def no_strings_update)
    define r2 where "r2 = (TOK_RPAREN, '')'') # rest"
    have run2: "expr_run st2 (sp + 1) r1 = expr_run st3 (sp + 3) (tokens_of b @ r2)"
      using low2(5) s2 by (simp add: r1_def r2_def)
    show ?thesis
    proof (cases "value_of b")
      case (Inl f)
      then show ?thesis using Binop.IH(2) [of st3 "sp + 3" r2] Binop.prems room clean3 run run2 st2 Inr by simp
    next
      case b: (Inr y)
      then obtain st4 where st4: "value_at st3 (sp + 3) y st4"
        "expr_run st3 (sp + 3) (tokens_of b @ r2) = expr_run st4 (sp + 3) r2"
        using Binop.IH(2) [of st3 "sp + 3" r2] Binop.prems room clean3 by auto
      have low4: "st4 ! (sp + 1) = st3 ! (sp + 1)" "st4 ! (sp + 2) = st3 ! (sp + 2)" "st4 ! sp = st3 ! sp"
          "take sp st4 = take sp st"
        using value_at_below [OF st4(1)] st4(1) clean3(4)
        by (auto simp: value_at_def min_def dest: arg_cong [of _ _ "take sp"])
      have close: "value_step st4 (sp + 3) (TOK_RPAREN, '')'') =
          rbind (the (binary_value t x y)) (\<lambda>w. Inr (Fine (st4[sp + 1 := value_cell w, sp := value_cell w], sp)))"
        using st4(1) low4 low2 clean clean3 t Binop.prems room
        by (intro close_binary) (auto simp: value_at_def)
      have "value_at st sp w (st4[sp + 1 := value_cell w, sp := value_cell w])" for w
        using st4(1) low4 Binop.prems clean3 by (intro closed_value) (auto simp: value_at_def)
      moreover have "expr_run st sp (tokens_of (Binop t a b) @ rest) =
          (case the (binary_value t x y) of Inl f \<Rightarrow> Inl f
           | Inr w \<Rightarrow> expr_run (st4[sp + 1 := value_cell w, sp := value_cell w]) sp rest)"
        using st2(2) run2 st4 close unfolding run by (simp add: value_at_def r2_def split: sum.split)
      ultimately show ?thesis
        using Inr b by (simp split: sum.split del: tokens_of.simps) blast
    qed
  qed
qed

lemma tokens_kept: "pexpr_ok e \<Longrightarrow> expr_tokens (tokens_of e) = tokens_of e"
  by (induction e) (auto simp: expr_tokens_def tok_defs binary_ops_def)

lemma expr_value:
  assumes "pexpr_ok e" and "no_strings st" and "length st = STACK_SIZE" and "depth_of e < STACK_SIZE"
  shows "case value_of e of
      Inl f \<Rightarrow> Preprocessor_expr st (tokens_of e) = Inl f
    | Inr v \<Rightarrow> \<exists>st'. Preprocessor_expr st (tokens_of e) = Inr (Fine (st', signed_take_bit 31 v)) \<and>
        no_strings st' \<and> length st' = STACK_SIZE"
proof -
  define st0 where "st0 = st[0 := (st ! 0)\<lparr>c_op := EXPR_TOP, c_value := 0\<rparr>]"
  have st0: "no_strings st0" "length st0 = STACK_SIZE" "c_op (st0 ! 0) = EXPR_TOP"
    using assms(2,3) no_strings_nth [OF assms(2), of 0]
    by (simp_all add: st0_def no_strings_update STACK_SIZE_def)
  note run = expr_run_value [OF assms(1) st0(1), of 0 "[]"]
  show ?thesis
  proof (cases "value_of e")
    case (Inl f)
    then show ?thesis
      using run st0 assms(4) by (simp add: Preprocessor_expr_def st0_def tokens_kept [OF assms(1)])
  next
    case (Inr v)
    then obtain st' where "value_at st0 0 v st'" "expr_run st0 0 (tokens_of e) = expr_run st' 0 []"
      using run st0 assms(4) by auto
    then show ?thesis using Inr st0
      by (simp add: Preprocessor_expr_def st0_def [symmetric] tokens_kept [OF assms(1)] value_at_def
          reduce_all.simps [of st' 0])
  qed
qed



section \<open>The shape of the stack\<close>

text \<open>
  The cells below the top are open parentheses, unary operators that wait for their operand, and
  values that are followed by a binary operator.
\<close>

fun frames :: "cell list \<Rightarrow> bool" where
  "frames [] = True"
| "frames (c # cs) =
     (case c_op c of
        EXPR_GROUP \<Rightarrow> frames cs
      | EXPR_OP \<Rightarrow> UNARY_OP (c_value c) \<and> frames cs
      | EXPR_VALUE \<Rightarrow> (case cs of [] \<Rightarrow> False
          | d # ds \<Rightarrow> c_op d = EXPR_OP \<and> c_value d \<in> set binary_ops \<and> frames ds)
      | EXPR_TOP \<Rightarrow> False)"

definition stack_inv :: "cell list \<Rightarrow> nat \<Rightarrow> bool" where
  "stack_inv st sp \<longleftrightarrow> sp < length st \<and> frames (take sp st) \<and> c_op (st ! sp) \<in> {EXPR_TOP, EXPR_VALUE}"

lemma frames_append: "frames xs \<Longrightarrow> frames ys \<Longrightarrow> frames (xs @ ys)"
  by (induction xs rule: frames.induct) (auto split: expr_op.splits list.splits)

lemma frames_snoc:
  "frames (xs @ [c]) \<Longrightarrow>
   (c_op c = EXPR_GROUP \<and> frames xs) \<or> (c_op c = EXPR_OP \<and> UNARY_OP (c_value c) \<and> frames xs) \<or>
   (c_op c = EXPR_OP \<and> c_value c \<in> set binary_ops \<and> (\<exists>ys v. xs = ys @ [v] \<and> c_op v = EXPR_VALUE \<and> frames ys))"
proof (induction xs rule: frames.induct)
  case 1
  then show ?case by (auto split: expr_op.splits)
next
  case (2 d cs)
  show ?case
  proof (cases "c_op d")
    case EXPR_VALUE
    show ?thesis
    proof (cases cs)
      case Nil
      then show ?thesis using 2(4) EXPR_VALUE by (auto intro!: exI [of _ "[]"])
    next
      case (Cons e es)
      then have "frames (es @ [c])" and e: "c_op e = EXPR_OP" "c_value e \<in> set binary_ops"
        using 2(4) EXPR_VALUE by auto
      from 2(1) [OF EXPR_VALUE Cons this(1)] show ?thesis
        using EXPR_VALUE Cons e by (auto intro!: exI [of _ "d # e # ys" for ys])
    qed
  next
    case EXPR_GROUP
    then show ?thesis using 2 by (auto intro!: exI [of _ "d # ys" for ys])
  next
    case EXPR_OP
    then show ?thesis using 2 by (auto intro!: exI [of _ "d # ys" for ys])
  qed (use 2(4) in auto)
qed

definition messages :: "string list" where
  "messages = [''Expected an expression'', ''Syntax error'', ''Syntax error: expected operator'',
     ''Missing '' @ [CHR 0x27, CHR '')'', CHR 0x27], extra_rparen,
     ''Syntax error: attempt to apply unary operator to string'',
     ''Can't mix strings and integers in expression'', ''Syntax error: bad binary operator for strings'']"

text \<open>Undefined arithmetic, one of the messages, or a result as wanted.\<close>

fun good :: "nat \<Rightarrow> ('a \<Rightarrow> bool) \<Rightarrow> 'a outcome res \<Rightarrow> bool" where
  "good n P (Inl f) = (f = Undefined)"
| "good n P (Inr (Failed m st)) = (m \<in> set messages \<and> length st = n)"
| "good n P (Inr (Fine x)) = P x"

lemma good_arith: "good n P (rbind r f) \<longleftrightarrow> (case r of Inl e \<Rightarrow> e = Undefined | Inr x \<Rightarrow> good n P (f x))"
  by (cases r) auto

lemma unary_defined: "unary_value t a = Inl f \<Longrightarrow> f = Undefined"
  by (auto simp: unary_value_def long_res_def split: if_splits)

lemma binary_defined: "binary_value t a b = Some (Inl f) \<Longrightarrow> f = Undefined"
  by (auto simp: binary_value_def long_res_def split: if_splits)

lemma compare_defined: "string_compare st sp = Inl f \<Longrightarrow> f = Undefined"
  by (auto simp: string_compare_def split: sval.splits)

text \<open>Reducing under the invariant.\<close>

lemma take_split: "0 < sp \<Longrightarrow> sp < length st \<Longrightarrow> take sp st = take (sp - 1) st @ [st ! (sp - 1)]"
  using take_Suc_conv_app_nth [of "sp - 1" st] by simp

lemma reduce_op_good:
  assumes inv: "stack_inv st sp" and v: "c_op (st ! sp) = EXPR_VALUE" and pos: "0 < sp"
    and op: "c_op (st ! (sp - 1)) = EXPR_OP"
  shows "good (length st) (\<lambda>(st', sp'). stack_inv st' sp' \<and> sp' < sp \<and> c_op (st' ! sp') = EXPR_VALUE \<and>
    length st' = length st) (reduce_op st sp)"
proof -
  have sp: "sp < length st" "frames (take sp st)" using inv by (simp_all add: stack_inv_def)
  then have "frames (take (sp - 1) st @ [st ! (sp - 1)])" using take_split [OF pos sp(1)] by simp
  from frames_snoc [OF this] op consider
      (unary) "UNARY_OP (c_value (st ! (sp - 1)))" "frames (take (sp - 1) st)"
    | (binary) ys w where "c_value (st ! (sp - 1)) \<in> set binary_ops" "take (sp - 1) st = ys @ [w]"
        "c_op w = EXPR_VALUE" "frames ys"
    by auto
  then show ?thesis
  proof cases
    case unary
    have "stack_inv (st[sp - 1 := value_cell r]) (sp - 1)" for r
      using unary(2) sp pos by (simp add: stack_inv_def)
    then show ?thesis
      using unary(1) v op pos sp(1) unary_defined
      by (auto simp: reduce_op_def Let_def messages_def reduced_cell UNARY_OP_def tok_defs good_arith split: sum.split)
  next
    case binary
    have two: "2 \<le> sp" using binary(2) sp(1) by (cases sp; cases "sp - 1") auto
    have "take (sp - 1) st = take (sp - 2) st @ [st ! (sp - 2)]"
      using take_split [of "sp - 1" st] two sp(1) by (simp add: numeral_2_eq_2)
    then have "ys = take (sp - 2) st" using binary(2) by simp
    then have inv': "stack_inv (st[sp - 2 := value_cell r]) (sp - 2)"
        "stack_inv (st[sp := c, sp - 2 := value_cell r]) (sp - 2)" for r c
      using binary(4) sp two by (simp_all add: stack_inv_def)
    obtain rv where rv: "binary_value (c_value (st ! (sp - 1))) (c_value (st ! (sp - 2))) (c_value (st ! sp)) = Some rv"
      using binary_total [OF binary(1)] by blast
    show ?thesis
      using binary_not_unary [OF binary(1)] v op two sp(1) rv binary_defined compare_defined inv'
      by (auto simp: reduce_op_def Let_def messages_def reduced_cell good_arith split: sum.split)
  qed
qed

abbreviation value_inv :: "nat \<Rightarrow> nat \<Rightarrow> cell list \<times> nat \<Rightarrow> bool" where
  "value_inv n b x \<equiv> (case x of (st', sp') \<Rightarrow>
     stack_inv st' sp' \<and> sp' \<le> b \<and> c_op (st' ! sp') = EXPR_VALUE \<and> length st' = n)"

lemma reduce_all_good:
  "\<lbrakk>stack_inv st sp; c_op (st ! sp) = EXPR_VALUE\<rbrakk> \<Longrightarrow>
   good (length st) (\<lambda>(st', v). length st' = length st) (reduce_all st sp)"
proof (induction st sp rule: reduce_all.induct)
  case (1 st sp)
  show ?case
  proof (cases "sp \<noteq> 0 \<and> c_op (st ! (sp - 1)) = EXPR_OP")
    case True
    have g: "good (length st) (\<lambda>(st', sp'). stack_inv st' sp' \<and> sp' < sp \<and> c_op (st' ! sp') = EXPR_VALUE \<and>
        length st' = length st) (reduce_op st sp)"
      using 1 True by (intro reduce_op_good) auto
    show ?thesis
    proof (cases "reduce_op st sp")
      case (Inr out)
      show ?thesis
      proof (cases out)
        case (Fine x)
        then obtain st' sp' where x: "reduce_op st sp = Inr (Fine (st', sp'))" using Inr by (cases x) auto
        then show ?thesis using g 1(1) [of "Fine (st', sp')" "(st', sp')" st' sp'] True Inr
          by (simp add: reduce_all.simps [of st sp])
      qed (use g Inr True in \<open>simp add: reduce_all.simps [of st sp]\<close>)
    qed (use g True in \<open>simp add: reduce_all.simps [of st sp]\<close>)
  next
    case False
    then show ?thesis by (subst reduce_all.simps) (auto simp: messages_def)
  qed
qed

lemma reduce_group_good:
  "\<lbrakk>stack_inv st sp; c_op (st ! sp) = EXPR_VALUE\<rbrakk> \<Longrightarrow>
   good (length st) (value_inv (length st) sp) (reduce_group st sp)"
proof (induction st sp rule: reduce_group.induct)
  case (1 st sp)
  show ?case
  proof (cases "0 < sp \<and> c_op (st ! (sp - 1)) = EXPR_OP")
    case True
    have g: "good (length st) (\<lambda>(st', sp'). stack_inv st' sp' \<and> sp' < sp \<and> c_op (st' ! sp') = EXPR_VALUE \<and>
        length st' = length st) (reduce_op st sp)"
      using 1 True by (intro reduce_op_good) auto
    show ?thesis
    proof (cases "reduce_op st sp")
      case (Inr out)
      show ?thesis
      proof (cases out)
        case (Fine x)
        then obtain st' sp' where x: "reduce_op st sp = Inr (Fine (st', sp'))" using Inr by (cases x) auto
        then have g': "stack_inv st' sp'" "sp' < sp" "c_op (st' ! sp') = EXPR_VALUE" "length st' = length st"
          using g by auto
        then have "good (length st') (value_inv (length st') sp') (reduce_group st' sp')"
          using 1(1) [of "Fine (st', sp')" "(st', sp')" st' sp'] True x by auto
        then have "good (length st) (value_inv (length st) sp) (reduce_group st' sp')"
          using g' by (cases "(length st, value_inv (length st) sp', reduce_group st' sp')" rule: good.cases) auto
        then show ?thesis using x True by (simp add: reduce_group.simps [of st sp])
      qed (use g Inr True in \<open>simp add: reduce_group.simps [of st sp]\<close>)
    qed (use g True in \<open>simp add: reduce_group.simps [of st sp]\<close>)
  next
    case False
    then show ?thesis using 1(2,3) by (subst reduce_group.simps) auto
  qed
qed

lemma push_op_good:
  assumes "stack_inv st sp" and "c_op (st ! sp) = EXPR_VALUE" and "sp + 2 < length st" and "t \<in> set binary_ops"
  shows "good (length st) (\<lambda>(st', sp'). stack_inv st' sp' \<and> sp' = sp + 2 \<and> length st' = length st) (push_op st sp t)"
proof -
  define st1 where "st1 = st[sp + 1 := (st ! (sp + 1))\<lparr>c_op := EXPR_OP, c_value := t\<rparr>]"
  define st2 where "st2 = st1[sp + 2 := (st1 ! (sp + 2))\<lparr>c_op := EXPR_TOP, c_value := 0\<rparr>]"
  have "push_op st sp t = Inr (Fine (st2, sp + 2))"
    using assms(3) by (simp add: push_op_def put_def st1_def st2_def)
  moreover have "take (sp + 2) st2 = take sp st @ [st ! sp, (st ! (sp + 1))\<lparr>c_op := EXPR_OP, c_value := t\<rparr>]"
    using assms(3) by (simp add: st1_def st2_def take_Suc_conv_app_nth numeral_2_eq_2)
  then have "stack_inv st2 (sp + 2)"
    using assms frames_append [of "take sp st"] by (simp add: stack_inv_def st1_def st2_def)
  ultimately show ?thesis by (simp add: st1_def st2_def)
qed

abbreviation step_inv :: "nat \<Rightarrow> nat \<Rightarrow> cell list \<times> nat \<Rightarrow> bool" where
  "step_inv n b x \<equiv> (case x of (st', sp') \<Rightarrow> stack_inv st' sp' \<and> sp' \<le> b \<and> length st' = n)"

lemma good_mono: "good n P r \<Longrightarrow> (\<And>x. P x \<Longrightarrow> Q x) \<Longrightarrow> good n Q r"
  by (induction n P r rule: good.induct) auto

lemma top_step_good:
  assumes "stack_inv st sp" and "c_op (st ! sp) = EXPR_TOP" and "sp + 1 < length st"
  shows "good (length st) (step_inv (length st) (sp + 1)) (top_step st sp tok)"
proof -
  have sp: "frames (take sp st)" "sp < length st" using assms(1) by (simp_all add: stack_inv_def)
  have up: "stack_inv (st[sp := c, Suc sp := d]) (Suc sp)"
    if "frames [c]" "c_op d \<in> {EXPR_TOP, EXPR_VALUE}" for c d
    using sp assms(3) that frames_append [OF sp(1) that(1)]
    by (simp add: stack_inv_def take_Suc_conv_app_nth)
  have same: "stack_inv (st[sp := c]) sp" if "c_op c = EXPR_VALUE" for c
    using sp that by (simp add: stack_inv_def)
  obtain t x where "tok = (t, x)" by fastforce
  then show ?thesis
    using assms up same by (auto simp: top_step_def put_def messages_def UNARY_OP_def tok_defs)
qed

lemma value_step_good:
  assumes inv: "stack_inv st sp" and v: "c_op (st ! sp) = EXPR_VALUE" and room: "sp + 2 < length st"
  shows "good (length st) (step_inv (length st) (sp + 2)) (value_step st sp tok)"
proof -
  obtain t x where tok: "tok = (t, x)" by fastforce
  have push: "good (length st) (step_inv (length st) (sp + 2)) (push_op st' sp' t)"
    if "stack_inv st' sp'" "c_op (st' ! sp') = EXPR_VALUE" "sp' \<le> sp" "length st' = length st" "t \<in> set binary_ops"
    for st' sp'
    using push_op_good [OF that(1,2) _ that(5)] that(3,4) room by (auto elim: good_mono)
  show ?thesis
  proof (cases "t \<in> set binary_ops")
    case True
    show ?thesis
    proof (cases "sp \<noteq> 0 \<and> c_op (st ! (sp - 1)) = EXPR_OP \<and> prec (c_value (st ! (sp - 1))) \<le> prec t")
      case red: True
      then have g: "good (length st) (\<lambda>(st', sp'). stack_inv st' sp' \<and> sp' < sp \<and> c_op (st' ! sp') = EXPR_VALUE \<and>
          length st' = length st) (reduce_op st sp)"
        using inv v by (intro reduce_op_good) auto
      have eq: "value_step st sp tok = (case reduce_op st sp of
          Inl f \<Rightarrow> Inl f | Inr (Failed m st') \<Rightarrow> Inr (Failed m st') | Inr (Fine (st', sp')) \<Rightarrow> push_op st' sp' t)"
        using red True by (simp add: value_step_def tok)
      show ?thesis
      proof (cases "reduce_op st sp")
        case (Inr out)
        then show ?thesis using g push True unfolding eq by (cases out) auto
      qed (use g eq in simp)
    next
      case False
      have "c_op (st ! (sp - 1)) = EXPR_GROUP \<or> c_op (st ! (sp - 1)) = EXPR_OP" if "sp \<noteq> 0"
        using inv take_split [of sp st] that frames_snoc by (auto simp: stack_inv_def)
      then show ?thesis using False True push [OF inv v] by (auto simp: value_step_def tok)
    qed
  next
    case False
    show ?thesis
    proof (cases "t = TOK_RPAREN \<and> sp \<noteq> 0")
      case True
      note g = reduce_group_good [OF inv v]
      have eq: "value_step st sp tok = (case reduce_group st sp of
          Inl f \<Rightarrow> Inl f | Inr (Failed m st') \<Rightarrow> Inr (Failed m st')
        | Inr (Fine (st', sp')) \<Rightarrow>
            if sp' = 0 \<or> c_op (st' ! (sp' - 1)) \<noteq> EXPR_GROUP then Inr (Failed extra_rparen st')
            else Inr (Fine (st'[sp' - 1 := (st' ! (sp' - 1))\<lparr>c_op := EXPR_VALUE,
                                  c_value := c_value (st' ! sp')\<rparr>], sp' - 1)))"
        using True False by (simp add: value_step_def tok)
      show ?thesis
      proof (cases "reduce_group st sp")
        case (Inr out)
        show ?thesis
        proof (cases out)
          case (Fine y)
          then obtain st' sp' where y: "out = Fine (st', sp')" by (cases y) auto
          then have g': "stack_inv st' sp'" "sp' \<le> sp" "length st' = length st" using g Inr by auto
          have "stack_inv (st'[sp' - 1 := c]) (sp' - 1)" if "0 < sp'" "c_op c = EXPR_VALUE" "c_op (st' ! (sp' - 1)) = EXPR_GROUP" for c
          proof -
            have "frames (take (sp' - 1) st' @ [st' ! (sp' - 1)])"
              using g'(1) take_split [of sp' st'] that by (simp add: stack_inv_def)
            from frames_snoc [OF this] show ?thesis using g'(1) that by (auto simp: stack_inv_def)
          qed
          then show ?thesis using Inr y g' unfolding eq by (auto simp: messages_def)
        qed (use g Inr eq in simp)
      qed (use g eq in simp)
    next
      case not_paren: False
      then show ?thesis using False by (auto simp: value_step_def tok messages_def)
    qed
  qed
qed

lemma expr_run_good:
  "\<lbrakk>stack_inv st sp; sp + 2 * length toks < length st\<rbrakk> \<Longrightarrow>
   good (length st) (\<lambda>(st', v). length st' = length st) (expr_run st sp toks)"
proof (induction toks arbitrary: st sp)
  case Nil
  show ?case
  proof (cases "c_op (st ! sp) = EXPR_TOP")
    case False
    then have "c_op (st ! sp) = EXPR_VALUE" using Nil by (simp add: stack_inv_def)
    then show ?thesis using reduce_all_good [OF Nil(1)] by simp
  qed (simp add: messages_def)
next
  case (Cons tok toks)
  define r where "r = (if c_op (st ! sp) = EXPR_TOP then top_step st sp tok
            else if c_op (st ! sp) = EXPR_VALUE then value_step st sp tok else Inl Aborts)"
  have op: "c_op (st ! sp) = EXPR_TOP \<or> c_op (st ! sp) = EXPR_VALUE" using Cons.prems by (simp add: stack_inv_def)
  have g: "good (length st) (step_inv (length st) (sp + 2)) r"
  proof (cases "c_op (st ! sp) = EXPR_TOP")
    case True
    then show ?thesis using top_step_good [OF Cons.prems(1) True, of tok] Cons.prems(2)
      by (auto simp: r_def elim!: good_mono)
  next
    case False
    then show ?thesis using value_step_good [OF Cons.prems(1), of tok] Cons.prems(2) op by (simp add: r_def)
  qed
  have eq: "expr_run st sp (tok # toks) = (case r of Inl f \<Rightarrow> Inl f | Inr (Failed m st') \<Rightarrow> Inr (Failed m st')
      | Inr (Fine (st', sp')) \<Rightarrow> expr_run st' sp' toks)" by (simp add: r_def)
  show ?case
  proof (cases r)
    case (Inr out)
    show ?thesis
    proof (cases out)
      case (Fine y)
      then obtain st' sp' where y: "out = Fine (st', sp')" by (cases y) auto
      then have "stack_inv st' sp'" "sp' \<le> sp + 2" "length st' = length st" using g Inr by auto
      then show ?thesis using Cons.IH [of st' sp'] Cons.prems(2) Inr y unfolding eq by simp
    qed (use g Inr eq in simp)
  qed (use g eq in simp)
qed



section \<open>Where the evaluator is wrong\<close>

definition result_of :: "etoken list list \<Rightarrow> (int + string) list res" where
  "result_of inputs =
     (case fold (\<lambda>toks acc. rbind acc (\<lambda>(st, rs). case Preprocessor_expr st toks of
          Inl f \<Rightarrow> Inl f
        | Inr (Failed m st') \<Rightarrow> Inr (st', rs @ [Inr m])
        | Inr (Fine (st', v)) \<Rightarrow> Inr (st', rs @ [Inl v]))) inputs (Inr (initial_stack, [])) of
        Inl f \<Rightarrow> Inl f | Inr (st, rs) \<Rightarrow> Inr rs)"

abbreviation num :: "string \<Rightarrow> etoken" where "num s \<equiv> (18, s)"

text \<open>\<open>10 - 2 * 3 - 1\<close> is 3: one reduction for each operator leaves the first subtraction for the end.\<close>

lemma expr_one_reduction:
  "result_of [[num ''10'', (107, []), num ''2'', (102, []), num ''3'', (107, []), num ''1'']] = Inr [Inl 5]"
  by code_simp

text \<open>\<open>! 1 == 0\<close> is 1.\<close>

lemma expr_not_binds_weakly: "result_of [[(118, []), num ''1'', (104, []), num ''0'']] = Inr [Inl 1]"
  by code_simp

text \<open>A comparison of strings leaves pointers on the stack that a later expression takes for strings.\<close>

lemma expr_stale_strings:
  "result_of [[(10, ''a''), (104, []), (10, ''b'')],
              [num ''1'', (106, []), (1, []), num ''2'', (2, [])]]
   = Inr [Inl 0, Inr (''Can'' @ [CHR 0x27] @ ''t mix strings and integers in expression'')]"
  by code_simp

text \<open>The value is cut to 32 bits, so that a large one can count as false.\<close>

lemma expr_truncates: "result_of [[num ''0x100000000'']] = Inr [Inl 0]"
proof -
  have "strtol0 ''0x100000000'' = 4294967296"
    by (simp add: strtol0_def digit_value_def Let_def) code_simp
  moreover have "signed_take_bit 31 (4294967296 :: int) = 0" by simp
  ultimately show ?thesis
    by (simp add: result_of_def Preprocessor_expr_def expr_tokens_def top_step_def initial_stack_def STACK_SIZE_def
        reduce_all.simps)
qed

text \<open>Nothing bounds the stack pointer.\<close>

lemma expr_run_lparens:
  "\<lbrakk>c_op (st ! sp) = EXPR_TOP; sp < length st; length st \<le> sp + n\<rbrakk> \<Longrightarrow>
   expr_run st sp (replicate n (TOK_LPAREN, [])) = Inl Out_of_bounds"
proof (induction n arbitrary: st sp)
  case (Suc n)
  show ?case
  proof (cases "Suc sp < length st")
    case True
    define st' where "st' = st[sp := (st ! sp)\<lparr>c_op := EXPR_GROUP\<rparr>,
      Suc sp := \<lparr>c_op = EXPR_TOP, c_value = 0, c_svalue = No_str\<rparr>]"
    have "top_step st sp (TOK_LPAREN, []) = Inr (Fine (st', Suc sp))"
      using True by (simp add: top_step_def tok_defs put_def st'_def)
    moreover have "expr_run st' (Suc sp) (replicate n (TOK_LPAREN, [])) = Inl Out_of_bounds"
      using True Suc.prems by (intro Suc.IH) (simp_all add: st'_def)
    ultimately show ?thesis using Suc.prems by simp
  next
    case False
    then show ?thesis using Suc.prems by (simp add: top_step_def tok_defs put_def)
  qed
qed simp

lemma expr_overflows_stack:
  "Preprocessor_expr initial_stack (replicate 256 (TOK_LPAREN, [])) = Inl Out_of_bounds"
proof -
  have "expr_tokens (replicate 256 (TOK_LPAREN, [])) = replicate 256 (TOK_LPAREN, [])"
    unfolding expr_tokens_def by (subst filter_True) (auto simp: tok_defs)
  then show ?thesis
    unfolding Preprocessor_expr_def
    by (simp only:) (subst expr_run_lparens, simp_all add: initial_stack_def STACK_SIZE_def)
qed

end
