(* ===== verification/ExprText.thy ===== *)
theory ExprText
  imports ExprSpec ScanSpec
begin

text \<open>
  The evaluator of Source/Preprocessor/expr.c with the scanner of Source/Swig/scanner.c below it: it
  calls \<open>Scanner_token\<close> when it needs a token and stops at the first error. Expressions from their
  text to their value, and what happens on any text.
\<close>

section \<open>The evaluator on the scanner\<close>

text \<open>\<open>expr_token\<close>: the next token that is no backslash, line end or comment.\<close>

function expr_token :: "scanner \<Rightarrow> (int \<times> scanner) res" where
  "expr_token s =
     (case Scanner_token (s\<lparr>nexttoken := -1\<rparr>) of
        Inl f \<Rightarrow> Inl f
      | Inr (t, s') \<Rightarrow> if t = 8 \<or> t = 9 \<or> t = 31 then expr_token s' else Inr (t, s'))"
  by pat_completeness auto
termination
  by (relation "measure remaining") (auto dest: Scanner_token_progress)

declare expr_token.simps [simp del]

lemma expr_token_progress: "expr_token s = Inr (t, s') \<Longrightarrow> t \<noteq> 0 \<Longrightarrow> remaining s' < remaining s"
proof (induction s rule: expr_token.induct)
  case (1 s)
  obtain u s1 where u: "Scanner_token (s\<lparr>nexttoken := -1\<rparr>) = Inr (u, s1)"
    using 1(2) by (cases "Scanner_token (s\<lparr>nexttoken := -1\<rparr>)") (auto simp: expr_token.simps [of s])
  then have p: "u \<noteq> 0 \<Longrightarrow> remaining s1 < remaining s" using Scanner_token_progress [OF u] by simp
  show ?case
  proof (cases "u = 8 \<or> u = 9 \<or> u = 31")
    case True
    then have "expr_token s1 = Inr (t, s')" using 1(2) u by (simp add: expr_token.simps [of s])
    then show ?thesis using 1(1) [OF u refl True] 1(3) p True by fastforce
  next
    case False
    then show ?thesis using 1(2,3) u p by (auto simp: expr_token.simps [of s])
  qed
qed

text \<open>The loop of \<open>Preprocessor_expr\<close>.\<close>

function expr_loop :: "cell list \<Rightarrow> nat \<Rightarrow> scanner \<Rightarrow> (cell list \<times> int) outcome res" where
  "expr_loop st k s =
     (if c_op (st ! k) \<noteq> EXPR_TOP \<and> c_op (st ! k) \<noteq> EXPR_VALUE then Inl Aborts
      else case expr_token s of
        Inl f \<Rightarrow> Inl f
      | Inr (t, s') \<Rightarrow>
          if t = 0 then expr_run st k []
          else case (if c_op (st ! k) = EXPR_TOP then top_step st k (t, tx s') else value_step st k (t, tx s')) of
              Inl f \<Rightarrow> Inl f
            | Inr (Failed m st') \<Rightarrow> Inr (Failed m st')
            | Inr (Fine (st', k')) \<Rightarrow> expr_loop st' k' s')"
  by pat_completeness auto
termination
  by (relation "measure (\<lambda>(st, k, s). remaining s)") (auto dest: expr_token_progress)

declare expr_loop.simps [simp del]

definition Preprocessor_expr_text :: "cell list \<Rightarrow> scanner \<Rightarrow> string \<Rightarrow> (cell list \<times> int) outcome res" where
  "Preprocessor_expr_text st s w =
     (case expr_loop (st[0 := (st ! 0)\<lparr>c_op := EXPR_TOP, c_value := 0\<rparr>]) 0 (scan_text s w 1 None) of
        Inr (Fine (st', v)) \<Rightarrow> Inr (Fine (st', signed_take_bit 31 v))
      | r \<Rightarrow> r)"

section \<open>The tokens it sees\<close>

lemma scan_tokens_step:
  assumes "scan_tokens s = Inr (ts, s')"
  obtains s1 where "expr_token s = Inr (0, s1)" and "expr_tokens ts = []"
  | t s1 ts1 s2 where "expr_token s = Inr (t, s1)" and "t \<noteq> 0" and "expr_tokens ts = (t, tx s1) # expr_tokens ts1"
      and "scan_tokens s1 = Inr (ts1, s2)" and "expr_tokens [(t, tx s1)] = [(t, tx s1)]"
proof -
  have "(\<exists>s1. expr_token s = Inr (0, s1) \<and> expr_tokens ts = []) \<or>
    (\<exists>t s1 ts1 s2. expr_token s = Inr (t, s1) \<and> t \<noteq> 0 \<and> expr_tokens ts = (t, tx s1) # expr_tokens ts1 \<and>
      scan_tokens s1 = Inr (ts1, s2) \<and> expr_tokens [(t, tx s1)] = [(t, tx s1)])"
    using assms
  proof (induction s arbitrary: ts s' rule: expr_token.induct)
    case (1 s)
    obtain u s1 where u: "Scanner_token (s\<lparr>nexttoken := -1\<rparr>) = Inr (u, s1)"
      using 1(2) by (cases "Scanner_token (s\<lparr>nexttoken := -1\<rparr>)") (auto simp: scan_tokens.simps [of s])
    show ?case
    proof (cases "u = 0")
      case True
      then show ?thesis using 1(2) u
        by (auto simp: scan_tokens.simps [of s] expr_token.simps [of s] expr_tokens_def)
    next
      case False
      then obtain ts1 s2 where ts1: "scan_tokens s1 = Inr (ts1, s2)" "ts = (u, tx s1) # ts1"
        using 1(2) u by (auto simp: scan_tokens.simps [of s])
      show ?thesis
      proof (cases "u = 8 \<or> u = 9 \<or> u = 31")
        case True
        then have "expr_token s = expr_token s1" "expr_tokens ts = expr_tokens ts1"
          using u ts1(2) by (auto simp: expr_token.simps [of s] expr_tokens_def)
        then show ?thesis using 1(1) [OF u refl True ts1(1)] by simp
      next
        case other: False
        then have "expr_token s = Inr (u, s1)" "expr_tokens ts = (u, tx s1) # expr_tokens ts1"
            "expr_tokens [(u, tx s1)] = [(u, tx s1)]"
          using u ts1(2) by (auto simp: expr_token.simps [of s] expr_tokens_def)
        then show ?thesis using False ts1(1) by blast
      qed
    qed
  qed
  then show thesis using that by blast
qed

lemma expr_loop_tokens:
  "scan_tokens s = Inr (ts, s') \<Longrightarrow> expr_loop st k s = expr_run st k (expr_tokens ts)"
proof (induction st k s arbitrary: ts s' rule: expr_loop.induct)
  case (1 st k s)
  from 1(2) show ?case
  proof (cases rule: scan_tokens_step)
    case (1 s1)
    then show ?thesis by (simp add: expr_loop.simps [of st k s])
  next
    case (2 t s1 ts1 s2)
    define r where "r = (if c_op (st ! k) = EXPR_TOP then top_step st k (t, tx s1) else value_step st k (t, tx s1))"
    show ?thesis
    proof (cases "c_op (st ! k) \<noteq> EXPR_TOP \<and> c_op (st ! k) \<noteq> EXPR_VALUE")
      case True
      then show ?thesis using 2 by (simp add: expr_loop.simps [of st k s])
    next
      case op: False
      have eq: "expr_loop st k s = (case r of Inl f \<Rightarrow> Inl f | Inr (Failed m st') \<Rightarrow> Inr (Failed m st')
            | Inr (Fine (st', k')) \<Rightarrow> expr_loop st' k' s1)"
          "expr_run st k (expr_tokens ts) = (case r of Inl f \<Rightarrow> Inl f | Inr (Failed m st') \<Rightarrow> Inr (Failed m st')
            | Inr (Fine (st', k')) \<Rightarrow> expr_run st' k' (expr_tokens ts1))"
        using op 2 by (auto simp: expr_loop.simps [of st k s] r_def)
      have "expr_loop st' k' s1 = expr_run st' k' (expr_tokens ts1)" if "r = Inr (Fine (st', k'))" for st' k'
        using 1(1) [OF op 2(1) refl 2(2) _ refl refl 2(4)] that by (simp add: r_def)
      then show ?thesis unfolding eq by (simp split: sum.split outcome.split)
    qed
  qed
qed

lemma Preprocessor_expr_tokens:
  "scan_tokens (scan_text s w 1 None) = Inr (ts, s') \<Longrightarrow> Preprocessor_expr_text st s w = Preprocessor_expr st ts"
  by (simp add: Preprocessor_expr_text_def Preprocessor_expr_def expr_loop_tokens)

section \<open>Texts of expressions\<close>

text \<open>How an expression is written: numbers and names, and operators in parentheses.\<close>

definition op_spelling :: "int \<Rightarrow> string" where
  "op_spelling t = the (map_of (map (\<lambda>(w, k). (k, w)) symbols) t)"

fun lexemes_of :: "pexpr \<Rightarrow> lexeme list" where
  "lexemes_of (Num w) = [Integer w []]"
| "lexemes_of (Ident w) = [Name w]"
| "lexemes_of (Unop t e) = [Symbol ''('', Symbol (op_spelling t)] @ lexemes_of e @ [Symbol '')'']"
| "lexemes_of (Binop t a b) =
     [Symbol ''(''] @ lexemes_of a @ [Symbol (op_spelling t)] @ lexemes_of b @ [Symbol '')'']"

fun names_ok :: "pexpr \<Rightarrow> bool" where
  "names_ok (Num w) = integer_digits w"
| "names_ok (Ident w) = lexeme_ok (Name w)"
| "names_ok (Unop t e) = names_ok e"
| "names_ok (Binop t a b) = (names_ok a \<and> names_ok b)"

text \<open>The evaluator does not look at the text of an operator.\<close>

definition plain_token :: "etoken \<Rightarrow> etoken" where
  "plain_token tok = (case tok of (t, w) \<Rightarrow> if t \<in> {18, 19, 20, 21, 10} then (t, w) else (t, []))"

lemma plain_steps:
  "top_step st k (plain_token tok) = top_step st k tok" "value_step st k (plain_token tok) = value_step st k tok"
proof -
  obtain t w where tok: "tok = (t, w)" by fastforce
  have "top_step st k (plain_token tok) = top_step st k tok \<and> value_step st k (plain_token tok) = value_step st k tok"
  proof (cases "t \<in> {18, 19, 20, 21, 10}")
    case True
    then show ?thesis by (simp add: plain_token_def tok)
  next
    case False
    then have "plain_token tok = (t, [])" "t \<notin> {18, 19, 20, 21}" "t \<noteq> TOK_STRING"
      by (auto simp: plain_token_def tok TOK_STRING_def)
    then show ?thesis by (simp only: tok top_step_def value_step_def prod.case if_False)
  qed
  then show "top_step st k (plain_token tok) = top_step st k tok" "value_step st k (plain_token tok) = value_step st k tok"
    by blast+
qed

lemma plain_run: "expr_run st k (map plain_token toks) = expr_run st k toks"
proof (induction toks arbitrary: st k)
  case (Cons tok toks)
  show ?case by (simp only: list.map expr_run.simps plain_steps Cons.IH)
qed simp

lemma plain_expr_tokens: "map plain_token (expr_tokens toks) = expr_tokens (map plain_token toks)"
proof -
  have "(\<lambda>(t, x). t \<notin> {8, 9, 31}) \<circ> plain_token = (\<lambda>(t, x). t \<notin> {8, 9, 31 :: int})"
    by (rule ext) (simp add: plain_token_def split: prod.split)
  then show ?thesis by (simp add: expr_tokens_def filter_map)
qed

lemma plain_Preprocessor_expr: "Preprocessor_expr st (map plain_token toks) = Preprocessor_expr st toks"
  by (simp add: Preprocessor_expr_def plain_run plain_expr_tokens [symmetric])

lemma op_spelling_ok:
  "t \<in> set binary_ops \<or> t \<in> {TOK_MINUS, TOK_NOT, TOK_LNOT} \<Longrightarrow> map_of symbols (op_spelling t) = Some t"
proof -
  have "list_all (\<lambda>t. map_of symbols (op_spelling t) = Some t) (binary_ops @ [TOK_MINUS, TOK_NOT, TOK_LNOT])"
    by code_simp
  then show "t \<in> set binary_ops \<or> t \<in> {TOK_MINUS, TOK_NOT, TOK_LNOT} \<Longrightarrow> ?thesis" by (auto simp: list_all_iff)
qed

lemma paren_symbols: "map_of symbols ''('' = Some 1" "map_of symbols '')'' = Some 2" "map_of int_suffixes [] = Some 18"
  by code_simp+

lemma plain_op: "t \<in> set binary_ops \<or> t \<in> {TOK_MINUS, TOK_NOT, TOK_LNOT} \<Longrightarrow> plain_token (t, w) = (t, [])"
  by (auto simp: plain_token_def binary_ops_def tok_defs)

lemma lexemes_written:
  "pexpr_ok e \<Longrightarrow> names_ok e \<Longrightarrow>
   list_all lexeme_ok (lexemes_of e) \<and>
   map plain_token (map token_of (lexemes_of e)) = map plain_token (tokens_of e)"
proof (induction e)
  case (Unop t e)
  then have "map_of symbols (op_spelling t) = Some t" by (intro op_spelling_ok) auto
  then show ?case using Unop paren_symbols plain_op [of t] by (auto simp: plain_token_def tok_defs)
next
  case (Binop t a b)
  then have "map_of symbols (op_spelling t) = Some t" by (intro op_spelling_ok) auto
  then show ?case using Binop paren_symbols plain_op [of t] by (auto simp: plain_token_def tok_defs)
qed (auto simp: paren_symbols plain_token_def tok_defs)

lemma text_is_tokens:
  assumes "pexpr_ok e" and "names_ok e" and "idstart s = None"
  shows "Preprocessor_expr_text st s (written (lexemes_of e)) = Preprocessor_expr st (tokens_of e)"
proof -
  have ok: "list_all lexeme_ok (lexemes_of e)"
      "map plain_token (map token_of (lexemes_of e)) = map plain_token (tokens_of e)"
    using lexemes_written [OF assms(1,2)] by blast+
  obtain s' where "scan_tokens (scan_text s (written (lexemes_of e)) 1 None) = Inr (map token_of (lexemes_of e), s')"
    using scan_written [OF ok(1) assms(3)] by blast
  then have "Preprocessor_expr_text st s (written (lexemes_of e)) = Preprocessor_expr st (map token_of (lexemes_of e))"
    by (rule Preprocessor_expr_tokens)
  also have "\<dots> = Preprocessor_expr st (map plain_token (map token_of (lexemes_of e)))"
    by (rule plain_Preprocessor_expr [symmetric])
  also have "\<dots> = Preprocessor_expr st (tokens_of e)" unfolding ok(2) by (rule plain_Preprocessor_expr)
  finally show ?thesis .
qed



section \<open>Any text\<close>

lemma expr_token_sound:
  "scan_inv s \<Longrightarrow> (case expr_token s of Inl f \<Rightarrow> f = Undefined | Inr (t, s') \<Rightarrow> scan_inv s')"
proof (induction s rule: expr_token.induct)
  case (1 s)
  have inv: "case Scanner_token (s\<lparr>nexttoken := -1\<rparr>) of Inl f \<Rightarrow> f = Undefined | Inr (t, s') \<Rightarrow> scan_inv s'"
    using 1(2) by (intro Scanner_token_sound) simp
  show ?case
  proof (cases "Scanner_token (s\<lparr>nexttoken := -1\<rparr>)")
    case (Inr y)
    obtain t s1 where y: "y = (t, s1)" by fastforce
    show ?thesis using 1(1) [OF Inr y [symmetric]] inv Inr y by (simp add: expr_token.simps [of s])
  qed (use inv in \<open>simp add: expr_token.simps [of s]\<close>)
qed

lemma expr_loop_good:
  "\<lbrakk>stack_inv st k; scan_inv s; k + 2 * remaining s < length st\<rbrakk> \<Longrightarrow>
   good (length st) (\<lambda>(st', v). length st' = length st) (expr_loop st k s)"
proof (induction st k s rule: expr_loop.induct)
  case (1 st k s)
  have op: "c_op (st ! k) = EXPR_TOP \<or> c_op (st ! k) = EXPR_VALUE" using 1(2) by (simp add: stack_inv_def)
  have tok: "case expr_token s of Inl f \<Rightarrow> f = Undefined | Inr (t, s') \<Rightarrow> scan_inv s'"
    using expr_token_sound [OF 1(3)] .
  show ?case
  proof (cases "expr_token s")
    case (Inl f)
    then show ?thesis using tok op by (simp add: expr_loop.simps [of st k s])
  next
    case (Inr y)
    obtain t s1 where y: "y = (t, s1)" by fastforce
    show ?thesis
    proof (cases "t = 0")
      case True
      then have "expr_loop st k s = expr_run st k []" using Inr y op by (auto simp: expr_loop.simps [of st k s])
      then show ?thesis using expr_run_good [OF 1(2), of "[]"] 1(4) by simp
    next
      case False
      define r where "r = (if c_op (st ! k) = EXPR_TOP then top_step st k (t, tx s1) else value_step st k (t, tx s1))"
      have less: "remaining s1 < remaining s" using expr_token_progress [of s t s1] Inr y False by simp
      have g: "good (length st) (step_inv (length st) (k + 2)) r"
      proof (cases "c_op (st ! k) = EXPR_TOP")
        case True
        then show ?thesis using top_step_good [OF 1(2) True, of "(t, tx s1)"] 1(4) less
          by (auto simp: r_def elim!: good_mono)
      next
        case False
        then show ?thesis using value_step_good [OF 1(2), of "(t, tx s1)"] 1(4) less op by (simp add: r_def)
      qed
      have eq: "expr_loop st k s = (case r of Inl f \<Rightarrow> Inl f | Inr (Failed m st') \<Rightarrow> Inr (Failed m st')
          | Inr (Fine (st', k')) \<Rightarrow> expr_loop st' k' s1)"
        using op Inr y False by (auto simp: expr_loop.simps [of st k s] r_def)
      show ?thesis
      proof (cases r)
        case r: (Inr out)
        show ?thesis
        proof (cases out)
          case (Fine z)
          then obtain st' k' where z: "out = Fine (st', k')" by (cases z) auto
          then have "stack_inv st' k'" "k' \<le> k + 2" "length st' = length st" using g r by auto
          moreover have "scan_inv s1" using tok Inr y by simp
          ultimately have "good (length st') (\<lambda>(st'', v). length st'' = length st') (expr_loop st' k' s1)"
            using 1(1) [OF _ Inr y [symmetric] False r [unfolded r_def] z refl] op 1(4) less by auto
          then show ?thesis using r z \<open>length st' = length st\<close> unfolding eq by simp
        qed (use g r eq in simp)
      qed (use g eq in simp)
    qed
  qed
qed



end
