(* ===== verification/ParseTree.thy ===== *)
theory ParseTree
  imports AttrMap "HOL-Library.AList"
begin

text \<open>
  The parse tree of Source/Swig/tree.c: nodes are attribute tables (\<open>AttrMap\<close> is their contract) that
  refer to each other by the attributes \<open>parentNode\<close>, \<open>firstChild\<close>, \<open>lastChild\<close>, \<open>nextSibling\<close> and
  \<open>previousSibling\<close> (swigtree.h). A table is a list of its attributes in the order in which it is
  iterated. An attribute is a string, another node, or the object \<open>DohNone\<close>, which a lookup gives as
  no attribute.
\<close>

section \<open>Attributes\<close>

datatype aval = Text string | Link nat | None_obj

type_synonym attrs = "(string \<times> aval) list"

definition Getattr :: "attrs \<Rightarrow> string \<Rightarrow> aval option" where
  "Getattr a k = (case map_of a k of Some None_obj \<Rightarrow> None | r \<Rightarrow> r)"

definition Delattr :: "attrs \<Rightarrow> string \<Rightarrow> attrs" where
  "Delattr a k = AList.delete k a"

text \<open>Setting an attribute to NULL deletes it.\<close>

definition Setattr :: "attrs \<Rightarrow> string \<Rightarrow> aval option \<Rightarrow> attrs" where
  "Setattr a k v = (case v of None \<Rightarrow> Delattr a k | Some x \<Rightarrow> AList.update k x a)"

abbreviation attrs_ok :: "attrs \<Rightarrow> bool" where "attrs_ok a \<equiv> distinct (map fst a)"

interpretation ta: attribute_map map_of "\<lambda>a k v. AList.update k v a" "\<lambda>a k. AList.delete k a" id attrs_ok
  by unfold_locales (auto simp: update_conv' delete_conv' distinct_update distinct_delete)

lemma Getattr_Setattr [simp]:
  "Getattr (Setattr a k v) l = (if k = l then (case v of Some None_obj \<Rightarrow> None | _ \<Rightarrow> v) else Getattr a l)"
  by (auto simp: Getattr_def Setattr_def Delattr_def update_conv' delete_conv' split: option.split aval.split)

lemma Getattr_Delattr [simp]: "Getattr (Delattr a k) l = (if k = l then None else Getattr a l)"
  by (simp add: Getattr_def Delattr_def delete_conv')

lemma attrs_ok_Setattr [simp]: "attrs_ok a \<Longrightarrow> attrs_ok (Setattr a k v)"
  by (auto simp: Setattr_def Delattr_def distinct_update distinct_delete split: option.split)

lemma attrs_ok_Delattr [simp]: "attrs_ok a \<Longrightarrow> attrs_ok (Delattr a k)"
  by (simp add: Delattr_def distinct_delete)

section \<open>Nodes and links\<close>

record node =
  attrs_of :: attrs
  node_file :: "string option"
  node_line :: int

type_synonym heap = "nat \<Rightarrow> node"

definition node_of :: "aval option \<Rightarrow> nat option" where
  "node_of v = (case v of Some (Link n) \<Rightarrow> Some n | _ \<Rightarrow> None)"

definition link :: "heap \<Rightarrow> nat \<Rightarrow> string \<Rightarrow> nat option" where
  "link h n k = node_of (Getattr (attrs_of (h n)) k)"

definition set_link :: "heap \<Rightarrow> nat \<Rightarrow> string \<Rightarrow> nat option \<Rightarrow> heap" where
  "set_link h n k m = h(n := (h n)\<lparr>attrs_of := Setattr (attrs_of (h n)) k (map_option Link m)\<rparr>)"

definition del_link :: "heap \<Rightarrow> nat \<Rightarrow> string \<Rightarrow> heap" where
  "del_link h n k = h(n := (h n)\<lparr>attrs_of := Delattr (attrs_of (h n)) k\<rparr>)"

abbreviation "parentNode h n \<equiv> link h n ''parentNode''"
abbreviation "firstChild h n \<equiv> link h n ''firstChild''"
abbreviation "lastChild h n \<equiv> link h n ''lastChild''"
abbreviation "nextSibling h n \<equiv> link h n ''nextSibling''"
abbreviation "previousSibling h n \<equiv> link h n ''previousSibling''"

lemma link_set_link [simp]:
  "link (set_link h n k m) n' k' = (if n = n' \<and> k = k' then m else link h n' k')"
  by (auto simp: link_def set_link_def node_of_def split: option.split)

lemma link_del_link [simp]:
  "link (del_link h n k) n' k' = (if n = n' \<and> k = k' then None else link h n' k')"
  by (auto simp: link_def del_link_def node_of_def)

section \<open>Operations\<close>

text \<open>
  The loop that sets the parent of a node and of those that follow it: the last one, and the tree. It
  takes as many rounds as there are siblings.
\<close>

fun adopt :: "nat \<Rightarrow> nat \<Rightarrow> nat \<Rightarrow> heap \<Rightarrow> (nat \<times> heap) res" where
  "adopt 0 p c h = Inl Hang"
| "adopt (Suc fuel) p c h =
     (let h1 = set_link h c ''parentNode'' (Some p)
      in case nextSibling h1 c of
           None \<Rightarrow> Inr (c, h1)
         | Some d \<Rightarrow> adopt fuel p d h1)"

definition appendChild :: "nat \<Rightarrow> heap \<Rightarrow> nat \<Rightarrow> nat option \<Rightarrow> heap res" where
  "appendChild fuel h p chd =
     (case chd of
        None \<Rightarrow> Inr h
      | Some c \<Rightarrow>
          let h1 = (case lastChild h p of
                      None \<Rightarrow> set_link h p ''firstChild'' (Some c)
                    | Some l \<Rightarrow> set_link (set_link h l ''nextSibling'' (Some c)) c ''previousSibling'' (Some l))
          in rbind (adopt fuel p c h1) (\<lambda>(l, h2). Inr (set_link h2 p ''lastChild'' (Some l))))"

definition prependChild :: "nat \<Rightarrow> heap \<Rightarrow> nat \<Rightarrow> nat option \<Rightarrow> heap res" where
  "prependChild fuel h p chd =
     (case chd of
        None \<Rightarrow> Inr h
      | Some c \<Rightarrow>
          let h1 = (case firstChild h p of
                      None \<Rightarrow> h
                    | Some f \<Rightarrow> set_link (set_link h c ''nextSibling'' (Some f)) f ''previousSibling'' (Some c));
              h2 = set_link h1 p ''firstChild'' (Some c)
          in rbind (adopt fuel p c h2) (\<lambda>(l, h3). Inr h3))"

definition removeNode :: "heap \<Rightarrow> nat \<Rightarrow> heap" where
  "removeNode h n =
     (case parentNode h n of
        None \<Rightarrow> h
      | Some p \<Rightarrow>
          let prev = previousSibling h n; next = nextSibling h n;
              h1 = (case prev of Some q \<Rightarrow> set_link h q ''nextSibling'' next
                    | None \<Rightarrow> set_link h p ''firstChild'' next);
              h2 = (case next of Some q \<Rightarrow> set_link h1 q ''previousSibling'' prev
                    | None \<Rightarrow> set_link h1 p ''lastChild'' prev)
          in del_link (del_link (del_link h2 n ''parentNode'') n ''nextSibling'') n ''prevSibling'')"

text \<open>A copy has the strings only; the file and line too. \<open>c\<close> is the new node.\<close>

definition copy_strings :: "attrs \<Rightarrow> attrs" where
  "copy_strings a = fold (\<lambda>(k, v) b. case v of Text s \<Rightarrow> Setattr b k (Some (Text s)) | _ \<Rightarrow> b) a []"

definition copyNode :: "heap \<Rightarrow> nat \<Rightarrow> nat \<Rightarrow> heap" where
  "copyNode h c n = h(c := \<lparr>attrs_of = copy_strings (attrs_of (h n)), node_file = node_file (h n), node_line = node_line (h n)\<rparr>)"

definition checkAttribute :: "attrs \<Rightarrow> string \<Rightarrow> string \<Rightarrow> bool" where
  "checkAttribute a k v = (case Getattr a k of Some (Text w) \<Rightarrow> w = v | _ \<Rightarrow> False)"

section \<open>Views of a node\<close>

definition view_key :: "string \<Rightarrow> string \<Rightarrow> string" where
  "view_key ns k = ns @ '':'' @ k"

text \<open>The mark of a name and the name: \<open>*\<close> asks for a copy, \<open>?\<close> for one of an attribute that may be missing.\<close>

fun marked :: "string \<Rightarrow> bool \<times> bool \<times> string" where
  "marked (c # k) =
     (if c = CHR ''*'' then (True, False, k) else if c = CHR ''?'' then (True, True, k) else (False, False, c # k))"
| "marked [] = (False, False, [])"

definition saved :: "aval option \<Rightarrow> aval option" where
  "saved v = (case v of None \<Rightarrow> Some None_obj | _ \<Rightarrow> v)"

text \<open>What \<open>Swig_require\<close> and \<open>Swig_save\<close> end with.\<close>

definition save_view :: "string \<Rightarrow> attrs \<Rightarrow> attrs" where
  "save_view ns a =
     (case Getattr a ''view'' of
        Some v \<Rightarrow>
          if v \<noteq> Text ns then Setattr (Setattr a (view_key ns ''view'') (Some v)) ''view'' (Some (Text ns)) else a
      | None \<Rightarrow> Setattr a ''view'' (Some (Text ns)))"

fun require_loop :: "string \<Rightarrow> string list \<Rightarrow> attrs \<Rightarrow> attrs res" where
  "require_loop ns [] a = Inr a"
| "require_loop ns (m # ms) a =
     (case marked m of (newref, opt, k) \<Rightarrow>
        if \<not> opt \<and> Getattr a k = None then Inl Assertion
        else require_loop ns ms (if newref then Setattr a (view_key ns k) (saved (Getattr a k)) else a))"

definition Swig_require :: "string \<Rightarrow> attrs \<Rightarrow> string list \<Rightarrow> attrs res" where
  "Swig_require ns a ms = rbind (require_loop ns ms a) (\<lambda>b. Inr (save_view ns b))"

definition bare :: "string \<Rightarrow> string" where
  "bare m = snd (snd (marked m))"

definition Swig_save :: "string \<Rightarrow> attrs \<Rightarrow> string list \<Rightarrow> attrs" where
  "Swig_save ns a ms =
     save_view ns (fold (\<lambda>m b. Setattr b (view_key ns (bare m)) (saved (Getattr b (bare m)))) ms a)"

definition Swig_restore :: "attrs \<Rightarrow> attrs res" where
  "Swig_restore a =
     (case Getattr a ''view'' of
        Some (Text ns) \<Rightarrow>
          let keys = filter (starts_with (ns @ '':'')) (map fst a)
          in Inr (fold (\<lambda>k b. Delattr (Setattr b (drop (length ns + 1) k) (Getattr b k)) k) keys a)
      | Some _ \<Rightarrow> Inl Undefined
      | None \<Rightarrow> Inl Assertion)"

end
