(* ===== verification/TreeSpec.thy ===== *)
theory TreeSpec
  imports ParseTree
begin

text \<open>
  What Source/Swig/tree.c promises: the links of a node and its children are those of a list, which
  the operations extend and cut; and a view of a node gives its attributes back.
\<close>

section \<open>Lists of siblings\<close>

text \<open>A run of siblings from \<open>x\<close> on: each is followed by the next and knows the one before it.\<close>

fun run :: "heap \<Rightarrow> nat option \<Rightarrow> nat list \<Rightarrow> nat option \<Rightarrow> bool" where
  "run h prev [] next = True"
| "run h prev (n # ns) next \<longleftrightarrow>
     previousSibling h n = prev \<and> nextSibling h n = (case ns of [] \<Rightarrow> next | m # _ \<Rightarrow> Some m) \<and> run h (Some n) ns next"

definition head :: "'a list \<Rightarrow> 'a option" where
  "head xs = (case xs of [] \<Rightarrow> None | x # _ \<Rightarrow> Some x)"

definition final :: "'a list \<Rightarrow> 'a option" where
  "final xs = (if xs = [] then None else Some (last xs))"

lemma head_simps [simp]: "head [] = None" "head (x # xs) = Some x"
  by (simp_all add: head_def)

lemma head_append [simp]: "head (xs @ x # ys) = (if xs = [] then Some x else head xs)"
  by (cases xs) auto

lemma head_append_ne [simp]: "xs \<noteq> [] \<Longrightarrow> head (xs @ ys) = head xs"
  by (cases xs) auto

lemma final_simps [simp]: "final [] = None" "final (xs @ [x]) = Some x" "ys \<noteq> [] \<Longrightarrow> final (xs @ ys) = final ys"
  by (simp_all add: final_def)

text \<open>The children of \<open>p\<close> are \<open>ns\<close>, in this order.\<close>

definition children :: "heap \<Rightarrow> nat \<Rightarrow> nat list \<Rightarrow> bool" where
  "children h p ns \<longleftrightarrow> distinct ns \<and> p \<notin> set ns \<and> firstChild h p = head ns \<and> lastChild h p = final ns \<and>
     run h None ns None \<and> (\<forall>n\<in>set ns. parentNode h n = Some p)"

lemma run_append:
  "run h prev (xs @ ys) next \<longleftrightarrow>
   run h prev xs (if ys = [] then next else head ys) \<and> run h (if xs = [] then prev else final xs) ys next"
proof (induction xs arbitrary: prev)
  case Nil
  then show ?case by (cases ys) auto
next
  case (Cons x xs)
  then show ?case by (cases xs; cases ys) (auto simp: final_def)
qed

text \<open>What a run depends on.\<close>

lemma run_cong:
  "\<lbrakk>\<And>n. n \<in> set ns \<Longrightarrow> nextSibling h' n = nextSibling h n \<and> previousSibling h' n = previousSibling h n\<rbrakk> \<Longrightarrow>
   run h' prev ns next = run h prev ns next"
  by (induction ns arbitrary: prev) auto

lemma run_kept:
  "\<lbrakk>run h prev ns next; \<And>n. n \<in> set ns \<Longrightarrow> nextSibling h' n = nextSibling h n;
    \<And>n. n \<in> set ns \<Longrightarrow> previousSibling h' n = previousSibling h n\<rbrakk> \<Longrightarrow> run h' prev ns next"
  using run_cong by blast

lemma run_other:
  "n \<notin> set ns \<or> k \<notin> {''nextSibling'', ''previousSibling''} \<Longrightarrow> run (set_link h n k m) prev ns next = run h prev ns next"
  by (rule run_cong) auto

lemma run_set_prev:
  assumes "run h prev (c # cs) next" and "c \<notin> set cs"
  shows "run (set_link h c ''previousSibling'' q) q (c # cs) next"
  using assms run_other [of c cs] by simp

lemma run_set_next:
  assumes "run h prev (xs @ [l]) next" and "l \<notin> set xs"
  shows "run (set_link h l ''nextSibling'' m) prev (xs @ [l]) m"
  using assms run_other [of l xs] by (simp add: run_append)

text \<open>The loop over the siblings.\<close>

lemma adopt_run:
  "\<lbrakk>run h prev (c # cs) None; length cs < fuel; distinct (c # cs)\<rbrakk> \<Longrightarrow>
   \<exists>h'. adopt fuel p c h = Inr (last (c # cs), h') \<and>
     (\<forall>n k. link h' n k = (if n \<in> set (c # cs) \<and> k = ''parentNode'' then Some p else link h n k))"
proof (induction cs arbitrary: fuel c h prev)
  case Nil
  then show ?case by (cases fuel) (auto simp: Let_def)
next
  case (Cons d cs)
  obtain f where f: "fuel = Suc f" using Cons.prems(2) by (cases fuel) auto
  define h1 where "h1 = set_link h c ''parentNode'' (Some p)"
  have "run h1 (Some c) (d # cs) None"
    using Cons.prems(1) by (subst run_cong [of _ _ h]) (auto simp: h1_def)
  then obtain h' where h': "adopt f p d h1 = Inr (last (d # cs), h')"
      "\<forall>n k. link h' n k = (if n \<in> set (d # cs) \<and> k = ''parentNode'' then Some p else link h1 n k)"
    using Cons.IH [of h1 "Some c" d f] Cons.prems(2,3) f by auto
  have "nextSibling h1 c = Some d" using Cons.prems(1) by (simp add: h1_def)
  then have "adopt fuel p c h = Inr (last (c # d # cs), h')" using h'(1) by (simp add: f h1_def [symmetric] Let_def)
  moreover have "\<forall>n k. link h' n k = (if n \<in> set (c # d # cs) \<and> k = ''parentNode'' then Some p else link h n k)"
    using h'(2) by (auto simp: h1_def)
  ultimately show ?case by blast
qed

lemma children_frame:
  assumes "children h q ms"
    and "\<And>n k. n \<in> insert q (set ms) \<Longrightarrow> k \<in> {''parentNode'', ''firstChild'', ''lastChild'', ''nextSibling'', ''previousSibling''} \<Longrightarrow>
      link h' n k = link h n k \<or> n = q \<and> k \<notin> {''firstChild'', ''lastChild''} \<or> n \<in> set ms \<and> k \<in> {''firstChild'', ''lastChild''}"
  shows "children h' q ms"
proof -
  have q: "q \<notin> set ms" using assms(1) by (simp add: children_def)
  have "nextSibling h' n = nextSibling h n \<and> previousSibling h' n = previousSibling h n \<and> parentNode h' n = parentNode h n"
    if "n \<in> set ms" for n
    using assms(2) [of n "''nextSibling''"] assms(2) [of n "''previousSibling''"] assms(2) [of n "''parentNode''"] that q by auto
  moreover have "firstChild h' q = firstChild h q" "lastChild h' q = lastChild h q"
    using assms(2) [of q "''firstChild''"] assms(2) [of q "''lastChild''"] q by auto
  ultimately show ?thesis using assms(1) run_cong [of ms h' h None None] by (auto simp: children_def)
qed

section \<open>The operations on lists of children\<close>

definition others_kept :: "heap \<Rightarrow> heap \<Rightarrow> nat \<Rightarrow> nat list \<Rightarrow> bool" where
  "others_kept h h' p ns \<longleftrightarrow> (\<forall>q ms. q \<noteq> p \<and> set ms \<inter> set ns = {} \<and> children h q ms \<longrightarrow> children h' q ms)"

text \<open>The links an operation may change are those of the list it changes and of its parent.\<close>

definition only_links :: "heap \<Rightarrow> heap \<Rightarrow> nat list \<Rightarrow> bool" where
  "only_links h h' ns \<longleftrightarrow>
     (\<forall>n k. n \<notin> set ns \<longrightarrow> k \<in> {''parentNode'', ''nextSibling'', ''previousSibling''} \<longrightarrow> link h' n k = link h n k)"

lemma others_keptI:
  assumes "only_links h h' ns"
    and "\<And>n k. n \<noteq> p \<Longrightarrow> k \<in> {''firstChild'', ''lastChild''} \<Longrightarrow> link h' n k = link h n k"
  shows "others_kept h h' p ns"
  unfolding others_kept_def
proof (intro allI impI, elim conjE)
  fix q ms assume q: "q \<noteq> p" "set ms \<inter> set ns = {}" "children h q ms"
  have "nextSibling h' n = nextSibling h n \<and> previousSibling h' n = previousSibling h n \<and> parentNode h' n = parentNode h n"
    if "n \<in> set ms" for n
    using assms(1) that q(2) by (auto simp: only_links_def)
  moreover have "firstChild h' q = firstChild h q" "lastChild h' q = lastChild h q"
    using assms(2) [OF q(1)] by auto
  ultimately show "children h' q ms" using q(3) run_cong [of ms h' h None None] by (auto simp: children_def)
qed

lemma appendChild_children:
  assumes "children h p ns" and "distinct (c # cs)" "run h q (c # cs) None" and "ns = [] \<Longrightarrow> q = None"
    and "set ns \<inter> set (c # cs) = {}" and "p \<notin> set (c # cs)" and "length cs < fuel"
  shows "\<exists>h'. appendChild fuel h p (Some c) = Inr h' \<and> children h' p (ns @ c # cs) \<and>
    others_kept h h' p (ns @ c # cs) \<and> only_links h h' (ns @ c # cs)"
proof -
  define h1 where "h1 = (case lastChild h p of
                      None \<Rightarrow> set_link h p ''firstChild'' (Some c)
                    | Some l \<Rightarrow> set_link (set_link h l ''nextSibling'' (Some c)) c ''previousSibling'' (Some l))"
  have ns: "distinct ns" "p \<notin> set ns" "firstChild h p = head ns" "lastChild h p = final ns" "run h None ns None"
      "\<forall>n\<in>set ns. parentNode h n = Some p"
    using assms(1) by (simp_all add: children_def)
  note cs = assms(2,3)
  have runs: "run h1 None (ns @ c # cs) None" "firstChild h1 p = head (ns @ c # cs)"
  proof -
    show "firstChild h1 p = head (ns @ c # cs)"
      using ns(3,4) by (cases ns rule: rev_cases) (auto simp: h1_def)
    show "run h1 None (ns @ c # cs) None"
    proof (cases ns rule: rev_cases)
      case Nil
      then show ?thesis using ns(4) cs(2) assms(4) by (simp add: h1_def run_other)
    next
      case (snoc xs l)
      define h0 where "h0 = set_link h l ''nextSibling'' (Some c)"
      have h1: "h1 = set_link h0 c ''previousSibling'' (Some l)" using ns(4) snoc by (simp add: h1_def h0_def)
      have "run h0 None ns (Some c)" using run_set_next [of h None xs l None "Some c"] ns(1,5) snoc by (simp add: h0_def)
      then have "run h1 None ns (Some c)" using assms(5) run_other [of c ns] by (simp add: h1)
      moreover have "run h0 q (c # cs) None" using cs(2) assms(5) snoc run_other [of l "c # cs" "''nextSibling''" h "Some c" q None]
        unfolding h0_def by (metis UnCI disjoint_iff list.set_intros(1) set_append)
      then have "run h1 (Some l) (c # cs) None" using run_set_prev [of h0 q c cs] cs(1) by (simp add: h1)
      ultimately show ?thesis using snoc by (simp add: run_append final_def)
    qed
  qed
  have last: "run h1 (final ns) (c # cs) None" using runs(1) by (auto simp: run_append final_def split: if_splits)
  obtain h2 where h2: "adopt fuel p c h1 = Inr (last (c # cs), h2)"
      "\<forall>n k. link h2 n k = (if n \<in> set (c # cs) \<and> k = ''parentNode'' then Some p else link h1 n k)"
    using adopt_run [OF last assms(7) cs(1)] by blast
  define h' where "h' = set_link h2 p ''lastChild'' (Some (last (c # cs)))"
  have keep: "link h' n k = link h1 n k" if "k \<noteq> ''parentNode''" "k \<noteq> ''lastChild''" for n k
    using that h2(2) by (simp add: h'_def)
  have par: "parentNode h' n = (if n \<in> set (c # cs) then Some p else parentNode h n)" for n
    using h2(2) by (auto simp: h'_def h1_def split: option.split)
  have "run h' None (ns @ c # cs) None" using runs(1) keep run_cong [of "ns @ c # cs" h' h1] by simp
  moreover have "firstChild h' p = head (ns @ c # cs)" "lastChild h' p = final (ns @ c # cs)"
    using keep runs(2) by (simp_all add: h'_def final_def)
  ultimately have "children h' p (ns @ c # cs)"
    using ns cs(1) assms(5,6) par by (auto simp: children_def)
  moreover have links: "only_links h h' (ns @ c # cs)"
    using ns(4) par keep by (cases ns rule: rev_cases) (auto simp: only_links_def h1_def)
  moreover have "others_kept h h' p (ns @ c # cs)"
  proof (rule others_keptI [OF links])
    show "link h' n k = link h n k" if "n \<noteq> p" "k \<in> {''firstChild'', ''lastChild''}" for n k
      using that h2(2) by (auto simp: h'_def h1_def split: option.split)
  qed
  moreover have "appendChild fuel h p (Some c) = Inr h'"
    using h2(1) by (simp add: appendChild_def h1_def [symmetric] h'_def)
  ultimately show ?thesis by blast
qed

lemma prependChild_children:
  assumes "children h p (n # ns)" and "run h None [c] q" and "c \<notin> set (n # ns)" and "p \<noteq> c" and "length (n # ns) < fuel"
  shows "\<exists>h'. prependChild fuel h p (Some c) = Inr h' \<and> children h' p (c # n # ns) \<and>
    others_kept h h' p (c # n # ns) \<and> only_links h h' (c # n # ns)"
proof -
  define h0 where "h0 = set_link h c ''nextSibling'' (Some n)"
  define h1 where "h1 = set_link h0 n ''previousSibling'' (Some c)"
  define h2 where "h2 = set_link h1 p ''firstChild'' (Some c)"
  have ns: "distinct (n # ns)" "p \<notin> set (n # ns)" "firstChild h p = Some n" "lastChild h p = final (n # ns)"
      "run h None (n # ns) None" "\<forall>m\<in>set (n # ns). parentNode h m = Some p" and c: "previousSibling h c = None"
    using assms(1,2) by (simp_all add: children_def)
  have "run h0 None (n # ns) None" using ns(5) run_other [of c "n # ns" "''nextSibling''" h "Some n" None None] assms(3)
    by (simp only: h0_def) blast
  then have "run h1 (Some c) (n # ns) None" using run_set_prev [of h0 None n ns] ns(1) by (simp add: h1_def)
  moreover have "previousSibling h1 c = None" "nextSibling h1 c = Some n"
    using c assms(3) by (auto simp: h1_def h0_def)
  ultimately have run: "run h2 None (c # n # ns) None" by (simp add: h2_def run_other)
  obtain h' where h': "adopt fuel p c h2 = Inr (last (c # n # ns), h')"
      "\<forall>m k. link h' m k = (if m \<in> set (c # n # ns) \<and> k = ''parentNode'' then Some p else link h2 m k)"
  proof -
    have d: "distinct (c # n # ns)" using ns(1) assms(3) by auto
    show thesis using adopt_run [OF run assms(5) d, of p] that by blast
  qed
  have "run h' None (c # n # ns) None" by (rule run_kept [OF run]) (simp_all add: h'(2))
  then have "children h' p (c # n # ns)"
    using ns assms(3,4) h'(2) by (auto simp: children_def h2_def h1_def h0_def final_def)
  moreover have links: "only_links h h' (c # n # ns)"
    using h'(2) by (auto simp: only_links_def h2_def h1_def h0_def)
  moreover have "others_kept h h' p (c # n # ns)"
    by (rule others_keptI [OF links]) (use h'(2) in \<open>auto simp: h2_def h1_def h0_def\<close>)
  moreover have "prependChild fuel h p (Some c) = Inr h'"
    using h'(1) ns(3) by (simp add: prependChild_def h2_def h1_def h0_def Let_def)
  ultimately show ?thesis by blast
qed

lemma removeNode_children:
  assumes "children h p (xs @ n # ys)"
  shows "children (removeNode h n) p (xs @ ys) \<and> others_kept h (removeNode h n) p (xs @ n # ys) \<and>
    only_links h (removeNode h n) (xs @ n # ys) \<and> parentNode (removeNode h n) n = None \<and>
    nextSibling (removeNode h n) n = None \<and> previousSibling (removeNode h n) n = previousSibling h n"
proof -
  have d: "distinct (xs @ n # ys)" "p \<notin> set (xs @ n # ys)" "firstChild h p = head (xs @ n # ys)"
      "lastChild h p = final (xs @ n # ys)" "run h None (xs @ n # ys) None" "parentNode h n = Some p"
      "\<forall>m\<in>set (xs @ n # ys). parentNode h m = Some p"
    using assms by (simp_all add: children_def)
  have prev: "previousSibling h n = final xs" and nxt: "nextSibling h n = head ys"
    and rx: "run h None xs (Some n)" and ry: "run h (Some n) ys None"
    using d(5) by (auto simp: run_append head_def split: list.splits if_splits)
  define h1 where "h1 = (case final xs of Some q \<Rightarrow> set_link h q ''nextSibling'' (head ys)
                    | None \<Rightarrow> set_link h p ''firstChild'' (head ys))"
  define h2 where "h2 = (case head ys of Some q \<Rightarrow> set_link h1 q ''previousSibling'' (final xs)
                    | None \<Rightarrow> set_link h1 p ''lastChild'' (final xs))"
  define h' where "h' = removeNode h n"
  have h': "h' = del_link (del_link (del_link h2 n ''parentNode'') n ''nextSibling'') n ''prevSibling''"
    using d(6) prev nxt unfolding h'_def removeNode_def h2_def h1_def by (simp add: Let_def)
  have rx1: "run h1 None xs (head ys)"
  proof (cases xs rule: rev_cases)
    case (snoc zs q)
    then show ?thesis using run_set_next [of h None zs q "Some n" "head ys"] rx d(1) by (simp add: h1_def)
  qed simp
  have ry1: "run h1 (Some n) ys None"
  proof (cases xs rule: rev_cases)
    case (snoc zs q)
    then show ?thesis using ry d(1) run_other [of q ys _ h] by (simp add: h1_def)
  qed (use ry in \<open>simp add: h1_def run_other\<close>)
  have rx2: "run h2 None xs (head ys)"
    using rx1 d(1) by (cases ys) (auto simp: h2_def run_other)
  have ry2: "run h2 (final xs) ys None"
  proof (cases ys)
    case (Cons y zs)
    then show ?thesis using run_set_prev [of h1 "Some n" y zs None "final xs"] ry1 d(1) by (simp add: h2_def)
  qed simp
  have "run h' None (xs @ ys) None"
  proof -
    have "run h2 None (xs @ ys) None" using rx2 ry2 by (auto simp: run_append final_def)
    then show ?thesis by (rule run_kept) (use d(1) in \<open>auto simp: h'\<close>)
  qed
  moreover have "firstChild h' p = head (xs @ ys)"
    using d(3) by (cases xs rule: rev_cases; cases ys) (auto simp: h' h2_def h1_def split: if_splits)
  moreover have "lastChild h' p = final (xs @ ys)"
    using d(4) by (cases xs rule: rev_cases; cases ys) (auto simp: h' h2_def h1_def final_def split: list.splits)
  moreover have "parentNode h' m = parentNode h m" if "m \<noteq> n" for m
    using that by (auto simp: h' h2_def h1_def split: option.split)
  then have "\<forall>m\<in>set (xs @ ys). parentNode h' m = Some p" using d(1,7) by fastforce
  ultimately have "children h' p (xs @ ys)" using d(1,2) by (simp add: children_def)
  moreover have links: "only_links h h' (xs @ n # ys)"
    by (cases xs rule: rev_cases; cases ys) (auto simp: only_links_def h' h2_def h1_def)
  moreover have "others_kept h h' p (xs @ n # ys)"
  proof (rule others_keptI [OF links])
    show "link h' m k = link h m k" if "m \<noteq> p" "k \<in> {''firstChild'', ''lastChild''}" for m k
      using that by (auto simp: h' h2_def h1_def split: option.split)
  qed
  moreover have "parentNode h' n = None" "nextSibling h' n = None" by (simp_all add: h')
  moreover have "previousSibling h' n = previousSibling h n"
    using d(1,2) by (cases xs rule: rev_cases; cases ys) (auto simp: h' h2_def h1_def)
  ultimately show ?thesis by (simp add: h'_def)
qed

section \<open>Forests\<close>

text \<open>
  A forest gives every node its children, its parent, and whether it is stale: a removed node that was
  not a first child keeps its previous sibling.
\<close>

record forest =
  kids :: "nat \<Rightarrow> nat list"
  up :: "nat \<Rightarrow> nat option"
  stale :: "nat \<Rightarrow> bool"

datatype tree_op = Append_op nat nat | Prepend_op nat nat | Remove_op nat

fun tree_exec :: "nat \<Rightarrow> tree_op list \<Rightarrow> heap \<Rightarrow> heap res" where
  "tree_exec fuel [] h = Inr h"
| "tree_exec fuel (Append_op p c # ops) h = rbind (appendChild fuel h p (Some c)) (tree_exec fuel ops)"
| "tree_exec fuel (Prepend_op p c # ops) h = rbind (prependChild fuel h p (Some c)) (tree_exec fuel ops)"
| "tree_exec fuel (Remove_op n # ops) h = tree_exec fuel ops (removeNode h n)"

text \<open>What the operations mean, where they have a meaning.\<close>

fun forest_op :: "tree_op \<Rightarrow> forest \<Rightarrow> forest option" where
  "forest_op (Append_op p c) F =
     (if c \<noteq> p \<and> up F c = None \<and> (kids F p \<noteq> [] \<or> \<not> stale F c)
      then Some \<lparr>kids = (kids F)(p := kids F p @ [c]), up = (up F)(c := Some p), stale = (stale F)(c := False)\<rparr>
      else None)"
| "forest_op (Prepend_op p c) F =
     (if c \<noteq> p \<and> up F c = None \<and> kids F p \<noteq> [] \<and> \<not> stale F c
      then Some \<lparr>kids = (kids F)(p := c # kids F p), up = (up F)(c := Some p), stale = (stale F)(c := False)\<rparr>
      else None)"
| "forest_op (Remove_op n) F =
     (case up F n of
        None \<Rightarrow> Some F
      | Some p \<Rightarrow> Some \<lparr>kids = (kids F)(p := remove1 n (kids F p)), up = (up F)(n := None),
          stale = (stale F)(n := (head (kids F p) \<noteq> Some n))\<rparr>)"

fun forest_run :: "tree_op list \<Rightarrow> forest \<Rightarrow> forest option" where
  "forest_run [] F = Some F"
| "forest_run (s # ops) F = (case forest_op s F of None \<Rightarrow> None | Some G \<Rightarrow> forest_run ops G)"

definition no_trees :: forest where
  "no_trees = \<lparr>kids = (\<lambda>_. []), up = (\<lambda>_. None), stale = (\<lambda>_. False)\<rparr>"

definition implements :: "heap \<Rightarrow> forest \<Rightarrow> bool" where
  "implements h F \<longleftrightarrow>
     (\<forall>p. children h p (kids F p)) \<and>
     (\<forall>n p. up F n = Some p \<longleftrightarrow> n \<in> set (kids F p)) \<and>
     (\<forall>n. up F n = None \<longrightarrow>
        parentNode h n = None \<and> nextSibling h n = None \<and> (\<not> stale F n \<longrightarrow> previousSibling h n = None))"

lemma implements_kids: "implements h F \<Longrightarrow> children h p (kids F p)"
  by (simp add: implements_def)

lemma implements_up: "implements h F \<Longrightarrow> up F n = Some p \<longleftrightarrow> n \<in> set (kids F p)"
  by (simp add: implements_def)

lemma implements_disjoint: "implements h F \<Longrightarrow> p \<noteq> q \<Longrightarrow> set (kids F p) \<inter> set (kids F q) = {}"
  by (metis disjoint_iff implements_up option.inject)

lemma implements_free:
  "implements h F \<Longrightarrow> up F n = None \<Longrightarrow>
   parentNode h n = None \<and> nextSibling h n = None \<and> (\<not> stale F n \<longrightarrow> previousSibling h n = None)"
  by (simp add: implements_def)

lemma implements_step:
  assumes "implements h F" and "children h' p ns" and "others_kept h h' p ms" and "only_links h h' ms"
    and "set (kids F p) \<subseteq> set ms" and "\<And>q. q \<noteq> p \<Longrightarrow> set (kids F q) \<inter> set ms = {}"
    and "kids G = (kids F)(p := ns)"
    and "\<And>n. up G n = (if n \<in> set ns then Some p else if n \<in> set ms then None else up F n)"
    and "\<And>n. n \<in> set ms - set ns \<Longrightarrow>
      parentNode h' n = None \<and> nextSibling h' n = None \<and> (\<not> stale G n \<longrightarrow> previousSibling h' n = None)"
    and "\<And>n. n \<notin> set ms \<Longrightarrow> stale G n = stale F n" and "set ns \<subseteq> set ms"
  shows "implements h' G"
  unfolding implements_def
proof (intro conjI allI impI)
  fix q show "children h' q (kids G q)"
    using assms(1,2,3,6,7) implements_kids [OF assms(1), of q] by (auto simp: others_kept_def)
next
  fix n q show "up G n = Some q \<longleftrightarrow> n \<in> set (kids G q)"
    using assms(5,6,7,8,11) implements_up [OF assms(1), of n q] implements_up [OF assms(1), of n p] by auto
next
  fix n assume up: "up G n = None"
  have "n \<in> set ms - set ns \<or> n \<notin> set ms \<and> up F n = None" using up assms(8,11) by (auto split: if_splits)
  then show "parentNode h' n = None" "nextSibling h' n = None"
    using assms(4,9) implements_free [OF assms(1), of n] unfolding only_links_def by auto
  assume "\<not> stale G n"
  then show "previousSibling h' n = None"
    using \<open>n \<in> set ms - set ns \<or> _\<close> assms(4,9,10) implements_free [OF assms(1), of n] unfolding only_links_def by auto
qed

lemma implements_insert:
  assumes "implements h F" and "children h' p ns" and "others_kept h h' p ns" and "only_links h h' ns"
    and "set ns = insert c (set (kids F p))" and "up F c = None"
  shows "implements h' \<lparr>kids = (kids F)(p := ns), up = (up F)(c := Some p), stale = (stale F)(c := False)\<rparr>"
proof (rule implements_step [OF assms(1-4)])
  show "set (kids F q) \<inter> set ns = {}" if "q \<noteq> p" for q
    using implements_disjoint [OF assms(1) that] implements_up [OF assms(1), of c q] assms(5,6) by auto
qed (use assms(5,6) implements_up [OF assms(1), of _ p] in auto)

lemma tree_append:
  assumes "implements h F" and "forest_op (Append_op p c) F = Some G" and "0 < fuel"
  shows "\<exists>h'. appendChild fuel h p (Some c) = Inr h' \<and> implements h' G"
proof -
  have g: "c \<noteq> p" "up F c = None" "kids F p \<noteq> [] \<or> \<not> stale F c"
    and G: "G = \<lparr>kids = (kids F)(p := kids F p @ [c]), up = (up F)(c := Some p), stale = (stale F)(c := False)\<rparr>"
    using assms(2) by (simp_all split: if_splits)
  have c: "nextSibling h c = None" "\<not> stale F c \<Longrightarrow> previousSibling h c = None" "c \<notin> set (kids F p)"
    using implements_free [OF assms(1) g(2)] implements_up [OF assms(1), of c p] g(2) by auto
  obtain h' where h': "appendChild fuel h p (Some c) = Inr h'" "children h' p (kids F p @ [c])"
      "others_kept h h' p (kids F p @ [c])" "only_links h h' (kids F p @ [c])"
    using appendChild_children [OF implements_kids [OF assms(1), of p], of c "[]" "previousSibling h c" fuel] c g assms(3)
    by auto
  have "implements h' G" unfolding G by (rule implements_insert [OF assms(1) h'(2-4) _ g(2)]) simp
  with h'(1) show ?thesis by blast
qed

lemma tree_prepend:
  assumes "implements h F" and "forest_op (Prepend_op p c) F = Some G" and "length (kids F p) < fuel"
  shows "\<exists>h'. prependChild fuel h p (Some c) = Inr h' \<and> implements h' G"
proof -
  have g: "c \<noteq> p" "up F c = None" "kids F p \<noteq> []" "\<not> stale F c"
    and G: "G = \<lparr>kids = (kids F)(p := c # kids F p), up = (up F)(c := Some p), stale = (stale F)(c := False)\<rparr>"
    using assms(2) by (simp_all split: if_splits)
  obtain n ns where ns: "kids F p = n # ns" using g(3) by (cases "kids F p") auto
  have c: "previousSibling h c = None" "c \<notin> set (kids F p)"
    using implements_free [OF assms(1) g(2)] implements_up [OF assms(1), of c p] g(2,4) by auto
  have run: "run h None [c] (nextSibling h c)" using c(1) by simp
  obtain h' where h': "prependChild fuel h p (Some c) = Inr h'" "children h' p (c # n # ns)"
      "others_kept h h' p (c # n # ns)" "only_links h h' (c # n # ns)"
    using prependChild_children [OF implements_kids [OF assms(1), of p, unfolded ns] run] c(2) g(1) assms(3) ns by auto
  have "implements h' G" unfolding G ns by (rule implements_insert [OF assms(1) h'(2-4) _ g(2)]) (simp add: ns)
  with h'(1) show ?thesis by blast
qed

lemma tree_remove:
  assumes "implements h F" and "forest_op (Remove_op n) F = Some G"
  shows "implements (removeNode h n) G"
proof (cases "up F n")
  case None
  then have "removeNode h n = h" using implements_free [OF assms(1)] by (simp add: removeNode_def)
  then show ?thesis using assms None by simp
next
  case (Some p)
  have "n \<in> set (kids F p)" using implements_up [OF assms(1)] Some by blast
  then obtain xs ys where k: "kids F p = xs @ n # ys" by (meson split_list)
  have ch: "children h p (xs @ n # ys)" using implements_kids [OF assms(1), of p] k by simp
  then have d: "distinct (xs @ n # ys)" and prev: "previousSibling h n = final xs"
    by (auto simp: children_def run_append split: if_splits)
  note r = removeNode_children [OF ch]
  have G: "G = \<lparr>kids = (kids F)(p := xs @ ys), up = (up F)(n := None), stale = (stale F)(n := (xs \<noteq> []))\<rparr>"
    using assms(2) Some d k by (cases xs) (auto simp: remove1_append)
  show ?thesis
  proof (rule implements_step [OF assms(1), of _ p "xs @ ys" "xs @ n # ys"])
    show "up G m = (if m \<in> set (xs @ ys) then Some p else if m \<in> set (xs @ n # ys) then None else up F m)" for m
      using implements_up [OF assms(1), of m p] d k by (auto simp: G)
    show "set (kids F q) \<inter> set (xs @ n # ys) = {}" if "q \<noteq> p" for q
      using implements_disjoint [OF assms(1) that] k by simp
  qed (use r k d prev in \<open>auto simp: G final_def\<close>)
qed

lemma forest_run_kids:
  assumes "forest_op s F = Some G" and "\<forall>p. length (kids F p) \<le> b"
  shows "\<forall>p. length (kids G p) \<le> Suc b"
proof (cases s)
  case (Remove_op n)
  have "length (remove1 n xs) \<le> Suc b" if "length xs \<le> b" for xs :: "nat list"
    using that by (simp add: length_remove1 le_SucI)
  then show ?thesis using Remove_op assms by (auto simp: le_SucI split: option.splits)
qed (use assms in \<open>auto simp: le_SucI split: if_splits\<close>)

lemma tree_run:
  "\<lbrakk>implements h F; forest_run ops F = Some G; \<forall>p. length (kids F p) \<le> b; b + length ops < fuel\<rbrakk> \<Longrightarrow>
   \<exists>h'. tree_exec fuel ops h = Inr h' \<and> implements h' G"
proof (induction ops arbitrary: h F b)
  case (Cons s ops)
  obtain F1 where F1: "forest_op s F = Some F1" "forest_run ops F1 = Some G"
    using Cons.prems(2) by (auto split: option.splits)
  have fuel: "0 < fuel" "length (kids F p) < fuel" for p
    using Cons.prems(3) [rule_format, of p] Cons.prems(4) by auto
  have next1: "\<exists>h'. tree_exec fuel ops h1 = Inr h' \<and> implements h' G" if "implements h1 F1" for h1
    using Cons.IH [OF that F1(2) forest_run_kids [OF F1(1) Cons.prems(3)]] Cons.prems(4) by simp
  show ?case
  proof (cases s)
    case (Append_op p c)
    then show ?thesis using tree_append [OF Cons.prems(1) _ fuel(1), of p c F1] F1(1) next1 by auto
  next
    case (Prepend_op p c)
    then show ?thesis using tree_prepend [OF Cons.prems(1) _ fuel(2), of p c F1] F1(1) next1 by auto
  next
    case (Remove_op n)
    then show ?thesis using tree_remove [OF Cons.prems(1)] F1(1) next1 by auto
  qed
qed simp

text \<open>The operations change the links only.\<close>

definition link_keys :: "string list" where
  "link_keys = [''parentNode'', ''firstChild'', ''lastChild'', ''nextSibling'', ''previousSibling'', ''prevSibling'']"

definition same_data :: "heap \<Rightarrow> heap \<Rightarrow> bool" where
  "same_data h h' \<longleftrightarrow> (\<forall>n k. k \<notin> set link_keys \<longrightarrow> Getattr (attrs_of (h' n)) k = Getattr (attrs_of (h n)) k)"

lemma same_data_refl [simp]: "same_data h h"
  by (simp add: same_data_def)

lemma same_data_trans: "same_data h h1 \<Longrightarrow> same_data h1 h2 \<Longrightarrow> same_data h h2"
  by (simp add: same_data_def)

lemma same_data_set: "k \<in> set link_keys \<Longrightarrow> same_data h1 (set_link h2 n k m) = same_data h1 h2"
  by (auto simp: same_data_def set_link_def)

lemma same_data_del: "k \<in> set link_keys \<Longrightarrow> same_data h1 (del_link h2 n k) = same_data h1 h2"
  by (auto simp: same_data_def del_link_def)

lemma adopt_data: "adopt fuel p c h = Inr (l, h') \<Longrightarrow> same_data h h'"
proof (induction fuel arbitrary: c h)
  case (Suc fuel)
  have "same_data h (set_link h c ''parentNode'' (Some p))" by (simp add: same_data_set link_keys_def)
  then show ?case using Suc by (auto simp: Let_def split: option.splits intro: same_data_trans)
qed simp

lemma appendChild_data: "appendChild fuel h p (Some c) = Inr h' \<Longrightarrow> same_data h h'"
proof -
  assume a: "appendChild fuel h p (Some c) = Inr h'"
  have "same_data h (case lastChild h p of
                      None \<Rightarrow> set_link h p ''firstChild'' (Some c)
                    | Some l \<Rightarrow> set_link (set_link h l ''nextSibling'' (Some c)) c ''previousSibling'' (Some l))"
    by (simp add: same_data_set link_keys_def split: option.split)
  with a show ?thesis
    by (auto simp: appendChild_def Let_def same_data_set link_keys_def elim!: rbind_InrE dest!: adopt_data intro: same_data_trans)
qed

lemma prependChild_data: "prependChild fuel h p (Some c) = Inr h' \<Longrightarrow> same_data h h'"
proof -
  assume a: "prependChild fuel h p (Some c) = Inr h'"
  have "same_data h (set_link (case firstChild h p of
                      None \<Rightarrow> h
                    | Some f \<Rightarrow> set_link (set_link h c ''nextSibling'' (Some f)) f ''previousSibling'' (Some c)) p ''firstChild'' (Some c))"
    by (simp add: same_data_set link_keys_def split: option.split)
  with a show ?thesis
    by (auto simp: prependChild_def Let_def elim!: rbind_InrE dest!: adopt_data intro: same_data_trans)
qed

lemma removeNode_data: "same_data h (removeNode h n)"
  by (auto simp: removeNode_def Let_def same_data_set same_data_del link_keys_def split: option.split)

lemma tree_exec_data: "tree_exec fuel ops h = Inr h' \<Longrightarrow> same_data h h'"
proof (induction ops arbitrary: h)
  case (Cons s ops)
  then show ?case
    by (cases s) (auto elim!: rbind_InrE dest!: Cons.IH appendChild_data prependChild_data
        intro: same_data_trans removeNode_data)
qed simp

text \<open>
  C33. The parse tree is a forest: any sequence of \<open>appendChild\<close>, \<open>prependChild\<close> (to a node that has children)
  and \<open>removeNode\<close>, starting with nodes that have no links, returns, and gives the links of the forest
  that results from inserting at the end, inserting at the front and cutting out. In particular every
  chain of siblings ends, forwards and backwards, in the first and last child of its parent; the
  attributes that are not links stay as they are.
\<close>

theorem tree_operations_keep_forest:
  assumes "implements h no_trees" and "forest_run ops no_trees = Some F" and "length ops < fuel"
  shows "\<exists>h'. tree_exec fuel ops h = Inr h' \<and> implements h' F \<and> same_data h h'"
  using tree_run [OF assms(1,2), of 0 fuel] assms(3) tree_exec_data by (auto simp: no_trees_def)

definition blank_heap :: heap where
  "blank_heap = (\<lambda>n. \<lparr>attrs_of = [(''name'', Text [CHR ''n''])], node_file = None, node_line = 0\<rparr>)"

lemma blank_heap_implements: "implements blank_heap no_trees"
  by (simp add: implements_def no_trees_def children_def blank_heap_def link_def Getattr_def node_of_def)

theorem tree_operations_keep_forest_witness:
  "\<exists>h' F. tree_exec 9 [Append_op 0 1, Append_op 0 2, Prepend_op 0 3, Append_op 2 4, Remove_op 1, Append_op 2 1, Remove_op 3,
      Append_op 0 3] blank_heap = Inr h' \<and>
    kids F 0 = [2, 3] \<and> kids F 2 = [4, 1] \<and> up F 1 = Some 2 \<and> \<not> stale F 1 \<and> implements h' F \<and> same_data blank_heap h'"
proof -
  obtain F where F: "forest_run [Append_op 0 1, Append_op 0 2, Prepend_op 0 3, Append_op 2 4, Remove_op 1, Append_op 2 1,
      Remove_op 3, Append_op 0 3] no_trees = Some F" "kids F 0 = [2, 3]" "kids F 2 = [4, 1]" "up F 1 = Some 2" "\<not> stale F 1"
    by (simp add: no_trees_def)
  show ?thesis
    using tree_operations_keep_forest [OF blank_heap_implements F(1), of 9] F(2-5) by auto
qed

text \<open>
  What the operations do where they have no meaning as a forest. The first child prepended to a node
  is not its last child; of two siblings prepended together the second is lost; a removed node keeps
  its previous sibling, which is the attribute \<open>previousSibling\<close> and not \<open>prevSibling\<close>, and has it
  as the first child of another node.
\<close>

lemma prepend_to_empty:
  "firstChild h p = None \<Longrightarrow> nextSibling h c = None \<Longrightarrow> 0 < fuel \<Longrightarrow>
   \<exists>h'. prependChild fuel h p (Some c) = Inr h' \<and> firstChild h' p = Some c \<and> lastChild h' p = lastChild h p"
  by (cases fuel) (auto simp: prependChild_def Let_def)

lemma adopt_links: "adopt fuel p c h = Inr (l, h') \<Longrightarrow> k \<noteq> ''parentNode'' \<Longrightarrow> link h' n k = link h n k"
proof (induction fuel arbitrary: c h)
  case (Suc fuel)
  then show ?case by (cases "nextSibling h c") (fastforce simp: Let_def)+
qed simp

lemma prepend_chain_cut:
  "firstChild h p = Some f \<Longrightarrow> nextSibling h c = Some d \<Longrightarrow> d \<noteq> f \<Longrightarrow> p \<noteq> c \<Longrightarrow>
   prependChild fuel h p (Some c) = Inr h' \<Longrightarrow> nextSibling h' c = Some f"
proof -
  assume a: "firstChild h p = Some f" "prependChild fuel h p (Some c) = Inr h'"
  then show ?thesis by (auto simp: prependChild_def Let_def adopt_links elim!: rbind_InrE)
qed

lemma removed_node_is_stale:
  "\<exists>h'. tree_exec 9 [Append_op 0 1, Append_op 0 2, Remove_op 2, Append_op 3 2] blank_heap = Inr h' \<and>
    firstChild h' 3 = Some 2 \<and> previousSibling h' 2 = Some 1"
  by (simp add: appendChild_def removeNode_def blank_heap_def link_def Getattr_def node_of_def set_link_def del_link_def
      Setattr_def Delattr_def Let_def eval_nat_numeral)

section \<open>Views\<close>

lemma starts_with_view_key [simp]: "starts_with (ns @ '':'') (view_key ns k)"
  by (simp add: view_key_def starts_with_def)

lemma drop_view_key [simp]: "drop (Suc (length ns)) (view_key ns k) = k"
  by (simp add: view_key_def)

lemma view_key_inject [simp]: "view_key ns k = view_key ns l \<longleftrightarrow> k = l"
  by (simp add: view_key_def)

lemma starts_with_viewD: "starts_with (ns @ '':'') k \<Longrightarrow> k = view_key ns (drop (Suc (length ns)) k)"
  by (auto simp: view_key_def starts_with_iff)

text \<open>Names of attributes outside of a view.\<close>

definition plain_name :: "string \<Rightarrow> string \<Rightarrow> bool" where
  "plain_name ns k \<longleftrightarrow> \<not> starts_with (ns @ '':'') k \<and> k \<noteq> ''view''"

lemma view_not_prefixed [simp]: "\<not> starts_with (ns @ '':'') ''view''"
proof
  assume "starts_with (ns @ '':'') ''view''"
  then obtain r where "''view'' = ns @ '':'' @ r" by (auto simp: starts_with_iff)
  then have "CHR '':'' \<in> set ''view''" by (metis in_set_conv_decomp append_Cons append_Nil)
  then show False by simp
qed

lemma view_key_not_view [simp]: "view_key ns k \<noteq> ''view''" "''view'' \<noteq> view_key ns k"
  using starts_with_view_key [of ns k] view_not_prefixed by metis+

lemma plain_not_view_key: "plain_name ns k \<Longrightarrow> k \<noteq> view_key ns l" "plain_name ns k \<Longrightarrow> view_key ns l \<noteq> k"
  by (auto simp: plain_name_def)

lemma Getattr_saved [simp]:
  "(case saved (Getattr a k) of Some None_obj \<Rightarrow> None | _ \<Rightarrow> saved (Getattr a k)) = Getattr a k"
  by (auto simp: saved_def Getattr_def split: option.splits aval.splits)

lemma Getattr_again [simp]: "(case Getattr a k of Some None_obj \<Rightarrow> None | _ \<Rightarrow> Getattr a k) = Getattr a k"
  by (auto simp: Getattr_def split: option.splits aval.splits)

definition attr_keys :: "attrs \<Rightarrow> string set" where
  "attr_keys a = fst ` set a"

lemma Getattr_not_None_obj: "Getattr a k \<noteq> Some None_obj"
  by (auto simp: Getattr_def split: option.splits aval.splits)

lemma Getattr_no_key: "k \<notin> attr_keys a \<Longrightarrow> Getattr a k = None"
  by (simp add: attr_keys_def Getattr_def map_of_eq_None_iff [THEN iffD2])

lemma keys_Setattr: "attr_keys (Setattr a k v) = (if v = None then attr_keys a - {k} else insert k (attr_keys a))"
  by (cases v) (auto simp: attr_keys_def Setattr_def Delattr_def dom_update delete_keys simp flip: dom_map_of_conv_image_fst
      simp: update_conv' delete_conv')

text \<open>Saving.\<close>

definition save_one :: "string \<Rightarrow> string \<Rightarrow> attrs \<Rightarrow> attrs" where
  "save_one ns m b = Setattr b (view_key ns (bare m)) (saved (Getattr b (bare m)))"

lemma save_one_simps:
  "list_all (\<lambda>m. plain_name ns (bare m)) ms \<Longrightarrow> attrs_ok a \<Longrightarrow>
   attrs_ok (fold (save_one ns) ms a) \<and>
   (\<forall>k. (\<forall>l. k \<noteq> view_key ns l) \<longrightarrow> Getattr (fold (save_one ns) ms a) k = Getattr a k) \<and>
   (\<forall>l. Getattr (fold (save_one ns) ms a) (view_key ns l) = (if l \<in> bare ` set ms then Getattr a l else Getattr a (view_key ns l))) \<and>
   attr_keys (fold (save_one ns) ms a) = attr_keys a \<union> view_key ns ` bare ` set ms"
proof (induction ms arbitrary: a)
  case (Cons m ms)
  have s: "saved v \<noteq> None" for v by (cases v) (auto simp: saved_def)
  have p: "plain_name ns (bare m)" using Cons.prems(1) by simp
  note IH = Cons.IH [of "save_one ns m a"]
  have "attrs_ok (save_one ns m a)" using Cons.prems(2) by (simp add: save_one_def)
  moreover have "attr_keys (save_one ns m a) = insert (view_key ns (bare m)) (attr_keys a)"
    by (simp add: save_one_def keys_Setattr s)
  moreover have "Getattr (save_one ns m a) k = (if k = view_key ns (bare m) then Getattr a (bare m) else Getattr a k)" for k
    by (simp add: save_one_def)
  ultimately show ?case
    using IH Cons.prems(1) plain_not_view_key [of ns] by (auto simp: list_all_iff)
qed simp

text \<open>Restoring.\<close>

definition restore_one :: "string \<Rightarrow> string \<Rightarrow> attrs \<Rightarrow> attrs" where
  "restore_one ns k b = Delattr (Setattr b (drop (length ns + 1) k) (Getattr b k)) k"

lemma restore_fold:
  "\<lbrakk>distinct names; list_all (\<lambda>l. \<forall>x. l \<noteq> view_key ns x) names\<rbrakk> \<Longrightarrow>
   Getattr (fold (restore_one ns) (map (view_key ns) names) b) k =
     (if k \<in> set names then Getattr b (view_key ns k) else if k \<in> view_key ns ` set names then None else Getattr b k)"
proof (induction names arbitrary: b)
  case (Cons l names)
  have 1: "Getattr (restore_one ns (view_key ns l) b) j =
      (if j = view_key ns l then None else if j = l then Getattr b (view_key ns l) else Getattr b j)" for j
    by (simp add: restore_one_def)
  show ?case using Cons.prems Cons.IH [of "restore_one ns (view_key ns l) b"] by (auto simp: 1)
qed simp

lemma Swig_restore_result:
  assumes "attrs_ok b" and "Getattr b ''view'' = Some (Text ns)"
    and "\<And>l. view_key ns l \<in> attr_keys b \<Longrightarrow> \<not> starts_with (ns @ '':'') l"
  shows "\<exists>c. Swig_restore b = Inr c \<and> (\<forall>k. Getattr c k =
     (if view_key ns k \<in> attr_keys b then Getattr b (view_key ns k)
      else if starts_with (ns @ '':'') k then None else Getattr b k))"
proof -
  define keys where "keys = filter (starts_with (ns @ '':'')) (map fst b)"
  define names where "names = map (drop (Suc (length ns))) keys"
  have "map (view_key ns) names = map (\<lambda>k. k) keys"
    unfolding names_def keys_def by (simp only: map_map, rule map_cong) (auto simp: starts_with_viewD [symmetric])
  then have keys: "keys = map (view_key ns) names" by simp
  have "distinct keys" using assms(1) by (simp add: keys_def)
  then have d: "distinct names" by (simp add: keys distinct_map)
  have mem: "k \<in> set names \<longleftrightarrow> view_key ns k \<in> attr_keys b" for k
  proof -
    have "k \<in> set names \<longleftrightarrow> view_key ns k \<in> set keys" by (auto simp: keys)
    then show ?thesis by (auto simp: keys_def attr_keys_def)
  qed
  have plain: "list_all (\<lambda>l. \<forall>x. l \<noteq> view_key ns x) names"
    unfolding list_all_iff using mem assms(3) starts_with_view_key [of ns] by blast
  have "Swig_restore b = Inr (fold (restore_one ns) keys b)"
    using assms(2) by (simp add: Swig_restore_def keys_def Let_def restore_one_def [abs_def])
  moreover have "Getattr (fold (restore_one ns) keys b) k =
     (if view_key ns k \<in> attr_keys b then Getattr b (view_key ns k)
      else if starts_with (ns @ '':'') k then None else Getattr b k)" for k
  proof -
    have "Getattr b k = None" if "starts_with (ns @ '':'') k" "k \<notin> attr_keys b"
      using that(2) by (rule Getattr_no_key)
    moreover have "k \<in> view_key ns ` set names \<longleftrightarrow> starts_with (ns @ '':'') k \<and> k \<in> attr_keys b"
      using mem starts_with_viewD [of ns k] starts_with_view_key [of ns] by (metis (no_types, lifting) imageE imageI)
    ultimately show ?thesis unfolding keys by (auto simp: restore_fold [OF d plain] mem)
  qed
  ultimately show ?thesis by blast
qed

text \<open>Changes in between.\<close>

abbreviation set_all :: "(string \<times> aval option) list \<Rightarrow> attrs \<Rightarrow> attrs" where
  "set_all us a \<equiv> fold (\<lambda>(k, v) b. Setattr b k v) us a"

lemma set_all_attrs: "attrs_ok a \<Longrightarrow> attrs_ok (set_all us a)"
  by (induction us arbitrary: a) auto

lemma set_all_untouched:
  "k \<notin> fst ` set us \<Longrightarrow> Getattr (set_all us a) k = Getattr a k \<and> (k \<in> attr_keys (set_all us a) \<longleftrightarrow> k \<in> attr_keys a)"
proof (induction us arbitrary: a)
  case (Cons u us)
  then show ?case by (cases u) (auto simp: keys_Setattr)
qed simp

lemma set_all_cong: "Getattr a k = Getattr b k \<Longrightarrow> Getattr (set_all us a) k = Getattr (set_all us b) k"
proof (induction us arbitrary: a b)
  case (Cons u us)
  show ?case
    by (cases u) (simp only: fold_Cons comp_def prod.case, rule Cons.IH, simp only: Getattr_Setattr Cons.prems)
qed simp

lemma view_saved_and_restored:
  assumes "attrs_ok a" and "list_all (\<lambda>k. \<not> starts_with (ns @ '':'') k) (map fst a)"
    and "list_all (\<lambda>m. plain_name ns (bare m)) ms" and "list_all (\<lambda>(k, v). plain_name ns k) us"
  shows "\<exists>c. Swig_restore (set_all us (Swig_save ns a ms)) = Inr c \<and>
    (\<forall>k. Getattr c k = (if k \<in> bare ` set ms then Getattr a k
       else if k = ''view'' then Some (case Getattr a k of None \<Rightarrow> Text ns | Some v \<Rightarrow> v)
       else Getattr (set_all us a) k))"
proof -
  define s where "s = fold (save_one ns) ms a"
  define d where "d = Swig_save ns a ms"
  define b where "b = set_all us d"
  have old: "view_key ns l \<notin> attr_keys a" for l
  proof
    assume "view_key ns l \<in> attr_keys a"
    then have "view_key ns l \<in> set (map fst a)" by (simp add: attr_keys_def)
    with assms(2) have "\<not> starts_with (ns @ '':'') (view_key ns l)" unfolding list_all_iff by blast
    then show False by simp
  qed
  then have old_none: "Getattr a (view_key ns l) = None" for l
    by (simp add: Getattr_no_key)
  note s = save_one_simps [OF assms(3,1), folded s_def]
  have "plain_name ns k" if "k \<in> fst ` set us" for k
    using assms(4) that by (auto simp: list_all_iff)
  then have us: "view_key ns l \<notin> fst ` set us" "''view'' \<notin> fst ` set us" for l
    using starts_with_view_key [of ns l] unfolding plain_name_def by blast+
  have ms: "''view'' \<notin> bare ` set ms" using assms(3) by (auto simp: list_all_iff plain_name_def)
  have sv: "Getattr s ''view'' = Getattr a ''view''" using s by simp
  have d: "d = save_view ns s" by (simp add: d_def s_def Swig_save_def save_one_def [abs_def])
  define V where "V = (case Getattr a ''view'' of None \<Rightarrow> {} | Some v \<Rightarrow> if v = Text ns then {} else {''view''})"
  have d_ok: "attrs_ok d" "Getattr d ''view'' = Some (Text ns)"
    and d_keys: "view_key ns l \<in> attr_keys d \<longleftrightarrow> l \<in> bare ` set ms \<or> l \<in> V"
    and d_get: "Getattr d (view_key ns l) = (if l \<in> bare ` set ms \<or> l \<in> V then Getattr a l else None)"
    and d_plain: "(\<forall>l. k \<noteq> view_key ns l) \<Longrightarrow> k \<noteq> ''view'' \<Longrightarrow> Getattr d k = Getattr a k" for l k
    using s old old_none ms Getattr_not_None_obj [of a "''view''"] unfolding d save_view_def sv V_def
    by (auto simp: keys_Setattr sv image_iff split: option.split aval.split)
  have b: "attrs_ok b" "Getattr b ''view'' = Some (Text ns)" "view_key ns l \<in> attr_keys b \<longleftrightarrow> l \<in> bare ` set ms \<or> l \<in> V"
      "Getattr b (view_key ns l) = (if l \<in> bare ` set ms \<or> l \<in> V then Getattr a l else None)" for l
    using d_ok d_keys d_get set_all_untouched [OF us(1), of d] set_all_untouched [OF us(2), of d]
    by (simp_all add: b_def set_all_attrs)
  have "\<not> starts_with (ns @ '':'') l" if "view_key ns l \<in> attr_keys b" for l
    using that assms(3) unfolding b(3) by (auto simp: list_all_iff plain_name_def V_def split: option.splits if_splits)
  then obtain c where c: "Swig_restore b = Inr c"
      "Getattr c k = (if k \<in> bare ` set ms \<or> k \<in> V then Getattr b (view_key ns k)
      else if starts_with (ns @ '':'') k then None else Getattr b k)" for k
    using Swig_restore_result [OF b(1,2)] b(3) by auto
  have rest: "Getattr (set_all us a) k = (if starts_with (ns @ '':'') k then None else Getattr b k)" if "k \<noteq> ''view''" for k
  proof (cases "starts_with (ns @ '':'') k")
    case True
    then obtain l where "k = view_key ns l" using starts_with_viewD by blast
    then show ?thesis using True us(1) old_none set_all_untouched [of k us a] by simp
  next
    case False
    then have "\<forall>l. k \<noteq> view_key ns l" by auto
    then show ?thesis using False d_plain that unfolding b_def by (auto intro: set_all_cong)
  qed
  have view: "Getattr c ''view'' = Some (case Getattr a ''view'' of None \<Rightarrow> Text ns | Some v \<Rightarrow> v)"
    unfolding c(2) b using ms b(2) by (auto simp: V_def split: option.split)
  have "Getattr c k = (if k \<in> bare ` set ms then Getattr a k
       else if k = ''view'' then Some (case Getattr a k of None \<Rightarrow> Text ns | Some v \<Rightarrow> v)
       else Getattr (set_all us a) k)" for k
  proof (cases "k = ''view''")
    case False
    then have "k \<notin> V" by (auto simp: V_def split: option.splits if_splits)
    then show ?thesis using False rest b(4) by (simp add: c(2))
  qed (use view ms in simp)
  then show ?thesis using c(1) by (auto simp: b_def d_def)
qed

text \<open>
  C34. A view gives the attributes back. After \<open>Swig_save\<close> of attributes of a node, any changes of the node
  that leave the view and its names alone, and \<open>Swig_restore\<close>, the saved attributes have the
  values they had, those that did not exist are gone again, other attributes are as the changes left them,
  and the view is the one before; if there was none it stays that of the save.
\<close>

theorem restore_after_save:
  assumes "attrs_ok a" and "list_all (\<lambda>k. \<not> starts_with (ns @ '':'') k) (map fst a)"
    and "list_all (\<lambda>m. plain_name ns (bare m)) ms" and "list_all (\<lambda>(k, v). plain_name ns k) us"
  shows "\<exists>c. Swig_restore (set_all us (Swig_save ns a ms)) = Inr c \<and>
    (\<forall>k. Getattr c k = (if k \<in> bare ` set ms then Getattr a k
       else if k = ''view'' then Some (case Getattr a k of None \<Rightarrow> Text ns | Some v \<Rightarrow> v)
       else Getattr (set_all us a) k))"
  using assms by (rule view_saved_and_restored)

theorem restore_after_save_witness:
  "\<exists>c. Swig_restore (set_all [(''name'', Some (Text ''g'')), (''wrap'', Some (Text ''w'')), (''doc'', None)]
        (Swig_save ''py'' [(''name'', Text ''f''), (''doc'', Text ''d''), (''view'', Text ''top'')] [''name'', ''?wrap''])) = Inr c \<and>
     Getattr c ''name'' = Some (Text ''f'') \<and> Getattr c ''wrap'' = None \<and> Getattr c ''doc'' = None \<and>
     Getattr c ''view'' = Some (Text ''top'')"
  using restore_after_save [of "[(''name'', Text ''f''), (''doc'', Text ''d''), (''view'', Text ''top'')]" "''py''" "[''name'', ''?wrap'']"
      "[(''name'', Some (Text ''g'')), (''wrap'', Some (Text ''w'')), (''doc'', None)]"]
  by (auto simp: plain_name_def bare_def starts_with_def Getattr_def Setattr_def Delattr_def)

end
