(* ===== verification/Parms.thy ===== *)
theory Parms
  imports TreeSpec TypeStrSpec
begin

text \<open>
  The parameter lists of Source/Swig/parms.c: nodes of the parse tree with the attributes \<open>type\<close>, \<open>name\<close> and
  \<open>value\<close>, each with the next one as its \<open>nextSibling\<close>. The code of a type, which \<open>SwigType_type\<close> finds in the
  type system, is an argument. New nodes get the addresses of a list, one for each round of the loop
  that copies; the other loops count their rounds.
\<close>

section \<open>Operations\<close>

definition attr_text :: "heap \<Rightarrow> nat \<Rightarrow> string \<Rightarrow> string option" where
  "attr_text h n k = (case Getattr (attrs_of (h n)) k of Some (Text s) \<Rightarrow> Some s | _ \<Rightarrow> None)"

definition new_parm :: "heap \<Rightarrow> nat \<Rightarrow> stype option \<Rightarrow> string option \<Rightarrow> heap" where
  "new_parm h c t name =
     (let a1 = Setattr [] ''nodeType'' (Some (Text ''parm''));
          a2 = (case t of Some s \<Rightarrow> Setattr a1 ''type'' (Some (Text s)) | None \<Rightarrow> a1)
      in h(c := \<lparr>attrs_of = Setattr a2 ''name'' (map_option Text name), node_file = None, node_line = 0\<rparr>))"

definition CopyParm :: "heap \<Rightarrow> nat \<Rightarrow> nat \<Rightarrow> heap" where
  "CopyParm h c p = h(c := \<lparr>attrs_of = copy_strings (attrs_of (h p)), node_file = node_file (h p), node_line = node_line (h p)\<rparr>)"

fun copy_parms ::
  "nat list \<Rightarrow> heap \<Rightarrow> nat option \<Rightarrow> nat option \<Rightarrow> nat option \<Rightarrow> int \<Rightarrow> (nat option \<times> heap) res" where
  "copy_parms as h pp fp p count =
     (case p of
        None \<Rightarrow> Inr (fp, h)
      | Some n \<Rightarrow>
          if count = 0 then Inr (fp, h)
          else case as of
              [] \<Rightarrow> Inl Hang
            | a # as' \<Rightarrow>
                let h1 = CopyParm h a n;
                    h2 = (case pp of Some q \<Rightarrow> set_link h1 q ''nextSibling'' (Some a) | None \<Rightarrow> h1)
                in copy_parms as' h2 (Some a) (case pp of Some q \<Rightarrow> fp | None \<Rightarrow> Some a) (nextSibling h2 n) (count - 1))"

declare copy_parms.simps [simp del]

definition CopyParmListMax :: "nat list \<Rightarrow> heap \<Rightarrow> nat option \<Rightarrow> int \<Rightarrow> (nat option \<times> heap) res" where
  "CopyParmListMax as h p count = (if p = None then Inr (None, h) else copy_parms as h None None p count)"

definition CopyParmList :: "nat list \<Rightarrow> heap \<Rightarrow> nat option \<Rightarrow> (nat option \<times> heap) res" where
  "CopyParmList as h p = CopyParmListMax as h p (- 1)"

fun ParmList_numrequired :: "(stype \<Rightarrow> int) \<Rightarrow> nat \<Rightarrow> heap \<Rightarrow> nat option \<Rightarrow> int res" where
  "ParmList_numrequired code fuel h None = Inr 0"
| "ParmList_numrequired code 0 h (Some n) = Inl Hang"
| "ParmList_numrequired code (Suc fuel) h (Some n) =
     (if Getattr (attrs_of (h n)) ''value'' \<noteq> None then Inr 0
      else case attr_text h n ''type'' of
          None \<Rightarrow> Inl Undefined
        | Some t \<Rightarrow>
            if code t \<noteq> 32 then rbind (ParmList_numrequired code fuel h (nextSibling h n)) (\<lambda>i. Inr (i + 1)) else Inr 0)"

fun ParmList_len :: "nat \<Rightarrow> heap \<Rightarrow> nat option \<Rightarrow> int res" where
  "ParmList_len fuel h None = Inr 0"
| "ParmList_len 0 h (Some n) = Inl Hang"
| "ParmList_len (Suc fuel) h (Some n) = rbind (ParmList_len fuel h (nextSibling h n)) (\<lambda>i. Inr (i + 1))"

text \<open>The three printers differ in what they print of a parameter.\<close>

fun print_parms :: "(heap \<Rightarrow> nat \<Rightarrow> string res) \<Rightarrow> nat \<Rightarrow> heap \<Rightarrow> nat option \<Rightarrow> string \<Rightarrow> string res" where
  "print_parms one fuel h None out = Inr out"
| "print_parms one 0 h (Some n) out = Inl Hang"
| "print_parms one (Suc fuel) h (Some n) out =
     rbind (one h n) (\<lambda>s.
       print_parms one fuel h (nextSibling h n) (out @ s @ (if nextSibling h n \<noteq> None then '','' else [])))"

definition typed_text :: "heap \<Rightarrow> nat \<Rightarrow> string option \<Rightarrow> string res" where
  "typed_text h n name =
     (case attr_text h n ''type'' of
        None \<Rightarrow> Inl Undefined
      | Some t \<Rightarrow> SwigType_str t (case name of Some s \<Rightarrow> s | None \<Rightarrow> []))"

definition ParmList_str :: "nat \<Rightarrow> heap \<Rightarrow> nat option \<Rightarrow> string res" where
  "ParmList_str fuel h p = print_parms (\<lambda>h n. typed_text h n (attr_text h n ''name'')) fuel h p []"

definition ParmList_str_defaultargs :: "nat \<Rightarrow> heap \<Rightarrow> nat option \<Rightarrow> string res" where
  "ParmList_str_defaultargs fuel h p =
     print_parms (\<lambda>h n. rbind (typed_text h n (attr_text h n ''name'')) (\<lambda>s.
       Inr (s @ (case attr_text h n ''value'' of Some v \<Rightarrow> ''='' @ v | None \<Rightarrow> [])))) fuel h p []"

definition ParmList_protostr :: "nat \<Rightarrow> heap \<Rightarrow> nat option \<Rightarrow> string res" where
  "ParmList_protostr fuel h p = print_parms (\<lambda>h n. typed_text h n None) fuel h p []"

fun ParmList_has_defaultargs :: "nat \<Rightarrow> heap \<Rightarrow> nat option \<Rightarrow> bool res" where
  "ParmList_has_defaultargs fuel h None = Inr False"
| "ParmList_has_defaultargs 0 h (Some n) = Inl Hang"
| "ParmList_has_defaultargs (Suc fuel) h (Some n) =
     (if Getattr (attrs_of (h n)) ''value'' \<noteq> None then Inr True else ParmList_has_defaultargs fuel h (nextSibling h n))"

section \<open>Lists of parameters\<close>

fun path :: "heap \<Rightarrow> nat option \<Rightarrow> nat list \<Rightarrow> bool" where
  "path h p [] \<longleftrightarrow> p = None"
| "path h p (n # ns) \<longleftrightarrow> p = Some n \<and> path h (nextSibling h n) ns"

lemma path_cong: "(\<And>n. n \<in> set ns \<Longrightarrow> nextSibling h' n = nextSibling h n) \<Longrightarrow> path h' p ns = path h p ns"
  by (induction ns arbitrary: p) auto

lemma ParmList_len_path: "path h p ns \<Longrightarrow> length ns \<le> fuel \<Longrightarrow> ParmList_len fuel h p = Inr (int (length ns))"
proof (induction ns arbitrary: p fuel)
  case (Cons n ns)
  then show ?case by (cases fuel) auto
qed simp

lemma print_parms_path:
  "\<lbrakk>path h p ns; length ns \<le> fuel; list_all2 (\<lambda>n s. one h n = Inr s) ns ss\<rbrakk> \<Longrightarrow>
   print_parms one fuel h p out = Inr (out @ comma_text ss)"
proof (induction ns arbitrary: p fuel out ss)
  case (Cons n ns)
  obtain s ss' where ss: "ss = s # ss'" "one h n = Inr s" "list_all2 (\<lambda>n s. one h n = Inr s) ns ss'"
    using Cons.prems(3) by (auto simp: list_all2_Cons1)
  obtain f where f: "fuel = Suc f" using Cons.prems(2) by (cases fuel) auto
  show ?case using Cons.IH [of "nextSibling h n" f ss'] Cons.prems(1,2) ss f by (cases ns; cases ss') auto
qed simp

lemma copy_strings_fold:
  "distinct (map fst a) \<Longrightarrow>
   Getattr (fold (\<lambda>(k, v) b. case v of Text s \<Rightarrow> Setattr b k (Some (Text s)) | _ \<Rightarrow> b) a b) k =
     (case map_of a k of Some (Text s) \<Rightarrow> Some (Text s) | _ \<Rightarrow> Getattr b k)"
proof (induction a arbitrary: b)
  case (Cons x a)
  obtain j v where x: "x = (j, v)" by fastforce
  have "map_of a j = None" using Cons.prems x by (simp add: map_of_eq_None_iff)
  then show ?case using Cons x by (cases v) (auto split: option.split aval.split)
qed simp

lemma Getattr_copy_strings:
  "attrs_ok a \<Longrightarrow> Getattr (copy_strings a) k = (case Getattr a k of Some (Text s) \<Rightarrow> Some (Text s) | _ \<Rightarrow> None)"
  using copy_strings_fold [of a "[]" k] unfolding copy_strings_def
  by (simp add: Getattr_def split: option.split aval.split)

text \<open>A copy has the strings of a parameter, its file and its line.\<close>

definition copy_of :: "heap \<Rightarrow> heap \<Rightarrow> nat \<Rightarrow> nat \<Rightarrow> bool" where
  "copy_of h h' n c \<longleftrightarrow>
     (\<forall>k. k \<noteq> ''nextSibling'' \<longrightarrow> Getattr (attrs_of (h' c)) k = map_option Text (attr_text h n k)) \<and>
     node_file (h' c) = node_file (h n) \<and> node_line (h' c) = node_line (h n)"

lemma CopyParm_at: "CopyParm h c n m = (if m = c then CopyParm h c n c else h m)"
  by (simp add: CopyParm_def)

lemma CopyParm_attr:
  "attrs_ok (attrs_of (h n)) \<Longrightarrow> Getattr (attrs_of (CopyParm h c n c)) k = map_option Text (attr_text h n k)"
  by (simp add: CopyParm_def Getattr_copy_strings attr_text_def split: option.split aval.split)

lemma CopyParm_copy: "attrs_ok (attrs_of (h n)) \<Longrightarrow> copy_of h (CopyParm h c n) n c"
  by (simp add: copy_of_def CopyParm_attr) (simp add: CopyParm_def)

lemma CopyParm_no_next: "attrs_ok (attrs_of (h n)) \<Longrightarrow> nextSibling (CopyParm h c n) c = None"
  by (simp add: link_def CopyParm_attr node_of_def split: option.split)

definition copied :: "nat list \<Rightarrow> int \<Rightarrow> nat" where
  "copied ns count = (if count < 0 then length ns else min (nat count) (length ns))"

lemma copy_parms_path:
  "\<lbrakk>path h p ns; set ns \<inter> set as = {}; distinct as; \<And>q. pp = Some q \<Longrightarrow> q \<notin> set ns \<union> set as \<and> nextSibling h q = None;
    copied ns count \<le> length as; \<forall>n\<in>set ns. attrs_ok (attrs_of (h n))\<rbrakk> \<Longrightarrow>
   \<exists>h'. copy_parms as h pp fp p count =
      Inr (if pp = None \<and> copied ns count \<noteq> 0 then head (take (copied ns count) as) else fp, h') \<and>
     path h' (head (take (copied ns count) as)) (take (copied ns count) as) \<and>
     (\<forall>q. pp = Some q \<longrightarrow> nextSibling h' q = head (take (copied ns count) as)) \<and>
     (\<forall>n. n \<notin> set as \<and> pp \<noteq> Some n \<longrightarrow> h' n = h n) \<and>
     (\<forall>q k. pp = Some q \<and> k \<noteq> ''nextSibling'' \<longrightarrow> Getattr (attrs_of (h' q)) k = Getattr (attrs_of (h q)) k) \<and>
     (\<forall>q. pp = Some q \<longrightarrow> node_file (h' q) = node_file (h q) \<and> node_line (h' q) = node_line (h q)) \<and>
     list_all2 (copy_of h h') (take (copied ns count) ns) (take (copied ns count) as)"
proof (induction ns arbitrary: as h pp fp p count)
  case Nil
  then show ?case by (simp add: copied_def copy_parms.simps)
next
  case (Cons n ns)
  have p: "p = Some n" "path h (nextSibling h n) ns" using Cons.prems(1) by auto
  show ?case
  proof (cases "count = 0")
    case True
    then show ?thesis using p Cons.prems(4) by (simp add: copied_def copy_parms.simps)
  next
    case False
    then have k: "copied (n # ns) count = Suc (copied ns (count - 1))"
      by (auto simp: copied_def nat_diff_distrib min_def)
    then obtain a as' where as: "as = a # as'" using Cons.prems(5) by (cases as) auto
    define h1 where "h1 = CopyParm h a n"
    define h2 where "h2 = (case pp of Some q \<Rightarrow> set_link h1 q ''nextSibling'' (Some a) | None \<Rightarrow> h1)"
    have ok: "attrs_ok (attrs_of (h n))" using Cons.prems(6) by simp
    have qa: "q \<noteq> a" "q \<notin> set ns" "q \<noteq> n" "q \<notin> set as'" if "pp = Some q" for q
      using Cons.prems(4) [OF that] as by auto
    have h2n: "h2 m = h m" if "m \<noteq> a" "pp \<noteq> Some m" for m
      using that by (auto simp: h2_def h1_def CopyParm_def set_link_def split: option.split)
    have h2q: "nextSibling h2 q = Some a" "node_file (h2 q) = node_file (h q)" "node_line (h2 q) = node_line (h q)"
        "\<And>k. k \<noteq> ''nextSibling'' \<Longrightarrow> Getattr (attrs_of (h2 q)) k = Getattr (attrs_of (h q)) k" if "pp = Some q" for q
      using qa [OF that] that by (simp_all add: h2_def h1_def) (simp_all add: CopyParm_def set_link_def)
    have h2a: "h2 a = h1 a" using qa by (auto simp: h2_def set_link_def split: option.split)
    have fresh: "a \<notin> set ns" "a \<noteq> n" "a \<notin> set as'" "distinct as'" "set ns \<inter> set as' = {}"
      using Cons.prems(2,3) as by auto
    have kept: "h2 m = h m" if "m \<in> insert n (set ns)" for m
    proof (rule h2n)
      show "m \<noteq> a" using that fresh by auto
      show "pp \<noteq> Some m" using that Cons.prems(4) [of m] by auto
    qed
    then have next2: "nextSibling h2 m = nextSibling h m" if "m \<in> insert n (set ns)" for m
      using that by (simp add: link_def)
    have path2: "path h2 (nextSibling h2 n) ns"
      using p(2) path_cong [of ns h2 h "nextSibling h2 n"] next2 by simp
    have ok2: "\<forall>m\<in>set ns. attrs_ok (attrs_of (h2 m))"
      using Cons.prems(6) kept by simp
    have none2: "nextSibling h2 a = None" using CopyParm_no_next [of h n a] ok by (simp add: link_def h2a h1_def)
    obtain h' where h':
      "copy_parms as' h2 (Some a) (case pp of Some q \<Rightarrow> fp | None \<Rightarrow> Some a) (nextSibling h2 n) (count - 1) =
         Inr (case pp of Some q \<Rightarrow> fp | None \<Rightarrow> Some a, h')"
      "path h' (head (take (copied ns (count - 1)) as')) (take (copied ns (count - 1)) as')"
      "nextSibling h' a = head (take (copied ns (count - 1)) as')"
      "\<forall>m. m \<notin> set as' \<and> a \<noteq> m \<longrightarrow> h' m = h2 m"
      "\<forall>k. k \<noteq> ''nextSibling'' \<longrightarrow> Getattr (attrs_of (h' a)) k = Getattr (attrs_of (h2 a)) k"
      "node_file (h' a) = node_file (h2 a)" "node_line (h' a) = node_line (h2 a)"
      "list_all2 (copy_of h2 h') (take (copied ns (count - 1)) ns) (take (copied ns (count - 1)) as')"
      using Cons.IH [OF path2 fresh(5,4), of "Some a" "count - 1" "case pp of Some q \<Rightarrow> fp | None \<Rightarrow> Some a"]
        none2 fresh Cons.prems(5) k as ok2 by auto
    have run: "copy_parms as h pp fp p count = Inr (if pp = None then Some a else fp, h')"
      using h'(1) False by (subst copy_parms.simps) (auto simp: p(1) as h1_def h2_def Let_def split: option.splits)
    have copy_a: "copy_of h h' n a"
      using CopyParm_copy [of h n a] ok h'(5-7) by (auto simp: copy_of_def h2a h1_def)
    have "list_all2 (copy_of h h') (take (copied ns (count - 1)) ns) (take (copied ns (count - 1)) as')"
    proof (rule list.rel_mono_strong [OF h'(8)])
      fix m c assume "m \<in> set (take (copied ns (count - 1)) ns)" "copy_of h2 h' m c"
      moreover have "h2 m = h m" using calculation(1) by (intro kept) (auto dest: in_set_takeD)
      ultimately show "copy_of h h' m c" by (simp add: copy_of_def attr_text_def)
    qed
    moreover have "h' m = h m" if "m \<notin> set as" "pp \<noteq> Some m" for m
      using that h'(4) h2n [of m] as by auto
    moreover have "h' q = h2 q" if "pp = Some q" for q
      using qa [OF that] h'(4) by auto
    ultimately show ?thesis
      using run copy_a h'(2,3) h2q as k by (auto simp: link_def)
  qed
qed

lemma CopyParmListMax_path:
  assumes "path h p ns" and "set ns \<inter> set as = {}" and "distinct as" and "copied ns count \<le> length as"
    and "\<forall>n\<in>set ns. attrs_ok (attrs_of (h n))"
  shows "\<exists>h'. CopyParmListMax as h p count = Inr (head (take (copied ns count) as), h') \<and>
    path h' (head (take (copied ns count) as)) (take (copied ns count) as) \<and>
    (\<forall>n. n \<notin> set as \<longrightarrow> h' n = h n) \<and>
    list_all2 (copy_of h h') (take (copied ns count) ns) (take (copied ns count) as)"
proof (cases p)
  case None
  then have "ns = []" using assms(1) by (cases ns) auto
  then show ?thesis using None by (simp add: CopyParmListMax_def copied_def)
next
  case (Some n)
  then show ?thesis
    using copy_parms_path [OF assms(1-3) _ assms(4,5), of None None] unfolding CopyParmListMax_def
    by (cases "copied ns count = 0") auto
qed

section \<open>Parameters of types\<close>

text \<open>A list of parameters that has these types, names and default values.\<close>

definition parm_is :: "heap \<Rightarrow> nat \<Rightarrow> ctype \<times> string option \<times> string option \<Rightarrow> bool" where
  "parm_is h n = (\<lambda>(t, name, value). ctype_ok t \<and> attr_text h n ''type'' = Some (encode t) \<and>
     attr_text h n ''name'' = name \<and> attr_text h n ''value'' = value)"

fun parm_text :: "ctype \<times> string option \<times> string option \<Rightarrow> string" where
  "parm_text (t, name, value) =
     rstrip (declare_text t (case name of Some s \<Rightarrow> s | None \<Rightarrow> [])) @ (case value of Some v \<Rightarrow> ''='' @ v | None \<Rightarrow> [])"

lemma parm_is_copy: "copy_of h h' n c \<Longrightarrow> parm_is h n x \<Longrightarrow> parm_is h' c x"
  by (cases x) (auto simp: parm_is_def copy_of_def attr_text_def split: option.splits aval.splits)

lemma ParmList_str_defaultargs_path:
  assumes "path h p ns" and "list_all2 (parm_is h) ns xs" and "length ns \<le> fuel"
  shows "ParmList_str_defaultargs fuel h p = Inr (comma_text (map parm_text xs))"
proof -
  have "list_all2 (\<lambda>n s. rbind (typed_text h n (attr_text h n ''name'')) (\<lambda>s.
       Inr (s @ (case attr_text h n ''value'' of Some v \<Rightarrow> ''='' @ v | None \<Rightarrow> []))) = Inr s) ns (map parm_text xs)"
    using assms(2) by (auto simp: list_all2_map2 parm_is_def typed_text_def str_declares elim!: list_all2_mono)
  then show ?thesis unfolding ParmList_str_defaultargs_def by (simp only: print_parms_path [OF assms(1,3)] append_Nil)
qed

lemma copied_all: "count < 0 \<Longrightarrow> copied ns count = length ns"
  by (simp add: copied_def)


definition sample_parms :: heap where
  "sample_parms = set_link (set_link (new_parm (new_parm (new_parm blank_heap 1 (Some ''p.q(const).char'') (Some ''s''))
     2 (Some ''a(3).int'') (Some ''v'')) 3 (Some ''bool'') None) 1 ''nextSibling'' (Some 2)) 2 ''nextSibling'' (Some 3)"


end
