(* ===== verification/CppText.thy ===== *)
theory CppText
  imports DohString SwigScan
begin

text \<open>
  Reading and writing in Source/Preprocessor/cpp.c: the strings it reads from, with their position, line
  and file; blanks, quotes, the arguments of a macro call, file names and options; the text of a
  macro definition. Output is only ever written at its end, so that it is a text.
\<close>

section \<open>Streams\<close>

record stream =
  in_text :: string
  in_pos :: nat
  in_line :: int
  in_file :: "string option"

text \<open>\<open>Getc\<close>, \<open>Ungetc\<close>, and \<open>Seek\<close> to a position before the current one. \<open>EOF\<close> is \<open>None\<close>.\<close>

definition Getc :: "stream \<Rightarrow> char option \<times> stream" where
  "Getc s =
     (if in_pos s < length (in_text s)
      then (Some (in_text s ! in_pos s),
            s\<lparr>in_pos := in_pos s + 1, in_line := in_line s + nl (in_text s ! in_pos s)\<rparr>)
      else (None, s))"

definition Ungetc :: "char option \<Rightarrow> stream \<Rightarrow> stream" where
  "Ungetc c s =
     (case c of
        None \<Rightarrow> s
      | Some x \<Rightarrow> if in_pos s = 0 then s else s\<lparr>in_pos := in_pos s - 1, in_line := in_line s - nl x\<rparr>)"

definition Seek_back :: "nat \<Rightarrow> stream \<Rightarrow> stream" where
  "Seek_back k s = s\<lparr>in_pos := k, in_line := in_line s - nls (take (in_pos s - k) (drop k (in_text s)))\<rparr>"

text \<open>A string whose file position is 0, and what \<open>copy_location\<close> takes over.\<close>

definition open_text :: "string \<Rightarrow> int \<Rightarrow> string option \<Rightarrow> stream" where
  "open_text t l f = \<lparr>in_text = t, in_pos = 0, in_line = l, in_file = f\<rparr>"

definition left :: "stream \<Rightarrow> nat" where
  "left s = length (in_text s) - in_pos s"

lemma Getc_Some: "Getc s = (Some c, s') \<Longrightarrow> left s' < left s \<and> left s = Suc (left s')"
  by (auto simp: Getc_def left_def split: if_splits)

lemma Getc_less: "(Some c, s') = Getc s \<Longrightarrow> left s' < left s"
  using Getc_Some [of s c s'] by simp

lemma Getc_None: "Getc s = (None, s') \<Longrightarrow> s' = s"
  by (auto simp: Getc_def split: if_splits)

lemma Getc_left: "left (snd (Getc s)) \<le> left s"
  by (auto simp: Getc_def left_def)

definition isidentifier :: "char \<Rightarrow> bool" where
  "isidentifier c \<longleftrightarrow> isalpha c \<or> c = CHR ''_'' \<or> c = CHR ''$''"

definition isidchar :: "char \<Rightarrow> bool" where
  "isidchar c \<longleftrightarrow> isalnum c \<or> c = CHR ''_'' \<or> c = CHR ''$''"

section \<open>Blanks and quotes\<close>

text \<open>What is skipped is returned as well, for the callers that keep it.\<close>

function skip_whitespace :: "stream \<Rightarrow> string \<times> stream" where
  "skip_whitespace s =
     (case Getc s of
        (None, s1) \<Rightarrow> ([], s1)
      | (Some c, s1) \<Rightarrow>
          if isspace c then (case skip_whitespace s1 of (w, s2) \<Rightarrow> (c # w, s2)) else ([], Ungetc (Some c) s1))"
  by pat_completeness auto
termination
  by (relation "measure left") (simp, metis Getc_Some in_measure)

function skip_tochar :: "char \<Rightarrow> stream \<Rightarrow> bool \<times> string \<times> stream" where
  "skip_tochar ch s =
     (case Getc s of
        (None, s1) \<Rightarrow> (False, [], s1)
      | (Some c, s1) \<Rightarrow>
          if c = ch then (True, [c], s1)
          else if c = CHR 0x5C then
            (case Getc s1 of
               (None, s2) \<Rightarrow> (False, [c], s2)
             | (Some d, s2) \<Rightarrow> (case skip_tochar ch s2 of (ok, w, s3) \<Rightarrow> (ok, c # d # w, s3)))
          else (case skip_tochar ch s1 of (ok, w, s2) \<Rightarrow> (ok, c # w, s2)))"
  by pat_completeness auto
termination
  by (relation "measure (\<lambda>(ch, s). left s)") (auto dest!: Getc_less)

declare skip_whitespace.simps [simp del] skip_tochar.simps [simp del]

text \<open>How far they read.\<close>

lemma Getc_Ungetc: "(Some c, s') = Getc s \<Longrightarrow> Ungetc (Some c) s' = s"
  by (auto simp: Getc_def Ungetc_def split: if_splits)

lemma skip_whitespace_left: "left (snd (skip_whitespace s)) \<le> left s"
proof (induction s rule: skip_whitespace.induct)
  case (1 s)
  then show ?case
    by (subst skip_whitespace.simps)
       (fastforce split: prod.splits option.splits dest: Getc_Some Getc_None Getc_Ungetc [OF sym])
qed

lemma skip_tochar_left: "left (snd (snd (skip_tochar ch s))) \<le> left s"
proof (induction ch s rule: skip_tochar.induct)
  case (1 ch s)
  then show ?case
    by (subst skip_tochar.simps)
       (fastforce split: prod.splits option.splits dest: Getc_Some Getc_None)
qed

text \<open>For the measures of the loops, which count a character that has been read.\<close>

abbreviation ahead :: "char option \<Rightarrow> nat" where "ahead c \<equiv> (if c = None then 0 else 1)"

lemma Getc_le: "(c, s') = Getc s \<Longrightarrow> left s' + ahead c \<le> left s"
  by (cases c) (auto dest: Getc_less Getc_None [OF sym])

lemma skip_tochar_le: "(ok, w, s') = skip_tochar ch s \<Longrightarrow> left s' \<le> left s"
  using skip_tochar_left [of ch s] by (metis snd_conv)

section \<open>The arguments of a macro call\<close>

text \<open>
  The loop over one argument: the character that ended it, the level of parentheses, the text. The
  character \<open>c\<close> has been read.
\<close>

function arg_loop :: "char option \<Rightarrow> int \<Rightarrow> string \<Rightarrow> stream \<Rightarrow> char option \<times> int \<times> string \<times> stream" where
  "arg_loop c level arg s =
     (case c of
        None \<Rightarrow> (None, level, arg, s)
      | Some x \<Rightarrow>
          if x = CHR 0x22 \<or> x = CHR 0x27
          then (case skip_tochar x s of (ok, w, s1) \<Rightarrow>
                 case Getc s1 of (d, s2) \<Rightarrow> arg_loop d level (arg @ x # w) s2)
          else if (x = CHR '','' \<or> x = CHR '')'') \<and> level = 0 then (c, level, arg, s)
          else (case Getc s of (d, s1) \<Rightarrow>
                 arg_loop d (if x = CHR ''('' then level + 1 else if x = CHR '')'' then level - 1 else level) (arg @ [x]) s1))"
  by pat_completeness auto
termination
  by (relation "measure (\<lambda>(c, level, arg, s). left s + ahead c)") (fastforce dest!: Getc_le dest: skip_tochar_le)+

declare arg_loop.simps [simp del]

lemma arg_loop_left: "arg_loop c level arg s = (c', level', arg', s') \<Longrightarrow> left s' \<le> left s"
proof (induction c level arg s rule: arg_loop.induct)
  case (1 c level arg s)
  show ?case
  proof (cases c)
    case None
    then show ?thesis using 1(3) by (simp add: arg_loop.simps)
  next
    case (Some x)
    obtain ok w s1 where t: "skip_tochar x s = (ok, w, s1)" by (cases "skip_tochar x s") auto
    obtain d s2 where d: "Getc s1 = (d, s2)" by fastforce
    obtain d' s2' where d': "Getc s = (d', s2')" by fastforce
    have "left s1 \<le> left s" using skip_tochar_left [of x s] t by simp
    moreover have "left s2 \<le> left s1" "left s2' \<le> left s"
      using Getc_left [of s1] Getc_left [of s] d d' by simp_all
    moreover note 1(1) [OF Some _ t [symmetric] refl d [symmetric]] 1(2) [OF Some _ _ d' [symmetric]] 1(3)
    ultimately show ?thesis using Some t d d'
      by (subst (asm) (3) arg_loop.simps) (auto split: if_splits)
  qed
qed

lemma blank_first_left: "(d, s') = (if b then Getc (snd (skip_whitespace s)) else (c, s)) \<Longrightarrow> left s' \<le> left s"
  using skip_whitespace_left [of s] Getc_le [of d s' "snd (skip_whitespace s)"] by (auto split: if_splits)

text \<open>
  The loop over the arguments, each with the line where it starts. A blank that stands before the first
  argument or after a comma is skipped. The loop also ends at the end of the input, and the arguments
  found so far are returned.
\<close>

function args_loop ::
  "char option \<Rightarrow> (string \<times> int) list \<Rightarrow> stream \<Rightarrow> bool \<times> (string \<times> int) list \<times> stream" where
  "args_loop c args s =
     (case c of
        None \<Rightarrow> (False, args, s)
      | Some x \<Rightarrow>
          (case (if isspace x then Getc (snd (skip_whitespace s)) else (c, s)) of (c1, s1) \<Rightarrow>
           case arg_loop c1 0 [] s1 of (c2, level, arg, s2) \<Rightarrow>
             if level > 0 then (False, args, s2)
             else let a = rstrip arg;
                      args' = (if args \<noteq> [] \<or> a \<noteq> [] then args @ [(a, in_line s1)] else args)
                  in if c2 = Some (CHR '')'') then (True, args', s2)
                     else (case Getc s2 of (d, s3) \<Rightarrow> args_loop d args' s3)))"
  by pat_completeness auto
termination
  by (relation "measure (\<lambda>(c, args, s). left s + ahead c)")
     (auto dest!: Getc_le arg_loop_left [OF sym] blank_first_left)

declare args_loop.simps [simp del]

text \<open>\<open>None\<close> if there is no parenthesis; then nothing has been read.\<close>

definition find_args :: "stream \<Rightarrow> (bool \<times> (string \<times> int) list) option \<times> stream" where
  "find_args s =
     (case Getc (snd (skip_whitespace s)) of (c, s1) \<Rightarrow>
        if c \<noteq> Some (CHR ''('') then (None, Seek_back (in_pos s) s1)
        else (case Getc s1 of (d, s2) \<Rightarrow> case args_loop d [] s2 of (closed, args, s3) \<Rightarrow> (Some (closed, args), s3)))"

lemma Getc_text: "(c, s') = Getc s \<Longrightarrow> in_text s' = in_text s"
  by (auto simp: Getc_def split: if_splits)

lemma Ungetc_text [simp]: "in_text (Ungetc c s) = in_text s"
  by (auto simp: Ungetc_def split: option.split)

lemma skip_whitespace_text: "in_text (snd (skip_whitespace s)) = in_text s"
proof (induction s rule: skip_whitespace.induct)
  case (1 s)
  then show ?case
    by (subst skip_whitespace.simps) (auto split: prod.splits option.splits dest: Getc_text [OF sym])
qed

lemma args_loop_left: "args_loop c args s = (closed, args', s') \<Longrightarrow> left s' \<le> left s"
proof (induction c args s rule: args_loop.induct)
  case (1 c args s)
  show ?case
  proof (cases c)
    case None
    then show ?thesis using 1(2) by (simp add: args_loop.simps)
  next
    case (Some x)
    obtain c1 s1 where c1: "(if isspace x then Getc (snd (skip_whitespace s)) else (c, s)) = (c1, s1)" by fastforce
    obtain c2 level t s2 where a: "arg_loop c1 0 [] s1 = (c2, level, t, s2)" by (cases "arg_loop c1 0 [] s1") auto
    obtain d s3 where d: "Getc s2 = (d, s3)" by fastforce
    have le: "left s1 \<le> left s" "left s2 \<le> left s1" "left s3 \<le> left s2"
      using blank_first_left [OF c1 [symmetric]] arg_loop_left [OF a] Getc_le [OF d [symmetric]] by auto
    show ?thesis
      using 1(1) [OF Some c1 [symmetric] a [symmetric] refl refl _ refl refl _ d [symmetric]] 1(2) Some c1 a d le
      unfolding args_loop.simps [of c args s] by (auto simp: Let_def split: if_splits)
  qed
qed

lemma find_args_left: "left (snd (find_args s)) \<le> left s"
proof -
  obtain c s1 where c: "Getc (snd (skip_whitespace s)) = (c, s1)" by fastforce
  obtain d s2 where d: "Getc s1 = (d, s2)" by fastforce
  obtain closed l s3 where a: "args_loop d [] s2 = (closed, l, s3)" by (cases "args_loop d [] s2") auto
  have "in_text s1 = in_text s" using Getc_text [OF c [symmetric]] by (simp add: skip_whitespace_text)
  moreover have "left s3 \<le> left s"
    using args_loop_left [OF a] Getc_le [OF d [symmetric]] Getc_le [OF c [symmetric]] skip_whitespace_left [of s] by simp
  ultimately show ?thesis by (simp add: find_args_def c d a) (simp add: Seek_back_def left_def)
qed

section \<open>File names and options\<close>

text \<open>The text up to a character of a class; that character has been read.\<close>

function read_until :: "(char \<Rightarrow> bool) \<Rightarrow> stream \<Rightarrow> char option \<times> string \<times> stream" where
  "read_until P s =
     (case Getc s of
        (None, s1) \<Rightarrow> (None, [], s1)
      | (Some c, s1) \<Rightarrow>
          if P c then (Some c, [], s1) else (case read_until P s1 of (d, w, s2) \<Rightarrow> (d, c # w, s2)))"
  by pat_completeness auto
termination
  by (relation "measure (\<lambda>(P, s). left s)") (auto dest!: Getc_less)

declare read_until.simps [simp del]

lemma read_until_le: "(d, w, s') = read_until P s \<Longrightarrow> left s' \<le> left s"
proof (induction P s arbitrary: d w s' rule: read_until.induct)
  case (1 P s)
  then show ?case
    by (subst (asm) (2) read_until.simps) (fastforce split: prod.splits option.splits if_splits dest: Getc_Some Getc_None)
qed

lemma read_until_Ungetc: "(d, w, s') = read_until P s \<Longrightarrow> left (Ungetc d s') \<le> left s"
proof (induction P s arbitrary: d w s' rule: read_until.induct)
  case (1 P s)
  obtain c s1 where c: "Getc s = (c, s1)" by fastforce
  show ?case
  proof (cases c)
    case None
    then show ?thesis using 1(2) c Getc_None [of s s1] by (simp add: read_until.simps [of P s] Ungetc_def)
  next
    case (Some x)
    obtain d1 w1 s2 where r: "read_until P s1 = (d1, w1, s2)" by (cases "read_until P s1") auto
    show ?thesis
    proof (cases "P x")
      case True
      then show ?thesis using 1(2) c Some Getc_Ungetc [of x s1 s] by (simp add: read_until.simps [of P s])
    next
      case False
      then show ?thesis
        using 1(1) [OF c [symmetric] Some False r [symmetric]] 1(2) c Some r Getc_Some [of s x s1]
        by (simp add: read_until.simps [of P s])
    qed
  qed
qed

text \<open>
  The name, and whether it is that of a system file. What \<open>Putc\<close> makes of \<open>EOF\<close> is the byte 255.
  \<open>Swig_filename_correct\<close> does nothing on Unix.
\<close>

definition get_filename :: "stream \<Rightarrow> string \<times> bool \<times> stream" where
  "get_filename s =
     (case Getc (snd (skip_whitespace s)) of (c, s1) \<Rightarrow>
        if c = Some (CHR 0x22) then (case read_until (\<lambda>x. x = CHR 0x22) s1 of (d, w, s2) \<Rightarrow> (w, False, s2))
        else if c = Some (CHR ''<'') then (case read_until (\<lambda>x. x = CHR ''>'') s1 of (d, w, s2) \<Rightarrow> (w, True, s2))
        else (case read_until isspace s1 of (d, w, s2) \<Rightarrow>
               ((case c of Some x \<Rightarrow> x | None \<Rightarrow> CHR 0xFF) # w, False, Ungetc d s2)))"

function options_loop :: "int \<Rightarrow> stream \<Rightarrow> string option \<times> stream" where
  "options_loop level s =
     (case Getc s of
        (None, s1) \<Rightarrow> (None, s1)
      | (Some c, s1) \<Rightarrow>
          if c = CHR '')'' \<and> level = 1 then (Some [c], s1)
          else (case options_loop (if c = CHR '')'' then level - 1 else if c = CHR ''('' then level + 1 else level) s1 of
                  (w, s2) \<Rightarrow> (map_option ((#) c) w, s2)))"
  by pat_completeness auto
termination
  by (relation "measure (\<lambda>(level, s). left s)") (auto dest!: Getc_less)

declare options_loop.simps [simp del]

definition get_options :: "stream \<Rightarrow> string option \<times> stream" where
  "get_options s =
     (case Getc (snd (skip_whitespace s)) of (c, s1) \<Rightarrow>
        if c = Some (CHR ''('') then (case options_loop 1 s1 of (w, s2) \<Rightarrow> (map_option ((#) (CHR ''('')) w, s2))
        else (None, Ungetc c s1))"

lemma Getc_Ungetc_le: "Getc s = (c, s1) \<Longrightarrow> left (Ungetc c s1) \<le> left s"
  using Getc_Ungetc [of _ s1 s] Getc_None [of s s1] by (cases c) (simp_all add: Ungetc_def)

lemma get_filename_left: "left (snd (snd (get_filename s))) \<le> left s"
proof -
  obtain c s1 where c: "Getc (snd (skip_whitespace s)) = (c, s1)" by fastforce
  have l: "left s1 \<le> left s" using Getc_le [OF c [symmetric]] skip_whitespace_left [of s] by simp
  have "left s2 \<le> left s \<and> left (Ungetc d s2) \<le> left s" if "read_until P s1 = (d, w, s2)" for P d w s2
    using read_until_le [OF that [symmetric]] read_until_Ungetc [OF that [symmetric]] l by simp
  then show ?thesis by (auto simp: get_filename_def c split: prod.splits)
qed

lemma options_loop_left: "left (snd (options_loop level s)) \<le> left s"
proof (induction level s rule: options_loop.induct)
  case (1 level s)
  then show ?case
    by (subst options_loop.simps) (fastforce split: prod.splits option.splits dest: Getc_Some Getc_None)
qed

lemma get_options_left: "left (snd (get_options s)) \<le> left s"
proof -
  obtain c s1 where c: "Getc (snd (skip_whitespace s)) = (c, s1)" by fastforce
  have l: "left s1 \<le> left s" "left (Ungetc c s1) \<le> left s"
    using Getc_le [OF c [symmetric]] Getc_Ungetc_le [OF c] skip_whitespace_left [of s] by simp_all
  show ?thesis using options_loop_left [of 1 s1] l by (auto simp: get_options_def c split: prod.splits)
qed

section \<open>Messages\<close>

text \<open>
  Calls of \<open>Swig_error\<close>, \<open>Swig_warning\<close> (with the number of the warning) and \<open>Swig_warnfilter\<close>, without the
  location.
\<close>

datatype message = Error string | Warning int string | Warnfilter string

definition msg :: "string list \<Rightarrow> string" where
  "msg parts = concat parts @ [LF]"

function nat_text :: "nat \<Rightarrow> string" where
  "nat_text n = (if n < 10 then [char_of (48 + n)] else nat_text (n div 10) @ [char_of (48 + n mod 10)])"
  by pat_completeness auto
termination
  by (relation "measure id") auto

declare nat_text.simps [simp del]

definition int_text :: "int \<Rightarrow> string" where
  "int_text i = (if i < 0 then CHR ''-'' # nat_text (nat (- i)) else nat_text (nat i))"

section \<open>The text of a definition\<close>

definition Macro_vararg_name :: "string \<Rightarrow> string option \<times> message list" where
  "Macro_vararg_name name =
     (case strchr name (CHR ''.'') of
        None \<Rightarrow> (None, [])
      | Some dots \<Rightarrow>
          if dots \<noteq> ''...'' then (None, [Error (msg [''Illegal macro argument name '', [CHR 0x27], name, [CHR 0x27]])])
          else if dots = name then (Some ''__VA_ARGS__'', [])
          else (Some (take (length name - 3) name), []))"

text \<open>The name of a macro, the text of its parameters, and the rest; \<open>None\<close> if the parenthesis is not closed.\<close>

function name_loop :: "string \<Rightarrow> stream \<Rightarrow> (string \<times> string option \<times> stream) option" where
  "name_loop name s =
     (case Getc s of
        (None, s1) \<Rightarrow> Some (name, None, s1)
      | (Some c, s1) \<Rightarrow>
          if c = CHR ''('' then
            (case read_until (\<lambda>x. x = CHR '')'') s1 of (d, w, s2) \<Rightarrow> if d = None then None else Some (name, Some w, s2))
          else if isidchar c \<or> c = CHR ''%'' then name_loop (name @ [c]) s1
          else if isspace c then Some (name, None, s1)
          else if c = CHR 0x5C then
            (case Getc s1 of (d, s2) \<Rightarrow>
               if d \<noteq> Some LF then Some (name, None, Ungetc (Some c) (Ungetc d s2)) else name_loop name s2)
          else Some (name, None, Ungetc (Some c) s1))"
  by pat_completeness auto
termination
  by (relation "measure (\<lambda>(name, s). left s)") (auto dest!: Getc_less)

declare name_loop.simps [simp del]

text \<open>The parameters, and whether the last one takes all further arguments; \<open>None\<close> on an illegal character.\<close>

fun parm_loop :: "string \<Rightarrow> string \<Rightarrow> string list \<Rightarrow> message list \<Rightarrow> (string list \<times> bool) option \<times> message list" where
  "parm_loop [] name args ns =
     (if name = [] then (Some (args, False), ns)
      else case Macro_vararg_name name of (v, m) \<Rightarrow>
        (Some (case v of Some w \<Rightarrow> (args @ [w], True) | None \<Rightarrow> (args @ [name], False)), ns @ m))"
| "parm_loop (c # cs) name args ns =
     (if c = CHR '','' then
        (case Macro_vararg_name name of
           (Some w, m) \<Rightarrow> parm_loop cs [] args (ns @ m @ [Error (msg [''Variable-length macro argument must be last parameter''])])
         | (None, m) \<Rightarrow> parm_loop cs [] (args @ [name]) (ns @ m))
      else if isidchar c \<or> c = CHR ''.'' then parm_loop cs (name @ [c]) args ns
      else if isspace c \<or> c = CHR 0x5C then parm_loop cs name args ns
      else (None, ns @ [Error (msg [''Illegal character in macro argument name''])]))"

text \<open>
  A \<open>#\<close> outside of quotes and comments becomes the byte 1. State 10 is after a slash, 11 and 12 are in
  a comment, 15 in one to the end of the line, 20 and 30 in quotes, 21 and 31 after a backslash there.
\<close>

definition mark_plain :: "char \<Rightarrow> char \<times> nat" where
  "mark_plain c =
     (if c = CHR ''#'' then (CHR 0x01, 0)
      else (c, if c = CHR ''/'' then 10 else if c = CHR 0x27 then 20 else if c = CHR 0x22 then 30 else 0))"

definition mark_step :: "nat \<Rightarrow> char \<Rightarrow> char \<times> nat" where
  "mark_step st c =
     (if st = 10 then
        (if c = CHR ''*'' then (c, 11) else if c = CHR ''/'' then (c, 15) else mark_plain c)
      else if st = 11 then (c, if c = CHR ''*'' then 12 else 11)
      else if st = 12 then (c, if c = CHR ''/'' then 0 else if c \<noteq> CHR ''*'' then 11 else 12)
      else if st = 15 then (c, if c = LF then 0 else 15)
      else if st = 20 then (c, if c = CHR 0x5C then 21 else if c = CHR 0x27 then 0 else 20)
      else if st = 21 then (c, 20)
      else if st = 30 then (c, if c = CHR 0x5C then 31 else if c = CHR 0x22 then 0 else 30)
      else if st = 31 then (c, 30)
      else mark_plain c)"

fun mark_hash :: "nat \<Rightarrow> string \<Rightarrow> string" where
  "mark_hash st [] = []"
| "mark_hash st (c # cs) = (case mark_step st c of (d, st') \<Rightarrow> d # mark_hash st' cs)"

end
