(* ===== verification/IncludePath.thy ===== *)
theory IncludePath
  imports SwigPrelude
begin

text \<open>
  Finding files: Source/Swig/include.c. The file system is an argument, which gives the contents of a path
  that can be opened. The functions on file names copy their argument into a buffer of 1024 bytes.
\<close>

section \<open>Search path\<close>

record search =
  directories :: "string list"
  pdirectories :: "string list"
  lastpath :: "string option"
  dopush :: bool

definition Swig_set_push_dir :: "bool \<Rightarrow> search \<Rightarrow> search" where
  "Swig_set_push_dir b p = p\<lparr>dopush := b\<rparr>"

definition Swig_add_directory :: "string option \<Rightarrow> search \<Rightarrow> search" where
  "Swig_add_directory d p = (case d of None \<Rightarrow> p | Some x \<Rightarrow> p\<lparr>directories := directories p @ [x]\<rparr>)"

definition Swig_push_directory :: "string \<Rightarrow> search \<Rightarrow> search" where
  "Swig_push_directory d p = (if dopush p then p\<lparr>pdirectories := d # pdirectories p\<rparr> else p)"

definition Swig_pop_directory :: "search \<Rightarrow> search" where
  "Swig_pop_directory p = (if dopush p then p\<lparr>pdirectories := tl (pdirectories p)\<rparr> else p)"

definition Swig_last_file :: "search \<Rightarrow> string res" where
  "Swig_last_file p = (case lastpath p of None \<Rightarrow> Inl Assertion | Some f \<Rightarrow> Inr f)"

definition as_prefix :: "string \<Rightarrow> string" where "as_prefix d = d @ ''/''"

definition Swig_search_path_any :: "bool \<Rightarrow> search \<Rightarrow> string list" where
  "Swig_search_path_any sys p =
     fold (\<lambda>(i, d) l. if sys then take i l @ as_prefix d # drop i l else l @ [as_prefix d])
       (enumerate 0 (directories p)) (as_prefix ''.'' # map as_prefix (pdirectories p))"

definition Swig_search_path :: "search \<Rightarrow> string list" where
  "Swig_search_path p = Swig_search_path_any False p"

text \<open>System includes look in the directories first, others last.\<close>

lemma search_path_system: "Swig_search_path_any True p =
    map as_prefix (directories p) @ as_prefix ''.'' # map as_prefix (pdirectories p)"
proof -
  have "fold (\<lambda>(i, d) l. take i l @ as_prefix d # drop i l) (enumerate (length xs) ds) (map as_prefix xs @ r) =
      map as_prefix (xs @ ds) @ r" for xs ds r
  proof (induction ds arbitrary: xs)
    case (Cons d ds)
    then show ?case using Cons.IH [of "xs @ [d]"] by simp
  qed simp
  from this [of "[]"] show ?thesis by (simp add: Swig_search_path_any_def)
qed

lemma search_path_user: "Swig_search_path_any False p =
    as_prefix ''.'' # map as_prefix (pdirectories p) @ map as_prefix (directories p)"
proof -
  have "fold (\<lambda>(i, d) l. l @ [as_prefix d]) (enumerate n ds) r = r @ map as_prefix ds" for n ds and r :: "string list"
    by (induction ds arbitrary: n r) auto
  then show ?thesis by (simp add: Swig_search_path_any_def)
qed

section \<open>Opening and reading\<close>

fun first_found :: "(string \<Rightarrow> string option) \<Rightarrow> string list \<Rightarrow> (string \<times> string) option" where
  "first_found files [] = None"
| "first_found files (f # fs) = (case files f of Some t \<Rightarrow> Some (f, t) | None \<Rightarrow> first_found files fs)"

definition Swig_open_file ::
  "(string \<Rightarrow> string option) \<Rightarrow> string \<Rightarrow> bool \<Rightarrow> bool \<Rightarrow> search \<Rightarrow> string option \<times> search" where
  "Swig_open_file files name sys use_include_path p =
     (case first_found files
        (name # (if use_include_path then map (\<lambda>d. d @ name) (Swig_search_path_any sys p) else [])) of
        None \<Rightarrow> (None, p)
      | Some (f, t) \<Rightarrow> (Some t, p\<lparr>lastpath := Some f\<rparr>))"

definition Swig_include_open :: "(string \<Rightarrow> string option) \<Rightarrow> string \<Rightarrow> search \<Rightarrow> string option \<times> search" where
  "Swig_include_open files name p = Swig_open_file files name False True p"

definition Swig_open :: "(string \<Rightarrow> string option) \<Rightarrow> string \<Rightarrow> search \<Rightarrow> string option \<times> search" where
  "Swig_open files name p = Swig_open_file files name False False p"

text \<open>A line end is added to a last line without one.\<close>

definition Swig_read_file :: "string \<Rightarrow> string" where
  "Swig_read_file t = (if t \<noteq> [] \<and> last t \<noteq> CHR 0x0A then t @ [CHR 0x0A] else t)"

definition Swig_include_any :: "(string \<Rightarrow> string option) \<Rightarrow> string \<Rightarrow> bool \<Rightarrow> search \<Rightarrow> string option \<times> search" where
  "Swig_include_any files name sys p =
     (case Swig_open_file files name sys True p of (t, p') \<Rightarrow> (map_option Swig_read_file t, p'))"

definition Swig_include :: "(string \<Rightarrow> string option) \<Rightarrow> string \<Rightarrow> search \<Rightarrow> string option \<times> search" where
  "Swig_include files name p = Swig_include_any files name False p"

definition Swig_include_sys :: "(string \<Rightarrow> string option) \<Rightarrow> string \<Rightarrow> search \<Rightarrow> string option \<times> search" where
  "Swig_include_sys files name p = Swig_include_any files name True p"

section \<open>File names\<close>

text \<open>The text from the last period on, if it is not the first character.\<close>

fun suffix_from :: "nat \<Rightarrow> string \<Rightarrow> string" where
  "suffix_from 0 f = []"
| "suffix_from (Suc d) f = (if f ! Suc d = CHR ''.'' then drop (Suc d) f else suffix_from d f)"

definition Swig_file_suffix :: "string \<Rightarrow> string" where
  "Swig_file_suffix f = (if f = [] then [] else suffix_from (length f - 1) f)"

definition name_buffer :: "string \<Rightarrow> string res" where
  "name_buffer f = (if length f < 1024 then Inr f else Inl Out_of_bounds)"

definition Swig_file_basename :: "string \<Rightarrow> string res" where
  "Swig_file_basename f =
     rbind (name_buffer f) (\<lambda>t. Inr (take (length t - length (Swig_file_suffix t)) t))"

fun after_slash :: "string \<Rightarrow> string \<Rightarrow> string" where
  "after_slash r [] = r"
| "after_slash r (c # cs) = (if c = CHR ''/'' then after_slash cs cs else after_slash r cs)"

definition Swig_file_filename :: "string \<Rightarrow> string res" where
  "Swig_file_filename f = rbind (name_buffer f) (\<lambda>t. Inr (after_slash t t))"

definition Swig_file_dirname :: "string \<Rightarrow> string res" where
  "Swig_file_dirname f =
     rbind (name_buffer f) (\<lambda>t.
       if strstr t ''/'' = None then Inr []
       else Inr (rev (dropWhile (\<lambda>c. c \<noteq> CHR ''/'') (rev t))))"

lemma after_slash_parts: "CHR ''/'' \<notin> set f \<Longrightarrow> after_slash r (d @ CHR ''/'' # f) = f"
proof (induction d arbitrary: r)
  case Nil
  have "CHR ''/'' \<notin> set f \<Longrightarrow> after_slash r f = r" for r by (induction f arbitrary: r) auto
  then show ?case using Nil by simp
qed simp

lemma dirname_filename:
  "CHR ''/'' \<notin> set f \<Longrightarrow> length (d @ CHR ''/'' # f) < 1024 \<Longrightarrow>
   Swig_file_dirname (d @ CHR ''/'' # f) = Inr (d @ ''/'') \<and> Swig_file_filename (d @ CHR ''/'' # f) = Inr f"
  using sublist_appendI [of "''/''" d f]
  by (auto simp: Swig_file_dirname_def Swig_file_filename_def name_buffer_def after_slash_parts dropWhile_append3
      strstr_None_iff)

lemma long_name_overruns: "1024 \<le> length f \<Longrightarrow> Swig_file_dirname f = Inl Out_of_bounds"
  by (simp add: Swig_file_dirname_def name_buffer_def)

end
