(* ===== verification/CppMacro.thy ===== *)
theory CppMacro
  imports SwigTypeStr ExprText CppText IncludePath
begin

text \<open>
  Macros of Source/Preprocessor/cpp.c: the symbol table, definitions, the expansion of one macro, and the
  replacement of the macros in a text. The expansion and the replacement call each other, and a
  macro of \<open>%define\<close> is parsed again (\<open>CppParse\<close> ties these together); here each is defined with the
  others as arguments.
\<close>

section \<open>State\<close>

text \<open>
  A macro has a number, since the table may have another one of its name later. \<open>m_vline\<close> is the
  line number of the value's text when its cursor is at the end, less the line ends in it: \<open>Replace\<close> keeps
  the line, and \<open>Seek\<close> to 0 subtracts the line ends it passes.
\<close>

record macro =
  m_id :: nat
  m_name :: string
  m_args :: "string list option"
  m_varargs :: bool
  m_value :: string
  m_vline :: int
  m_line :: int
  m_file :: "string option"
  m_swig :: bool
  m_expanded :: bool

record cpp =
  symbols :: "string \<Rightarrow> macro option"
  next_macro :: nat
  messages :: "message list"
  ex_stack :: "cell list"
  include_all :: bool
  import_all :: bool
  ignore_missing :: bool
  error_as_warning :: int
  imported_depth :: int
  included_files :: "string list"
  dependencies :: "string list"
  path :: search

definition report :: "message list \<Rightarrow> cpp \<Rightarrow> cpp" where
  "report ms st = st\<lparr>messages := messages st @ ms\<rparr>"

definition Preprocessor_init :: cpp where
  "Preprocessor_init =
     \<lparr>symbols = (\<lambda>_. None), next_macro = 0, messages = [], ex_stack = initial_stack, include_all = False,
      import_all = False, ignore_missing = False, error_as_warning = 0, imported_depth = 0, included_files = [],
      dependencies = [], path = \<lparr>directories = [], pdirectories = [], lastpath = None, dopush = True\<rparr>\<rparr>"

definition Preprocessor_include_all :: "bool \<Rightarrow> cpp \<Rightarrow> cpp" where
  "Preprocessor_include_all a st = st\<lparr>include_all := a\<rparr>"

definition Preprocessor_import_all :: "bool \<Rightarrow> cpp \<Rightarrow> cpp" where
  "Preprocessor_import_all a st = st\<lparr>import_all := a\<rparr>"

definition Preprocessor_ignore_missing :: "bool \<Rightarrow> cpp \<Rightarrow> cpp" where
  "Preprocessor_ignore_missing a st = st\<lparr>ignore_missing := a\<rparr>"

definition Preprocessor_error_as_warning :: "int \<Rightarrow> cpp \<Rightarrow> cpp" where
  "Preprocessor_error_as_warning a st = st\<lparr>error_as_warning := a\<rparr>"

definition Preprocessor_depend :: "cpp \<Rightarrow> string list" where
  "Preprocessor_depend st = dependencies st"

section \<open>Definitions\<close>

definition REPLACE_NOQUOTE :: replace_flags where
  "REPLACE_NOQUOTE = REPLACE_ANY\<lparr>rf_noquote := True\<rparr>"

definition REPLACE_ID :: replace_flags where
  "REPLACE_ID = REPLACE_ANY\<lparr>rf_id := True\<rparr>"

definition REPLACE_ID_BEGIN :: replace_flags where
  "REPLACE_ID_BEGIN = REPLACE_ANY\<lparr>rf_id_begin := True\<rparr>"

definition REPLACE_ID_END :: replace_flags where
  "REPLACE_ID_END = REPLACE_ANY\<lparr>rf_id_end := True\<rparr>"

text \<open>The loops that remove blanks; each round shortens the text.\<close>

fun replace_while :: "nat \<Rightarrow> string \<Rightarrow> string \<Rightarrow> string \<Rightarrow> string res" where
  "replace_while 0 t tok rep = Inl Hang"
| "replace_while (Suc n) t tok rep =
     (if strstr t tok = None then Inr t
      else rbind (text_replace t tok rep REPLACE_ANY) (\<lambda>u. replace_while n u tok rep))"

abbreviation (input) HASH :: string where "HASH \<equiv> [CHR 0x01]"
abbreviation (input) PASTE :: string where "PASTE \<equiv> [CHR 0x02]"
abbreviation (input) HERE :: string where "HERE \<equiv> [CHR 0x03]"
abbreviation (input) MANGLE :: string where "MANGLE \<equiv> [CHR 0x04]"
abbreviation (input) QMANGLE :: string where "QMANGLE \<equiv> [CHR 0x05]"

definition macro_value :: "bool \<Rightarrow> string \<Rightarrow> string res" where
  "macro_value swigmacro v =
     rbind (if swigmacro then Inr v else text_replace v [CHR 0x5C, LF] '' '' REPLACE_NOQUOTE) (\<lambda>v1.
     rbind (let w = mark_hash 0 v1 in replace_while (Suc (length w)) w (HASH @ '' '') HASH) (\<lambda>v2.
     rbind (replace_while (Suc (length v2)) v2 ('' '' @ HASH) HASH) (\<lambda>v3.
     rbind (text_replace v3 (HASH @ HASH) PASTE REPLACE_ANY) (\<lambda>v4.
     rbind (text_replace v4 (HASH @ ''@'') MANGLE REPLACE_ANY) (\<lambda>v5.
     text_replace v5 (PASTE @ ''@'') QMANGLE REPLACE_ANY)))))"

text \<open>The macro that is returned is in the table unless one of the same value was there.\<close>

definition Preprocessor_define :: "cpp \<Rightarrow> stream \<Rightarrow> bool \<Rightarrow> (macro option \<times> cpp) res" where
  "Preprocessor_define st s swigmacro =
     (case name_loop [] (snd (skip_whitespace s)) of
        None \<Rightarrow> Inr (None, report [Error (msg [''Missing '', [CHR 0x27], '')'', [CHR 0x27], '' in macro parameters''])] st)
      | Some (name, argstr, s1) \<Rightarrow>
          let s2 = (if swigmacro then s1 else snd (skip_whitespace s1));
              raw = drop (in_pos s2) (in_text s2);
              parms = (case argstr of
                         None \<Rightarrow> (Some (None, False), [])
                       | Some a \<Rightarrow> (case parm_loop a [] [] [] of
                             (None, ms) \<Rightarrow> (None, ms)
                           | (Some (l, va), ms) \<Rightarrow> (Some (Some l, va), ms)))
          in case parms of
               (None, ms) \<Rightarrow> Inr (None, report ms st)
             | (Some (args, va), ms) \<Rightarrow>
                 rbind (macro_value swigmacro raw) (\<lambda>v.
                   let m = \<lparr>m_id = next_macro st, m_name = name, m_args = args, m_varargs = va, m_value = v,
                            m_vline = 1 + nls raw, m_line = in_line s, m_file = in_file s, m_swig = swigmacro,
                            m_expanded = False\<rparr>;
                       st1 = (report ms st)\<lparr>next_macro := next_macro st + 1\<rparr>
                   in case symbols st name of
                        None \<Rightarrow> Inr (Some m, st1\<lparr>symbols := (symbols st)(name \<mapsto> m)\<rparr>)
                      | Some m1 \<Rightarrow>
                          if m_value m1 = v then Inr (Some m, st1)
                          else Inr (None, report
                            [Error (msg [''Macro '', [CHR 0x27], name, [CHR 0x27], '' redefined,'']),
                             Error (msg [''previous definition of '', [CHR 0x27], name, [CHR 0x27], ''.''])] st1)))"

definition Preprocessor_undef :: "string \<Rightarrow> cpp \<Rightarrow> cpp" where
  "Preprocessor_undef name st = st\<lparr>symbols := (symbols st)(name := None)\<rparr>"

definition push_imported :: "cpp \<Rightarrow> cpp res" where
  "push_imported st =
     rbind (if imported_depth st = 0
            then rbind (Preprocessor_define st (open_text ''SWIGIMPORTED 1'' 1 None) False) (\<lambda>(m, st1). Inr st1)
            else Inr st)
       (\<lambda>st1. Inr (st1\<lparr>imported_depth := imported_depth st1 + 1\<rparr>))"

definition pop_imported :: "cpp \<Rightarrow> cpp" where
  "pop_imported st =
     (let st1 = st\<lparr>imported_depth := imported_depth st - 1\<rparr>
      in if imported_depth st1 = 0 then Preprocessor_undef ''SWIGIMPORTED'' st1 else st1)"

section \<open>Expansion of a macro\<close>

text \<open>The arguments of a call: text, line and file.\<close>

type_synonym marg = "string \<times> int \<times> string option"

fun comma_join :: "string list \<Rightarrow> string" where
  "comma_join [] = []"
| "comma_join [a] = a"
| "comma_join (a # as) = a @ '','' @ comma_join as"

definition call_text :: "string \<Rightarrow> marg list option \<Rightarrow> string" where
  "call_text name args =
     (case args of
        None \<Rightarrow> name
      | Some l \<Rightarrow> if l = [] then name else name @ ''('' @ comma_join (map fst l) @ '')'')"

text \<open>The arguments from the last parameter on are joined to one.\<close>

definition collect_varargs :: "nat \<Rightarrow> marg list \<Rightarrow> marg list" where
  "collect_varargs n args =
     (if n \<le> Suc (length args)
      then take (n - 1) args @ [(comma_join (map fst (drop (n - 1) args)), 1, None)]
      else args)"

definition arity_message :: "string \<Rightarrow> nat \<Rightarrow> nat \<Rightarrow> message" where
  "arity_message name n va =
     Error (msg ([''Macro '', [CHR 0x27], name, [CHR 0x27]] @
       (if n > 1 + va then ['' expects '', int_text (int n - int va), '' arguments'']
        else if n = 1 + va then ['' expects 1 argument''] else ['' expects no arguments''])))"

text \<open>The loop that blanks out commas in front of a concatenation; \<open>n\<close> is the number of characters before it.\<close>

fun blank_commas :: "nat \<Rightarrow> string \<Rightarrow> string" where
  "blank_commas 0 s = s"
| "blank_commas (Suc t) s =
     (if isspace (s ! t) then blank_commas t s
      else if s ! t = CHR '','' then blank_commas t (s[t := CHR '' '']) else s)"

text \<open>
  The loop over the occurrences of the name from \<open>i\<close> on. It reads the second character after the name, which
  may be past the end of the text, and the one before.
\<close>

fun empty_vararg :: "nat \<Rightarrow> string \<Rightarrow> nat \<Rightarrow> string \<Rightarrow> string res" where
  "empty_vararg 0 name i s = Inl Hang"
| "empty_vararg (Suc n) name i s =
     (case strstr (drop i s) name of
        None \<Rightarrow> Inr s
      | Some r \<Rightarrow>
          let a = length s - length r; k = a + length name + 1
          in if k > length s then Inl Out_of_bounds
             else if k < length s \<and> isidchar (s ! k) then empty_vararg n name (a + length name) s
             else if a = 0 then Inl Out_of_bounds
             else empty_vararg n name (a + length name)
                    (if s ! (a - 1) = CHR 0x02 then blank_commas (a - 1) s else s))"

definition quoted :: "string \<Rightarrow> string" where
  "quoted t = CHR 0x22 # t @ [CHR 0x22]"

text \<open>One argument, in the order of the code.\<close>

definition put_argument :: "(string \<Rightarrow> string) \<Rightarrow> bool \<Rightarrow> string \<Rightarrow> string \<Rightarrow> string \<Rightarrow> string \<Rightarrow> string res" where
  "put_argument mangle last_vararg arg reparg name n0 =
     rbind (if strstr n0 HASH \<noteq> None then text_replace n0 (HASH @ name) (quoted arg) REPLACE_ID_END else Inr n0) (\<lambda>n1.
     rbind (if strstr n1 PASTE \<noteq> None
            then rbind (text_replace n1 (PASTE @ name) (PASTE @ HERE) REPLACE_ID_END) (\<lambda>u.
              text_replace u (name @ PASTE) (HERE @ PASTE) REPLACE_ID_BEGIN)
            else Inr n1) (\<lambda>n2.
     rbind (if strchr n2 (CHR 0x60) \<noteq> None
            then text_replace n2 ([CHR 0x60] @ name @ [CHR 0x60])
                   (if starts_with [CHR 0x22] arg then arg else quoted arg) REPLACE_ANY
            else Inr n2) (\<lambda>n3.
     rbind (if strstr n3 MANGLE \<noteq> None then text_replace n3 (MANGLE @ name) (mangle arg) REPLACE_ID_END else Inr n3) (\<lambda>n4.
     rbind (if strstr n4 QMANGLE \<noteq> None
            then text_replace n4 (QMANGLE @ name) (quoted (mangle arg)) REPLACE_ID_END else Inr n4) (\<lambda>n5.
     rbind (if last_vararg \<and> arg = [] then empty_vararg (Suc (length n5)) name 0 n5 else Inr n5) (\<lambda>n6.
     rbind (text_replace n6 name reparg REPLACE_ID) (\<lambda>n7.
     text_replace n7 HERE arg REPLACE_ANY)))))))"

fun put_arguments ::
  "(cpp \<Rightarrow> marg \<Rightarrow> (string \<times> cpp) res) \<Rightarrow> (string \<Rightarrow> string) \<Rightarrow> bool \<Rightarrow> marg list \<Rightarrow> string list \<Rightarrow> string \<Rightarrow> cpp \<Rightarrow>
   (string \<times> cpp) res" where
  "put_arguments replace mangle isvarargs (a # as) (p # ps) n st =
     rbind (replace st a) (\<lambda>(r, st1).
     rbind (put_argument mangle (isvarargs \<and> ps = []) (fst a) r p n) (\<lambda>n1.
     put_arguments replace mangle isvarargs as ps n1 st1))"
| "put_arguments replace mangle isvarargs as ps n st = Inr (n, st)"

text \<open>A macro that was freed while it is in use is \<open>Undefined\<close>.\<close>

definition alive :: "cpp \<Rightarrow> macro \<Rightarrow> bool" where
  "alive st m = (case symbols st (m_name m) of Some m1 \<Rightarrow> m_id m1 = m_id m | None \<Rightarrow> False)"

definition set_expanded :: "bool \<Rightarrow> macro \<Rightarrow> cpp \<Rightarrow> cpp res" where
  "set_expanded b m st =
     (case symbols st (m_name m) of
        Some m1 \<Rightarrow>
          if m_id m1 = m_id m then Inr (st\<lparr>symbols := (symbols st)(m_name m \<mapsto> m1\<lparr>m_expanded := b\<rparr>)\<rparr>) else Inl Undefined
      | None \<Rightarrow> Inl Undefined)"

definition swig_markers :: "macro \<Rightarrow> string \<Rightarrow> string \<Rightarrow> string" where
  "swig_markers m name g =
     ''/*@SWIG:'' @ (case m_file m of Some f \<Rightarrow> f | None \<Rightarrow> []) @ '','' @ int_text (m_line m) @ '','' @ name @ ''@*/'' @ g @
     ''/*@SWIG@*/''"

text \<open>
  The rest of the expansion, when the arguments are in place: the value is replaced further with the macro
  marked, and a macro of \<open>%define\<close> is then parsed.
\<close>

definition expand_value ::
  "(cpp \<Rightarrow> marg \<Rightarrow> (string \<times> cpp) res) \<Rightarrow> (cpp \<Rightarrow> stream \<Rightarrow> (string \<times> cpp) res) \<Rightarrow> macro \<Rightarrow> string \<Rightarrow> string \<Rightarrow> cpp \<Rightarrow>
   (string option \<times> cpp) res" where
  "expand_value replace parse m name v st =
     rbind (text_replace v PASTE [] REPLACE_ANY) (\<lambda>v1.
     rbind (text_replace v1 HASH ''#'' REPLACE_ANY) (\<lambda>v2.
     rbind (text_replace v2 MANGLE ''#@'' REPLACE_ANY) (\<lambda>v3.
     rbind (set_expanded True m st) (\<lambda>st1.
     rbind (replace st1 (v3, m_vline m - nls v3, None)) (\<lambda>(e, st2).
     rbind (set_expanded False m st2) (\<lambda>st3.
       if m_swig m
       then rbind (parse st3 (open_text e (m_line m) (m_file m))) (\<lambda>(g, st4).
              if LF \<in> set g
              then (if alive st4 m then Inr (Some (swig_markers m name g), st4) else Inl Undefined)
              else Inr (Some g, st4))
       else Inr (Some e, st3)))))))"

definition expand_macro ::
  "(cpp \<Rightarrow> marg \<Rightarrow> (string \<times> cpp) res) \<Rightarrow> (cpp \<Rightarrow> stream \<Rightarrow> (string \<times> cpp) res) \<Rightarrow> (string \<Rightarrow> string) \<Rightarrow>
   cpp \<Rightarrow> string \<Rightarrow> marg list option \<Rightarrow> (string option \<times> cpp) res" where
  "expand_macro replace parse mangle st name args =
     (case symbols st name of
        None \<Rightarrow> Inr (None, st)
      | Some m \<Rightarrow>
          if m_expanded m then Inr (Some (call_text name args), st)
          else
            let isvarargs = (args \<noteq> None \<and> m_varargs m);
                n = (case m_args m of Some l \<Rightarrow> length l | None \<Rightarrow> 0);
                args1 = (if isvarargs then map_option (collect_varargs n) args else args)
            in case (args1, m_args m) of
                 (Some as, Some ps) \<Rightarrow>
                   if length ps \<noteq> length as then Inr (None, report [arity_message name n (if isvarargs then 1 else 0)] st)
                   else rbind (put_arguments replace mangle isvarargs as ps (m_value m) st) (\<lambda>(v, st1).
                     expand_value replace parse m name v st1)
               | (None, Some (p # ps)) \<Rightarrow> Inr (Some name, st)
               | _ \<Rightarrow> expand_value replace parse m name (m_value m) st)"

section \<open>Replacement in a text\<close>

text \<open>
  The argument of \<open>defined\<close>: the names, or \<open>None\<close> if there are none, and whether the parenthesis is closed;
  without a parenthesis or a name one character is read again, also at the end of the input.
\<close>

definition defined_args :: "stream \<Rightarrow> string list option \<times> bool \<times> stream" where
  "defined_args s =
     (case Getc (snd (skip_whitespace s)) of (c, s1) \<Rightarrow>
        case c of
          None \<Rightarrow> (None, True, Seek_back (in_pos s1 - 1) s1)
        | Some x \<Rightarrow>
            if x = CHR ''('' then
              (case find_args (Ungetc c s1) of
                 (Some (closed, l), s2) \<Rightarrow> (if l = [] then None else Some (map fst l), closed, s2)
               | (None, s2) \<Rightarrow> (None, True, s2))
            else if isidchar x then
              (case read_until (\<lambda>y. \<not> isidchar y) s1 of (d, w, s2) \<Rightarrow> (Some [x # w], True, Ungetc d s2))
            else (None, True, Seek_back (in_pos s1 - 1) s1))"

definition unterminated :: "bool \<Rightarrow> cpp \<Rightarrow> cpp" where
  "unterminated closed st = (if closed then st else report [Error (msg [''Unterminated macro call.''])] st)"

text \<open>An identifier that has been read.\<close>

definition replace_id ::
  "(cpp \<Rightarrow> string \<Rightarrow> marg list option \<Rightarrow> (string option \<times> cpp) res) \<Rightarrow> string \<Rightarrow> string \<Rightarrow> stream \<Rightarrow> cpp \<Rightarrow>
   (string \<times> stream \<times> cpp) res" where
  "replace_id expand i out s st =
     (if i = ''defined'' then
        (case defined_args s of
           (None, closed, s1) \<Rightarrow> Inr (out @ i, s1, unterminated closed st)
         | (Some names, closed, s1) \<Rightarrow>
             Inr (out @ (if list_all (\<lambda>n. symbols st n \<noteq> None) names then ''1'' else ''0''), s1, unterminated closed st))
      else if i = ''__LINE__'' then Inr (out @ int_text (in_line s), s, st)
      else if i = ''__FILE__'' then
        rbind (case in_file s of
                 None \<Rightarrow> Inr []
               | Some f \<Rightarrow> text_replace f [CHR 0x5C] [CHR 0x5C, CHR 0x5C] REPLACE_ANY)
          (\<lambda>f. Inr (out @ quoted f, s, st))
      else case symbols st i of
          None \<Rightarrow> Inr (out @ i, s, st)
        | Some m \<Rightarrow>
            (case (if m_args m \<noteq> None then find_args s else (None, s)) of (r, s1) \<Rightarrow>
               let l = (case r of Some (closed, l) \<Rightarrow> l | None \<Rightarrow> []);
                   args = (if l = [] then None else Some (map (\<lambda>(t, ln). (t, ln, in_file s)) l));
                   closed = (case r of Some (b, l) \<Rightarrow> b | None \<Rightarrow> True)
               in rbind (expand (unterminated closed st) i args) (\<lambda>(e, st2).
                    Inr (out @ (case e of Some t \<Rightarrow> t | None \<Rightarrow> []), s1, st2))))"

text \<open>
  The states: 0 outside, 1 in an identifier, 10 after a slash, 11 in a comment to the end of the line, 12 and
  13 in a comment. The character \<open>c\<close> has been read.
\<close>

record rstate =
  r_state :: nat
  r_id :: string
  r_out :: string

definition replace_step ::
  "(cpp \<Rightarrow> string \<Rightarrow> marg list option \<Rightarrow> (string option \<times> cpp) res) \<Rightarrow> char \<Rightarrow> rstate \<Rightarrow> stream \<Rightarrow> cpp \<Rightarrow>
   (rstate \<times> stream \<times> cpp) res" where
  "replace_step expand c r s st =
     (let put = r\<lparr>r_out := r_out r @ [c]\<rparr>
      in if r_state r = 0 then
           (if isidentifier c \<or> c = CHR ''%'' then Inr (r\<lparr>r_id := [c], r_state := 1\<rparr>, s, st)
            else if c = CHR 0x22 \<or> c = CHR 0x27 then
              (case skip_tochar c s of (ok, w, s1) \<Rightarrow> Inr (r\<lparr>r_out := r_out r @ c # w\<rparr>, s1, st))
            else if c = CHR ''/'' then Inr (put\<lparr>r_state := 10\<rparr>, s, st)
            else Inr (put, s, st))
         else if r_state r = 1 then
           (if isidchar c then Inr (r\<lparr>r_id := r_id r @ [c]\<rparr>, s, st)
            else rbind (replace_id expand (r_id r) (r_out r) (Ungetc (Some c) s) st) (\<lambda>(t, s1, st1).
                   Inr (r\<lparr>r_out := t, r_state := 0\<rparr>, s1, st1)))
         else if r_state r = 10 then
           (if c = CHR ''/'' then Inr (put\<lparr>r_state := 11\<rparr>, s, st)
            else if c = CHR ''*'' then Inr (put\<lparr>r_state := 12\<rparr>, s, st)
            else Inr (r\<lparr>r_state := 0\<rparr>, Ungetc (Some c) s, st))
         else if r_state r = 11 then Inr (put\<lparr>r_state := (if c = LF then 0 else 11)\<rparr>, s, st)
         else if r_state r = 12 then Inr (put\<lparr>r_state := (if c = CHR ''*'' then 13 else 12)\<rparr>, s, st)
         else if r_state r = 13 then
           Inr (put\<lparr>r_state := (if c = CHR ''/'' then 0 else if c = CHR ''*'' then 13 else 12)\<rparr>, s, st)
         else Inr (r\<lparr>r_state := 0\<rparr>, s, st))"

text \<open>The loop reads on or leaves a state other than 0.\<close>

lemma Seek_back_left: "in_text s1 = in_text s \<Longrightarrow> left (Seek_back (in_pos s1 - 1) s1) \<le> left s1 + 1"
  by (auto simp: Seek_back_def left_def)

lemma defined_args_left: "left s > 0 \<Longrightarrow> left (snd (snd (defined_args s))) \<le> left s"
proof -
  assume pos: "left s > 0"
  obtain c s1 where c: "Getc (snd (skip_whitespace s)) = (c, s1)" by fastforce
  have sk: "left (snd (skip_whitespace s)) \<le> left s" by (rule skip_whitespace_left)
  have seek: "left (Seek_back (in_pos s1 - 1) s1) \<le> left s1 + 1" by (rule Seek_back_left [OF refl])
  show ?thesis
  proof (cases c)
    case None
    then have "left s1 = 0" using c by (auto simp: Getc_def left_def split: if_splits)
    then show ?thesis using None c seek pos by (simp add: defined_args_def)
  next
    case (Some x)
    have u: "Ungetc c s1 = snd (skip_whitespace s)" using Getc_Ungetc [of x s1] c Some by simp
    have l: "left s1 + 1 \<le> left s" using Getc_Some [of "snd (skip_whitespace s)" x s1] c Some sk by simp
    have f: "left (snd (find_args (Ungetc c s1))) \<le> left s" using find_args_left [of "Ungetc c s1"] u sk by simp
    have r: "left (Ungetc d s2) \<le> left s" if "read_until P s1 = (d, w, s2)" for P d w s2
      using read_until_Ungetc [OF that [symmetric]] l by simp
    show ?thesis
      using Some c seek l f r by (auto simp: defined_args_def split: prod.splits option.splits)
  qed
qed

lemma replace_id_left: "replace_id expand i out s st = Inr (t, s', st') \<Longrightarrow> left s > 0 \<Longrightarrow> left s' \<le> left s"
  using defined_args_left [of s] find_args_left [of s]
  by (auto simp: replace_id_def Let_def elim!: rbind_InrE split: if_splits prod.splits option.splits)

abbreviation away :: "rstate \<Rightarrow> nat" where "away r \<equiv> (if r_state r = 0 then 0 else 1)"

lemma replace_step_less:
  assumes "Getc s0 = (Some c, s)" and "replace_step expand c r s st = Inr (r', s', st')"
  shows "2 * left s' + away r' < 2 * left s0 + away r"
proof -
  have l: "left s0 = Suc (left s)" using Getc_Some [OF assms(1)] by simp
  have u: "Ungetc (Some c) s = s0" using Getc_Ungetc [of c s s0] assms(1) by simp
  show ?thesis
  proof (cases "r_state r = 1 \<and> \<not> isidchar c")
    case True
    then obtain t s1 st1 where "replace_id expand (r_id r) (r_out r) s0 st = Inr (t, s1, st1)"
        "r' = r\<lparr>r_out := t, r_state := 0\<rparr>" "s' = s1"
      using assms(2) by (auto simp: replace_step_def Let_def u elim!: rbind_InrE)
    then show ?thesis using replace_id_left [of expand "r_id r" "r_out r" s0 st t s1 st1] l True by simp
  next
    case False
    then show ?thesis
      using assms(2) l u skip_tochar_left [of c s]
      by (auto simp: replace_step_def Let_def split: if_splits prod.splits)
  qed
qed

function replace_loop ::
  "(cpp \<Rightarrow> string \<Rightarrow> marg list option \<Rightarrow> (string option \<times> cpp) res) \<Rightarrow> rstate \<Rightarrow> stream \<Rightarrow> cpp \<Rightarrow>
   (rstate \<times> stream \<times> cpp) res" where
  "replace_loop expand r s st =
     (case Getc s of
        (None, s1) \<Rightarrow> Inr (r, s1, st)
      | (Some c, s1) \<Rightarrow>
          (case replace_step expand c r s1 st of
             Inl e \<Rightarrow> Inl e
           | Inr (r', s', st') \<Rightarrow> replace_loop expand r' s' st'))"
  by pat_completeness auto
termination
  by (relation "measure (\<lambda>(expand, r, s, st). 2 * left s + away r)") (auto dest!: replace_step_less [OF sym])

declare replace_loop.simps [simp del]

text \<open>An identifier at the end has no arguments, and is not \<open>__LINE__\<close> or \<open>__FILE__\<close>.\<close>

definition replace_end ::
  "(cpp \<Rightarrow> string \<Rightarrow> marg list option \<Rightarrow> (string option \<times> cpp) res) \<Rightarrow> rstate \<Rightarrow> cpp \<Rightarrow> (string \<times> cpp) res" where
  "replace_end expand r st =
     (if r_state r \<noteq> 1 then Inr (r_out r, st)
      else if r_id r = ''defined'' then Inr (r_out r, report [Error (msg [''No arguments given to defined()''])] st)
      else if symbols st (r_id r) \<noteq> None then
        rbind (expand st (r_id r) None) (\<lambda>(e, st1). Inr (r_out r @ (case e of Some t \<Rightarrow> t | None \<Rightarrow> []), st1))
      else Inr (r_out r @ r_id r, st))"

definition Preprocessor_replace ::
  "(cpp \<Rightarrow> string \<Rightarrow> marg list option \<Rightarrow> (string option \<times> cpp) res) \<Rightarrow> cpp \<Rightarrow> marg \<Rightarrow> (string \<times> cpp) res" where
  "Preprocessor_replace expand st = (\<lambda>(t, ln, f).
     rbind (replace_loop expand \<lparr>r_state = 0, r_id = [], r_out = []\<rparr> (open_text t ln f) st)
       (\<lambda>(r, s, st1). replace_end expand r st1))"

text \<open>The heuristic that makes a definition a constant: no name and no brace in it.\<close>

function checkpp_loop :: "bool \<Rightarrow> scanner \<Rightarrow> bool res" where
  "checkpp_loop hastok s =
     (case Scanner_token (s\<lparr>nexttoken := -1\<rparr>) of
        Inl e \<Rightarrow> Inl e
      | Inr (t, s') \<Rightarrow>
          if t = 0 then Inr (\<not> hastok) else if t = 15 \<or> t = 4 \<or> t = 5 then Inr True else checkpp_loop True s')"
  by pat_completeness auto
termination
  by (relation "measure (\<lambda>(b, s). remaining s)") (auto dest: Scanner_token_progress)

declare checkpp_loop.simps [simp del]

definition checkpp_id :: "string \<Rightarrow> bool res" where
  "checkpp_id t = checkpp_loop False (scan_text NewScanner t 1 None)"

end
