(* ===== verification/CppParse.thy ===== *)
theory CppParse
  imports CppMacro
begin

text \<open>
  \<open>Preprocessor_parse\<close> of Source/Preprocessor/cpp.c: a state machine over the characters of a file, with the
  directives of C and of SWIG, and the recursion of parsing, replacement and expansion. The numbers of
  the states are those of the code.
\<close>

section \<open>State\<close>

text \<open>
  The line of a text is the one it has when its cursor is at 0. The file of every text is that of the input.
  \<open>cond_lines\<close> is the array of the lines of the open conditionals, which has 256 entries.
\<close>

record pstate =
  ps_state :: nat
  ps_out :: string
  ps_chunk :: string
  ps_chunk_line :: int
  ps_decl :: string
  ps_id :: string
  ps_id_line :: int
  ps_value :: string
  ps_value_line :: int
  ps_comment :: string
  ps_start_line :: int
  ps_allow :: bool
  ps_level :: int
  ps_dlevel :: int
  ps_mask :: bool
  ps_start_level :: int
  ps_cpp_lines :: int
  ps_cond_lines :: "int list"

definition initial_pstate :: "stream \<Rightarrow> pstate" where
  "initial_pstate s =
     \<lparr>ps_state = 0, ps_out = [], ps_chunk = [], ps_chunk_line = in_line s, ps_decl = [], ps_id = [], ps_id_line = 1,
      ps_value = [], ps_value_line = 1, ps_comment = [], ps_start_line = 0, ps_allow = True, ps_level = 0, ps_dlevel = 0,
      ps_mask = False, ps_start_level = 0, ps_cpp_lines = 0, ps_cond_lines = replicate 256 0\<rparr>"

type_synonym replacer = "cpp \<Rightarrow> marg \<Rightarrow> (string \<times> cpp) res"
type_synonym parser = "cpp \<Rightarrow> stream \<Rightarrow> (string \<times> cpp) res"
type_synonym file_system = "string \<Rightarrow> string option"

definition addline :: "string \<Rightarrow> string \<Rightarrow> bool \<Rightarrow> string" where
  "addline s1 s2 allow = s1 @ (if allow then s2 else filter (\<lambda>c. c = LF) s2)"

text \<open>The chunk is written and cleared; its line is then 1, unless \<open>copy_location\<close> follows.\<close>

definition add_chunk :: "replacer \<Rightarrow> string option \<Rightarrow> pstate \<Rightarrow> cpp \<Rightarrow> (pstate \<times> cpp) res" where
  "add_chunk replace f p st =
     (let done = (\<lambda>t. p\<lparr>ps_out := addline (ps_out p) t (ps_allow p), ps_chunk := [], ps_chunk_line := 1\<rparr>)
      in if ps_allow p
         then rbind (replace st (ps_chunk p, ps_chunk_line p, f)) (\<lambda>(t, st1). Inr (done t, st1))
         else Inr (done (ps_chunk p), st))"

section \<open>Files\<close>

definition cpp_include :: "file_system \<Rightarrow> string \<Rightarrow> bool \<Rightarrow> cpp \<Rightarrow> (string \<times> string) option \<times> cpp" where
  "cpp_include files fn sysfile st =
     (case (if sysfile then Swig_include_sys files fn (path st) else Swig_include files fn (path st)) of
        (None, p) \<Rightarrow>
          let m = msg [''Unable to find '', [CHR 0x27], fn, [CHR 0x27]]
          in (None, report [if ignore_missing st then Warning 201 m else Error m] (st\<lparr>path := p\<rparr>))
      | (Some t, p) \<Rightarrow>
          (case lastpath p of
             None \<Rightarrow> (None, st\<lparr>path := p\<rparr>)
           | Some f \<Rightarrow>
               if f \<in> set (included_files st) then (None, st\<lparr>path := p\<rparr>)
               else (Some (t, f), st\<lparr>path := p, included_files := f # included_files st,
                                   dependencies := dependencies st @ [f]\<rparr>)))"

text \<open>The contents of a file, parsed with its directory on the search path.\<close>

definition parse_file :: "parser \<Rightarrow> bool \<Rightarrow> string \<times> string \<Rightarrow> cpp \<Rightarrow> (string \<times> cpp) res" where
  "parse_file parse sysfile tf st =
     rbind (Swig_last_file (path st)) (\<lambda>lf.
     rbind (Swig_file_dirname lf) (\<lambda>d.
       let usedir = (\<not> sysfile \<and> d \<noteq> []);
           st1 = (if usedir then st\<lparr>path := Swig_push_directory (butlast d) (path st)\<rparr> else st)
       in rbind (parse st1 (open_text (fst tf) 1 (Some (snd tf)))) (\<lambda>(t, st2).
            Inr (t, if usedir then st2\<lparr>path := Swig_pop_directory (path st2)\<rparr> else st2))))"

definition include_directive :: "replacer \<Rightarrow> parser \<Rightarrow> file_system \<Rightarrow> pstate \<Rightarrow> cpp \<Rightarrow> (pstate \<times> cpp) res" where
  "include_directive replace parse files p st0 =
     (if \<not> ((include_all st0 \<or> import_all st0) \<and> ps_allow p) then Inr (p, st0)
      else
        let st = (if include_all st0 \<and> import_all st0
                  then report [Warning 203 (msg [''Both includeall and importall are defined: using includeall''])]
                         (st0\<lparr>import_all := False\<rparr>)
                  else st0)
        in case get_filename (open_text (ps_value p) (ps_value_line p) None) of (fn, sysfile, v) \<Rightarrow>
             (case cpp_include files fn sysfile st of
                (None, st1) \<Rightarrow> Inr (p, st1)
              | (Some tf, st1) \<Rightarrow>
                  rbind (Swig_last_file (path st1)) (\<lambda>lf.
                  rbind (if include_all st1 then Inr (''%includefile '', st1)
                         else if import_all st1 then rbind (push_imported st1) (\<lambda>st2. Inr (''%importfile '', st2))
                         else Inr ([], st1)) (\<lambda>(w, st2).
                    let p1 = (if w = [] then p else p\<lparr>ps_out := ps_out p @ w @ quoted lf @ '' ['' @ [LF]\<rparr>)
                    in rbind (parse_file parse sysfile tf st2) (\<lambda>(t, st3).
                         Inr (p1\<lparr>ps_out := addline (ps_out p1) t (ps_allow p1) @ [LF] @ '']''\<rparr>,
                              if import_all st3 then pop_imported st3 else st3))))))"

section \<open>Directives of C\<close>

definition set_cond_line :: "int \<Rightarrow> pstate \<Rightarrow> pstate res" where
  "set_cond_line i p =
     (if 0 \<le> i \<and> i < 256 then Inr (p\<lparr>ps_cond_lines := (ps_cond_lines p)[nat i := ps_id_line p]\<rparr>) else Inl Out_of_bounds)"

text \<open>A conditional begins; \<open>test\<close> is only evaluated where text is allowed.\<close>

definition begin_cond :: "pstate \<Rightarrow> cpp \<Rightarrow> (cpp \<Rightarrow> (bool \<times> cpp) res) \<Rightarrow> (pstate \<times> cpp) res" where
  "begin_cond p st test =
     rbind (set_cond_line (ps_level p) p) (\<lambda>p1.
       let p2 = p1\<lparr>ps_level := ps_level p1 + 1\<rparr>
       in if ps_allow p2
          then rbind (test st) (\<lambda>(b, st1).
                 Inr (p2\<lparr>ps_start_level := ps_level p2, ps_allow := b, ps_mask := True\<rparr>, st1))
          else Inr (p2, st))"

text \<open>The value of an expression; one that cannot be evaluated is false.\<close>

definition cond_value :: "replacer \<Rightarrow> string option \<Rightarrow> string \<Rightarrow> int \<Rightarrow> cpp \<Rightarrow> (bool \<times> cpp) res" where
  "cond_value replace f v l st =
     rbind (replace st (v, l, f)) (\<lambda>(t, st1).
       case Preprocessor_expr_text (ex_stack st1) NewScanner t of
         Inl e \<Rightarrow> Inl e
       | Inr (Fine (stk, v)) \<Rightarrow> Inr (v \<noteq> 0, st1\<lparr>ex_stack := stk\<rparr>)
       | Inr (Failed m stk) \<Rightarrow>
           Inr (False, report
             [Warning 202 (msg [''Could not evaluate '', [CHR 0x27], v, [CHR 0x27]]),
              Warning 202 (msg [''Error: '', [CHR 0x27], m, [CHR 0x27]])] (st1\<lparr>ex_stack := stk\<rparr>)))"

definition else_cond :: "pstate \<Rightarrow> cpp \<Rightarrow> (pstate \<times> cpp) res" where
  "else_cond p st =
     (if ps_level p \<le> 0 then Inr (p, report [Error (msg [''Misplaced #else.''])] st)
      else rbind (set_cond_line (ps_level p - 1) p) (\<lambda>p1.
             Inr (if ps_allow p1 then p1\<lparr>ps_allow := False, ps_mask := False\<rparr>
                  else if ps_level p1 = ps_start_level p1 then p1\<lparr>ps_allow := ps_mask p1\<rparr> else p1, st)))"

definition elif_cond :: "pstate \<Rightarrow> cpp \<Rightarrow> (cpp \<Rightarrow> (bool \<times> cpp) res) \<Rightarrow> (pstate \<times> cpp) res" where
  "elif_cond p st test =
     (if ps_level p = 0 then Inr (p, report [Error (msg [''Misplaced #elif.''])] st)
      else rbind (set_cond_line (ps_level p - 1) p) (\<lambda>p1.
             if ps_allow p1 then Inr (p1\<lparr>ps_allow := False, ps_mask := False\<rparr>, st)
             else if ps_level p1 = ps_start_level p1
             then rbind (test st) (\<lambda>(b, st1). Inr (p1\<lparr>ps_allow := (b \<and> ps_mask p1)\<rparr>, st1))
             else Inr (p1, st)))"

definition end_cond :: "pstate \<Rightarrow> cpp \<Rightarrow> pstate \<times> cpp" where
  "end_cond p st =
     (let l = ps_level p - 1
      in if l < 0 then (p\<lparr>ps_level := 0\<rparr>, report [Error (msg [''Extraneous #endif.''])] st)
         else if l < ps_start_level p
         then (p\<lparr>ps_level := l, ps_allow := True, ps_start_level := ps_start_level p - 1\<rparr>, st)
         else (p\<lparr>ps_level := l\<rparr>, st))"

text \<open>
  A macro without parameters whose value has no name and no brace becomes a constant of the interface; the
  messages of that replacement are silenced.
\<close>

definition define_directive :: "replacer \<Rightarrow> string option \<Rightarrow> pstate \<Rightarrow> cpp \<Rightarrow> (pstate \<times> cpp) res" where
  "define_directive replace f p st =
     (if \<not> ps_allow p then Inr (p, st)
      else rbind (Preprocessor_define st (open_text (ps_value p) (ps_value_line p) f) False) (\<lambda>(m, st1).
        case m of
          None \<Rightarrow> Inr (p, st1)
        | Some d \<Rightarrow>
            if m_args d \<noteq> None \<or> m_value d = [] then Inr (p, st1)
            else rbind (replace st1 (m_value d, m_vline d - nls (m_value d), None)) (\<lambda>(v1, st2).
                 rbind (checkpp_id v1) (\<lambda>b.
                   let st3 = st2\<lparr>messages := messages st1\<rparr>
                   in if b then Inr (p, st3)
                      else Inr (p\<lparr>ps_out := ps_out p @ ''%constant '' @ m_name d @ '' = '' @ v1 @ '';'' @
                                    (if ps_comment p = [] then [] else '' /*'' @ ps_comment p @ ''*/'') @ [LF],
                                  ps_cpp_lines := ps_cpp_lines p - 1\<rparr>, st3)))))"

definition atoi :: "string \<Rightarrow> int" where
  "atoi t =
     (let u = dropWhile isspace t
      in case u of
           c # cs \<Rightarrow> if c = CHR ''-'' then - int (read_digits 10 0 cs)
                     else if c = CHR ''+'' then int (read_digits 10 0 cs) else int (read_digits 10 0 u)
         | [] \<Rightarrow> 0)"

definition pragma_directive :: "replacer \<Rightarrow> pstate \<Rightarrow> cpp \<Rightarrow> cpp res" where
  "pragma_directive replace p st =
     (if \<not> starts_with ''SWIG '' (ps_value p) then Inr st
      else let c = dropWhile isspace (drop 5 (ps_value p))
           in if c = [] then Inr st
              else if starts_with ''nowarn='' c
              then rbind (replace st (drop 7 c, 1, None)) (\<lambda>(w, st1). Inr (report [Warnfilter w] st1))
              else if starts_with ''cpperraswarn='' c then Inr (st\<lparr>error_as_warning := atoi (drop 13 c)\<rparr>)
              else Inr (report [Error (msg [''Unknown SWIG pragma: '', c])] st))"

text \<open>State 50: the directive \<open>id\<close> with its value, from which trailing blanks are removed.\<close>

definition directive_body :: "replacer \<Rightarrow> parser \<Rightarrow> file_system \<Rightarrow> string option \<Rightarrow> pstate \<Rightarrow> cpp \<Rightarrow> (pstate \<times> cpp) res" where
  "directive_body replace parse files f p st =
     (let i = ps_id p; v = ps_value p
      in if i = ''define'' then define_directive replace f p st
         else if i = ''undef'' then Inr (p, if ps_allow p then Preprocessor_undef v st else st)
         else if i = ''ifdef'' then begin_cond p st (\<lambda>s. Inr (symbols s v \<noteq> None, s))
         else if i = ''ifndef'' then begin_cond p st (\<lambda>s. Inr (symbols s v = None, s))
         else if i = ''else'' then else_cond p st
         else if i = ''endif'' then Inr (end_cond p st)
         else if i = ''if'' then begin_cond p st (cond_value replace f v (ps_value_line p))
         else if i = ''elif'' then elif_cond p st (cond_value replace f v (ps_value_line p))
         else if i = ''warning'' then
           Inr (p, if ps_allow p then report [Warning 204 (msg [''CPP #warning, '', v])] st else st)
         else if i = ''error'' then
           Inr (p, if \<not> ps_allow p then st
                   else if error_as_warning st \<noteq> 0 then report [Warning 205 (msg [''CPP #error '', quoted v, ''.''])] st
                   else report [Error (msg [''CPP #error '', quoted v,
                      ''. Use the -cpperraswarn option to continue swig processing.''])] st)
         else if i = ''include'' then include_directive replace parse files p st
         else if i = ''pragma'' then rbind (pragma_directive replace p st) (\<lambda>st1. Inr (p, st1))
         else if i = ''level'' then
           Inr (p, report [Error (msg [''cpp debug: level = '', int_text (ps_level p), '', startlevel = '',
             int_text (ps_start_level p)])] st)
         else Inr (p, st))"

definition directive :: "replacer \<Rightarrow> parser \<Rightarrow> file_system \<Rightarrow> string option \<Rightarrow> pstate \<Rightarrow> cpp \<Rightarrow> (pstate \<times> cpp) res" where
  "directive replace parse files f p st =
     rbind (directive_body replace parse files f (p\<lparr>ps_value := rstrip (ps_value p)\<rparr>) st) (\<lambda>(p1, st1).
       Inr (p1\<lparr>ps_out := ps_out p1 @ replicate (nat (ps_cpp_lines p1)) LF, ps_state := 0\<rparr>, st1))"

section \<open>Text and comments\<close>

definition put_chunk :: "string \<Rightarrow> pstate \<Rightarrow> pstate" where
  "put_chunk w p = p\<lparr>ps_chunk := ps_chunk p @ w\<rparr>"

definition quote_message :: "bool \<Rightarrow> char \<Rightarrow> int \<Rightarrow> cpp \<Rightarrow> cpp" where
  "quote_message ok c l st =
     (if ok then st
      else report [Error (msg [''Unterminated '', if c = CHR 0x22 then ''string'' else ''character'',
        '' constant starting at line '', int_text l])] st)"

text \<open>States 0, 1 and 30 to 33.\<close>

definition text_step ::
  "replacer \<Rightarrow> char \<Rightarrow> pstate \<Rightarrow> stream \<Rightarrow> cpp \<Rightarrow> (pstate \<times> stream \<times> cpp) res" where
  "text_step replace c p s st =
     (if ps_state p = 0 then
        (if c = CHR ''#'' then
           rbind (add_chunk replace (in_file s) p st) (\<lambda>(p1, st1).
             Inr (p1\<lparr>ps_chunk_line := in_line s, ps_cpp_lines := 1, ps_state := 40\<rparr>, s, st1))
         else if isspace c then
           (case skip_whitespace s of (w, s1) \<Rightarrow> Inr (put_chunk (c # w) p, s1, st))
         else Inr (p\<lparr>ps_state := 1\<rparr>, Ungetc (Some c) s, st))
      else if ps_state p = 1 then
        (if c = CHR ''%'' then Inr (p\<lparr>ps_state := 100\<rparr>, s, st)
         else let p1 = put_chunk [c] p
              in if c = LF then Inr (p1\<lparr>ps_state := 0\<rparr>, s, st)
                 else if c = CHR 0x22 \<or> c = CHR 0x27 then
                   (case skip_tochar c s of (ok, w, s1) \<Rightarrow>
                      Inr ((put_chunk w p1)\<lparr>ps_start_line := in_line s\<rparr>, s1, quote_message ok c (in_line s) st))
                 else Inr (if c = CHR ''/'' then p1\<lparr>ps_state := 30\<rparr> else p1, s, st))
      else let p1 = put_chunk [c] p
           in Inr (if ps_state p = 30 then
                     p1\<lparr>ps_start_line := in_line s, ps_state := (if c = CHR ''/'' then 31 else if c = CHR ''*'' then 32 else 1)\<rparr>
                   else if ps_state p = 31 then p1\<lparr>ps_state := (if c = LF then 0 else 31)\<rparr>
                   else if ps_state p = 32 then p1\<lparr>ps_state := (if c = CHR ''*'' then 33 else 32)\<rparr>
                   else p1\<lparr>ps_state := (if c = CHR ''/'' then 1 else if c = CHR ''*'' then 33 else 32)\<rparr>, s, st))"

section \<open>The text of a directive\<close>

text \<open>State 43, which 42 falls into.\<close>

definition value_char :: "char \<Rightarrow> pstate \<Rightarrow> stream \<Rightarrow> pstate \<times> stream" where
  "value_char c p s =
     (let p1 = p\<lparr>ps_value := ps_value p @ [c], ps_state := 43\<rparr>
      in if c = LF then (p\<lparr>ps_state := 50\<rparr>, Ungetc (Some c) s)
         else if c = CHR ''/'' then (p\<lparr>ps_state := 45\<rparr>, s)
         else if c = CHR 0x22 \<or> c = CHR 0x27 then
           (case skip_tochar c s of (ok, w, s1) \<Rightarrow> (p1\<lparr>ps_value := ps_value p1 @ w\<rparr>, s1))
         else (if c = CHR 0x5C then p1\<lparr>ps_state := 44\<rparr> else p1, s))"

text \<open>States 40 to 48.\<close>

definition directive_char :: "char \<Rightarrow> pstate \<Rightarrow> stream \<Rightarrow> pstate \<times> stream" where
  "directive_char c p s =
     (let again = Ungetc (Some c) s;
          put = (\<lambda>w. p\<lparr>ps_value := ps_value p @ w\<rparr>);
          note_it = (\<lambda>w. p\<lparr>ps_comment := ps_comment p @ w\<rparr>)
      in if ps_state p = 40 then
           (if c = LF then ((put_chunk [c] p)\<lparr>ps_state := 0\<rparr>, s)
            else if isspace c then (p, s)
            else (p\<lparr>ps_id := [], ps_id_line := in_line again, ps_state := 41\<rparr>, again))
         else if ps_state p = 41 then
           (if isspace c \<or> \<not> isalpha c
            then let s1 = (if c = LF \<or> \<not> isspace c then again else s)
                 in (p\<lparr>ps_value := [], ps_comment := [], ps_value_line := in_line s1,
                       ps_state := (if c = LF then 50 else 42)\<rparr>, s1)
            else (p\<lparr>ps_id := ps_id p @ [c]\<rparr>, s))
         else if ps_state p = 42 then
           (if isspace c then (if c = LF then (p\<lparr>ps_state := 50\<rparr>, again) else (p, s)) else value_char c p s)
         else if ps_state p = 43 then value_char c p s
         else if ps_state p = 44 then
           (if c = LF then ((put [c])\<lparr>ps_cpp_lines := ps_cpp_lines p + 1, ps_state := 43\<rparr>, s)
            else (p\<lparr>ps_state := 43\<rparr>, again))
         else if ps_state p = 45 then
           (if c = CHR ''/'' then (p\<lparr>ps_state := 46\<rparr>, s)
            else if c = CHR ''*'' then (p\<lparr>ps_state := 47\<rparr>, s)
            else if c = LF then ((put ''/'')\<lparr>ps_cpp_lines := ps_cpp_lines p + 1, ps_state := 50\<rparr>, again)
            else ((put [CHR ''/'', c])\<lparr>ps_state := 43\<rparr>, s))
         else if ps_state p = 46 then
           (if c = LF then (p\<lparr>ps_cpp_lines := ps_cpp_lines p + 1, ps_state := 50\<rparr>, again) else (note_it [c], s))
         else if ps_state p = 47 then (if c = CHR ''*'' then p\<lparr>ps_state := 48\<rparr> else note_it [c], s)
         else (if c = CHR ''/'' then p\<lparr>ps_state := 43\<rparr>
               else if c = CHR ''*'' then note_it [c]
               else (note_it [CHR ''*'', c])\<lparr>ps_state := 47\<rparr>, s))"

section \<open>Directives of SWIG\<close>

text \<open>States 100 to 108: blocks, which are kept as they are, and directives that are passed on.\<close>

definition block_char ::
  "replacer \<Rightarrow> char \<Rightarrow> pstate \<Rightarrow> stream \<Rightarrow> cpp \<Rightarrow> (pstate \<times> stream \<times> cpp) res" where
  "block_char replace c p s st =
     (let p1 = put_chunk [c] p;
          emit = (\<lambda>l. p1\<lparr>ps_out := addline (ps_out p1) (ps_chunk p1) (ps_allow p1), ps_chunk := [], ps_chunk_line := l\<rparr>)
      in if ps_state p = 100 then
           (if c = CHR ''{'' then
              rbind (add_chunk replace (in_file s) p st) (\<lambda>(p2, st1).
                Inr ((put_chunk [CHR ''%'', c] p2)\<lparr>ps_start_line := in_line s, ps_chunk_line := in_line s, ps_state := 105\<rparr>,
                     s, st1))
            else if c = CHR ''#'' then
              rbind (add_chunk replace (in_file s) p st) (\<lambda>(p2, st1).
                Inr ((put_chunk [c] p2)\<lparr>ps_state := 107\<rparr>, s, st1))
            else if isidentifier c then Inr (p\<lparr>ps_decl := [CHR ''%'', c], ps_state := 110\<rparr>, s, st)
            else Inr ((put_chunk [CHR ''%'', c] p)\<lparr>ps_state := 1\<rparr>, s, st))
         else if ps_state p = 105 then Inr (p1\<lparr>ps_state := (if c = CHR ''%'' then 106 else 105)\<rparr>, s, st)
         else if ps_state p = 106 then
           (if c = CHR ''}'' then Inr ((emit (in_line s))\<lparr>ps_state := 1\<rparr>, s, st) else Inr (p1\<lparr>ps_state := 105\<rparr>, s, st))
         else if ps_state p = 107 then
           (if c = LF then Inr ((emit 1)\<lparr>ps_state := 0\<rparr>, s, st)
            else Inr (p1\<lparr>ps_state := (if c = CHR 0x5C then 108 else 107)\<rparr>, s, st))
         else Inr (p1\<lparr>ps_state := 107\<rparr>, s, st))"

text \<open>
  \<open>%include\<close>, \<open>%import\<close> and \<open>%extern\<close>. For the last the name is set to \<open>%%import\<close>, with two percent signs,
  which is not the name of \<open>%import\<close>.
\<close>

definition swig_include ::
  "replacer \<Rightarrow> parser \<Rightarrow> file_system \<Rightarrow> pstate \<Rightarrow> stream \<Rightarrow> cpp \<Rightarrow> (pstate \<times> stream \<times> cpp) res" where
  "swig_include replace parse files p s st0 =
     (let extern = (ps_decl p = ''%extern'');
          decl = (if extern then ''%%import'' else ps_decl p);
          st = (if extern then report [Warning 101 (msg [''%extern is deprecated. Use %import instead.''])] st0 else st0);
          p0 = p\<lparr>ps_decl := decl\<rparr>
      in case get_options s of (opt, s1) \<Rightarrow>
         case get_filename s1 of (fn, sysfile, s2) \<Rightarrow>
           (case cpp_include files fn sysfile st of
              (None, st1) \<Rightarrow> Inr (p0, s2, st1)
            | (Some tf, st1) \<Rightarrow>
                rbind (add_chunk replace (in_file s2) p0 st1) (\<lambda>(p1, st2).
                rbind (Swig_last_file (path st2)) (\<lambda>lf.
                rbind (if decl = ''%import'' then push_imported st2 else Inr st2) (\<lambda>st3.
                rbind (parse_file parse sysfile tf st3) (\<lambda>(t, st4).
                  let head = decl @ ''file'' @ (case opt of Some o1 \<Rightarrow> o1 | None \<Rightarrow> []) @ '' '' @ quoted lf @ '' ['' @ [LF]
                  in Inr (p1\<lparr>ps_chunk_line := in_line s2,
                             ps_out := addline (ps_out p1 @ head) t (ps_allow p1) @ [LF] @ '']''\<rparr>,
                          s2, if decl = ''%import'' then pop_imported st4 else st4)))))))"

text \<open>State 110, the name of a directive.\<close>

definition directive_name_char ::
  "replacer \<Rightarrow> parser \<Rightarrow> file_system \<Rightarrow> char \<Rightarrow> pstate \<Rightarrow> stream \<Rightarrow> cpp \<Rightarrow> (pstate \<times> stream \<times> cpp) res" where
  "directive_name_char replace parse files c p s st =
     (if isidchar c then Inr (p\<lparr>ps_decl := ps_decl p @ [c]\<rparr>, s, st)
      else let s1 = Ungetc (Some c) s
           in if ps_decl p \<in> {''%include'', ''%import'', ''%extern''} then
                (if ps_allow p
                 then rbind (swig_include replace parse files p s1 st) (\<lambda>(p1, s2, st1). Inr (p1\<lparr>ps_state := 1\<rparr>, s2, st1))
                 else Inr (p\<lparr>ps_state := 1\<rparr>, s1, st))
              else if ps_decl p = ''%line'' then Inr (p\<lparr>ps_state := 1\<rparr>, s1, st)
              else if ps_decl p = ''%define'' then
                rbind (add_chunk replace (in_file s1) (p\<lparr>ps_dlevel := ps_dlevel p + 1\<rparr>) st) (\<lambda>(p1, st1).
                  Inr (p1\<lparr>ps_chunk_line := in_line s1, ps_value := [], ps_value_line := in_line s1, ps_state := 150\<rparr>, s1, st1))
              else Inr ((put_chunk (ps_decl p) p)\<lparr>ps_state := 1\<rparr>, s1, st))"

text \<open>State 150: up to six characters while they begin \<open>enddef\<close> or \<open>define\<close>.\<close>

fun keyword_loop :: "nat \<Rightarrow> string \<Rightarrow> stream \<Rightarrow> string \<times> stream" where
  "keyword_loop 0 w s = (w, s)"
| "keyword_loop (Suc n) w s =
     (case Getc s of (c, s1) \<Rightarrow>
        let w1 = w @ [case c of Some x \<Rightarrow> x | None \<Rightarrow> CHR 0xFF]
        in if starts_with w1 ''enddef'' \<or> starts_with w1 ''define'' then keyword_loop n w1 s1 else (w1, s1))"

definition define_char :: "char \<Rightarrow> pstate \<Rightarrow> stream \<Rightarrow> cpp \<Rightarrow> (pstate \<times> stream \<times> cpp) res" where
  "define_char c p s st =
     (if c \<noteq> CHR ''%'' then Inr (p\<lparr>ps_value := ps_value p @ [c]\<rparr>, s, st)
      else case keyword_loop 6 [] s of (w, s1) \<Rightarrow>
        let p1 = p\<lparr>ps_value := ps_value p @ c # w\<rparr>;
            blank = (case Getc s1 of (Some d, s2) \<Rightarrow> isspace d | (None, s2) \<Rightarrow> False)
        in if blank \<and> w = ''define'' then Inr (p1\<lparr>ps_dlevel := ps_dlevel p + 1\<rparr>, s1, st)
           else if blank \<and> w = ''enddef'' then
             (if ps_dlevel p - 1 \<noteq> 0 then Inr (p1\<lparr>ps_dlevel := ps_dlevel p - 1\<rparr>, s1, st)
              else rbind (if ps_allow p
                          then rbind (Preprocessor_define st (open_text (ps_value p) (ps_value_line p) (in_file s)) True)
                                 (\<lambda>(m, st1). Inr st1)
                          else Inr st) (\<lambda>st1.
                     Inr (p1\<lparr>ps_dlevel := 0, ps_value := ps_value p, ps_out := addline (ps_out p) (ps_value p) False,
                             ps_state := 0\<rparr>, s1, st1)))
           else Inr (p1, s1, st))"

section \<open>The loop\<close>

definition parse_step ::
  "replacer \<Rightarrow> parser \<Rightarrow> file_system \<Rightarrow> char \<Rightarrow> pstate \<Rightarrow> stream \<Rightarrow> cpp \<Rightarrow> (pstate \<times> stream \<times> cpp) res" where
  "parse_step replace parse files c p s st =
     (let n = ps_state p
      in if n \<in> {0, 1, 30, 31, 32, 33} then text_step replace c p s st
         else if n \<in> {40, 41, 42, 43, 44, 45, 46, 47, 48} then (case directive_char c p s of (p1, s1) \<Rightarrow> Inr (p1, s1, st))
         else if n = 50 then rbind (directive replace parse files (in_file s) p st) (\<lambda>(p1, st1). Inr (p1, s, st1))
         else if n \<in> {100, 105, 106, 107, 108} then block_char replace c p s st
         else if n = 110 then directive_name_char replace parse files c p s st
         else if n = 150 then define_char c p s st
         else Inl Aborts)"

text \<open>For termination: a step that reads its character again goes to a state of less weight.\<close>

definition weight :: "nat \<Rightarrow> nat" where
  "weight n = (if n = 40 then 6 else if n = 41 then 5 else if n \<in> {42, 44, 45, 46} then 4 else if n = 43 then 3
     else if n = 110 then 2 else if n = 0 then 1 else 0)"

lemma keyword_loop_left: "left (snd (keyword_loop n w s)) \<le> left s"
proof (induction n w s rule: keyword_loop.induct)
  case (2 n w s)
  then show ?case using Getc_left [of s] by (fastforce split: prod.splits simp: Let_def)
qed simp

abbreviation work :: "pstate \<Rightarrow> stream \<Rightarrow> nat" where "work p s \<equiv> 8 * left s + weight (ps_state p)"

lemma weight_le: "weight n \<le> 6"
  by (simp add: weight_def)

lemma read_left:
  assumes "Getc s0 = (Some c, s)"
  shows "left s0 = Suc (left s)" and "left (Ungetc (Some c) s) = left s0"
  using Getc_Some [OF assms] Getc_Ungetc [of c s s0] assms by simp_all

lemma text_step_work:
  "Getc s0 = (Some c, s) \<Longrightarrow> text_step replace c p s st = Inr (p', s', st') \<Longrightarrow> work p' s' < work p s0"
  using read_left [of s0 c s] skip_whitespace_left [of s] skip_tochar_left [of c s]
  by (auto simp: text_step_def put_chunk_def weight_def Let_def elim!: rbind_InrE split: if_splits prod.splits)

lemma directive_char_work:
  "Getc s0 = (Some c, s) \<Longrightarrow> directive_char c p s = (p', s') \<Longrightarrow> ps_state p \<in> {40, 41, 42, 43, 44, 45, 46, 47, 48} \<Longrightarrow>
   work p' s' < work p s0"
  using read_left [of s0 c s] skip_tochar_left [of c s]
  by (auto simp: directive_char_def value_char_def put_chunk_def weight_def Let_def split: if_splits prod.splits)

lemma block_char_work:
  "Getc s0 = (Some c, s) \<Longrightarrow> block_char replace c p s st = Inr (p', s', st') \<Longrightarrow> work p' s' < work p s0"
  using read_left [of s0 c s]
  by (auto simp: block_char_def put_chunk_def weight_def Let_def elim!: rbind_InrE split: if_splits prod.splits)

lemma define_char_work:
  "Getc s0 = (Some c, s) \<Longrightarrow> define_char c p s st = Inr (p', s', st') \<Longrightarrow> ps_state p = 150 \<Longrightarrow> work p' s' < work p s0"
  using read_left [of s0 c s] keyword_loop_left [of 6 "[]" s] weight_le [of "ps_state p'"]
  by (auto simp: define_char_def Let_def elim!: rbind_InrE split: if_splits prod.splits)

lemma swig_include_left:
  "swig_include replace parse files p s st = Inr (p', s', st') \<Longrightarrow> left s' \<le> left s"
  using get_options_left [of s] get_filename_left [of "snd (get_options s)"]
  by (auto simp: swig_include_def Let_def elim!: rbind_InrE split: prod.splits option.splits)

lemma directive_name_char_work:
  assumes "Getc s0 = (Some c, s)" and "directive_name_char replace parse files c p s st = Inr (p', s', st')" and "ps_state p = 110"
  shows "work p' s' < work p s0"
proof (cases "\<not> isidchar c \<and> ps_decl p \<in> {''%include'', ''%import'', ''%extern''} \<and> ps_allow p")
  case True
  then obtain p1 st1 where "swig_include replace parse files p (Ungetc (Some c) s) st = Inr (p1, s', st1)" "ps_state p' = 1"
    using assms(2) by (auto simp: directive_name_char_def Let_def elim!: rbind_InrE)
  then show ?thesis using swig_include_left read_left [OF assms(1)] assms(3) by (fastforce simp: weight_def)
next
  case False
  then show ?thesis
    using assms(2,3) read_left [OF assms(1)]
    by (auto simp: directive_name_char_def put_chunk_def weight_def Let_def elim!: rbind_InrE split: if_splits)
qed

lemma directive_state: "directive replace parse files f p st = Inr (p', st') \<Longrightarrow> ps_state p' = 0"
  by (auto simp: directive_def elim!: rbind_InrE)

lemma parse_step_work:
  assumes "Getc s0 = (Some c, s)" and "parse_step replace parse files c p s st = Inr (p', s', st')"
  shows "work p' s' < work p s0"
proof -
  note rules = text_step_work [OF assms(1), of replace p st p' s' st'] directive_char_work [OF assms(1), of p p' s']
    block_char_work [OF assms(1), of replace p st p' s' st'] define_char_work [OF assms(1), of p st p' s' st']
    directive_name_char_work [OF assms(1), of replace parse files p st p' s' st']
  consider (a) "ps_state p \<in> {0, 1, 30, 31, 32, 33}" | (b) "ps_state p \<in> {40, 41, 42, 43, 44, 45, 46, 47, 48}"
    | (c) "ps_state p = 50" | (d) "ps_state p \<in> {100, 105, 106, 107, 108}" | (e) "ps_state p = 110" | (f) "ps_state p = 150"
    using assms(2) by (auto simp: parse_step_def Let_def split: if_splits)
  then show ?thesis
  proof cases
    case a
    then show ?thesis using rules(1) assms(2) by (simp add: parse_step_def Let_def)
  next
    case b
    then have "parse_step replace parse files c p s st = (case directive_char c p s of (p1, s1) \<Rightarrow> Inr (p1, s1, st))"
      by (auto simp: parse_step_def Let_def)
    then show ?thesis using rules(2) b assms(2) by (cases "directive_char c p s") auto
  next
    case c
    then obtain st1 where "directive replace parse files (in_file s) p st = Inr (p', st1)" "s' = s"
      using assms(2) by (auto simp: parse_step_def Let_def elim!: rbind_InrE)
    then show ?thesis using read_left [OF assms(1)] directive_state by (fastforce simp: weight_def)
  next
    case d
    then have "parse_step replace parse files c p s st = block_char replace c p s st"
      by (auto simp: parse_step_def Let_def)
    then show ?thesis using rules(3) assms(2) by simp
  next
    case e
    then show ?thesis using rules(5) assms(2) by (simp add: parse_step_def Let_def)
  next
    case f
    then show ?thesis using rules(4) assms(2) by (simp add: parse_step_def Let_def)
  qed
qed

function parse_loop ::
  "replacer \<Rightarrow> parser \<Rightarrow> file_system \<Rightarrow> pstate \<Rightarrow> stream \<Rightarrow> cpp \<Rightarrow> (pstate \<times> stream \<times> cpp) res" where
  "parse_loop replace parse files p s st =
     (case Getc s of
        (None, s1) \<Rightarrow> Inr (p, s1, st)
      | (Some c, s1) \<Rightarrow>
          (case parse_step replace parse files c p s1 st of
             Inl e \<Rightarrow> Inl e
           | Inr (p', s', st') \<Rightarrow> parse_loop replace parse files p' s' st'))"
  by pat_completeness auto
termination
  by (relation "measure (\<lambda>(replace, parse, files, p, s, st). work p s)") (auto dest!: parse_step_work [OF sym])

declare parse_loop.simps [simp del]

text \<open>What is open at the end of the input is reported.\<close>

definition open_conds :: "pstate \<Rightarrow> message list" where
  "open_conds p =
     map (\<lambda>i. Error (msg [''Missing #endif for conditional starting on line '', int_text (ps_cond_lines p ! i)]))
       (rev [0..<nat (ps_level p)])"

definition open_rest :: "pstate \<Rightarrow> message list" where
  "open_rest p =
     (let n = ps_state p
      in (if n = 150 then [Error (msg [''Missing %enddef for macro starting on line '', int_text (ps_value_line p)])] else []) @
         (if 105 \<le> n \<and> n < 107
          then [Error (msg [''Unterminated %{ ... %} block starting on line '', int_text (ps_start_line p)])] else []) @
         (if 30 \<le> n \<and> n < 40
          then [Error (msg [''Unterminated comment starting on line '', int_text (ps_start_line p)])] else []))"

definition parse_text :: "replacer \<Rightarrow> parser \<Rightarrow> file_system \<Rightarrow> cpp \<Rightarrow> stream \<Rightarrow> (string \<times> cpp) res" where
  "parse_text replace parse files st s =
     rbind (text_replace (in_text s) [CHR 0x0D] [] REPLACE_ANY) (\<lambda>t.
     let s0 = s\<lparr>in_text := t\<rparr>
     in rbind (parse_loop replace parse files (initial_pstate s0) s0 st) (\<lambda>(p, s1, st1).
        rbind (add_chunk replace (in_file s1) p (report (open_conds p @ open_rest p) st1)) (\<lambda>(p2, st2).
          Inr (ps_out p2, st2))))"

section \<open>The recursion\<close>

text \<open>
  Replacement, expansion and parsing with a bound on the depth of the calls; the program has the stack of the
  machine.
\<close>

fun cpp_replace :: "nat \<Rightarrow> (string \<Rightarrow> string) \<Rightarrow> file_system \<Rightarrow> replacer"
  and cpp_expand :: "nat \<Rightarrow> (string \<Rightarrow> string) \<Rightarrow> file_system \<Rightarrow> cpp \<Rightarrow> string \<Rightarrow> marg list option \<Rightarrow> (string option \<times> cpp) res"
  and cpp_parse :: "nat \<Rightarrow> (string \<Rightarrow> string) \<Rightarrow> file_system \<Rightarrow> parser" where
  "cpp_replace n mangle files st a = Preprocessor_replace (cpp_expand n mangle files) st a"
| "cpp_expand 0 mangle files st name args = Inl Hang"
| "cpp_expand (Suc n) mangle files st name args =
     expand_macro (cpp_replace n mangle files) (cpp_parse n mangle files) mangle st name args"
| "cpp_parse 0 mangle files st s = Inl Hang"
| "cpp_parse (Suc n) mangle files st s =
     parse_text (cpp_replace n mangle files) (cpp_parse n mangle files) files st s"

end
