(* ===== verification/CondSpec.thy ===== *)
theory CondSpec
  imports TypeStrSpec CppParse
begin

text \<open>
  Conditionals: the state machine of \<open>Preprocessor_parse\<close>, with its levels and masks, against an evaluation
  of the tree of conditionals, which knows for each group only whether a branch was taken.
\<close>

section \<open>Reading on a stream\<close>

definition rest :: "stream \<Rightarrow> string" where
  "rest s = drop (in_pos s) (in_text s)"

definition advance :: "string \<Rightarrow> stream \<Rightarrow> stream" where
  "advance w s = s\<lparr>in_pos := in_pos s + length w, in_line := in_line s + nls w\<rparr>"

lemma rest_Cons_nth: "rest s = c # r \<Longrightarrow> in_pos s < length (in_text s) \<and> in_text s ! in_pos s = c"
  by (metis drop_eq_Nil linorder_not_less list.discI nth_via_drop rest_def)

lemma Getc_rest: "rest s = c # r \<Longrightarrow> Getc s = (Some c, advance [c] s)"
  using rest_Cons_nth [of s c r] by (simp add: Getc_def advance_def nls_def nl_def)

lemma Getc_end: "rest s = [] \<Longrightarrow> Getc s = (None, s)"
  by (simp add: Getc_def rest_def)

lemma rest_advance: "rest s = w @ r \<Longrightarrow> rest (advance w s) = r"
proof -
  assume "rest s = w @ r"
  then have "drop (length w) (drop (in_pos s) (in_text s)) = r" by (simp add: rest_def)
  then show ?thesis by (simp add: rest_def advance_def add.commute)
qed

lemma advance_append: "advance (v @ w) s = advance w (advance v s)"
  by (simp add: advance_def nls_def)

lemma advance_Nil [simp]: "advance [] s = s"
  by (simp add: advance_def nls_def)

lemma advance_Cons: "advance (c # w) s = advance w (advance [c] s)"
  using advance_append [of "[c]" w s] by simp

lemma Ungetc_advance [simp]: "Ungetc (Some c) (advance [c] s) = s"
  by (simp add: Ungetc_def advance_def nls_def nl_def)

lemma in_file_advance [simp]: "in_file (advance w s) = in_file s"
  by (simp add: advance_def)

lemma in_line_advance [simp]: "in_line (advance w s) = in_line s + nls w"
  by (simp add: advance_def)

lemma nls_simps [simp]: "nls [] = 0" "nls (c # w) = nl c + nls w" "nls (v @ w) = nls v + nls w"
  by (auto simp: nls_def nl_def)

lemma nl_simps [simp]: "nl LF = 1" "c \<noteq> LF \<Longrightarrow> nl c = 0"
  by (auto simp: nl_def)

section \<open>Text lines\<close>

lemma parse_loop_read:
  "rest s = c # r \<Longrightarrow> parse_loop R P F p s st =
     (case parse_step R P F c p (advance [c] s) st of
        Inl e \<Rightarrow> Inl e
      | Inr (p', s', st') \<Rightarrow> parse_loop R P F p' s' st')"
  by (subst parse_loop.simps) (simp add: Getc_rest)

definition text_char :: "char \<Rightarrow> bool" where
  "text_char c \<longleftrightarrow> c \<notin> {LF, CHR ''%'', CHR 0x22, CHR 0x27, CHR ''/'', CHR 0x0D}"

text \<open>A line of text: the first character that is no blank is no \<open>#\<close>.\<close>

definition line_ok :: "string \<Rightarrow> bool" where
  "line_ok t \<longleftrightarrow> list_all text_char t \<and> \<not> starts_with ''#'' (dropWhile isspace t)"

lemma put_chunk_append [simp]: "put_chunk w (put_chunk v p) = put_chunk (v @ w) p"
  by (simp add: put_chunk_def)

lemma put_chunk_state [simp]: "ps_state (put_chunk w p) = ps_state p"
  by (simp add: put_chunk_def)

lemma parse_text_chars:
  "\<lbrakk>list_all text_char t; rest s = t @ r; ps_state p = 1\<rbrakk> \<Longrightarrow>
   parse_loop R P F p s st = parse_loop R P F (put_chunk t p) (advance t s) st"
proof (induction t arbitrary: p s)
  case Nil
  then show ?case by (simp add: put_chunk_def)
next
  case (Cons c t)
  have "parse_step R P F c p (advance [c] s) st = Inr (put_chunk [c] p, advance [c] s, st)"
    using Cons.prems by (simp add: parse_step_def text_step_def text_char_def)
  then have "parse_loop R P F p s st = parse_loop R P F (put_chunk [c] p) (advance [c] s) st"
    using parse_loop_read [of s c "t @ r"] Cons.prems(2) by simp
  also have "\<dots> = parse_loop R P F (put_chunk (c # t) p) (advance (c # t) s) st"
    using Cons.IH [of "advance [c] s" "put_chunk [c] p"] rest_advance [of s "[c]" "t @ r"] Cons.prems
    by (simp add: advance_Cons [of c t])
  finally show ?case .
qed

text \<open>A blank in the first column is like any other character, although it skips all that follow.\<close>

lemma skip_whitespace_blank:
  "rest s = c # r \<Longrightarrow> isspace c \<Longrightarrow>
   skip_whitespace s = (case skip_whitespace (advance [c] s) of (w, s2) \<Rightarrow> (c # w, s2))"
  by (subst skip_whitespace.simps) (simp add: Getc_rest)

lemma skip_whitespace_none: "rest s = [] \<or> (\<exists>c r. rest s = c # r \<and> \<not> isspace c) \<Longrightarrow> skip_whitespace s = ([], s)"
  by (subst skip_whitespace.simps) (auto simp: Getc_rest Getc_end)

lemma parse_blank:
  assumes "rest s = c # r" and "isspace c" and "ps_state p = 0"
  shows "parse_loop R P F p s st = parse_loop R P F (put_chunk [c] p) (advance [c] s) st"
proof -
  have step: "parse_loop R P F q u st =
      (case skip_whitespace (advance [d] u) of (w, u1) \<Rightarrow> parse_loop R P F (put_chunk (d # w) q) u1 st)"
    if "rest u = d # v" "isspace d" "ps_state q = 0" for q u d v
  proof -
    have "d \<noteq> CHR ''#''" using that(2) by (auto simp: isspace_def)
    then show ?thesis
      using that by (simp add: parse_loop_read [OF that(1)] parse_step_def text_step_def split: prod.split)
  qed
  have r1: "rest (advance [c] s) = r" using rest_advance [of s "[c]" r] assms(1) by simp
  show ?thesis
  proof (cases "\<exists>d v. r = d # v \<and> isspace d")
    case True
    then obtain d v where d: "r = d # v" "isspace d" by blast
    then show ?thesis
      using step [OF assms] step [of "advance [c] s" d v "put_chunk [c] p"] r1 assms(3)
        skip_whitespace_blank [of "advance [c] s" d v]
      by (simp split: prod.splits)
  next
    case False
    then have "skip_whitespace (advance [c] s) = ([], advance [c] s)"
      by (intro skip_whitespace_none) (use r1 in \<open>cases r; auto\<close>)
    then show ?thesis using step [OF assms] by simp
  qed
qed

lemma parse_blanks:
  "\<lbrakk>list_all isspace w; rest s = w @ r; ps_state p = 0\<rbrakk> \<Longrightarrow>
   parse_loop R P F p s st = parse_loop R P F (put_chunk w p) (advance w s) st"
proof (induction w arbitrary: p s)
  case Nil
  then show ?case by (simp add: put_chunk_def)
next
  case (Cons c w)
  have "parse_loop R P F p s st = parse_loop R P F (put_chunk [c] p) (advance [c] s) st"
    using Cons.prems by (intro parse_blank) auto
  also have "\<dots> = parse_loop R P F (put_chunk (c # w) p) (advance (c # w) s) st"
    using Cons.IH [of "advance [c] s" "put_chunk [c] p"] rest_advance [of s "[c]" "w @ r"] Cons.prems
    by (simp add: advance_Cons [of c w])
  finally show ?case .
qed

lemma parse_line:
  assumes "line_ok t" and "rest s = t @ LF # r" and "ps_state p = 0"
  shows "parse_loop R P F p s st = parse_loop R P F (put_chunk (t @ [LF]) p) (advance (t @ [LF]) s) st"
proof -
  define w where "w = takeWhile isspace t"
  define u where "u = dropWhile isspace t"
  have t: "t = w @ u" by (simp add: w_def u_def)
  have w: "list_all isspace w" by (auto simp: w_def list_all_iff dest: set_takeWhileD)
  have lf: "isspace LF" by (simp add: isspace_def)
  have blanks: "parse_loop R P F p s st = parse_loop R P F (put_chunk w p) (advance w s) st"
    using parse_blanks [OF w, of s "u @ LF # r" p] assms t by simp
  have r1: "rest (advance w s) = u @ LF # r" using rest_advance [of s w] assms(2) t by simp
  show ?thesis
  proof (cases u)
    case Nil
    then show ?thesis
      using blanks parse_blank [of "advance w s" LF r "put_chunk w p"] r1 lf assms(3) t
      by (simp add: advance_append)
  next
    case (Cons c v)
    have c: "\<not> isspace c" "c \<noteq> CHR ''#''" "list_all text_char u"
    proof -
      have d: "dropWhile isspace t = c # v" using Cons by (simp add: u_def)
      then show "\<not> isspace c" by (simp add: dropWhile_eq_Cons_conv)
      show "c \<noteq> CHR ''#''" using assms(1) d by (auto simp: line_ok_def)
      show "list_all text_char u" using assms(1) t by (simp add: line_ok_def)
    qed
    define q where "q = (put_chunk w p)\<lparr>ps_state := 1\<rparr>"
    have "parse_step R P F c (put_chunk w p) (advance [c] (advance w s)) st = Inr (q, advance w s, st)"
      using c assms(3) by (simp add: parse_step_def text_step_def q_def)
    then have "parse_loop R P F p s st = parse_loop R P F q (advance w s) st"
      using blanks parse_loop_read [of "advance w s" c "v @ LF # r"] r1 Cons by simp
    also have "\<dots> = parse_loop R P F (put_chunk u q) (advance u (advance w s)) st"
      using parse_text_chars [OF c(3) r1] by (simp add: q_def)
    also have "\<dots> = parse_loop R P F (put_chunk (t @ [LF]) p) (advance (t @ [LF]) s) st"
    proof -
      have "rest (advance u (advance w s)) = LF # r" using rest_advance [OF r1] .
      then have "parse_loop R P F (put_chunk u q) (advance u (advance w s)) st =
          parse_loop R P F ((put_chunk [LF] (put_chunk u q))\<lparr>ps_state := 0\<rparr>) (advance [LF] (advance u (advance w s))) st"
        by (simp add: parse_loop_read parse_step_def text_step_def q_def)
      moreover have "(put_chunk [LF] (put_chunk u q))\<lparr>ps_state := 0\<rparr> = put_chunk (t @ [LF]) p"
        using assms(3) by (simp add: q_def put_chunk_def t)
      ultimately show ?thesis by (simp add: t advance_append)
    qed
    finally show ?thesis .
  qed
qed

section \<open>Directive lines\<close>

definition value_char_ok :: "char \<Rightarrow> bool" where
  "value_char_ok c \<longleftrightarrow> c \<notin> {LF, CHR 0x0D, CHR 0x22, CHR 0x27, CHR ''/'', CHR 0x5C}"

text \<open>A word and a value on one line; the value begins and ends with no blank.\<close>

definition directive_ok :: "string \<Rightarrow> string \<Rightarrow> bool" where
  "directive_ok kw v \<longleftrightarrow> kw \<noteq> [] \<and> list_all isalpha kw \<and> list_all value_char_ok v \<and>
     (v \<noteq> [] \<longrightarrow> \<not> isspace (hd v)) \<and> rstrip v = v"

definition directive_line :: "string \<Rightarrow> string \<Rightarrow> string" where
  "directive_line kw v = CHR ''#'' # kw @ (if v = [] then [] else CHR '' '' # v)"

text \<open>The machine when it has read the line.\<close>

definition read_directive :: "string \<Rightarrow> string \<Rightarrow> int \<Rightarrow> pstate \<Rightarrow> pstate" where
  "read_directive kw v l p =
     p\<lparr>ps_state := 50, ps_chunk_line := l, ps_cpp_lines := 1, ps_id := kw, ps_id_line := l, ps_value := v,
       ps_value_line := l, ps_comment := []\<rparr>"

lemma isalpha_not_space: "isalpha c \<Longrightarrow> \<not> isspace c"
  by (auto simp: isalpha_def isupper_def islower_def isspace_def less_eq_char_def)

lemma parse_directive_char:
  "\<lbrakk>directive_char c p (advance [c] s) = (p', s'); rest s = c # r; ps_state p \<in> {40, 41, 42, 43, 44, 45, 46, 47, 48}\<rbrakk> \<Longrightarrow>
   parse_loop R P F p s st = parse_loop R P F p' s' st"
  by (auto simp: parse_loop_read [of s c r] parse_step_def)

lemma parse_word:
  "\<lbrakk>list_all isalpha kw; rest s = kw @ r; ps_state p = 41\<rbrakk> \<Longrightarrow>
   parse_loop R P F p s st = parse_loop R P F (p\<lparr>ps_id := ps_id p @ kw\<rparr>) (advance kw s) st"
proof (induction kw arbitrary: p s)
  case (Cons c kw)
  have "parse_loop R P F p s st = parse_loop R P F (p\<lparr>ps_id := ps_id p @ [c]\<rparr>) (advance [c] s) st"
    using Cons.prems isalpha_not_space [of c]
    by (simp add: parse_loop_read [of s c "kw @ r"] parse_step_def directive_char_def Let_def)
  also have "\<dots> = parse_loop R P F (p\<lparr>ps_id := ps_id p @ c # kw\<rparr>) (advance (c # kw) s) st"
    using Cons.IH [of "advance [c] s" "p\<lparr>ps_id := ps_id p @ [c]\<rparr>"] rest_advance [of s "[c]" "kw @ r"] Cons.prems
    by (simp add: advance_Cons [of c kw])
  finally show ?case .
qed simp

lemma parse_value:
  "\<lbrakk>list_all value_char_ok v; rest s = v @ r; ps_state p = 43\<rbrakk> \<Longrightarrow>
   parse_loop R P F p s st = parse_loop R P F (p\<lparr>ps_value := ps_value p @ v\<rparr>) (advance v s) st"
proof (induction v arbitrary: p s)
  case (Cons c v)
  have "directive_char c p (advance [c] s) = (p\<lparr>ps_value := ps_value p @ [c]\<rparr>, advance [c] s)"
    using Cons.prems(1,3) by (cases p) (simp add: directive_char_def value_char_def value_char_ok_def Let_def)
  then have "parse_loop R P F p s st = parse_loop R P F (p\<lparr>ps_value := ps_value p @ [c]\<rparr>) (advance [c] s) st"
    using Cons.prems by (simp add: parse_loop_read [of s c "v @ r"] parse_step_def)
  also have "\<dots> = parse_loop R P F (p\<lparr>ps_value := ps_value p @ c # v\<rparr>) (advance (c # v) s) st"
    using Cons.IH [of "advance [c] s" "p\<lparr>ps_value := ps_value p @ [c]\<rparr>"] rest_advance [of s "[c]" "v @ r"] Cons.prems
    by (simp add: advance_Cons [of c v])
  finally show ?case .
qed simp

lemma parse_directive_text:
  assumes "directive_ok kw v" and "rest s = directive_line kw v @ LF # r" and "ps_state p = 0"
  shows "parse_loop R P F p s st =
     rbind (add_chunk R (in_file s) p st) (\<lambda>(p1, st1).
       parse_loop R P F (read_directive kw v (in_line s) p1) (advance (directive_line kw v) s) st1)"
proof -
  define s1 where "s1 = advance ''#'' s"
  define tail where "tail = (if v = [] then [] else CHR '' '' # v)"
  have s1: "rest s1 = kw @ tail @ LF # r"
    using rest_advance [of s "''#''"] assms(2) by (simp add: s1_def directive_line_def tail_def)
  have kw: "kw \<noteq> []" "list_all isalpha kw" "list_all value_char_ok v" "v \<noteq> [] \<Longrightarrow> \<not> isspace (hd v)"
    using assms(1) by (auto simp: directive_ok_def)
  have word: "parse_loop R P F (p1\<lparr>ps_chunk_line := in_line s, ps_cpp_lines := 1, ps_state := 40\<rparr>) s1 st1 =
      parse_loop R P F (read_directive kw v (in_line s) p1) (advance (directive_line kw v) s) st1" for p1 st1
  proof -
    obtain c kw' where c: "kw = c # kw'" using kw(1) by (cases kw) auto
    define p2 where "p2 = p1\<lparr>ps_state := 41, ps_chunk_line := in_line s, ps_cpp_lines := 1, ps_id := [], ps_id_line := in_line s\<rparr>"
    have l1: "in_line s1 = in_line s" by (simp add: s1_def)
    have "isalpha c" using kw(2) c by simp
    moreover from this have "c \<noteq> LF" using isalpha_not_space [of c] by (auto simp: isspace_def)
    ultimately have "directive_char c (p1\<lparr>ps_chunk_line := in_line s, ps_cpp_lines := 1, ps_state := 40\<rparr>) (advance [c] s1) = (p2, s1)"
      using isalpha_not_space [of c] by (cases p1) (simp add: directive_char_def Let_def p2_def l1)
    then have "parse_loop R P F (p1\<lparr>ps_chunk_line := in_line s, ps_cpp_lines := 1, ps_state := 40\<rparr>) s1 st1 = parse_loop R P F p2 s1 st1"
      using s1 c by (simp add: parse_loop_read [of s1 c] parse_step_def)
    also have "\<dots> = parse_loop R P F (p2\<lparr>ps_id := kw\<rparr>) (advance kw s1) st1"
      using parse_word [OF kw(2) s1, of p2] by (simp add: p2_def)
    also have "\<dots> = parse_loop R P F (read_directive kw v (in_line s) p1) (advance (directive_line kw v) s) st1"
    proof -
      define s2 where "s2 = advance kw s1"
      have s2: "rest s2 = tail @ LF # r" using rest_advance [OF s1] by (simp add: s2_def)
      have no_lf: "nls kw = 0"
        using kw(2) by (induction kw) (auto simp: nl_def isalpha_def isupper_def islower_def less_eq_char_def)
      then have l2: "in_line s2 = in_line s" by (simp add: s2_def l1)
      show ?thesis
      proof (cases "v = []")
        case True
        then have "rest s2 = LF # r" using s2 by (simp add: tail_def)
        then have "parse_loop R P F (p2\<lparr>ps_id := kw\<rparr>) s2 st1 = parse_loop R P F (read_directive kw v (in_line s) p1) s2 st1"
          using True
          by (intro parse_directive_char [of LF]; cases p1) (simp_all add: directive_char_def Let_def p2_def read_directive_def l2 isspace_def)
        then show ?thesis using True by (simp add: s2_def s1_def directive_line_def advance_Cons [of _ kw])
      next
        case False
        then obtain d v' where d: "v = d # v'" "\<not> isspace d" "value_char_ok d" "list_all value_char_ok v'"
          using kw(3,4) by (cases v) auto
        define s3 where "s3 = advance '' '' s2"
        have s3: "rest s3 = d # v' @ LF # r" using rest_advance [of s2 "'' ''"] s2 False d(1) by (simp add: s3_def tail_def)
        define p3 where "p3 = (read_directive kw [] (in_line s) p1)\<lparr>ps_state := 42\<rparr>"
        have "parse_loop R P F (p2\<lparr>ps_id := kw\<rparr>) s2 st1 = parse_loop R P F p3 s3 st1"
          using s2 False
          by (intro parse_directive_char [of "CHR '' ''"]; cases p1)
             (simp_all add: directive_char_def Let_def p2_def p3_def read_directive_def l2 s3_def tail_def isspace_def)
        also have "\<dots> = parse_loop R P F (p3\<lparr>ps_state := 43, ps_value := [d]\<rparr>) (advance [d] s3) st1"
          using s3 d(2,3)
          by (intro parse_directive_char [of d]; cases p1)
             (simp_all add: directive_char_def value_char_def value_char_ok_def Let_def p3_def read_directive_def)
        also have "\<dots> = parse_loop R P F (p3\<lparr>ps_state := 43, ps_value := v\<rparr>) (advance v s3) st1"
          using parse_value [OF d(4), of "advance [d] s3" "LF # r" "p3\<lparr>ps_state := 43, ps_value := [d]\<rparr>"]
            rest_advance [of s3 "[d]" "v' @ LF # r"] s3 d(1) by (simp add: advance_Cons [of d v'])
        also have "\<dots> = parse_loop R P F (read_directive kw v (in_line s) p1) (advance v s3) st1"
        proof -
          have "rest (advance v s3) = LF # r" using rest_advance [of s3 v "LF # r"] s3 d(1) by simp
          then show ?thesis
            by (intro parse_directive_char [of LF]; cases p1)
               (simp_all add: directive_char_def value_char_def Let_def p3_def read_directive_def)
        qed
        also have "advance v s3 = advance (directive_line kw v) s"
          by (simp only: s3_def s2_def s1_def advance_append [symmetric]) (simp add: directive_line_def False)
        finally show ?thesis by (simp add: s2_def)
      qed
    qed
    finally show ?thesis .
  qed
  have "parse_loop R P F p s st =
     rbind (add_chunk R (in_file s) p st) (\<lambda>(p1, st1).
       parse_loop R P F (p1\<lparr>ps_chunk_line := in_line s, ps_cpp_lines := 1, ps_state := 40\<rparr>) s1 st1)"
    using assms(2,3)
    by (simp add: directive_line_def parse_loop_read parse_step_def text_step_def s1_def rbind_def split: sum.split prod.split)
  then show ?thesis by (simp add: word)
qed

lemma parse_directive:
  assumes "directive_ok kw v" and "rest s = directive_line kw v @ LF # r" and "ps_state p = 0"
  shows "parse_loop R P F p s st =
     rbind (add_chunk R (in_file s) p st) (\<lambda>(p1, st1).
     rbind (directive R P F (in_file s) (read_directive kw v (in_line s) p1) st1) (\<lambda>(p2, st2).
       parse_loop R P F p2 (advance (directive_line kw v @ [LF]) s) st2))"
proof -
  define s1 where "s1 = advance (directive_line kw v) s"
  have s1: "rest s1 = LF # r" using rest_advance [OF assms(2)] by (simp add: s1_def)
  have body: "parse_loop R P F (read_directive kw v (in_line s) p1) s1 st1 =
      rbind (directive R P F (in_file s) (read_directive kw v (in_line s) p1) st1) (\<lambda>(p2, st2).
        parse_loop R P F p2 (advance [LF] s1) st2)" for p1 st1
    using s1
    by (simp add: parse_loop_read parse_step_def s1_def rbind_def read_directive_def [of kw v "in_line s" p1]
        split: sum.split prod.split)
  show ?thesis
    unfolding parse_directive_text [OF assms] s1_def [symmetric] body
    by (simp add: s1_def advance_append)
qed

section \<open>Trees of conditionals\<close>

datatype items =
    Done
  | Line string items
  | Group string string items branches items
and branches =
    Elif string items branches
  | Else items
  | Endif

fun items_text :: "items \<Rightarrow> string" and branches_text :: "branches \<Rightarrow> string" where
  "items_text Done = []"
| "items_text (Line t is) = t @ LF # items_text is"
| "items_text (Group kw v b bs is) = directive_line kw v @ LF # items_text b @ branches_text bs @ items_text is"
| "branches_text (Elif v b bs) = directive_line ''elif'' v @ LF # items_text b @ branches_text bs"
| "branches_text (Else b) = directive_line ''else'' [] @ LF # items_text b @ directive_line ''endif'' [] @ [LF]"
| "branches_text Endif = directive_line ''endif'' [] @ [LF]"

fun items_ok :: "items \<Rightarrow> bool" and branches_ok :: "branches \<Rightarrow> bool" where
  "items_ok Done = True"
| "items_ok (Line t is) \<longleftrightarrow> line_ok t \<and> items_ok is"
| "items_ok (Group kw v b bs is) \<longleftrightarrow> (kw = ''if'' \<or> kw = ''ifdef'' \<or> kw = ''ifndef'') \<and> directive_ok kw v \<and> items_ok b \<and>
     branches_ok bs \<and> items_ok is"
| "branches_ok (Elif v b bs) \<longleftrightarrow> directive_ok ''elif'' v \<and> items_ok b \<and> branches_ok bs"
| "branches_ok (Else b) = items_ok b"
| "branches_ok Endif = True"

fun items_depth :: "items \<Rightarrow> int" and branches_depth :: "branches \<Rightarrow> int" where
  "items_depth Done = 0"
| "items_depth (Line t is) = items_depth is"
| "items_depth (Group kw v b bs is) = max (1 + max (items_depth b) (branches_depth bs)) (items_depth is)"
| "branches_depth (Elif v b bs) = max (items_depth b) (branches_depth bs)"
| "branches_depth (Else b) = items_depth b"
| "branches_depth Endif = 0"

text \<open>What has been written and what is still to be written, the line, and the state of the preprocessor.\<close>

record acc =
  ac_out :: string
  ac_chunk :: string
  ac_chunk_line :: int
  ac_line :: int
  ac_st :: cpp

definition flush :: "replacer \<Rightarrow> string option \<Rightarrow> bool \<Rightarrow> acc \<Rightarrow> acc res" where
  "flush R f allow a =
     (if allow then rbind (R (ac_st a) (ac_chunk a, ac_chunk_line a, f)) (\<lambda>(t, st).
        Inr (a\<lparr>ac_out := ac_out a @ t, ac_chunk := [], ac_st := st\<rparr>))
      else Inr (a\<lparr>ac_out := ac_out a @ filter (\<lambda>c. c = LF) (ac_chunk a), ac_chunk := []\<rparr>))"

text \<open>A directive writes the text before it, and a line end for itself.\<close>

definition directive_at :: "replacer \<Rightarrow> string option \<Rightarrow> bool \<Rightarrow> acc \<Rightarrow> acc res" where
  "directive_at R f allow a =
     rbind (flush R f allow a) (\<lambda>a1.
       Inr (a1\<lparr>ac_out := ac_out a1 @ [LF], ac_chunk_line := ac_line a1, ac_line := ac_line a1 + 1\<rparr>))"

definition cond_test :: "replacer \<Rightarrow> string option \<Rightarrow> string \<Rightarrow> string \<Rightarrow> int \<Rightarrow> cpp \<Rightarrow> (bool \<times> cpp) res" where
  "cond_test R f kw v l st =
     (if kw = ''ifdef'' then Inr (symbols st v \<noteq> None, st)
      else if kw = ''ifndef'' then Inr (symbols st v = None, st)
      else cond_value R f v l st)"

definition test_at :: "replacer \<Rightarrow> string option \<Rightarrow> string \<Rightarrow> string \<Rightarrow> bool \<Rightarrow> acc \<Rightarrow> (bool \<times> acc) res" where
  "test_at R f kw v evaluate a =
     (if evaluate then rbind (cond_test R f kw v (ac_chunk_line a) (ac_st a)) (\<lambda>(b, st). Inr (b, a\<lparr>ac_st := st\<rparr>))
      else Inr (False, a))"

text \<open>
  The evaluation. \<open>allow\<close> says whether the text is kept, \<open>cur\<close> the same of the branch before, \<open>used\<close> whether
  a branch of the group was taken. A condition of \<open>#elif\<close> is not evaluated right after the branch that
  was taken, but again after further ones.
\<close>

fun ref_items :: "replacer \<Rightarrow> string option \<Rightarrow> bool \<Rightarrow> items \<Rightarrow> acc \<Rightarrow> acc res"
  and ref_branches :: "replacer \<Rightarrow> string option \<Rightarrow> bool \<Rightarrow> bool \<Rightarrow> bool \<Rightarrow> branches \<Rightarrow> acc \<Rightarrow> acc res" where
  "ref_items R f allow Done a = Inr a"
| "ref_items R f allow (Line t is) a =
     ref_items R f allow is (a\<lparr>ac_chunk := ac_chunk a @ t @ [LF], ac_line := ac_line a + 1\<rparr>)"
| "ref_items R f allow (Group kw v b bs is) a =
     rbind (directive_at R f allow a) (\<lambda>a1.
     rbind (test_at R f kw v allow a1) (\<lambda>(c, a2).
     rbind (ref_items R f c b a2) (\<lambda>a3.
     rbind (ref_branches R f allow c c bs a3) (\<lambda>a4.
     ref_items R f allow is a4))))"
| "ref_branches R f outer cur used (Elif v b bs) a =
     rbind (directive_at R f cur a) (\<lambda>a1.
     rbind (test_at R f ''elif'' v (outer \<and> \<not> cur) a1) (\<lambda>(c, a2).
     rbind (ref_items R f (c \<and> \<not> used) b a2) (\<lambda>a3.
     ref_branches R f outer (c \<and> \<not> used) (used \<or> c) bs a3)))"
| "ref_branches R f outer cur used (Else b) a =
     rbind (directive_at R f cur a) (\<lambda>a1.
     rbind (ref_items R f (outer \<and> \<not> used) b a1) (\<lambda>a2.
     directive_at R f (outer \<and> \<not> used) a2))"
| "ref_branches R f outer cur used Endif a = directive_at R f cur a"

section \<open>The machine and the tree\<close>

definition agrees :: "pstate \<Rightarrow> acc \<Rightarrow> int \<Rightarrow> int \<Rightarrow> bool \<Rightarrow> bool" where
  "agrees p a l sl allow \<longleftrightarrow> ps_state p = 0 \<and> ps_out p = ac_out a \<and> ps_chunk p = ac_chunk a \<and>
     ps_chunk_line p = ac_chunk_line a \<and> ps_level p = l \<and> ps_start_level p = sl \<and> ps_allow p = allow"

text \<open>The part of a directive that all of them share: what the machine is like before its body.\<close>

definition body_state :: "pstate \<Rightarrow> string \<Rightarrow> string \<Rightarrow> int \<Rightarrow> acc \<Rightarrow> pstate" where
  "body_state p kw v l a =
     (read_directive kw v l (p\<lparr>ps_out := ac_out a, ps_chunk := [], ps_chunk_line := 1\<rparr>))"

lemma add_chunk_flush:
  assumes "agrees p a l sl allow"
  shows "add_chunk R f p (ac_st a) =
    rbind (flush R f allow a) (\<lambda>a1. Inr (p\<lparr>ps_out := ac_out a1, ps_chunk := [], ps_chunk_line := 1\<rparr>, ac_st a1))"
  using assms by (auto simp: add_chunk_def flush_def agrees_def addline_def rbind_def split: sum.split)

text \<open>The directives on the level of the tree: \<open>body\<close> is what the directive does.\<close>

lemma run_directive:
  assumes "directive_ok kw v" and "rest s = directive_line kw v @ LF # r" and "agrees p a l sl allow"
    and "ac_line a = in_line s"
  shows "parse_loop R P F p s (ac_st a) =
     rbind (directive_at R (in_file s) allow a) (\<lambda>a1.
     rbind (directive_body R P F (in_file s)
              (read_directive kw v (in_line s) (p\<lparr>ps_out := butlast (ac_out a1), ps_chunk := [], ps_chunk_line := 1\<rparr>)) (ac_st a1))
       (\<lambda>(p2, st2). parse_loop R P F (p2\<lparr>ps_out := ps_out p2 @ replicate (nat (ps_cpp_lines p2)) LF, ps_state := 0\<rparr>)
          (advance (directive_line kw v @ [LF]) s) st2))"
proof -
  have v: "rstrip v = v" using assms(1) by (simp add: directive_ok_def)
  have "(read_directive kw v l' q)\<lparr>ps_value := rstrip (ps_value (read_directive kw v l' q))\<rparr> = read_directive kw v l' q" for l' q
    by (cases q) (simp add: read_directive_def v)
  then have d: "directive R P F f (read_directive kw v l' q) st =
      rbind (directive_body R P F f (read_directive kw v l' q) st) (\<lambda>(p1, st1).
        Inr (p1\<lparr>ps_out := ps_out p1 @ replicate (nat (ps_cpp_lines p1)) LF, ps_state := 0\<rparr>, st1))" for f l' q st
    by (simp add: directive_def)
  have "ps_state p = 0" using assms(3) by (simp add: agrees_def)
  note pd = parse_directive [OF assms(1,2) this]
  show ?thesis
    unfolding pd add_chunk_flush [OF assms(3)] directive_at_def d
    by (simp add: rbind_def split: sum.split prod.split)
qed

text \<open>The four ways in which the directives change the levels.\<close>

definition mark_line :: "int \<Rightarrow> pstate \<Rightarrow> pstate" where
  "mark_line i q = q\<lparr>ps_cond_lines := (ps_cond_lines q)[nat i := ps_id_line q]\<rparr>"

lemma set_cond_line_mark: "0 \<le> i \<Longrightarrow> i < 256 \<Longrightarrow> set_cond_line i q = Inr (mark_line i q)"
  by (simp add: set_cond_line_def mark_line_def)

lemma mark_line_simps [simp]:
  "ps_level (mark_line i q) = ps_level q" "ps_start_level (mark_line i q) = ps_start_level q"
  "ps_allow (mark_line i q) = ps_allow q" "ps_mask (mark_line i q) = ps_mask q" "ps_out (mark_line i q) = ps_out q"
  "ps_chunk (mark_line i q) = ps_chunk q" "ps_chunk_line (mark_line i q) = ps_chunk_line q"
  "ps_cpp_lines (mark_line i q) = ps_cpp_lines q"
  by (simp_all add: mark_line_def)

lemma read_directive_simps [simp]:
  "ps_id (read_directive kw v l p) = kw" "ps_value (read_directive kw v l p) = v"
  "ps_value_line (read_directive kw v l p) = l" "ps_level (read_directive kw v l p) = ps_level p"
  "ps_start_level (read_directive kw v l p) = ps_start_level p" "ps_allow (read_directive kw v l p) = ps_allow p"
  "ps_mask (read_directive kw v l p) = ps_mask p" "ps_out (read_directive kw v l p) = ps_out p"
  "ps_chunk (read_directive kw v l p) = ps_chunk p" "ps_chunk_line (read_directive kw v l p) = l"
  "ps_cpp_lines (read_directive kw v l p) = 1"
  by (simp_all add: read_directive_def)

lemma body_begin:
  assumes "kw = ''if'' \<or> kw = ''ifdef'' \<or> kw = ''ifndef''" and "0 \<le> ps_level p" and "ps_level p < 256"
    and "q = read_directive kw v l p"
  shows "directive_body R P F f q st =
    (let q1 = (mark_line (ps_level p) q)\<lparr>ps_level := ps_level p + 1\<rparr>
     in if ps_allow p
        then rbind (cond_test R f kw v l st) (\<lambda>(b, st1).
          Inr (q1\<lparr>ps_start_level := ps_level p + 1, ps_allow := b, ps_mask := True\<rparr>, st1))
        else Inr (q1, st))"
proof -
  have "directive_body R P F f q st = begin_cond q st (cond_test R f kw v l)"
    using assms(1) by (elim disjE) (simp_all add: assms(4) directive_body_def cond_test_def [abs_def] Let_def)
  then show ?thesis using assms(2-4) by (simp add: begin_cond_def set_cond_line_mark Let_def)
qed

lemma body_elif:
  assumes "1 \<le> ps_level p" and "ps_level p \<le> 256" and "q = read_directive ''elif'' v l p"
  shows "directive_body R P F f q st =
    (let q1 = mark_line (ps_level p - 1) q
     in if ps_allow p then Inr (q1\<lparr>ps_allow := False, ps_mask := False\<rparr>, st)
        else if ps_level p = ps_start_level p
        then rbind (cond_value R f v l st) (\<lambda>(b, st1). Inr (q1\<lparr>ps_allow := (b \<and> ps_mask p)\<rparr>, st1))
        else Inr (q1, st))"
  using assms by (simp add: directive_body_def elif_cond_def set_cond_line_mark Let_def)

lemma body_else:
  assumes "1 \<le> ps_level p" and "ps_level p \<le> 256" and "q = read_directive ''else'' [] l p"
  shows "directive_body R P F f q st =
    (let q1 = mark_line (ps_level p - 1) q
     in Inr (if ps_allow p then q1\<lparr>ps_allow := False, ps_mask := False\<rparr>
             else if ps_level p = ps_start_level p then q1\<lparr>ps_allow := ps_mask p\<rparr> else q1, st))"
  using assms by (simp add: directive_body_def else_cond_def set_cond_line_mark Let_def)

lemma body_endif:
  assumes "1 \<le> ps_level p" and "q = read_directive ''endif'' [] l p"
  shows "directive_body R P F f q st =
    Inr (if ps_level p - 1 < ps_start_level p
         then q\<lparr>ps_level := ps_level p - 1, ps_allow := True, ps_start_level := ps_start_level p - 1\<rparr>
         else q\<lparr>ps_level := ps_level p - 1\<rparr>, st)"
  using assms by (simp add: directive_body_def end_cond_def Let_def)

text \<open>The loop goes on as the result says, in a state with the property \<open>Q\<close>.\<close>

definition reaches ::
  "replacer \<Rightarrow> parser \<Rightarrow> file_system \<Rightarrow> pstate \<Rightarrow> stream \<Rightarrow> cpp \<Rightarrow> ('x \<Rightarrow> cpp) \<Rightarrow> 'x res \<Rightarrow> stream \<Rightarrow> (pstate \<Rightarrow> 'x \<Rightarrow> bool) \<Rightarrow> bool"
  where
  "reaches R P F p s st g r s' Q \<longleftrightarrow>
     (case r of
        Inl e \<Rightarrow> parse_loop R P F p s st = Inl e
      | Inr x \<Rightarrow> \<exists>p'. parse_loop R P F p s st = parse_loop R P F p' s' (g x) \<and> Q p' x)"

lemma reaches_bind:
  assumes "reaches R P F p s st g r s1 Q"
    and "\<And>p' x. r = Inr x \<Longrightarrow> Q p' x \<Longrightarrow> reaches R P F p' s1 (g x) g' (h x) s2 Q'"
  shows "reaches R P F p s st g' (rbind r h) s2 Q'"
proof (cases r)
  case (Inr x)
  then obtain p' where p': "parse_loop R P F p s st = parse_loop R P F p' s1 (g x)" "Q p' x"
    using assms(1) by (auto simp: reaches_def)
  show ?thesis using assms(2) [OF Inr p'(2)] p'(1) Inr by (simp add: reaches_def split: sum.splits)
qed (use assms(1) in \<open>simp add: reaches_def\<close>)

lemma reaches_mono:
  "reaches R P F p s st g r s' Q \<Longrightarrow> (\<And>p x. r = Inr x \<Longrightarrow> Q p x \<Longrightarrow> Q' p x) \<Longrightarrow> reaches R P F p s st g r s' Q'"
  by (auto simp: reaches_def split: sum.splits)

lemma reaches_Inr: "Q p x \<Longrightarrow> reaches R P F p s (g x) g (Inr x) s Q"
  by (auto simp: reaches_def)

lemma reaches_step:
  "parse_loop R P F p s st = parse_loop R P F p1 s1 st \<Longrightarrow> reaches R P F p1 s1 st g r s' Q \<Longrightarrow> reaches R P F p s st g r s' Q"
  by (cases r) (simp_all add: reaches_def)

lemma nls_directive: "directive_ok kw v \<Longrightarrow> nls (directive_line kw v) = 0"
proof -
  assume "directive_ok kw v"
  moreover have "c \<noteq> LF" if "isalpha c" for c using isalpha_not_space [OF that] by (auto simp: isspace_def)
  ultimately have "list_all (\<lambda>c. c \<noteq> LF) kw" "list_all (\<lambda>c. c \<noteq> LF) v"
    unfolding directive_ok_def value_char_ok_def list_all_iff by blast+
  moreover have "list_all (\<lambda>c. c \<noteq> LF) w \<Longrightarrow> nls w = 0" for w by (induction w) auto
  ultimately show ?thesis by (simp add: directive_line_def)
qed

lemma directive_at_line:
  "directive_at R f allow a = Inr a1 \<Longrightarrow>
   ac_line a1 = ac_line a + 1 \<and> ac_chunk_line a1 = ac_line a \<and> ac_chunk a1 = [] \<and> ac_out a1 = butlast (ac_out a1) @ [LF]"
  by (auto simp: directive_at_def flush_def butlast_append split: if_splits)

text \<open>The state of the machine before the body of a directive, after the text before it is written.\<close>

definition before_body :: "pstate \<Rightarrow> acc \<Rightarrow> pstate" where
  "before_body p a1 = p\<lparr>ps_out := butlast (ac_out a1), ps_chunk := [], ps_chunk_line := 1\<rparr>"

text \<open>
  The rule for a directive: its body, in whatever way it changes the levels, leaves the output and the line
  count as they are.
\<close>

lemma reaches_directive:
  assumes "directive_ok kw v" and "rest s = directive_line kw v @ LF # r" and "agrees p a l sl allow"
    and "ac_line a = in_line s"
    and "\<And>a1. directive_at R (in_file s) allow a = Inr a1 \<Longrightarrow>
      directive_body R P F (in_file s) (read_directive kw v (in_line s) (before_body p a1)) (ac_st a1) =
      rbind (h a1) (\<lambda>x. Inr (u x (read_directive kw v (in_line s) (before_body p a1)), g x))"
    and "\<And>a1 x q. directive_at R (in_file s) allow a = Inr a1 \<Longrightarrow> h a1 = Inr x \<Longrightarrow>
      q = u x (read_directive kw v (in_line s) (before_body p a1)) \<Longrightarrow>
      Q (q\<lparr>ps_out := ps_out q @ replicate (nat (ps_cpp_lines q)) LF, ps_state := 0\<rparr>) x"
  shows "reaches R P F p s (ac_st a) g (rbind (directive_at R (in_file s) allow a) h)
    (advance (directive_line kw v @ [LF]) s) Q"
proof -
  note run = run_directive [OF assms(1-4), of R P F]
  show ?thesis
  proof (cases "directive_at R (in_file s) allow a")
    case (Inl e)
    then show ?thesis using run by (simp add: reaches_def)
  next
    case (Inr a1)
    note b = assms(5) [OF Inr] assms(6) [OF Inr _ refl]
    show ?thesis
      using run Inr b(1) by (cases "h a1") (auto simp: reaches_def before_body_def [symmetric] intro!: exI conjI b(2))
  qed
qed

lemma before_body_simps [simp]:
  "ps_level (before_body p a) = ps_level p" "ps_start_level (before_body p a) = ps_start_level p"
  "ps_allow (before_body p a) = ps_allow p" "ps_mask (before_body p a) = ps_mask p"
  "ps_out (before_body p a) = butlast (ac_out a)" "ps_chunk (before_body p a) = []"
  by (simp_all add: before_body_def)

lemma agrees_level: "agrees p a l sl allow \<Longrightarrow> ps_level p = l \<and> ps_start_level p = sl \<and> ps_allow p = allow"
  by (simp add: agrees_def)

lemma reaches_begin:
  assumes "directive_ok kw v" and "rest s = directive_line kw v @ LF # r" and "agrees p a l sl allow"
    and "ac_line a = in_line s" and "kw = ''if'' \<or> kw = ''ifdef'' \<or> kw = ''ifndef''" and "0 \<le> l" and "l < 256"
  shows "reaches R P F p s (ac_st a) (\<lambda>(c, b). ac_st b)
     (rbind (directive_at R (in_file s) allow a) (test_at R (in_file s) kw v allow))
     (advance (directive_line kw v @ [LF]) s)
     (\<lambda>q (c, b). agrees q b (l + 1) (if allow then l + 1 else sl) c \<and> (allow \<or> \<not> c) \<and> ps_mask q = (allow \<or> ps_mask p) \<and>
        ac_line b = in_line s + 1)"
proof (rule reaches_directive [OF assms(1-4)])
  note p = agrees_level [OF assms(3)]
  let ?u = "\<lambda>(c, b :: acc) q. let q1 = (mark_line l q)\<lparr>ps_level := l + 1\<rparr>
     in if allow then q1\<lparr>ps_start_level := l + 1, ps_allow := c, ps_mask := True\<rparr> else q1"
  fix a1 assume a1: "directive_at R (in_file s) allow a = Inr a1"
  have line: "ac_chunk_line a1 = in_line s" using directive_at_line [OF a1] assms(4) by simp
  show "directive_body R P F (in_file s) (read_directive kw v (in_line s) (before_body p a1)) (ac_st a1) =
      rbind (test_at R (in_file s) kw v allow a1) (\<lambda>x. Inr (?u x (read_directive kw v (in_line s) (before_body p a1)), (\<lambda>(c, b). ac_st b) x))"
    using assms(6,7) p
    by (simp add: body_begin [OF assms(5) _ _ refl] test_at_def line Let_def rbind_def split: sum.split prod.split)
  fix x q assume "test_at R (in_file s) kw v allow a1 = Inr x" "q = ?u x (read_directive kw v (in_line s) (before_body p a1))"
  then show "(\<lambda>q (c, b). agrees q b (l + 1) (if allow then l + 1 else sl) c \<and> (allow \<or> \<not> c) \<and> ps_mask q = (allow \<or> ps_mask p) \<and>
        ac_line b = in_line s + 1) (q\<lparr>ps_out := ps_out q @ replicate (nat (ps_cpp_lines q)) LF, ps_state := 0\<rparr>) x"
    using p directive_at_line [OF a1] assms(4)
    by (auto simp: test_at_def agrees_def Let_def elim!: rbind_InrE split: if_splits)
qed

lemma reaches_elif:
  assumes "directive_ok ''elif'' v" and "rest s = directive_line ''elif'' v @ LF # r" and "agrees p a l sl cur"
    and "ac_line a = in_line s" and "1 \<le> l" and "l \<le> 256" and "e \<longleftrightarrow> sl = l \<and> \<not> cur"
  shows "reaches R P F p s (ac_st a) (\<lambda>(c, b). ac_st b)
     (rbind (directive_at R (in_file s) cur a) (test_at R (in_file s) ''elif'' v e))
     (advance (directive_line ''elif'' v @ [LF]) s)
     (\<lambda>q (c, b). agrees q b l sl (c \<and> ps_mask p) \<and> (e \<or> \<not> c) \<and> ps_mask q = (\<not> cur \<and> ps_mask p) \<and> ac_line b = in_line s + 1)"
proof (rule reaches_directive [OF assms(1-4)])
  note p = agrees_level [OF assms(3)]
  let ?u = "\<lambda>(c, b :: acc) q. let q1 = mark_line (l - 1) q
     in if cur then q1\<lparr>ps_allow := False, ps_mask := False\<rparr> else if l = sl then q1\<lparr>ps_allow := (c \<and> ps_mask p)\<rparr> else q1"
  fix a1 assume a1: "directive_at R (in_file s) cur a = Inr a1"
  have line: "ac_chunk_line a1 = in_line s" using directive_at_line [OF a1] assms(4) by simp
  show "directive_body R P F (in_file s) (read_directive ''elif'' v (in_line s) (before_body p a1)) (ac_st a1) =
      rbind (test_at R (in_file s) ''elif'' v e a1) (\<lambda>x. Inr (?u x (read_directive ''elif'' v (in_line s) (before_body p a1)), (\<lambda>(c, b). ac_st b) x))"
    using assms(5-7) p
    by (simp add: body_elif [OF _ _ refl] test_at_def cond_test_def line Let_def rbind_def split: sum.split prod.split)
  fix x q assume "test_at R (in_file s) ''elif'' v e a1 = Inr x" "q = ?u x (read_directive ''elif'' v (in_line s) (before_body p a1))"
  then show "(\<lambda>q (c, b). agrees q b l sl (c \<and> ps_mask p) \<and> (e \<or> \<not> c) \<and> ps_mask q = (\<not> cur \<and> ps_mask p) \<and> ac_line b = in_line s + 1)
      (q\<lparr>ps_out := ps_out q @ replicate (nat (ps_cpp_lines q)) LF, ps_state := 0\<rparr>) x"
    using p directive_at_line [OF a1] assms(4,7)
    by (auto simp: test_at_def agrees_def Let_def elim!: rbind_InrE split: if_splits)
qed

lemma rbind_Inr [simp]: "rbind r Inr = r"
  by (cases r) simp_all

lemma fixed_directives: "directive_ok ''else'' []" "directive_ok ''endif'' []"
  by (simp_all add: directive_ok_def rstrip_def) (simp_all add: isalpha_def isupper_def islower_def less_eq_char_def)

lemma reaches_else:
  assumes "rest s = directive_line ''else'' [] @ LF # r" and "agrees p a l sl cur"
    and "ac_line a = in_line s" and "1 \<le> l" and "l \<le> 256"
  shows "reaches R P F p s (ac_st a) ac_st (directive_at R (in_file s) cur a) (advance (directive_line ''else'' [] @ [LF]) s)
     (\<lambda>q b. agrees q b l sl (\<not> cur \<and> l = sl \<and> ps_mask p) \<and> ps_mask q = (\<not> cur \<and> ps_mask p) \<and> ac_line b = in_line s + 1)"
proof -
  note p = agrees_level [OF assms(2)]
  let ?u = "\<lambda>(b :: acc) q. let q1 = mark_line (l - 1) q
     in if cur then q1\<lparr>ps_allow := False, ps_mask := False\<rparr> else if l = sl then q1\<lparr>ps_allow := ps_mask p\<rparr> else q1"
  have "reaches R P F p s (ac_st a) ac_st (rbind (directive_at R (in_file s) cur a) Inr)
     (advance (directive_line ''else'' [] @ [LF]) s)
     (\<lambda>q b. agrees q b l sl (\<not> cur \<and> l = sl \<and> ps_mask p) \<and> ps_mask q = (\<not> cur \<and> ps_mask p) \<and> ac_line b = in_line s + 1)"
  proof (rule reaches_directive [OF fixed_directives(1) assms(1-3), of R P F Inr ?u])
    fix a1 assume a1: "directive_at R (in_file s) cur a = Inr a1"
    show "directive_body R P F (in_file s) (read_directive ''else'' [] (in_line s) (before_body p a1)) (ac_st a1) =
        rbind (Inr a1) (\<lambda>x. Inr (?u x (read_directive ''else'' [] (in_line s) (before_body p a1)), ac_st x))"
      using assms(4,5) p by (simp add: body_else [OF _ _ refl] Let_def)
    fix x q assume "Inr a1 = (Inr x :: acc res)" "q = ?u x (read_directive ''else'' [] (in_line s) (before_body p a1))"
    then show "agrees (q\<lparr>ps_out := ps_out q @ replicate (nat (ps_cpp_lines q)) LF, ps_state := 0\<rparr>) x l sl (\<not> cur \<and> l = sl \<and> ps_mask p) \<and>
        ps_mask (q\<lparr>ps_out := ps_out q @ replicate (nat (ps_cpp_lines q)) LF, ps_state := 0\<rparr>) = (\<not> cur \<and> ps_mask p) \<and>
        ac_line x = in_line s + 1"
      using p directive_at_line [OF a1] assms(3) by (auto simp: agrees_def Let_def split: if_splits)
  qed
  then show ?thesis by simp
qed

lemma reaches_endif:
  assumes "rest s = directive_line ''endif'' [] @ LF # r" and "agrees p a l sl cur"
    and "ac_line a = in_line s" and "1 \<le> l"
  shows "reaches R P F p s (ac_st a) ac_st (directive_at R (in_file s) cur a) (advance (directive_line ''endif'' [] @ [LF]) s)
     (\<lambda>q b. agrees q b (l - 1) (if l - 1 < sl then sl - 1 else sl) (l - 1 < sl \<or> cur) \<and> ps_mask q = ps_mask p \<and>
        ac_line b = in_line s + 1)"
proof -
  note p = agrees_level [OF assms(2)]
  let ?u = "\<lambda>(b :: acc) q. if l - 1 < sl then q\<lparr>ps_level := l - 1, ps_allow := True, ps_start_level := sl - 1\<rparr>
     else q\<lparr>ps_level := l - 1\<rparr>"
  let ?Q = "\<lambda>q b. agrees q b (l - 1) (if l - 1 < sl then sl - 1 else sl) (l - 1 < sl \<or> cur) \<and> ps_mask q = ps_mask p \<and>
        ac_line b = in_line s + 1"
  have "reaches R P F p s (ac_st a) ac_st (rbind (directive_at R (in_file s) cur a) Inr)
     (advance (directive_line ''endif'' [] @ [LF]) s) ?Q"
  proof (rule reaches_directive [OF fixed_directives(2) assms(1-3), of R P F Inr ?u])
    fix a1 assume a1: "directive_at R (in_file s) cur a = Inr a1"
    show "directive_body R P F (in_file s) (read_directive ''endif'' [] (in_line s) (before_body p a1)) (ac_st a1) =
        rbind (Inr a1) (\<lambda>x. Inr (?u x (read_directive ''endif'' [] (in_line s) (before_body p a1)), ac_st x))"
      using assms(4) p by (simp add: body_endif [OF _ refl])
    fix x q assume "Inr a1 = (Inr x :: acc res)" "q = ?u x (read_directive ''endif'' [] (in_line s) (before_body p a1))"
    then show "?Q (q\<lparr>ps_out := ps_out q @ replicate (nat (ps_cpp_lines q)) LF, ps_state := 0\<rparr>) x"
      using p directive_at_line [OF a1] assms(3) by (auto simp: agrees_def split: if_splits)
  qed
  then show ?thesis by simp
qed

text \<open>Along a tree.\<close>

definition in_group :: "pstate \<Rightarrow> int \<Rightarrow> int \<Rightarrow> bool \<Rightarrow> bool \<Rightarrow> bool \<Rightarrow> bool" where
  "in_group p l sl outer cur used \<longleftrightarrow>
     (if outer then sl = l \<and> (if cur then used else ps_mask p = (\<not> used)) else sl < l \<and> \<not> cur)"

lemma nls_line: "directive_ok kw v \<Longrightarrow> nls (directive_line kw v @ [LF]) = 1"
  by (simp add: nls_directive)

lemma rest_line: "rest s = directive_line kw v @ LF # r \<Longrightarrow> rest (advance (directive_line kw v @ [LF]) s) = r"
  using rest_advance [of s "directive_line kw v @ [LF]" r] by simp

lemma depth_nonneg: "0 \<le> items_depth is" "0 \<le> branches_depth bs"
  by (induction "is" and bs rule: items_depth_branches_depth.induct) (auto simp: max_def)

lemma rbind_assoc: "rbind (rbind r f) g = rbind r (\<lambda>x. rbind (f x) g)"
  by (cases r) simp_all

lemma reaches_tree:
  "\<lbrakk>items_ok is; rest s = items_text is @ r; agrees p a l sl allow; ac_line a = in_line s; 0 \<le> l;
    l + items_depth is \<le> 256; if allow then sl = l else sl \<le> l; f = in_file s\<rbrakk> \<Longrightarrow>
   reaches R P F p s (ac_st a) ac_st (ref_items R f allow is a) (advance (items_text is) s)
     (\<lambda>q b. agrees q b l sl allow \<and> (allow \<or> ps_mask q = ps_mask p) \<and> ac_line b = in_line s + nls (items_text is))"
  "\<lbrakk>branches_ok bs; rest s = branches_text bs @ r; agrees p a l sl cur; ac_line a = in_line s; 1 \<le> l;
    l + branches_depth bs \<le> 256; in_group p l sl outer cur used; f = in_file s\<rbrakk> \<Longrightarrow>
   reaches R P F p s (ac_st a) ac_st (ref_branches R f outer cur used bs a) (advance (branches_text bs) s)
     (\<lambda>q b. agrees q b (l - 1) (if outer then l - 1 else sl) outer \<and> (outer \<or> ps_mask q = ps_mask p) \<and>
        ac_line b = in_line s + nls (branches_text bs))"
proof (induction R f allow "is" a and R f outer cur used bs a arbitrary: p s r l sl and p s r l sl
    rule: ref_items_ref_branches.induct)
  case (1 R f allow a)
  then show ?case by (auto simp: intro: reaches_Inr)
next
  case (2 R f allow t "is" a)
  define s1 where "s1 = advance (t @ [LF]) s"
  define a1 where "a1 = a\<lparr>ac_chunk := ac_chunk a @ t @ [LF], ac_line := ac_line a + 1\<rparr>"
  have t: "line_ok t" "nls t = 0"
  proof -
    show "line_ok t" using 2(2) by simp
    then have "list_all (\<lambda>c. c \<noteq> LF) t" by (auto simp: line_ok_def text_char_def list_all_iff)
    then show "nls t = 0" by (induction t) auto
  qed
  have a1: "ac_st a1 = ac_st a" by (simp add: a1_def)
  have st: "ps_state p = 0" using 2(4) by (simp add: agrees_def)
  have r1: "rest s1 = items_text is @ r" using rest_advance [of s "t @ [LF]"] 2(3) by (simp add: s1_def)
  have "reaches R P F (put_chunk (t @ [LF]) p) s1 (ac_st a1) ac_st (ref_items R f allow is a1) (advance (items_text is) s1)
     (\<lambda>q b. agrees q b l sl allow \<and> (allow \<or> ps_mask q = ps_mask (put_chunk (t @ [LF]) p)) \<and>
        ac_line b = in_line s1 + nls (items_text is))"
    by (rule 2(1) [folded a1_def, OF _ r1]) (use 2(2-) t in \<open>auto simp: a1_def s1_def agrees_def put_chunk_def\<close>)
  then have "reaches R P F p s (ac_st a) ac_st (ref_items R f allow is a1) (advance (items_text is) s1)
     (\<lambda>q b. agrees q b l sl allow \<and> (allow \<or> ps_mask q = ps_mask (put_chunk (t @ [LF]) p)) \<and>
        ac_line b = in_line s1 + nls (items_text is))"
    unfolding a1 by (rule reaches_step [rotated]) (use parse_line [OF t(1) _ st, of s "items_text is @ r"] 2(3) in \<open>simp add: s1_def\<close>)
  moreover have "advance (items_text is) s1 = advance (items_text (Line t is)) s"
    by (simp add: s1_def flip: advance_append)
  moreover have "in_line s1 = in_line s + 1" "ps_mask (put_chunk (t @ [LF]) p) = ps_mask p"
    using t(2) by (simp_all add: s1_def put_chunk_def)
  ultimately show ?case
    using t(2) by (simp add: add.assoc flip: a1_def)
next
  case (3 R f allow kw v b bs "is" a)
  define s1 where "s1 = advance (directive_line kw v @ [LF]) s"
  define s2 where "s2 = advance (items_text b) s1"
  define s3 where "s3 = advance (branches_text bs) s2"
  have ok: "kw = ''if'' \<or> kw = ''ifdef'' \<or> kw = ''ifndef''" "directive_ok kw v" "items_ok b" "branches_ok bs" "items_ok is"
    using 3(4) by simp_all
  have r0: "rest s = directive_line kw v @ LF # items_text b @ branches_text bs @ items_text is @ r" using 3(5) by simp
  have r1: "rest s1 = items_text b @ branches_text bs @ items_text is @ r" using rest_line [OF r0] by (simp add: s1_def)
  have r2: "rest s2 = branches_text bs @ items_text is @ r" using rest_advance [OF r1] by (simp add: s2_def)
  have r3: "rest s3 = items_text is @ r" using rest_advance [OF r2] by (simp add: s3_def)
  have lines: "in_line s1 = in_line s + 1" by (simp add: s1_def nls_directive [OF ok(2)])
  have depth: "l < 256" "l + 1 + items_depth b \<le> 256" "l + 1 + branches_depth bs \<le> 256" "l + items_depth is \<le> 256"
    using 3(9) depth_nonneg(1) [of b] by (auto simp: max_def split: if_splits)
  have s3: "advance (items_text (Group kw v b bs is)) s = advance (items_text is) s3"
    by (simp add: s3_def s2_def s1_def flip: advance_append)
  define Q where "Q = (\<lambda>q b. agrees q b l sl allow \<and> (allow \<or> ps_mask q = ps_mask p) \<and>
     ac_line b = in_line s3 + nls (items_text is))"
  have "reaches R P F p s (ac_st a) ac_st (rbind (rbind (directive_at R f allow a) (test_at R f kw v allow)) (\<lambda>(c, a2).
     rbind (ref_items R f c b a2) (\<lambda>a3. rbind (ref_branches R f allow c c bs a3) (ref_items R f allow is))))
     (advance (items_text is) s3) Q"
    unfolding 3(11)
  proof (rule reaches_bind [OF reaches_begin [OF ok(2) r0 3(6,7) ok(1) 3(8) depth(1), of R P F], folded s1_def], clarify)
    let ?sl = "if allow then l + 1 else sl"
    fix p1 c a2 assume c: "agrees p1 a2 (l + 1) ?sl c" "allow \<or> \<not> c" "ps_mask p1 = (allow \<or> ps_mask p)" "ac_line a2 = in_line s + 1"
    show "reaches R P F p1 s1 (ac_st a2) ac_st
        (rbind (ref_items R (in_file s) c b a2) (\<lambda>a3. rbind (ref_branches R (in_file s) allow c c bs a3) (ref_items R (in_file s) allow is)))
        (advance (items_text is) s3) Q"
    proof (rule reaches_bind)
      show "reaches R P F p1 s1 (ac_st a2) ac_st (ref_items R (in_file s) c b a2) s2 (\<lambda>q x. agrees q x (l + 1) ?sl c \<and>
          (c \<or> ps_mask q = ps_mask p1) \<and> ac_line x = in_line s1 + nls (items_text b))"
        unfolding s2_def by (rule 3(1) [unfolded 3(11), OF ok(3) r1]) (use ok(3) r1 c lines depth 3(8,10) in \<open>auto simp: s1_def\<close>)
      fix p2 a3 assume d: "agrees p2 a3 (l + 1) ?sl c \<and>
          (c \<or> ps_mask p2 = ps_mask p1) \<and> ac_line a3 = in_line s1 + nls (items_text b)"
      show "reaches R P F p2 s2 (ac_st a3) ac_st
          (rbind (ref_branches R (in_file s) allow c c bs a3) (ref_items R (in_file s) allow is)) (advance (items_text is) s3) Q"
      proof (rule reaches_bind)
        show "reaches R P F p2 s2 (ac_st a3) ac_st (ref_branches R (in_file s) allow c c bs a3) s3 (\<lambda>q x.
            agrees q x (l + 1 - 1) (if allow then l + 1 - 1 else ?sl) allow \<and> (allow \<or> ps_mask q = ps_mask p2) \<and>
            ac_line x = in_line s2 + nls (branches_text bs))"
          unfolding s3_def by (rule 3(2) [unfolded 3(11), OF ok(4) r2])
            (use ok(4) r2 c d lines depth 3(8,10) in \<open>auto simp: s1_def s2_def in_group_def\<close>)
        fix p3 a4 assume e: "agrees p3 a4 (l + 1 - 1) (if allow then l + 1 - 1 else ?sl) allow \<and>
            (allow \<or> ps_mask p3 = ps_mask p2) \<and> ac_line a4 = in_line s2 + nls (branches_text bs)"
        have sl: "allow \<Longrightarrow> sl = l" using 3(10) by simp
        show "reaches R P F p3 s3 (ac_st a4) ac_st (ref_items R (in_file s) allow is a4) (advance (items_text is) s3) Q"
          unfolding Q_def
          by (rule reaches_mono [OF 3(3) [unfolded 3(11), OF ok(5) r3]])
            (use ok(5) r3 c d e sl lines depth 3(8,10) in \<open>auto simp: s1_def s2_def s3_def split: if_splits\<close>)
      qed
    qed
  qed
  moreover have "Q = (\<lambda>q x. agrees q x l sl allow \<and> (allow \<or> ps_mask q = ps_mask p) \<and>
      ac_line x = in_line s + nls (items_text (Group kw v b bs is)))"
    by (simp add: Q_def s3_def s2_def lines nls_directive [OF ok(2)] add.assoc)
  ultimately show ?case
    unfolding s3 by (simp add: rbind_assoc case_prod_unfold)
next
  case (4 R f outer cur used v b bs a)
  define s1 where "s1 = advance (directive_line ''elif'' v @ [LF]) s"
  define s2 where "s2 = advance (items_text b) s1"
  have ok: "directive_ok ''elif'' v" "items_ok b" "branches_ok bs" using 4(3) by simp_all
  have r0: "rest s = directive_line ''elif'' v @ LF # items_text b @ branches_text bs @ r" using 4(4) by simp
  have r1: "rest s1 = items_text b @ branches_text bs @ r" using rest_line [OF r0] by (simp add: s1_def)
  have r2: "rest s2 = branches_text bs @ r" using rest_advance [OF r1] by (simp add: s2_def)
  have lines: "in_line s1 = in_line s + 1" by (simp add: s1_def nls_directive [OF ok(1)])
  have depth: "l \<le> 256" "l + items_depth b \<le> 256" "l + branches_depth bs \<le> 256"
    using 4(8) depth_nonneg(1) [of b] by (auto simp: max_def split: if_splits)
  have s2: "advance (branches_text (Elif v b bs)) s = advance (branches_text bs) s2"
    by (simp add: s2_def s1_def flip: advance_append)
  define e where "e \<longleftrightarrow> outer \<and> \<not> cur"
  have e: "e \<longleftrightarrow> sl = l \<and> \<not> cur" using 4(9) by (auto simp: e_def in_group_def split: if_splits)
  define Q where "Q = (\<lambda>q x. agrees q x (l - 1) (if outer then l - 1 else sl) outer \<and> (outer \<or> ps_mask q = ps_mask p) \<and>
     ac_line x = in_line s2 + nls (branches_text bs))"
  have "reaches R P F p s (ac_st a) ac_st (rbind (rbind (directive_at R f cur a) (test_at R f ''elif'' v e)) (\<lambda>(c, a2).
     rbind (ref_items R f (c \<and> \<not> used) b a2) (ref_branches R f outer (c \<and> \<not> used) (used \<or> c) bs)))
     (advance (branches_text bs) s2) Q"
    unfolding 4(10)
  proof (rule reaches_bind [OF reaches_elif [OF ok(1) r0 4(5,6,7) depth(1) e, of R P F], folded s1_def], clarify)
    fix p1 c a2 assume c: "agrees p1 a2 l sl (c \<and> ps_mask p)" "e \<or> \<not> c" "ps_mask p1 = (\<not> cur \<and> ps_mask p)" "ac_line a2 = in_line s + 1"
    let ?c = "c \<and> \<not> used"
    have take: "(c \<and> ps_mask p) = ?c" using c(2) 4(9) by (auto simp: e_def in_group_def split: if_splits)
    show "reaches R P F p1 s1 (ac_st a2) ac_st
        (rbind (ref_items R (in_file s) ?c b a2) (ref_branches R (in_file s) outer ?c (used \<or> c) bs))
        (advance (branches_text bs) s2) Q"
    proof (rule reaches_bind)
      show "reaches R P F p1 s1 (ac_st a2) ac_st (ref_items R (in_file s) ?c b a2) s2 (\<lambda>q x. agrees q x l sl ?c \<and>
          (?c \<or> ps_mask q = ps_mask p1) \<and> ac_line x = in_line s1 + nls (items_text b))"
        unfolding s2_def
        by (rule 4(1) [unfolded 4(10), OF ok(2) r1])
          (use c(1,2,4) take lines depth 4(7,9) in \<open>auto simp: s1_def e_def in_group_def split: if_splits\<close>)
      fix p2 a3 assume d: "agrees p2 a3 l sl ?c \<and>
          (?c \<or> ps_mask p2 = ps_mask p1) \<and> ac_line a3 = in_line s1 + nls (items_text b)"
      have group: "in_group p2 l sl outer ?c (used \<or> c)"
        using d c(2,3) 4(9) by (auto simp: in_group_def e_def split: if_splits)
      have mask: "outer \<or> ps_mask p2 = ps_mask p"
        using d c(2,3) 4(9) by (auto simp: in_group_def e_def)
      show "reaches R P F p2 s2 (ac_st a3) ac_st (ref_branches R (in_file s) outer ?c (used \<or> c) bs a3) (advance (branches_text bs) s2) Q"
        unfolding Q_def
        by (rule reaches_mono [OF 4(2) [unfolded 4(10), OF ok(3) r2 _ _ 4(7) depth(3) group]])
          (use d mask in \<open>auto simp: s1_def s2_def\<close>)
    qed
  qed
  moreover have "Q = (\<lambda>q x. agrees q x (l - 1) (if outer then l - 1 else sl) outer \<and> (outer \<or> ps_mask q = ps_mask p) \<and>
      ac_line x = in_line s + nls (branches_text (Elif v b bs)))"
    by (simp add: Q_def s2_def lines nls_directive [OF ok(1)] add.assoc)
  ultimately show ?case
    unfolding s2 by (simp add: rbind_assoc case_prod_unfold e_def)
next
  case (5 R f outer cur used b a)
  define s1 where "s1 = advance (directive_line ''else'' [] @ [LF]) s"
  define s2 where "s2 = advance (items_text b) s1"
  have ok: "items_ok b" using 5(2) by simp
  have r0: "rest s = directive_line ''else'' [] @ LF # items_text b @ directive_line ''endif'' [] @ LF # r" using 5(3) by simp
  have r1: "rest s1 = items_text b @ directive_line ''endif'' [] @ LF # r" using rest_line [OF r0] by (simp add: s1_def)
  have r2: "rest s2 = directive_line ''endif'' [] @ LF # r" using rest_advance [OF r1] by (simp add: s2_def)
  have lines: "in_line s1 = in_line s + 1" by (simp add: s1_def nls_directive [OF fixed_directives(1)])
  have depth: "l \<le> 256" "l + items_depth b \<le> 256"
    using 5(7) depth_nonneg(1) [of b] by auto
  have s2: "advance (branches_text (Else b)) s = advance (directive_line ''endif'' [] @ [LF]) s2"
    by (simp add: s2_def s1_def flip: advance_append)
  let ?c = "outer \<and> \<not> used"
  have take: "(\<not> cur \<and> l = sl \<and> ps_mask p) = ?c" using 5(8) by (auto simp: in_group_def split: if_splits)
  define Q where "Q = (\<lambda>q x. agrees q x (l - 1) (if outer then l - 1 else sl) outer \<and> (outer \<or> ps_mask q = ps_mask p) \<and>
     ac_line x = in_line s2 + 1)"
  have "reaches R P F p s (ac_st a) ac_st (rbind (directive_at R f cur a) (\<lambda>a1.
      rbind (ref_items R f ?c b a1) (directive_at R f ?c))) (advance (directive_line ''endif'' [] @ [LF]) s2) Q"
    unfolding 5(9)
  proof (rule reaches_bind [OF reaches_else [OF r0 5(4-6) depth(1), of R P F], folded s1_def, unfolded take])
    fix p1 a1 assume c: "agrees p1 a1 l sl ?c \<and> ps_mask p1 = (\<not> cur \<and> ps_mask p) \<and> ac_line a1 = in_line s + 1"
    show "reaches R P F p1 s1 (ac_st a1) ac_st (rbind (ref_items R (in_file s) ?c b a1) (directive_at R (in_file s) ?c))
       (advance (directive_line ''endif'' [] @ [LF]) s2) Q"
    proof (rule reaches_bind)
      show "reaches R P F p1 s1 (ac_st a1) ac_st (ref_items R (in_file s) ?c b a1) s2 (\<lambda>q x. agrees q x l sl ?c \<and>
          (?c \<or> ps_mask q = ps_mask p1) \<and> ac_line x = in_line s1 + nls (items_text b))"
        unfolding s2_def
        by (rule 5(1) [unfolded 5(9), OF ok r1])
          (use c lines depth 5(6,8) in \<open>auto simp: s1_def in_group_def split: if_splits\<close>)
      fix p2 a2 assume d: "agrees p2 a2 l sl ?c \<and>
          (?c \<or> ps_mask p2 = ps_mask p1) \<and> ac_line a2 = in_line s1 + nls (items_text b)"
      have s2_file: "in_file s2 = in_file s" "ac_line a2 = in_line s2" "agrees p2 a2 l sl ?c" using d by (simp_all add: s1_def s2_def)
      show "reaches R P F p2 s2 (ac_st a2) ac_st (directive_at R (in_file s) ?c a2) (advance (directive_line ''endif'' [] @ [LF]) s2) Q"
        unfolding Q_def
        by (rule reaches_mono [OF reaches_endif [OF r2 s2_file(3,2) 5(6), of R P F, unfolded s2_file(1)]])
          (use c d 5(8) in \<open>auto simp: in_group_def split: if_splits\<close>)
    qed
  qed
  moreover have "Q = (\<lambda>q x. agrees q x (l - 1) (if outer then l - 1 else sl) outer \<and> (outer \<or> ps_mask q = ps_mask p) \<and>
      ac_line x = in_line s + nls (branches_text (Else b)))"
    by (simp add: Q_def s2_def lines nls_directive [OF fixed_directives(1)] nls_directive [OF fixed_directives(2)] add.assoc)
  ultimately show ?case
    unfolding s2 by simp
next
  case (6 R f outer cur used a)
  have r0: "rest s = directive_line ''endif'' [] @ LF # r" using 6(2) by simp
  show ?case
    unfolding ref_branches.simps branches_text.simps 6(8)
    by (rule reaches_mono [OF reaches_endif [OF r0 6(3-5), of R P F]])
      (use 6(7) in \<open>auto simp: in_group_def nls_directive [OF fixed_directives(2)] split: if_splits\<close>)
qed

section \<open>A whole text\<close>

lemma directive_no_cr: "directive_ok kw v \<Longrightarrow> CHR 0x0D \<notin> set (directive_line kw v)"
  using isalpha_not_space [of "CHR 0x0D"]
  by (auto simp: directive_ok_def directive_line_def value_char_ok_def list_all_iff isspace_def)

lemma tree_no_cr:
  "items_ok is \<Longrightarrow> CHR 0x0D \<notin> set (items_text is)"
  "branches_ok bs \<Longrightarrow> CHR 0x0D \<notin> set (branches_text bs)"
proof (induction "is" and bs rule: items_ok_branches_ok.induct)
  case (2 t "is")
  then show ?case by (auto simp: line_ok_def text_char_def list_all_iff)
qed (use directive_no_cr fixed_directives in auto)

lemma text_replace_no_cr: "CHR 0x0D \<notin> set s \<Longrightarrow> text_replace s [CHR 0x0D] [] fl = Inr s"
  by (rule text_replace_absent) (metis list.set_intros(1) set_mono_sublist subsetD)

definition tree_start :: "int \<Rightarrow> cpp \<Rightarrow> acc" where
  "tree_start l st = \<lparr>ac_out = [], ac_chunk = [], ac_chunk_line = l, ac_line = l, ac_st = st\<rparr>"

lemma parse_loop_end: "rest s = [] \<Longrightarrow> parse_loop R P F p s st = Inr (p, s, st)"
  by (subst parse_loop.simps) (simp add: Getc_end)

lemma parse_text_tree:
  assumes "items_ok is" and "items_depth is \<le> 256"
  shows "parse_text R P F st (open_text (items_text is) l f) =
    rbind (ref_items R f True is (tree_start l st)) (\<lambda>a. rbind (flush R f True a) (\<lambda>b. Inr (ac_out b, ac_st b)))"
proof -
  define s where "s = open_text (items_text is) l f"
  have s: "rest s = items_text is @ []" "in_line s = l" "in_file s = f" "in_text s = items_text is" "s\<lparr>in_text := items_text is\<rparr> = s"
    by (simp_all add: s_def open_text_def rest_def)
  have "agrees (initial_pstate s) (tree_start l st) 0 0 True"
    using s by (simp add: agrees_def initial_pstate_def tree_start_def)
  from reaches_tree(1) [OF assms(1) s(1) this, of f R P F]
  have "reaches R P F (initial_pstate s) s (ac_st (tree_start l st)) ac_st (ref_items R f True is (tree_start l st))
     (advance (items_text is) s) (\<lambda>q b. agrees q b 0 0 True)"
    using assms(2) s by (auto simp: tree_start_def intro: reaches_mono)
  moreover have "rest (advance (items_text is) s) = []" using rest_advance [OF s(1)] .
  moreover have "open_conds p = []" "open_rest p = []" if "agrees p a 0 0 True" for p a
    using that by (simp_all add: agrees_def open_conds_def open_rest_def)
  moreover have "parse_text R P F st s = rbind (parse_loop R P F (initial_pstate s) s st) (\<lambda>(p, s1, st1).
     rbind (add_chunk R (in_file s1) p (report (open_conds p @ open_rest p) st1)) (\<lambda>(p2, st2). Inr (ps_out p2, st2)))"
    unfolding parse_text_def s(4) text_replace_no_cr [OF tree_no_cr(1) [OF assms(1)]] rbind_simps Let_def s(5) ..
  ultimately show ?thesis
    using s(3) by (cases "ref_items R f True is (tree_start l st)")
       (auto simp: reaches_def parse_loop_end add_chunk_flush report_def tree_start_def rbind_assoc simp flip: s_def)
qed

text \<open>
  C36. Preprocessing a text of conditionals, nested up to the 256 levels the program has room for, does what the
  evaluation of their tree does: it keeps the first branch whose condition holds, or the one of \<open>#else\<close> if
  there is none, expands the text kept and leaves the line ends of the rest.
\<close>

theorem conditionals_select_branches:
  assumes "items_ok is" and "items_depth is \<le> 256"
  shows "cpp_parse (Suc n) mangle files st (open_text (items_text is) l f) =
    rbind (ref_items (cpp_replace n mangle files) f True is (tree_start l st)) (\<lambda>a.
    rbind (flush (cpp_replace n mangle files) f True a) (\<lambda>b. Inr (ac_out b, ac_st b)))"
  using parse_text_tree [OF assms] by simp

theorem conditionals_select_branches_witness:
  "map_sum id fst (cpp_parse 2 id (\<lambda>_. None) Preprocessor_init
     (open_text (items_text (Group ''ifdef'' ''A'' (Line ''x'' Done) (Elif ''0'' (Line ''y'' Done) (Else (Line ''z'' Done))) Done)) 1 None)) =
   Inr [LF, LF, LF, LF, LF, CHR ''z'', LF, LF]"
proof -
  let ?T = "Group ''ifdef'' ''A'' (Line ''x'' Done) (Elif ''0'' (Line ''y'' Done) (Else (Line ''z'' Done))) Done"
  have ok: "items_ok ?T" "items_depth ?T \<le> 256" by code_simp+
  have "map_sum id fst (rbind (ref_items (cpp_replace 1 id (\<lambda>_. None)) None True ?T (tree_start 1 Preprocessor_init)) (\<lambda>a.
     rbind (flush (cpp_replace 1 id (\<lambda>_. None)) None True a) (\<lambda>b. Inr (ac_out b, ac_st b)))) =
     Inr [LF, LF, LF, LF, LF, CHR ''z'', LF, LF]"
    by code_simp
  then show ?thesis
    by (simp only: conditionals_select_branches [OF ok, of 1 id "\<lambda>_. None" Preprocessor_init 1 None, unfolded Suc_1])
qed

end
