(* ===== verification/TypeScope.thy ===== *)
theory TypeScope
  imports SwigTypeStr
begin

text \<open>
  Type scopes: the first half of Source/Swig/typesys.c. A scope is a hash table in the program; here it is a
  record in a list, and a reference to it is its index. The operations on scopes, the search for a name
  through bases and enclosing scopes, and the lookup of a scope by its name; \<open>TypeResolve\<close> rests on them.
\<close>

section \<open>State\<close>

text \<open>
  The attributes of a scope: \<open>name\<close>, \<open>qname\<close>, \<open>typetab\<close>, \<open>symtab\<close>, \<open>inherit\<close>, \<open>using\<close> and \<open>parent\<close>. The symbol
  tables are those of symbol.c.
\<close>

record 'sym typetab =
  tt_name :: string
  tt_qname :: "string option"
  tt_types :: "string \<Rightarrow> string option"
  tt_symtab :: "'sym option"
  tt_inherit :: "nat list"
  tt_using :: "nat list"
  tt_parent :: "nat option"

text \<open>
  The static variables. \<open>current_typetab\<close> is always the table of \<open>current_scope\<close>, and has no field of its own.
  A cache that is a null pointer is empty. \<open>strip_memo\<close> is the cache of \<open>SwigType_strip_qualifiers\<close> in stype.c.
\<close>

record 'sym typesys =
  tabs :: "'sym typetab list"
  current_scope :: nat
  global_scope :: nat
  current_symtab :: "'sym option"
  scopes :: "string \<Rightarrow> nat option"
  resolved_scope :: "nat option"
  check_parent :: bool
  resolve_cache :: "string \<Rightarrow> (string \<times> nat option) option"
  all_cache :: "string \<Rightarrow> string option"
  qualified_cache :: "string \<Rightarrow> string option"
  strip_memo :: "string \<Rightarrow> string option"
  value_wrapper_mode :: int

definition Swig_value_wrapper_mode :: "int \<Rightarrow> 'sym typesys \<Rightarrow> 'sym typesys" where
  "Swig_value_wrapper_mode m st = st\<lparr>value_wrapper_mode := m\<rparr>"

definition flush_cache :: "'sym typesys \<Rightarrow> 'sym typesys" where
  "flush_cache st = st\<lparr>resolve_cache := (\<lambda>_. None), all_cache := (\<lambda>_. None), qualified_cache := (\<lambda>_. None)\<rparr>"

text \<open>The global scope has no \<open>qname\<close>.\<close>

definition new_typetab :: "string \<Rightarrow> nat option \<Rightarrow> 'sym typetab" where
  "new_typetab n p = \<lparr>tt_name = n, tt_qname = None, tt_types = (\<lambda>_. None), tt_symtab = None, tt_inherit = [], tt_using = [],
     tt_parent = p\<rparr>"

text \<open>The static variables at the start, with the value of \<open>value_wrapper_mode\<close>, which is 0.\<close>

definition static_typesys :: "int \<Rightarrow> 'sym typesys" where
  "static_typesys m =
     \<lparr>tabs = [], current_scope = 0, global_scope = 0, current_symtab = None, scopes = (\<lambda>_. None), resolved_scope = None,
      check_parent = True, resolve_cache = (\<lambda>_. None), all_cache = (\<lambda>_. None), qualified_cache = (\<lambda>_. None),
      strip_memo = (\<lambda>_. None), value_wrapper_mode = m\<rparr>"

definition SwigType_typesystem_init :: "'sym typesys \<Rightarrow> 'sym typesys" where
  "SwigType_typesystem_init st =
     st\<lparr>tabs := [new_typetab [] None], current_scope := 0, global_scope := 0, current_symtab := None,
        scopes := (\<lambda>_. None)([] \<mapsto> 0)\<rparr>"

abbreviation tab :: "'sym typesys \<Rightarrow> nat \<Rightarrow> 'sym typetab" where
  "tab st s \<equiv> tabs st ! s"

definition set_tab :: "nat \<Rightarrow> ('sym typetab \<Rightarrow> 'sym typetab) \<Rightarrow> 'sym typesys \<Rightarrow> 'sym typesys" where
  "set_tab s f st = st\<lparr>tabs := (tabs st)[s := f (tab st s)]\<rparr>"

definition set_type :: "nat \<Rightarrow> string \<Rightarrow> string \<Rightarrow> 'sym typesys \<Rightarrow> 'sym typesys" where
  "set_type s n t = set_tab s (\<lambda>b. b\<lparr>tt_types := (tt_types b)(n \<mapsto> t)\<rparr>)"

section \<open>Scopes\<close>

text \<open>
  The scope and those around it, from the inside. A scope is made after the one around it, so the numbers go down.
\<close>

fun up_chain :: "'sym typetab list \<Rightarrow> nat \<Rightarrow> nat list" where
  "up_chain ts s = s # (case tt_parent (ts ! s) of None \<Rightarrow> [] | Some p \<Rightarrow> if p < s then up_chain ts p else [])"

declare up_chain.simps [simp del]

text \<open>The loop of \<open>SwigType_scope_name\<close>, on the name so far and the scopes around.\<close>

fun scope_prefix :: "string \<Rightarrow> string list \<Rightarrow> string" where
  "scope_prefix q [] = q"
| "scope_prefix q (n # ns) = scope_prefix (if n = [] then q else n @ ''::'' @ q) ns"

definition SwigType_scope_name :: "'sym typetab list \<Rightarrow> nat \<Rightarrow> string" where
  "SwigType_scope_name ts s = scope_prefix (tt_name (ts ! s)) (map (\<lambda>p. tt_name (ts ! p)) (tl (up_chain ts s)))"

definition SwigType_new_scope :: "string option \<Rightarrow> 'sym typesys \<Rightarrow> 'sym typesys" where
  "SwigType_new_scope name st =
     (let n = (case name of None \<Rightarrow> ''<unnamed>'' | Some x \<Rightarrow> x);
          s = length (tabs st);
          ts = tabs st @ [new_typetab n (Some (current_scope st))];
          q = SwigType_scope_name ts s
      in flush_cache (st\<lparr>tabs := ts[s := (ts ! s)\<lparr>tt_qname := Some q\<rparr>], scopes := (scopes st)(q \<mapsto> s),
                         current_scope := s, current_symtab := None\<rparr>))"

definition SwigType_inherit_scope :: "nat \<Rightarrow> 'sym typesys \<Rightarrow> 'sym typesys res" where
  "SwigType_inherit_scope s st =
     (if s = current_scope st then Inl Assertion
      else if s \<in> set (tt_inherit (tab st (current_scope st))) then Inr st
      else Inr (set_tab (current_scope st) (\<lambda>b. b\<lparr>tt_inherit := tt_inherit b @ [s]\<rparr>) st))"

definition SwigType_scope_alias :: "string \<Rightarrow> nat \<Rightarrow> 'sym typesys \<Rightarrow> 'sym typesys" where
  "SwigType_scope_alias a s st =
     (let q = SwigType_scope_name (tabs st) (current_scope st)
      in flush_cache (st\<lparr>scopes := (scopes st)((if q = [] then a else q @ ''::'' @ a) \<mapsto> s)\<rparr>))"

text \<open>The caches are only flushed when the scope is new in the list.\<close>

definition SwigType_using_scope :: "nat \<Rightarrow> 'sym typesys \<Rightarrow> 'sym typesys res" where
  "SwigType_using_scope s st =
     rbind (SwigType_inherit_scope s st) (\<lambda>st1.
       if s \<in> set (tt_using (tab st1 (current_scope st1))) then Inr st1
       else Inr (flush_cache (set_tab (current_scope st1) (\<lambda>b. b\<lparr>tt_using := tt_using b @ [s]\<rparr>) st1)))"

definition enter_scope :: "nat \<Rightarrow> 'sym typesys \<Rightarrow> 'sym typesys" where
  "enter_scope s st = flush_cache (st\<lparr>current_scope := s, current_symtab := tt_symtab (tab st s)\<rparr>)"

text \<open>The scope that is left, and the new state.\<close>

definition SwigType_pop_scope :: "'sym typesys \<Rightarrow> nat \<times> 'sym typesys" where
  "SwigType_pop_scope st =
     (current_scope st,
      enter_scope (case tt_parent (tab st (current_scope st)) of None \<Rightarrow> global_scope st | Some p \<Rightarrow> p) st)"

definition SwigType_set_scope :: "nat option \<Rightarrow> 'sym typesys \<Rightarrow> nat \<times> 'sym typesys" where
  "SwigType_set_scope s st =
     (current_scope st, enter_scope (case s of None \<Rightarrow> global_scope st | Some x \<Rightarrow> x) st)"

definition SwigType_attach_symtab :: "'sym \<Rightarrow> 'sym typesys \<Rightarrow> 'sym typesys" where
  "SwigType_attach_symtab y st =
     (set_tab (current_scope st) (\<lambda>b. b\<lparr>tt_symtab := Some y\<rparr>) st)\<lparr>current_symtab := Some y\<rparr>"

text \<open>A class is an entry that maps to itself.\<close>

definition SwigType_typedef_class :: "string \<Rightarrow> 'sym typesys \<Rightarrow> int \<times> 'sym typesys" where
  "SwigType_typedef_class n st =
     (if tt_types (tab st (current_scope st)) n \<noteq> None then (-1, st)
      else (0, flush_cache (set_type (current_scope st) n n st)))"

section \<open>Looking up a name\<close>

text \<open>
  \<open>_typedef_resolve\<close> marks a scope while it looks in it, so that cycles of bases end. Each call takes back the
  mark it has set, so the marks are an argument, the scopes of the calls around. A name that is found
  comes with the scope it was found in, the value of \<open>resolved_scope\<close>.
\<close>

lemma unmarked_less:
  "\<not> (s \<in> set marked \<or> length ts \<le> s) \<Longrightarrow> card ({..<length ts} - set (s # marked)) < card ({..<length ts} - set marked)"
proof -
  assume "\<not> (s \<in> set marked \<or> length ts \<le> s)"
  then have "s \<in> {..<length ts} - set marked" by simp
  from card_Diff1_less [OF _ this] show ?thesis unfolding list.set Diff_insert [symmetric] by simp
qed

function lookup :: "'sym typetab list \<Rightarrow> nat list \<Rightarrow> nat \<Rightarrow> string \<Rightarrow> bool \<Rightarrow> (string \<times> nat) option"
  and lookup_bases :: "'sym typetab list \<Rightarrow> nat list \<Rightarrow> nat list \<Rightarrow> string \<Rightarrow> (string \<times> nat) option" where
  "lookup ts marked s b look_parent =
     (if s \<in> set marked \<or> length ts \<le> s then None
      else case tt_types (ts ! s) b of
          Some t \<Rightarrow> Some (t, s)
        | None \<Rightarrow>
            (case lookup_bases ts (s # marked) (tt_inherit (ts ! s)) b of
               Some r \<Rightarrow> Some r
             | None \<Rightarrow>
                 if look_parent
                 then (case tt_parent (ts ! s) of None \<Rightarrow> None | Some p \<Rightarrow> lookup ts (s # marked) p b True)
                 else None))"
| "lookup_bases ts marked [] b = None"
| "lookup_bases ts marked (i # is) b =
     (case lookup ts marked i b False of Some r \<Rightarrow> Some r | None \<Rightarrow> lookup_bases ts marked is b)"
  by pat_completeness auto
termination
proof (relation "measures [\<lambda>x. case x of Inl (ts, m, s, b, u) \<Rightarrow> card ({..<length ts} - set m)
      | Inr (ts, m, is, b) \<Rightarrow> card ({..<length ts} - set m),
      \<lambda>x. case x of Inl _ \<Rightarrow> 0 | Inr (ts, m, is, b) \<Rightarrow> Suc (length is)]", goal_cases)
  case (2 ts marked s b look_parent)
  then show ?case using unmarked_less [of s marked ts] by simp
next
  case (3 ts marked s b look_parent)
  then show ?case using unmarked_less [of s marked ts] by simp
qed simp_all

declare lookup.simps [simp del]

definition typedef_resolve :: "nat \<Rightarrow> string \<Rightarrow> 'sym typesys \<Rightarrow> string option \<times> 'sym typesys" where
  "typedef_resolve s b st =
     (case lookup (tabs st) [] s b True of
        None \<Rightarrow> (None, st)
      | Some (t, s1) \<Rightarrow> (Some t, st\<lparr>resolved_scope := Some s1\<rparr>))"

section \<open>Finding a scope\<close>

definition qualify :: "'sym typetab list \<Rightarrow> nat \<Rightarrow> string \<Rightarrow> string" where
  "qualify ts s n = (case tt_qname (ts ! s) of None \<Rightarrow> n | Some q \<Rightarrow> q @ ''::'' @ n)"

text \<open>
  \<open>SwigType_find_scope\<close> looks for a scope by its name, around the scope \<open>s\<close>, and in the scopes it uses; there it does
  not look around. This and the resolution of types call each other, since the name may be that of
  a template; the calls are arguments here.
\<close>

type_synonym 'sym finder = "nat \<Rightarrow> string \<Rightarrow> 'sym typesys \<Rightarrow> (nat option \<times> 'sym typesys) res"
type_synonym 'sym resolver = "string \<Rightarrow> 'sym typesys \<Rightarrow> (string option \<times> 'sym typesys) res"

fun find_using :: "'sym finder \<Rightarrow> nat list \<Rightarrow> string \<Rightarrow> 'sym typesys \<Rightarrow> (nat option \<times> 'sym typesys) res" where
  "find_using look [] n st = Inr (None, st)"
| "find_using look (u # us) n st =
     rbind (look u n (st\<lparr>check_parent := False\<rparr>)) (\<lambda>(r, st1).
       let st2 = st1\<lparr>check_parent := check_parent st\<rparr>
       in case r of Some s \<Rightarrow> Inr (Some s, st2) | None \<Rightarrow> find_using look us n st2)"

fun find_around :: "'sym finder \<Rightarrow> nat list \<Rightarrow> string \<Rightarrow> 'sym typesys \<Rightarrow> (nat option \<times> 'sym typesys) res" where
  "find_around look [] n st = Inr (None, st)"
| "find_around look (s # ss) n st =
     (case scopes st (qualify (tabs st) s n) of
        Some x \<Rightarrow> Inr (Some x, st)
      | None \<Rightarrow> rbind (find_using look (tt_using (tab st s)) n st) (\<lambda>(r, st1).
          case r of
            Some x \<Rightarrow> Inr (Some x, st1)
          | None \<Rightarrow> if check_parent st1 then find_around look ss n st1 else Inr (None, st1)))"

definition SwigType_find_scope ::
  "'sym finder \<Rightarrow> (string \<Rightarrow> 'sym typesys \<Rightarrow> (string \<times> 'sym typesys) res) \<Rightarrow> nat \<Rightarrow> string \<Rightarrow> 'sym typesys \<Rightarrow>
   (nat option \<times> 'sym typesys) res" where
  "SwigType_find_scope look resolve_all s n st =
     rbind (if SwigType_istemplate n then resolve_all n st else Inr (n, st)) (\<lambda>(n1, st1).
       find_around look (up_chain (tabs st1) s) n1 st1)"

end
