(* ===== verification/TypeResolve.thy ===== *)
theory TypeResolve
  imports TypeScope
begin

text \<open>
  Resolution of typedefs: the rest of the first half of Source/Swig/typesys.c, with its caches. Functions that
  call each other are defined with the others as arguments, and tied together with a bound on the depth of
  the calls; deeper recursion is \<open>Hang\<close>, since nothing in the program bounds it. The functions of symbol.c
  are arguments.
\<close>

section \<open>One step of resolution\<close>

text \<open>
  The loop over parameters: only the first that can be resolved is. Gives the texts and whether there was one.
\<close>

fun resolve_parms :: "'sym resolver \<Rightarrow> string list \<Rightarrow> 'sym typesys \<Rightarrow> ((string list \<times> bool) \<times> 'sym typesys) res" where
  "resolve_parms resolve [] st = Inr (([], False), st)"
| "resolve_parms resolve (p # ps) st =
     rbind (resolve p st) (\<lambda>(r, st1).
       case r of
         Some q \<Rightarrow> Inr ((q # ps, True), st1)
       | None \<Rightarrow> rbind (resolve_parms resolve ps st1) (\<lambda>((l, rep), st2). Inr ((p # l, rep), st2)))"

fun comma_list :: "string list \<Rightarrow> string" where
  "comma_list [] = []"
| "comma_list [x] = x"
| "comma_list (x # xs) = x @ '','' @ comma_list xs"

definition parm_list :: "string \<Rightarrow> string list res" where
  "parm_list t = rbind (SwigType_parmlist t) (\<lambda>l. Inr (case l of None \<Rightarrow> [] | Some ps \<Rightarrow> ps))"

text \<open>
  A name that was found in a scope given by its prefix: what it stands for is looked up once more, and is
  qualified where it is defined from the scope it was found in.
\<close>

definition resolve_in_scope :: "nat \<Rightarrow> string \<Rightarrow> 'sym typesys \<Rightarrow> string option \<times> 'sym typesys" where
  "resolve_in_scope s n st =
     (case typedef_resolve s n st of
        (None, st1) \<Rightarrow> (None, st1)
      | (Some ty, st1) \<Rightarrow>
          let r = lookup (tabs st1) [] (the (resolved_scope st1)) ty True;
              ty1 = (case r of None \<Rightarrow> ty | Some (x, _) \<Rightarrow> x);
              s1 = (case r of None \<Rightarrow> the (resolved_scope st1) | Some (_, y) \<Rightarrow> y);
              ty2 = (if Swig_scopename_check ty1 then ty1
                     else case tt_qname (tabs st1 ! s1) of
                         None \<Rightarrow> ty1
                       | Some q \<Rightarrow> if lookup (tabs st1) [] s1 ty1 True \<noteq> None then q @ ''::'' @ ty1 else ty1)
          in (Some ty2, st1\<lparr>resolved_scope := Some s1\<rparr>))"

text \<open>
  A base without constructors. The result says whether resolution ends here (the scope of its prefix is not
  known, or the name stands for itself); the name comes without a leading \<open>::\<close>.
\<close>

datatype found = Ends | Goes_on "string option"

definition resolve_simple :: "'sym finder \<Rightarrow> string \<Rightarrow> 'sym typesys \<Rightarrow> ((found \<times> string) \<times> 'sym typesys) res" where
  "resolve_simple look base st =
     (let glob = starts_with ''::'' base;
          b = (if glob then drop 2 base else base);
          s = (if glob then global_scope st else current_scope st);
          stop = (\<lambda>(ty, st1). Inr ((if ty = Some b then Ends else Goes_on ty, b), st1))
      in case tt_types (tab st s) b of
           Some ty \<Rightarrow> stop (Some ty, st\<lparr>resolved_scope := Some s\<rparr>)
         | None \<Rightarrow>
             if \<not> Swig_scopename_check b then stop (typedef_resolve s b st)
             else rbind (Swig_scopename_split b) (\<lambda>(pre, n).
               case pre of
                 None \<Rightarrow> stop (typedef_resolve s b st)
               | Some p \<Rightarrow> rbind (look s p st) (\<lambda>(r, st1).
                   case r of None \<Rightarrow> Inr ((Ends, b), st1) | Some s1 \<Rightarrow> stop (resolve_in_scope s1 n st1))))"

text \<open>What stands in place of the base, if anything.\<close>

definition resolve_template :: "'sym resolver \<Rightarrow> string \<Rightarrow> 'sym typesys \<Rightarrow> (string option \<times> 'sym typesys) res" where
  "resolve_template resolve b st =
     rbind (parm_list b) (\<lambda>ps.
     rbind (resolve_parms resolve ps st) (\<lambda>((l, rep), st1).
       Inr (if rep then Some (SwigType_templateprefix b @ ''<('' @ comma_list l @ '')>'' @ SwigType_templatesuffix b) else None,
            st1)))"

definition resolve_constructor :: "'sym resolver \<Rightarrow> string \<Rightarrow> 'sym typesys \<Rightarrow> (string option \<times> 'sym typesys) res" where
  "resolve_constructor resolve b st =
     (if SwigType_isfunction b then
        rbind (parm_list b) (\<lambda>ps.
        rbind (resolve_parms resolve ps st) (\<lambda>((l, rep), st1).
          Inr (if rep then Some (''f('' @ comma_list l @ '').'') else None, st1)))
      else if SwigType_ismemberpointer b then
        (case SwigType_parm b of
           None \<Rightarrow> Inl Undefined
         | Some m \<Rightarrow> rbind (resolve m st) (\<lambda>(r, st1). Inr (map_option (\<lambda>x. ''m('' @ x @ '').'') r, st1)))
      else Inr (None, st))"

text \<open>Without a base that resolves, the prefix is resolved if it has a function or a member pointer.\<close>

definition resolve_rest :: "'sym resolver \<Rightarrow> string \<Rightarrow> string \<Rightarrow> string option \<Rightarrow> 'sym typesys \<Rightarrow> (string option \<times> 'sym typesys) res"
  where
  "resolve_rest resolve t b ty st =
     rbind (SwigType_prefix t) (\<lambda>r.
       case ty of
         Some x \<Rightarrow> Inr (Some (r @ x), st)
       | None \<Rightarrow>
           if r \<noteq> [] \<and> (strstr r ''f('' \<noteq> None \<or> strstr r ''m('' \<noteq> None)
           then rbind (resolve r st) (\<lambda>(rt, st1). Inr (map_option (\<lambda>x. x @ b) rt, st1))
           else Inr (None, st))"

definition resolve_new :: "'sym finder \<Rightarrow> 'sym resolver \<Rightarrow> string \<Rightarrow> 'sym typesys \<Rightarrow> (string option \<times> 'sym typesys) res" where
  "resolve_new look resolve t st =
     (let base = SwigType_base t
      in if SwigType_issimple base then
           rbind (resolve_simple look base st) (\<lambda>((f, b), st1).
             case f of
               Ends \<Rightarrow> Inr (None, st1)
             | Goes_on ty \<Rightarrow>
                 rbind (if ty = None \<and> SwigType_istemplate b then resolve_template resolve b st1 else Inr (ty, st1))
                   (\<lambda>(ty1, st2). resolve_rest resolve t b ty1 st2))
         else rbind (resolve_constructor resolve base st) (\<lambda>(ty, st1). resolve_rest resolve t base ty st1))"

text \<open>The cache keeps the results that differ from the type, with the scope.\<close>

definition SwigType_typedef_resolve ::
  "'sym finder \<Rightarrow> 'sym resolver \<Rightarrow> string \<Rightarrow> 'sym typesys \<Rightarrow> (string option \<times> 'sym typesys) res" where
  "SwigType_typedef_resolve look resolve t st =
     (case resolve_cache st t of
        Some (r, s) \<Rightarrow> Inr (Some r, st\<lparr>resolved_scope := s\<rparr>)
      | None \<Rightarrow> rbind (resolve_new look resolve t (st\<lparr>resolved_scope := None\<rparr>)) (\<lambda>(r, st1).
          Inr (r, case r of
                    None \<Rightarrow> st1
                  | Some x \<Rightarrow> st1\<lparr>resolve_cache := (resolve_cache st1)(t \<mapsto> (x, resolved_scope st1))\<rparr>)))"

text \<open>The loop to the most basic type.\<close>

fun resolve_loop :: "'sym resolver \<Rightarrow> nat \<Rightarrow> string \<Rightarrow> 'sym typesys \<Rightarrow> (string \<times> 'sym typesys) res" where
  "resolve_loop resolve 0 r st = Inl Hang"
| "resolve_loop resolve (Suc k) r st =
     rbind (resolve r st) (\<lambda>(n, st1). case n of None \<Rightarrow> Inr (r, st1) | Some x \<Rightarrow> resolve_loop resolve k x st1)"

definition SwigType_typedef_resolve_all ::
  "'sym resolver \<Rightarrow> nat \<Rightarrow> string \<Rightarrow> 'sym typesys \<Rightarrow> (string \<times> 'sym typesys) res" where
  "SwigType_typedef_resolve_all resolve k t st =
     (case all_cache st t of
        Some r \<Rightarrow> Inr (r, st)
      | None \<Rightarrow> rbind (resolve_loop resolve k t st) (\<lambda>(r, st1). Inr (r, st1\<lparr>all_cache := (all_cache st1)(t \<mapsto> r)\<rparr>)))"

section \<open>The recursion\<close>

fun ts_find :: "nat \<Rightarrow> 'sym finder"
  and ts_resolve :: "nat \<Rightarrow> 'sym resolver"
  and ts_resolve_all :: "nat \<Rightarrow> string \<Rightarrow> 'sym typesys \<Rightarrow> (string \<times> 'sym typesys) res" where
  "ts_find 0 s n st = Inl Hang"
| "ts_find (Suc k) s n st = SwigType_find_scope (ts_find k) (ts_resolve_all k) s n st"
| "ts_resolve 0 t st = Inl Hang"
| "ts_resolve (Suc k) t st = SwigType_typedef_resolve (ts_find k) (ts_resolve k) t st"
| "ts_resolve_all 0 t st = Inl Hang"
| "ts_resolve_all (Suc k) t st = SwigType_typedef_resolve_all (ts_resolve k) k t st"

section \<open>Declarations\<close>

text \<open>A typedef of a type that is a scope makes a scope of the new name that inherits from it.\<close>

definition alias_scope :: "string \<Rightarrow> nat \<Rightarrow> 'sym typesys \<Rightarrow> 'sym typesys res" where
  "alias_scope n s st = rbind (SwigType_inherit_scope s (SwigType_new_scope (Some n) st)) (\<lambda>st1. Inr (snd (SwigType_pop_scope st1)))"

definition SwigType_typedef :: "nat \<Rightarrow> string \<Rightarrow> string \<Rightarrow> 'sym typesys \<Rightarrow> (int \<times> 'sym typesys) res" where
  "SwigType_typedef k ty n st =
     (if tt_types (tab st (current_scope st)) n \<noteq> None then Inr (-1, st)
      else if ty = n then Inr (0, st)
      else rbind (ts_find k (current_scope st) ty st) (\<lambda>(r, st1).
           rbind (case r of None \<Rightarrow> Inr st1 | Some s \<Rightarrow> alias_scope n s st1) (\<lambda>st2.
             Inr (0, flush_cache (set_type (current_scope st2) n ty st2)))))"

definition SwigType_istypedef :: "nat \<Rightarrow> string \<Rightarrow> 'sym typesys \<Rightarrow> (bool \<times> 'sym typesys) res" where
  "SwigType_istypedef k t st = rbind (ts_resolve k t st) (\<lambda>(r, st1). Inr (r \<noteq> None, st1))"

text \<open>The caches are not flushed when the name has been entered, only when a scope for it is made.\<close>

definition SwigType_typedef_using :: "nat \<Rightarrow> string \<Rightarrow> 'sym typesys \<Rightarrow> (int \<times> 'sym typesys) res" where
  "SwigType_typedef_using k n st =
     (if \<not> Swig_scopename_check n then Inr (-1, st)
      else let base = Swig_scopename_last n
      in if tt_types (tab st (current_scope st)) base \<noteq> None then Inr (-1, st)
      else rbind (ts_resolve k n (set_type (current_scope st) base n st)) (\<lambda>(td, st1).
        let defined = (case resolved_scope st1 of
              None \<Rightarrow> None
            | Some s \<Rightarrow> map_option (\<lambda>q. q @ ''::'' @ base) (tt_qname (tab st1 s)))
        in rbind (case defined of None \<Rightarrow> Inr (None, st1) | Some d \<Rightarrow> ts_find k (current_scope st1) d st1) (\<lambda>(tt, st2).
        rbind (Swig_scopename_prefix n) (\<lambda>pre.
        case pre of
          None \<Rightarrow> Inl Undefined
        | Some p \<Rightarrow> rbind (ts_find k (current_scope st2) p st2) (\<lambda>(s, st3).
            let st4 = (case (s, defined) of
                  (Some x, Some d) \<Rightarrow> if tt_types (tab st3 x) base = None then set_type x base d st3 else st3
                | _ \<Rightarrow> st3)
            in rbind (case tt of None \<Rightarrow> Inr st4 | Some x \<Rightarrow> alias_scope base x st4) (\<lambda>st5. Inr (0, st5)))))))"

section \<open>Qualified types\<close>

text \<open>
  What the type system uses of symbol.c: the node of a name, from a table or from the current one; the type of a
  template with its default arguments; names in an array dimension. Of a node it uses the identity,
  the attributes and its qualified name.
\<close>

record symnode =
  sn_id :: nat
  sn_attr :: "string \<Rightarrow> string option"
  sn_qualified :: string

record 'sym symfuns =
  Swig_symbol_clookup :: "string \<Rightarrow> 'sym option \<Rightarrow> symnode option"
  Swig_symbol_template_deftype :: "string \<Rightarrow> 'sym option \<Rightarrow> string"
  Swig_symbol_string_qualify :: "string \<Rightarrow> string"

text \<open>
  A template argument that is the name of a constant or of an item of an enumeration is followed to its
  value. The loop ends when a lookup gives the same node again; it may go round in a longer cycle.
\<close>

fun argument_value :: "'sym symfuns \<Rightarrow> 'sym \<Rightarrow> nat \<Rightarrow> nat option \<Rightarrow> string \<Rightarrow> string res" where
  "argument_value sf y 0 prev v = Inl Hang"
| "argument_value sf y (Suc k) prev v =
     (case Swig_symbol_clookup sf v (Some y) of
        None \<Rightarrow> Inr v
      | Some n \<Rightarrow>
          if prev = Some (sn_id n) then Inr v
          else if sn_attr n ''nodeType'' = Some ''enumitem'' then
            (if sn_qualified n = [] then Inr v
             else argument_value sf y k (Some (sn_id n))
                    (sn_qualified n @ ''::'' @ (case sn_attr n ''name'' of None \<Rightarrow> [] | Some x \<Rightarrow> x)))
          else if sn_attr n ''nodeType'' = Some ''cdecl'' then
            (case sn_attr n ''value'' of None \<Rightarrow> Inr v | Some x \<Rightarrow> argument_value sf y k (Some (sn_id n)) x)
          else Inr v)"

type_synonym 'sym qualifier = "string \<Rightarrow> 'sym typesys \<Rightarrow> (string \<times> 'sym typesys) res"

fun qualify_list :: "'sym qualifier \<Rightarrow> (string \<Rightarrow> string \<Rightarrow> 'sym typesys \<Rightarrow> string res) \<Rightarrow> string list \<Rightarrow> 'sym typesys \<Rightarrow>
    (string list \<times> 'sym typesys) res" where
  "qualify_list qual g [] st = Inr ([], st)"
| "qualify_list qual g (p # ps) st =
     rbind (qual p st) (\<lambda>(q, st1).
     rbind (g p q st1) (\<lambda>q1.
     rbind (qualify_list qual g ps st1) (\<lambda>(l, st2). Inr (q1 # l, st2))))"

text \<open>A bare name may be the one of a scope around.\<close>

fun scope_around :: "'sym typesys \<Rightarrow> nat list \<Rightarrow> string \<Rightarrow> string" where
  "scope_around st [] e = e"
| "scope_around st (s # ss) e =
     (let n = SwigType_scope_name (tabs st) s;
          q = (if n = [] then e else n @ ''::'' @ e)
      in if scopes st q \<noteq> None then q else scope_around st ss e)"

definition qualify_name :: "'sym qualifier \<Rightarrow> string \<Rightarrow> 'sym typesys \<Rightarrow> (string \<times> 'sym typesys) res" where
  "qualify_name qual e st =
     (case typedef_resolve (current_scope st) e (st\<lparr>resolved_scope := None\<rparr>) of
        (Some ty, st1) \<Rightarrow> Inr (qualify (tabs st1) (the (resolved_scope st1)) e, st1)
      | (None, st1) \<Rightarrow>
          if Swig_scopename_check e then
            rbind (Swig_scopename_split e) (\<lambda>(pre, n).
              case pre of
                None \<Rightarrow> Inr (e, st1)
              | Some p \<Rightarrow> rbind (qual p st1) (\<lambda>(q, st2). Inr (q @ ''::'' @ n, st2)))
          else Inr (scope_around st1 (up_chain (tabs st1) (current_scope st1)) e, st1))"

definition qualify_template :: "'sym symfuns \<Rightarrow> nat \<Rightarrow> 'sym qualifier \<Rightarrow> string \<Rightarrow> 'sym typesys \<Rightarrow> (string \<times> 'sym typesys) res"
  where
  "qualify_template sf k qual e0 st =
     (let e = Swig_symbol_template_deftype sf e0 (current_symtab st)
      in rbind (parm_list e) (\<lambda>ps.
         rbind (qual (SwigType_templateprefix e) st) (\<lambda>(q, st1).
         rbind (qualify_list qual (\<lambda>p r st2.
                  case current_symtab st2 of
                    Some y \<Rightarrow> if r = p then argument_value sf y k None p else Inr r
                  | None \<Rightarrow> Inr r) ps st1) (\<lambda>(l, st2).
           Inr (q @ ''<('' @ comma_list l @ '')>'' @ SwigType_templatesuffix e, st2)))))"

definition qualify_element :: "'sym symfuns \<Rightarrow> nat \<Rightarrow> 'sym qualifier \<Rightarrow> string \<Rightarrow> 'sym typesys \<Rightarrow> (string \<times> 'sym typesys) res"
  where
  "qualify_element sf k qual e st =
     (if SwigType_issimple e then
        rbind (if SwigType_istemplate e then qualify_template sf k qual e st
               else if SwigType_isenum e
               then rbind (qualify_name qual (drop 5 e) st) (\<lambda>(x, st1). Inr (''enum '' @ x, st1))
               else qualify_name qual e st)
          (\<lambda>(x, st1). Inr (if starts_with ''::'' x then drop 2 x else x, st1))
      else if SwigType_isfunction e then
        rbind (parm_list e) (\<lambda>ps.
        rbind (qualify_list qual (\<lambda>p r st1. Inr r) ps st) (\<lambda>(l, st1). Inr (''f('' @ comma_list l @ '').'', st1)))
      else if SwigType_isarray e then
        (case SwigType_parm e of
           None \<Rightarrow> Inl Undefined
         | Some d \<Rightarrow> Inr (''a('' @ Swig_symbol_string_qualify sf d @ '').'', st))
      else Inr (e, st))"

fun qualify_elements :: "('sym qualifier) \<Rightarrow> string list \<Rightarrow> 'sym typesys \<Rightarrow> (string \<times> 'sym typesys) res" where
  "qualify_elements qe [] st = Inr ([], st)"
| "qualify_elements qe (e # es) st =
     rbind (qe e st) (\<lambda>(x, st1). rbind (qualify_elements qe es st1) (\<lambda>(y, st2). Inr (x @ y, st2)))"

fun SwigType_typedef_qualified :: "'sym symfuns \<Rightarrow> nat \<Rightarrow> 'sym qualifier" where
  "SwigType_typedef_qualified sf 0 t st = Inl Hang"
| "SwigType_typedef_qualified sf (Suc k) t st =
     (if starts_with ''::'' t then Inr (t, st)
      else case qualified_cache st t of
          Some r \<Rightarrow> Inr (r, st)
        | None \<Rightarrow>
            rbind (qualify_elements (qualify_element sf k (SwigType_typedef_qualified sf k)) (SwigType_split t) st) (\<lambda>(r, st1).
              Inr (r, st1\<lparr>qualified_cache := (qualified_cache st1)(t \<mapsto> r)\<rparr>)))"

section \<open>Kinds of types\<close>

definition strip_quals :: "string \<Rightarrow> 'sym typesys \<Rightarrow> string \<times> 'sym typesys" where
  "strip_quals t st = (case SwigType_strip_qualifiers (strip_memo st) t of (r, m) \<Rightarrow> (r, st\<lparr>strip_memo := m\<rparr>))"

text \<open>
  A class is a name that is found in a scope, whatever it stands for. The variable \<open>resolved_scope\<close> is the one
  the last resolution has left.
\<close>

fun SwigType_isclass :: "nat \<Rightarrow> string \<Rightarrow> 'sym typesys \<Rightarrow> (bool \<times> 'sym typesys) res" where
  "SwigType_isclass 0 t st = Inl Hang"
| "SwigType_isclass (Suc k) t st =
     rbind (ts_resolve_all k t st) (\<lambda>(qty, st1).
       case strip_quals qty st1 of (q, st2) \<Rightarrow>
         if \<not> SwigType_issimple q then Inr (False, st2)
         else rbind (ts_resolve k q st2) (\<lambda>(td, st3).
           if resolved_scope st3 \<noteq> None then Inr (True, st3)
           else if SwigType_istemplate q \<and> SwigType_templateprefix q \<noteq> t then SwigType_isclass k (SwigType_templateprefix q) st3
           else Inr (False, st3)))"

definition basic_types :: "(string \<times> int) list" where
  "basic_types =
     [(''int'', 7), (''long'', 9), (''short'', 4), (''unsigned'', 8), (''unsigned short'', 5), (''unsigned long'', 10),
      (''unsigned int'', 8), (''char'', 29), (''signed char'', 2), (''unsigned char'', 3), (''float'', 20), (''double'', 21),
      (''long double'', 22)]"

definition complex_types :: "(string \<times> int) list" where
  "complex_types = [(''float complex'', 23), (''double complex'', 24), (''complex'', 24)]"

definition other_types :: "(string \<times> int) list" where
  "other_types = [(''void'', 32), (''bool'', 1), (''long long'', 11), (''unsigned long long'', 12)]"

fun SwigType_type :: "bool \<Rightarrow> nat \<Rightarrow> string \<Rightarrow> 'sym typesys \<Rightarrow> (int \<times> 'sym typesys) res" where
  "SwigType_type cplusplus 0 t st = Inl Hang"
| "SwigType_type cplusplus (Suc k) t st =
     (if starts_with ''p.'' t then rbind (SwigType_type cplusplus k (drop 2 t) st) (\<lambda>(r, st1). Inr (if r = 29 then 33 else 34, st1))
      else if starts_with ''a('' t then Inr (36, st)
      else if starts_with ''r.'' t then Inr (35, st)
      else if starts_with ''m('' t then Inr (38, st)
      else if starts_with ''q('' t then
        (case dropWhile (\<lambda>c. c \<noteq> CHR ''.'') t of [] \<Rightarrow> Inr (99, st) | c # r \<Rightarrow> SwigType_type cplusplus k r st)
      else if starts_with ''f('' t then Inr (37, st)
      else case map_of (basic_types @ (if cplusplus then [] else complex_types) @ other_types) t of
          Some c \<Rightarrow> Inr (c, st)
        | None \<Rightarrow>
            if starts_with ''enum '' t then Inr (7, st)
            else if t = ''v(...)'' then Inr (39, st)
            else rbind (SwigType_istypedef k t st) (\<lambda>(b, st1).
              if b then rbind (ts_resolve k t st1) (\<lambda>(r, st2).
                case r of None \<Rightarrow> Inl Undefined | Some x \<Rightarrow> SwigType_type cplusplus k x st2)
              else Inr (31, st1)))"

definition GetFlag :: "symnode \<Rightarrow> string \<Rightarrow> bool" where
  "GetFlag n a = (case sn_attr n a of None \<Rightarrow> False | Some v \<Rightarrow> v \<noteq> ''0'')"

definition value_wrapper :: "string \<Rightarrow> string" where
  "value_wrapper td = ''SwigValueWrapper< '' @ td @ '' >''"

text \<open>\<open>allocate:default_constructor\<close> and \<open>allocate:noassign\<close> are set by the pass over classes.\<close>

definition SwigType_alttype :: "'sym symfuns \<Rightarrow> bool \<Rightarrow> nat \<Rightarrow> string \<Rightarrow> bool \<Rightarrow> 'sym typesys \<Rightarrow> (string option \<times> 'sym typesys) res" where
  "SwigType_alttype sf cplusplus k t local_tmap st =
     (let wrap = (\<lambda>b td st1. Inr (if b then Some (value_wrapper td) else None, st1));
          is_class = (\<lambda>n. sn_attr n ''nodeType'' = Some ''class'')
      in if \<not> cplusplus then Inr (None, st)
         else if value_wrapper_mode st = 0 then
           (if local_tmap then Inr (None, st)
            else rbind (SwigType_isclass k t st) (\<lambda>(c, st1).
              if \<not> c then Inr (None, st1)
              else rbind (ts_resolve_all k t st1) (\<lambda>(ftd, st2).
                case strip_quals ftd st2 of (td, st3) \<Rightarrow>
                  wrap (case Swig_symbol_clookup sf td None of
                          Some n \<Rightarrow>
                            GetFlag n ''feature:valuewrapper'' \<or>
                            is_class n \<and>
                              (sn_attr n ''allocate:default_constructor'' = None \<or> sn_attr n ''allocate:noassign'' \<noteq> None) \<and>
                              (\<not> GetFlag n ''feature:novaluewrapper'' \<or> GetFlag n ''feature:nodefault'')
                        | None \<Rightarrow> SwigType_issimple td \<and> SwigType_istemplate td) td st3)))
         else rbind (ts_resolve_all k t st) (\<lambda>(ftd, st1).
           case strip_quals ftd st1 of (td, st2) \<Rightarrow>
             rbind (SwigType_type cplusplus k td st2) (\<lambda>(c, st3).
               wrap (c = 31 \<and>
                     (case Swig_symbol_clookup sf td None of
                        Some n \<Rightarrow>
                          if is_class n \<and> sn_attr n ''allocate:noassign'' = None \<and>
                               sn_attr n ''allocate:default_constructor'' \<noteq> None \<or>
                             GetFlag n ''feature:novaluewrapper''
                          then GetFlag n ''feature:valuewrapper'' else True
                      | None \<Rightarrow> True)) td st3)))"

end
