(* ===== verification/TypeEquiv.thy ===== *)
theory TypeEquiv
  imports TypeResolve "HOL-Library.AList"
begin

text \<open>
  The types that wrappers use: the second half of Source/Swig/typesys.c. Two hash tables relate the mangled
  names of types and the resolved types they stand for; two mangled names are equivalent when they are
  connected in this graph. Then inheritance between classes.
\<close>

section \<open>State\<close>

text \<open>
  Of the inner tables of \<open>r_mangled\<close> and \<open>r_resolved\<close> the keys matter, and of \<open>r_mangled\<close> nothing else; those of
  \<open>r_resolved\<close> map a mangled name to the type it was entered for. The keys come in the order of the entries here; in the
  program it is that of the hash table.
\<close>

record typetable =
  r_mangled :: "string \<Rightarrow> string list option"
  r_resolved :: "string \<Rightarrow> (string \<times> string) list option"
  r_ltype :: "string \<Rightarrow> string list option"
  r_clientdata :: "string \<Rightarrow> string option"
  r_mangleddata :: "string \<Rightarrow> string option"
  r_remembered :: "string \<Rightarrow> string option"
  subclasses :: "string \<Rightarrow> (string \<Rightarrow> (string option \<times> string option) option) option"

definition empty_table :: typetable where
  "empty_table =
     \<lparr>r_mangled = (\<lambda>_. None), r_resolved = (\<lambda>_. None), r_ltype = (\<lambda>_. None), r_clientdata = (\<lambda>_. None),
      r_mangleddata = (\<lambda>_. None), r_remembered = (\<lambda>_. None), subclasses = (\<lambda>_. None)\<rparr>"

definition keys_of :: "'a list option \<Rightarrow> 'a list" where
  "keys_of l = (case l of None \<Rightarrow> [] | Some x \<Rightarrow> x)"

definition add_key :: "'a \<Rightarrow> 'a list option \<Rightarrow> 'a list option" where
  "add_key x l = Some (if x \<in> set (keys_of l) then keys_of l else keys_of l @ [x])"

section \<open>Remembering types\<close>

text \<open>
  The names of a type: its mangled name, its local type, and its resolved and qualified form without
  qualifiers. They come from functions of stype.c and of \<open>TypeResolve\<close>, and are an argument here.
\<close>

type_synonym namer = "string \<Rightarrow> (string \<times> string \<times> string) res"

definition SwigType_remember_mangleddata :: "string \<Rightarrow> string \<Rightarrow> typetable \<Rightarrow> typetable" where
  "SwigType_remember_mangleddata m d tt = tt\<lparr>r_mangleddata := (r_mangleddata tt)(m \<mapsto> d)\<rparr>"

definition enter_names :: "string \<Rightarrow> string \<Rightarrow> string \<Rightarrow> typetable \<Rightarrow> typetable" where
  "enter_names m l f tt =
     tt\<lparr>r_ltype := (r_ltype tt)(m := add_key l (r_ltype tt m)),
        r_mangled := (r_mangled tt)(m := add_key f (r_mangled tt m)),
        r_resolved := (r_resolved tt)(f := Some (AList.update m f (keys_of (r_resolved tt f))))\<rparr>"

definition bad_template :: "string \<Rightarrow> bool" where
  "bad_template t \<longleftrightarrow> CHR ''<'' \<in> set t \<and> strstr t ''<('' = None"

definition enter_clientdata :: "string \<Rightarrow> string option \<Rightarrow> typetable \<Rightarrow> typetable res" where
  "enter_clientdata f d tt =
     (case d of
        None \<Rightarrow> Inr tt
      | Some x \<Rightarrow>
          (case r_clientdata tt f of
             None \<Rightarrow> Inr (tt\<lparr>r_clientdata := (r_clientdata tt)(f \<mapsto> x)\<rparr>)
           | Some y \<Rightarrow> if x = y then Inr tt else Inl Assertion))"

text \<open>
  A type that was last remembered with the same data is left as it is. Without data it is always entered again, since \<open>Cmp\<close> of
  an object with a null pointer is not 0.
\<close>

definition known :: "string \<Rightarrow> string option \<Rightarrow> typetable \<Rightarrow> bool" where
  "known t d tt \<longleftrightarrow> d \<noteq> None \<and> r_remembered tt t = d"

definition remember_one :: "namer \<Rightarrow> string \<Rightarrow> string option \<Rightarrow> typetable \<Rightarrow> typetable res" where
  "remember_one names t d tt =
     (let tt1 = tt\<lparr>r_remembered := (r_remembered tt)(t \<mapsto> (case d of None \<Rightarrow> [] | Some x \<Rightarrow> x))\<rparr>
      in rbind (names t) (\<lambda>(m, l, f).
         if bad_template t then Inl Assertion else enter_clientdata f d (enter_names m l f tt1)))"

text \<open>A reference is also remembered as a pointer, which is no reference.\<close>

definition as_pointer :: "string \<Rightarrow> string res" where
  "as_pointer t = rbind (SwigType_del_reference t) (\<lambda>u. Inr (SwigType_add_pointer u))"

definition SwigType_remember_clientdata :: "namer \<Rightarrow> string \<Rightarrow> string option \<Rightarrow> typetable \<Rightarrow> typetable res" where
  "SwigType_remember_clientdata names t d tt =
     (if known t d tt then Inr tt
      else rbind (remember_one names t d tt) (\<lambda>tt1.
        if SwigType_isreference t
        then rbind (as_pointer t) (\<lambda>p. if known p d tt1 then Inr tt1 else remember_one names p d tt1)
        else Inr tt1))"

definition SwigType_remember :: "namer \<Rightarrow> string \<Rightarrow> typetable \<Rightarrow> typetable res" where
  "SwigType_remember names t = SwigType_remember_clientdata names t None"

section \<open>Equivalent names\<close>

text \<open>
  The search: \<open>checked\<close> holds mangled names and types together, \<open>found\<close> the mangled names. The depth of the
  calls is bounded; \<open>equivalent_names\<close> below says how much is enough.
\<close>

definition put :: "'a \<Rightarrow> 'a list \<Rightarrow> 'a list" where
  "put x l = (if x \<in> set l then l else l @ [x])"

function (sequential) equiv_visit :: "typetable \<Rightarrow> nat \<Rightarrow> string \<Rightarrow> string list \<times> string list \<Rightarrow> (string list \<times> string list) res"
  and equiv_types :: "typetable \<Rightarrow> nat \<Rightarrow> string list \<Rightarrow> string list \<times> string list \<Rightarrow> (string list \<times> string list) res"
  and equiv_names :: "typetable \<Rightarrow> nat \<Rightarrow> string list \<Rightarrow> string list \<times> string list \<Rightarrow> (string list \<times> string list) res" where
  "equiv_visit tt 0 m s = Inl Hang"
| "equiv_visit tt (Suc k) m (checked, found) =
     (if m \<in> set checked then Inr (checked, found)
      else equiv_types tt k (keys_of (r_mangled tt m)) (put m checked, put m found))"
| "equiv_types tt k [] s = Inr s"
| "equiv_types tt k (f # fs) (checked, found) =
     (if f \<in> set checked then equiv_types tt k fs (checked, found)
      else rbind (equiv_names tt k (map fst (keys_of (r_resolved tt f))) (put f checked, found)) (equiv_types tt k fs))"
| "equiv_names tt k [] s = Inr s"
| "equiv_names tt k (n # ns) (checked, found) =
     rbind (equiv_visit tt k n (checked, put n found)) (equiv_names tt k ns)"
  by pat_completeness auto
termination
  by (relation "measures [\<lambda>x. case x of Inl (tt, k, m, s) \<Rightarrow> k | Inr (Inl (tt, k, fs, s)) \<Rightarrow> k | Inr (Inr (tt, k, ns, s)) \<Rightarrow> k,
      \<lambda>x. case x of Inl _ \<Rightarrow> 0 | Inr (Inl _) \<Rightarrow> 2 | Inr (Inr _) \<Rightarrow> 1,
      \<lambda>x. case x of Inl _ \<Rightarrow> 0 | Inr (Inl (tt, k, fs, s)) \<Rightarrow> length fs | Inr (Inr (tt, k, ns, s)) \<Rightarrow> length ns]") simp_all

definition SwigType_equivalent_mangle :: "typetable \<Rightarrow> nat \<Rightarrow> string \<Rightarrow> string list res" where
  "SwigType_equivalent_mangle tt k m = rbind (equiv_visit tt k m ([], [])) (\<lambda>(checked, found). Inr found)"

text \<open>The client data of a mangled name: its own, or that of the first type which has any.\<close>

definition SwigType_clientdata_collect :: "typetable \<Rightarrow> string \<Rightarrow> string option" where
  "SwigType_clientdata_collect tt m =
     (case r_mangleddata tt m of
        Some d \<Rightarrow> Some d
      | None \<Rightarrow> (case filter (\<lambda>f. r_clientdata tt f \<noteq> None) (keys_of (r_mangled tt m)) of [] \<Rightarrow> None | f # _ \<Rightarrow> r_clientdata tt f))"

section \<open>Inheritance\<close>

text \<open>Of templates the resolved and qualified form is recorded; the function that gives it is an argument.\<close>

definition class_name :: "(string \<Rightarrow> string res) \<Rightarrow> string \<Rightarrow> string res" where
  "class_name resolved c = (if SwigType_istemplate c then resolved c else Inr c)"

definition SwigType_inherit ::
  "(string \<Rightarrow> string res) \<Rightarrow> string \<Rightarrow> string \<Rightarrow> string option \<Rightarrow> string option \<Rightarrow> typetable \<Rightarrow> typetable res" where
  "SwigType_inherit resolved derived base cast code tt =
     rbind (class_name resolved derived) (\<lambda>d.
     rbind (class_name resolved base) (\<lambda>b.
       let h = (case subclasses tt b of None \<Rightarrow> (\<lambda>_. None) | Some x \<Rightarrow> x)
       in Inr (tt\<lparr>subclasses := (subclasses tt)(b \<mapsto> (if h d = None then h(d \<mapsto> (cast, code)) else h))\<rparr>)))"

definition SwigType_issubtype :: "(string \<Rightarrow> string) \<Rightarrow> string \<Rightarrow> string \<Rightarrow> typetable \<Rightarrow> bool" where
  "SwigType_issubtype resolve_all t1 t2 tt =
     (case subclasses tt (SwigType_base (resolve_all t2)) of
        None \<Rightarrow> False
      | Some h \<Rightarrow> h (SwigType_base (resolve_all t1)) \<noteq> None)"

end
