(* ===== verification/TypeTableSpec.thy ===== *)
theory TypeTableSpec
  imports TypeEquiv
begin

text \<open>
  The search for equivalent names: it visits the component of the graph, and the graph is the one of the types
  that were remembered.
\<close>

section \<open>The search\<close>

definition types_of :: "typetable \<Rightarrow> string \<Rightarrow> string set" where
  "types_of tt m = set (keys_of (r_mangled tt m))"

definition names_of :: "typetable \<Rightarrow> string \<Rightarrow> string set" where
  "names_of tt f = fst ` set (keys_of (r_resolved tt f))"

definition edges :: "typetable \<Rightarrow> (string \<times> string) set" where
  "edges tt = {(m, n). \<exists>f \<in> types_of tt m. n \<in> names_of tt f}"

definition reach :: "typetable \<Rightarrow> string \<Rightarrow> string set" where
  "reach tt m = {n. (m, n) \<in> (edges tt)\<^sup>*}"

text \<open>\<open>N\<close> are the mangled names; no type is one of them.\<close>

definition graph_ok :: "typetable \<Rightarrow> string set \<Rightarrow> bool" where
  "graph_ok tt N \<longleftrightarrow> (\<forall>n \<in> N. \<forall>f \<in> types_of tt n. f \<notin> N \<and> names_of tt f \<subseteq> N)"

text \<open>What is newly checked has its neighbours checked.\<close>

definition finished :: "typetable \<Rightarrow> string set \<Rightarrow> string list \<Rightarrow> string list \<Rightarrow> bool" where
  "finished tt N C C' \<longleftrightarrow> set C \<subseteq> set C' \<and>
     (\<forall>x \<in> set C' - set C. (x \<in> N \<longrightarrow> types_of tt x \<subseteq> set C') \<and> (x \<notin> N \<longrightarrow> names_of tt x \<subseteq> set C'))"

lemma finished_refl: "finished tt N C C"
  by (simp add: finished_def)

lemma finished_trans: "finished tt N C C1 \<Longrightarrow> finished tt N C1 C2 \<Longrightarrow> finished tt N C C2"
  unfolding finished_def by (meson DiffI DiffD1 DiffD2 subset_trans subsetD)

lemma set_put [simp]: "set (put x l) = insert x (set l)"
  by (auto simp: put_def)

lemma distinct_put: "distinct l \<Longrightarrow> distinct (put x l)"
  by (simp add: put_def)

lemma finished_name:
  "finished tt N (put m C) C' \<Longrightarrow> m \<in> N \<Longrightarrow> types_of tt m \<subseteq> set C' \<Longrightarrow> finished tt N C C'"
  by (auto simp: finished_def)

lemma finished_type:
  "finished tt N (put f C) C' \<Longrightarrow> f \<notin> N \<Longrightarrow> names_of tt f \<subseteq> set C' \<Longrightarrow> finished tt N C C'"
  by (auto simp: finished_def)

text \<open>The names that are newly checked are found.\<close>

definition collects :: "string set \<Rightarrow> string list \<Rightarrow> string list \<Rightarrow> string list \<Rightarrow> string list \<Rightarrow> string set \<Rightarrow> bool" where
  "collects N C F C' F' R \<longleftrightarrow> set F \<subseteq> set F' \<and> set F' \<subseteq> set F \<union> R \<and> (set C' - set C) \<inter> N \<subseteq> set F' \<and>
     (distinct F \<longrightarrow> distinct F')"

lemma collects_trans:
  "collects N C F C1 F1 R1 \<Longrightarrow> collects N C1 F1 C2 F2 R2 \<Longrightarrow> collects N C F C2 F2 (R1 \<union> R2)"
  unfolding collects_def by blast

lemma collects_mono: "collects N C F C' F' R \<Longrightarrow> R \<subseteq> R' \<Longrightarrow> collects N C F C' F' R'"
  unfolding collects_def by blast

lemma collects_name:
  "collects N (put m C) (put m F) C' F' R \<Longrightarrow> R \<subseteq> R' \<Longrightarrow> m \<in> R' \<Longrightarrow> collects N C F C' F' R'"
  using distinct_put [of F m] by (simp add: collects_def) blast

lemma reach_step: "f \<in> types_of tt m \<Longrightarrow> n \<in> names_of tt f \<Longrightarrow> reach tt n \<subseteq> reach tt m"
  by (auto simp: reach_def edges_def intro: converse_rtrancl_into_rtrancl)

lemma reach_refl: "m \<in> reach tt m"
  by (simp add: reach_def)

lemma equiv_correct:
  "\<lbrakk>equiv_visit tt k m s = Inr s'; m \<in> N; graph_ok tt N\<rbrakk> \<Longrightarrow>
   m \<in> set (fst s') \<and> finished tt N (fst s) (fst s') \<and> collects N (fst s) (snd s) (fst s') (snd s') (reach tt m)"
  "\<lbrakk>equiv_types tt k fs s = Inr s'; set fs \<inter> N = {}; \<forall>f \<in> set fs. names_of tt f \<subseteq> N; graph_ok tt N\<rbrakk> \<Longrightarrow>
   set fs \<subseteq> set (fst s') \<and> finished tt N (fst s) (fst s') \<and>
   collects N (fst s) (snd s) (fst s') (snd s') (\<Union>f \<in> set fs. \<Union>n \<in> names_of tt f. reach tt n)"
  "\<lbrakk>equiv_names tt k ns s = Inr s'; set ns \<subseteq> N; graph_ok tt N\<rbrakk> \<Longrightarrow>
   set ns \<subseteq> set (fst s') \<and> finished tt N (fst s) (fst s') \<and>
   collects N (fst s) (snd s) (fst s') (snd s') (\<Union>n \<in> set ns. reach tt n)"
proof (induction tt k m s and tt k fs s and tt k ns s arbitrary: s' and s' and s' rule: equiv_visit_equiv_types_equiv_names.induct)
  case (1 tt m s)
  then show ?case by simp
next
  case (2 tt k m C F)
  show ?case
  proof (cases "m \<in> set C")
    case True
    then show ?thesis using 2(2) by (auto simp: finished_refl collects_def)
  next
    case False
    have g: "set (keys_of (r_mangled tt m)) \<inter> N = {}" "\<forall>f \<in> set (keys_of (r_mangled tt m)). names_of tt f \<subseteq> N"
      using 2(3,4) by (auto simp: graph_ok_def types_of_def)
    from 2(1) [OF False _ g 2(4)] 2(2) False
    have h: "types_of tt m \<subseteq> set (fst s')" "finished tt N (put m C) (fst s')"
      "collects N (put m C) (put m F) (fst s') (snd s') (\<Union>f \<in> types_of tt m. \<Union>n \<in> names_of tt f. reach tt n)"
      by (simp_all add: types_of_def)
    have "(\<Union>f \<in> types_of tt m. \<Union>n \<in> names_of tt f. reach tt n) \<subseteq> reach tt m"
      using reach_step by blast
    then have "collects N C F (fst s') (snd s') (reach tt m)"
      using collects_name [OF h(3) _ reach_refl] by blast
    moreover have "m \<in> set (fst s')" using h(2) by (auto simp: finished_def)
    ultimately show ?thesis using finished_name [OF h(2) 2(3) h(1)] by simp
  qed
next
  case (3 tt k s)
  then show ?case by (simp add: finished_refl collects_def)
next
  case (4 tt k f fs C F)
  show ?case
  proof (cases "f \<in> set C")
    case True
    with 4(4) have "equiv_types tt k fs (C, F) = Inr s'" by simp
    then have h: "set fs \<subseteq> set (fst s')" "finished tt N C (fst s')"
        "collects N C F (fst s') (snd s') (\<Union>f \<in> set fs. \<Union>n \<in> names_of tt f. reach tt n)"
      using 4(1) [OF True, of s'] 4(5-7) by simp_all
    then show ?thesis using True by (auto simp: finished_def elim: collects_mono)
  next
    case False
    with 4(4) obtain s1 where s1: "equiv_names tt k (map fst (keys_of (r_resolved tt f))) (put f C, F) = Inr s1"
        "equiv_types tt k fs s1 = Inr s'" by auto
    have f: "f \<notin> N" "set (map fst (keys_of (r_resolved tt f))) = names_of tt f" "names_of tt f \<subseteq> N"
      using 4(5,6) by (auto simp: names_of_def)
    from 4(2) [OF False s1(1), unfolded f(2), OF f(3) 4(7)]
    have h: "names_of tt f \<subseteq> set (fst s1)" "finished tt N (put f C) (fst s1)"
      "collects N (put f C) F (fst s1) (snd s1) (\<Union>n \<in> names_of tt f. reach tt n)" by simp_all
    have i: "set fs \<subseteq> set (fst s')" "finished tt N (fst s1) (fst s')"
      "collects N (fst s1) (snd s1) (fst s') (snd s') (\<Union>f \<in> set fs. \<Union>n \<in> names_of tt f. reach tt n)"
      using 4(3) [OF False s1(2)] 4(5-7) by simp_all
    have "collects N C F (fst s1) (snd s1) (\<Union>n \<in> names_of tt f. reach tt n)"
      using h(3) f(1) by (auto simp: collects_def)
    from collects_trans [OF this i(3)] finished_trans [OF finished_type [OF h(2) f(1) h(1)] i(2)] i(1) h(2) i(2)
    show ?thesis by (auto simp: finished_def)
  qed
next
  case (5 tt k s)
  then show ?case by (simp add: finished_refl collects_def)
next
  case (6 tt k n ns C F)
  from 6(3) obtain s1 where s1: "equiv_visit tt k n (C, put n F) = Inr s1" "equiv_names tt k ns s1 = Inr s'" by auto
  have h: "n \<in> set (fst s1)" "finished tt N C (fst s1)" "collects N C (put n F) (fst s1) (snd s1) (reach tt n)"
    using 6(1) [OF s1(1)] 6(4,5) by simp_all
  have i: "set ns \<subseteq> set (fst s')" "finished tt N (fst s1) (fst s')"
      "collects N (fst s1) (snd s1) (fst s') (snd s') (\<Union>n \<in> set ns. reach tt n)"
    using 6(2) [OF s1(2)] 6(4,5) by simp_all
  have "collects N C F (fst s1) (snd s1) (reach tt n)"
    using h(3) reach_refl [of n tt] distinct_put [of F n] by (simp add: collects_def) blast
  from collects_trans [OF this i(3)] finished_trans [OF h(2) i(2)] i(1,2) h(1)
  show ?case by (auto simp: finished_def)
qed

text \<open>The depth of the calls is bounded by the number of names.\<close>

lemma equiv_visit_grows:
  "equiv_visit tt k m s = Inr s' \<Longrightarrow> set (fst s) \<subseteq> set (fst s')"
  "equiv_types tt k fs s = Inr s' \<Longrightarrow> set (fst s) \<subseteq> set (fst s')"
  "equiv_names tt k ns s = Inr s' \<Longrightarrow> set (fst s) \<subseteq> set (fst s')"
proof (induction tt k m s and tt k fs s and tt k ns s arbitrary: s' and s' and s' rule: equiv_visit_equiv_types_equiv_names.induct)
  case (2 tt k m C F)
  show ?case
  proof (cases "m \<in> set C")
    case False
    then show ?thesis using 2(1) [OF False, of s'] 2(2) by simp
  qed (use 2(2) in simp)
next
  case (4 tt k f fs C F)
  show ?case
  proof (cases "f \<in> set C")
    case True
    then show ?thesis using 4(1) [OF True, of s'] 4(4) by simp
  next
    case False
    then obtain s1 where s1: "equiv_names tt k (map fst (keys_of (r_resolved tt f))) (put f C, F) = Inr s1"
        "equiv_types tt k fs s1 = Inr s'" using 4(4) by auto
    then show ?thesis using 4(2) [OF False s1(1)] 4(3) [OF False s1(2)] by auto
  qed
next
  case (6 tt k n ns C F)
  from 6(3) obtain s1 where s1: "equiv_visit tt k n (C, put n F) = Inr s1" "equiv_names tt k ns s1 = Inr s'" by auto
  then show ?case using 6(1) [OF s1(1)] 6(2) [OF s1(2)] by simp
qed simp_all

lemma equiv_enough:
  "\<lbrakk>finite N; graph_ok tt N; m \<in> N; card (N - set (fst s)) < k\<rbrakk> \<Longrightarrow> \<exists>s'. equiv_visit tt k m s = Inr s'"
  "\<lbrakk>finite N; graph_ok tt N; \<forall>f \<in> set fs. names_of tt f \<subseteq> N; card (N - set (fst s)) < k\<rbrakk> \<Longrightarrow>
   \<exists>s'. equiv_types tt k fs s = Inr s'"
  "\<lbrakk>finite N; graph_ok tt N; set ns \<subseteq> N; card (N - set (fst s)) < k\<rbrakk> \<Longrightarrow> \<exists>s'. equiv_names tt k ns s = Inr s'"
proof (induction tt k m s and tt k fs s and tt k ns s rule: equiv_visit_equiv_types_equiv_names.induct)
  case (1 tt m s)
  then show ?case by simp
next
  case (2 tt k m C F)
  show ?case
  proof (cases "m \<in> set C")
    case False
    have "card (N - set C - {m}) < card (N - set C)"
      using 2(2,4) False by (intro card_Diff1_less) auto
    moreover have "N - set (put m C) = N - set C - {m}" by auto
    ultimately have "card (N - set (put m C)) < k" using 2(5) by simp
    moreover have "\<forall>f \<in> set (keys_of (r_mangled tt m)). names_of tt f \<subseteq> N"
      using 2(3,4) by (auto simp: graph_ok_def types_of_def)
    ultimately show ?thesis using 2(1) [OF False 2(2,3)] False by simp
  qed simp
next
  case (3 tt k s)
  then show ?case by simp
next
  case (4 tt k f fs C F)
  show ?case
  proof (cases "f \<in> set C")
    case True
    then show ?thesis using 4(1) [OF True 4(4,5)] 4(6,7) by simp
  next
    case False
    have c: "card (N - set (put f C)) < k"
      using 4(7) card_mono [of "N - set C" "N - set (put f C)"] 4(4) by fastforce
    have "set (map fst (keys_of (r_resolved tt f))) \<subseteq> N" using 4(6) by (auto simp: names_of_def)
    with 4(2) [OF False 4(4,5)] c
    obtain s1 where s1: "equiv_names tt k (map fst (keys_of (r_resolved tt f))) (put f C, F) = Inr s1" by auto
    have "set (put f C) \<subseteq> set (fst s1)" using equiv_visit_grows(3) [OF s1] by simp
    then have "card (N - set (fst s1)) < k"
      using c card_mono [of "N - set (put f C)" "N - set (fst s1)"] 4(4) by fastforce
    then show ?thesis using 4(3) [OF False 4(4,5), of s1] 4(6) s1 False by simp
  qed
next
  case (5 tt k s)
  then show ?case by simp
next
  case (6 tt k n ns C F)
  then obtain s1 where s1: "equiv_visit tt k n (C, put n F) = Inr s1" by auto
  have "set C \<subseteq> set (fst s1)" using equiv_visit_grows(1) [OF s1] by simp
  then have "card (N - set (fst s1)) < k"
    using 6(6) card_mono [of "N - set C" "N - set (fst s1)"] 6(3) by fastforce
  then show ?case using 6(2) [of s1] 6(3-5) s1 by simp
qed

lemma equivalent_mangle_reach:
  assumes "finite N" and "graph_ok tt N" and "m \<in> N" and "card N < k"
  shows "\<exists>l. SwigType_equivalent_mangle tt k m = Inr l \<and> distinct l \<and> set l = reach tt m"
proof -
  obtain C F where v: "equiv_visit tt k m ([], []) = Inr (C, F)"
    using equiv_enough(1) [OF assms(1-3), of "([], [])" k] assms(4) by auto
  from equiv_correct(1) [OF v assms(3,2)]
  have h: "m \<in> set C" "finished tt N [] C" "set F \<subseteq> reach tt m" "set C \<inter> N \<subseteq> set F" "distinct F"
    by (auto simp: collects_def)
  have "n \<in> set C \<and> n \<in> N" if "n \<in> reach tt m" for n
    using that unfolding reach_def mem_Collect_eq
  proof (induction rule: rtrancl_induct)
    case base
    then show ?case using h(1) assms(3) by simp
  next
    case (step x n)
    then obtain f where f: "f \<in> types_of tt x" "n \<in> names_of tt f" by (auto simp: edges_def)
    have "f \<in> set C" using step f(1) h(2) by (auto simp: finished_def)
    moreover have "f \<notin> N" "n \<in> N" using assms(2) step f by (auto simp: graph_ok_def)
    ultimately show ?case using h(2) f(2) by (auto simp: finished_def)
  qed
  then have "set F = reach tt m" using h(3,4) by blast
  then show ?thesis using v h(5) by (simp add: SwigType_equivalent_mangle_def)
qed

section \<open>The tables\<close>

definition remember_all :: "namer \<Rightarrow> (string \<times> string option) list \<Rightarrow> typetable \<Rightarrow> typetable res" where
  "remember_all names cs tt = fold (\<lambda>(t, d) r. rbind r (SwigType_remember_clientdata names t d)) cs (Inr tt)"

definition pointer_version :: "string \<Rightarrow> string list" where
  "pointer_version t = (if SwigType_isreference t then case as_pointer t of Inr p \<Rightarrow> [p] | Inl _ \<Rightarrow> [] else [])"

fun entered :: "(string \<times> string option) list \<Rightarrow> string list" where
  "entered [] = []"
| "entered ((t, d) # cs) = t # pointer_version t @ entered cs"

definition mangled :: "namer \<Rightarrow> string \<Rightarrow> string" where
  "mangled names t = (case names t of Inr (m, l, f) \<Rightarrow> m | Inl _ \<Rightarrow> [])"

definition resolved :: "namer \<Rightarrow> string \<Rightarrow> string" where
  "resolved names t = (case names t of Inr (m, l, f) \<Rightarrow> f | Inl _ \<Rightarrow> [])"

text \<open>The tables are those of the types in \<open>S\<close>.\<close>

definition tables_of :: "namer \<Rightarrow> string set \<Rightarrow> typetable \<Rightarrow> bool" where
  "tables_of names S tt \<longleftrightarrow>
     (\<forall>m. types_of tt m = {resolved names t | t. t \<in> S \<and> mangled names t = m}) \<and>
     (\<forall>f. names_of tt f = {mangled names t | t. t \<in> S \<and> resolved names t = f})"

definition remembers :: "string set \<Rightarrow> typetable \<Rightarrow> bool" where
  "remembers S tt \<longleftrightarrow> (\<forall>t d. r_remembered tt t = Some d \<longrightarrow>
     t \<in> S \<and> set (pointer_version t) \<subseteq> S)"

lemma enter_names_types:
  "types_of (enter_names m l f tt) n = (if n = m then insert f (types_of tt m) else types_of tt n)"
  by (auto simp: types_of_def enter_names_def add_key_def keys_of_def)

lemma update_keys: "fst ` set (AList.update m f l) = insert m (fst ` set l)"
  by (induction l) auto

lemma enter_names_names:
  "names_of (enter_names m l f tt) g = (if g = f then insert m (names_of tt f) else names_of tt g)"
  by (auto simp: names_of_def enter_names_def keys_of_def update_keys)

lemma enter_names_tables:
  assumes "tables_of names S tt" and "names t = Inr (m, l, f)"
  shows "tables_of names (insert t S) (enter_names m l f tt)"
proof -
  have "mangled names t = m" "resolved names t = f" using assms(2) by (simp_all add: mangled_def resolved_def)
  then show ?thesis
    using assms(1) unfolding tables_of_def enter_names_types enter_names_names by auto
qed

lemma tables_of_cong: "r_mangled tt = r_mangled tt' \<Longrightarrow> r_resolved tt = r_resolved tt' \<Longrightarrow> tables_of names S tt = tables_of names S tt'"
  by (simp add: tables_of_def types_of_def names_of_def)

lemma remember_one_tables:
  assumes "tables_of names S tt" and "remember_one names t d tt = Inr tt'"
  shows "tables_of names (insert t S) tt' \<and> (\<exists>x. r_remembered tt' = (r_remembered tt)(t \<mapsto> x))"
proof -
  obtain m l f where n: "names t = Inr (m, l, f)"
    using assms(2) by (auto simp: remember_one_def Let_def)
  define tt1 where "tt1 = tt\<lparr>r_remembered := (r_remembered tt)(t \<mapsto> (case d of None \<Rightarrow> [] | Some x \<Rightarrow> x))\<rparr>"
  have e: "enter_clientdata f d (enter_names m l f tt1) = Inr tt'"
    using assms(2) n by (auto simp: remember_one_def Let_def tt1_def split: if_splits)
  have "tables_of names S tt1" using assms(1) tables_of_cong [of tt tt1] by (simp add: tt1_def)
  then have "tables_of names (insert t S) (enter_names m l f tt1)" using n by (rule enter_names_tables)
  moreover have "r_mangled tt' = r_mangled (enter_names m l f tt1)" "r_resolved tt' = r_resolved (enter_names m l f tt1)"
      "r_remembered tt' = r_remembered tt1"
    using e by (auto simp: enter_clientdata_def enter_names_def split: option.splits if_splits)
  ultimately show ?thesis using tables_of_cong [of tt' "enter_names m l f tt1"] by (auto simp: tt1_def)
qed

lemma as_pointer_no_reference: "as_pointer t = Inr p \<Longrightarrow> \<not> SwigType_isreference p"
  by (auto simp: as_pointer_def SwigType_add_pointer_def SwigType_isreference_def starts_with_def)

lemma as_pointer_version: "as_pointer t = Inr p \<Longrightarrow> pointer_version p = []"
  by (simp add: pointer_version_def as_pointer_no_reference)

lemma remember_tables:
  assumes "tables_of names S tt" and "remembers S tt" and "SwigType_remember_clientdata names t d tt = Inr tt'"
  shows "tables_of names (S \<union> set (entered [(t, d)])) tt' \<and> remembers (S \<union> set (entered [(t, d)])) tt'"
proof (cases "known t d tt")
  case True
  then obtain x where x: "r_remembered tt t = Some x" by (auto simp: known_def)
  have "set (entered [(t, d)]) \<subseteq> S" using assms(2) x by (simp add: remembers_def)
  then have "S \<union> set (entered [(t, d)]) = S" by blast
  moreover have "tt' = tt" using True assms(3) by (simp add: SwigType_remember_clientdata_def)
  ultimately show ?thesis using assms(1,2) by simp
next
  case False
  then obtain tt1 where tt1: "remember_one names t d tt = Inr tt1"
    using assms(3) by (auto simp: SwigType_remember_clientdata_def)
  from remember_one_tables [OF assms(1) tt1] obtain x where
    h: "tables_of names (insert t S) tt1" "r_remembered tt1 = (r_remembered tt)(t \<mapsto> x)" by auto
  show ?thesis
  proof (cases "SwigType_isreference t")
    case False
    then have "tt' = tt1" using assms(3) tt1 \<open>\<not> known t d tt\<close> by (simp add: SwigType_remember_clientdata_def)
    moreover have "S \<union> set (entered [(t, d)]) = insert t S" "pointer_version t = []"
      using False by (simp_all add: pointer_version_def)
    moreover have "remembers (insert t S) tt1"
      using h(2) assms(2) calculation(3) unfolding remembers_def by (metis fun_upd_apply insert_iff insert_subset list.set(1) empty_subsetI subset_insertI2)
    ultimately show ?thesis using h(1) by simp
  next
    case True
    then obtain p where p: "as_pointer t = Inr p" "(if known p d tt1 then Inr tt1 else remember_one names p d tt1) = Inr tt'"
      using assms(3) tt1 \<open>\<not> known t d tt\<close> by (auto simp: SwigType_remember_clientdata_def)
    have np: "\<not> SwigType_isreference p" by (rule as_pointer_no_reference [OF p(1)])
    then have pt: "p \<noteq> t" using True by auto
    have v: "pointer_version t = [p]" "pointer_version p = []"
      using True p(1) as_pointer_version by (simp_all add: pointer_version_def)
    then have S: "S \<union> set (entered [(t, d)]) = insert p (insert t S)" by auto
    show ?thesis
    proof (cases "known p d tt1")
      case True
      then have "p \<in> S" using h(2) pt assms(2) by (auto simp: known_def remembers_def)
      then show ?thesis using True p(2) h assms(2) v unfolding S by (auto simp: remembers_def insert_absorb)
    next
      case False
      then have "remember_one names p d tt1 = Inr tt'" using p(2) by simp
      from remember_one_tables [OF h(1) this] obtain y where
        i: "tables_of names (insert p (insert t S)) tt'" "r_remembered tt' = (r_remembered tt1)(p \<mapsto> y)" by auto
      then show ?thesis using v h(2) assms(2) unfolding S by (auto simp: remembers_def)
    qed
  qed
qed

lemma remember_all_Cons:
  "remember_all names ((t, d) # cs) tt = rbind (SwigType_remember_clientdata names t d tt) (remember_all names cs)"
proof -
  have "fold (\<lambda>(t, d) r. rbind r (SwigType_remember_clientdata names t d)) cs (Inl e) = Inl e" for e :: fault
    by (induction cs) auto
  then show ?thesis by (cases "SwigType_remember_clientdata names t d tt") (simp_all add: remember_all_def)
qed

lemma entered_Cons: "set (entered ((t, d) # cs)) = set (entered [(t, d)]) \<union> set (entered cs)"
  by auto

lemma remember_all_tables:
  "\<lbrakk>tables_of names S tt; remembers S tt; remember_all names cs tt = Inr tt'\<rbrakk> \<Longrightarrow> tables_of names (S \<union> set (entered cs)) tt'"
proof (induction cs arbitrary: S tt)
  case Nil
  then show ?case by (simp add: remember_all_def)
next
  case (Cons c cs)
  obtain t d where c: "c = (t, d)" by fastforce
  obtain tt1 where "SwigType_remember_clientdata names t d tt = Inr tt1" "remember_all names cs tt1 = Inr tt'"
    using Cons(4) by (auto simp: c remember_all_Cons)
  then have "tables_of names (S \<union> set (entered [(t, d)]) \<union> set (entered cs)) tt'"
    using remember_tables [OF Cons(2,3)] Cons(1) by blast
  then show ?case unfolding c entered_Cons [of t d cs] by (simp only: Un_assoc)
qed

section \<open>Equivalence\<close>

text \<open>Two types are linked when they share a mangled name or what they resolve to.\<close>

definition linked :: "namer \<Rightarrow> string set \<Rightarrow> (string \<times> string) set" where
  "linked names S = {(t, u). t \<in> S \<and> u \<in> S \<and> (mangled names t = mangled names u \<or> resolved names t = resolved names u)}"

lemma reach_linked:
  assumes "tables_of names S tt" and "t \<in> S"
  shows "reach tt (mangled names t) = {mangled names u | u. (t, u) \<in> (linked names S)\<^sup>*}"
proof -
  have edges: "(m, n) \<in> edges tt \<longleftrightarrow> (\<exists>v \<in> S. \<exists>w \<in> S. mangled names v = m \<and> mangled names w = n \<and> resolved names v = resolved names w)" for m n
  proof -
    have "types_of tt m = {resolved names v | v. v \<in> S \<and> mangled names v = m}" for m
      using assms(1) by (simp add: tables_of_def)
    moreover have "names_of tt f = {mangled names v | v. v \<in> S \<and> resolved names v = f}" for f
      using assms(1) by (simp add: tables_of_def)
    ultimately show ?thesis unfolding edges_def by simp metis
  qed
  show ?thesis
  proof safe
    fix n assume "n \<in> reach tt (mangled names t)"
    then show "\<exists>u. n = mangled names u \<and> (t, u) \<in> (linked names S)\<^sup>*"
      unfolding reach_def mem_Collect_eq
    proof (induction rule: rtrancl_induct)
      case base
      then show ?case by blast
    next
      case (step m n)
      then obtain u v w where u: "m = mangled names u" "(t, u) \<in> (linked names S)\<^sup>*" "v \<in> S" "w \<in> S"
          "mangled names v = m" "mangled names w = n" "resolved names v = resolved names w"
        by (auto simp: edges)
      have "u \<in> S" using u(2) assms(2) by (induction rule: rtrancl_induct) (auto simp: linked_def)
      then have "(u, v) \<in> linked names S" "(v, w) \<in> linked names S" using u by (auto simp: linked_def)
      with u(2) have "(t, w) \<in> (linked names S)\<^sup>*" by (blast intro: rtrancl_into_rtrancl)
      then show ?case using u(6) by blast
    qed
  next
    fix u assume "(t, u) \<in> (linked names S)\<^sup>*"
    then show "mangled names u \<in> reach tt (mangled names t)"
    proof (induction rule: rtrancl_induct)
      case base
      then show ?case by (rule reach_refl)
    next
      case (step u v)
      then have "mangled names u = mangled names v \<or> (mangled names u, mangled names v) \<in> edges tt"
        by (auto simp: edges linked_def)
      then show ?case using step(3) by (auto simp: reach_def intro: rtrancl_into_rtrancl)
    qed
  qed
qed

lemma equivalent_mangle_linked:
  assumes "remember_all names cs empty_table = Inr tt"
    and "mangled names ` set (entered cs) \<inter> resolved names ` set (entered cs) = {}"
    and "length (entered cs) < k" and "t \<in> set (entered cs)"
  shows "\<exists>l. SwigType_equivalent_mangle tt k (mangled names t) = Inr l \<and> distinct l \<and>
    set l = {mangled names u | u. (t, u) \<in> (linked names (set (entered cs)))\<^sup>*}"
proof -
  let ?S = "set (entered cs)"
  have "tables_of names {} empty_table" "remembers {} empty_table"
    by (simp_all add: tables_of_def types_of_def names_of_def empty_table_def keys_of_def remembers_def)
  from remember_all_tables [OF this assms(1)] have tt: "tables_of names ?S tt" by simp
  let ?N = "mangled names ` ?S"
  have "graph_ok tt ?N" using tt assms(2) by (auto simp: graph_ok_def tables_of_def)
  moreover have "card ?N < k" using assms(3) card_image_le [of ?S "mangled names"] card_length [of "entered cs"] by simp
  ultimately show ?thesis
    using equivalent_mangle_reach [of ?N tt "mangled names t" k] assms(4) reach_linked [OF tt assms(4)] by auto
qed

text \<open>
  C37. After any types have been remembered, the equivalent names of a mangled name are found by a search of bounded depth, each
  once, and they are the mangled names of the types that are linked to its type through shared mangled names
  and shared resolved types, if no mangled name is also the text of a resolved type.
\<close>

theorem equivalent_mangle_classes:
  assumes "remember_all names cs empty_table = Inr tt"
    and "mangled names ` set (entered cs) \<inter> resolved names ` set (entered cs) = {}"
    and "length (entered cs) < k" and "t \<in> set (entered cs)"
  shows "\<exists>l. SwigType_equivalent_mangle tt k (mangled names t) = Inr l \<and> distinct l \<and>
    set l = {mangled names u | u. (t, u) \<in> (linked names (set (entered cs)))\<^sup>*}"
  by (rule equivalent_mangle_linked [OF assms])

text \<open>The example of the comment in typesys.c: pointers to double under three names, and arrays under two.\<close>

definition comment_names :: namer where
  "comment_names t =
     (case map_of [(''p.double'', (''_p_double'', ''p.double'')), (''a(3).double'', (''_p_double'', ''a(3).double'')),
                   (''p.Real'', (''_p_Real'', ''p.double'')), (''p.Float'', (''_p_Float'', ''p.double'')),
                   (''Point'', (''_Point'', ''a(3).double''))] t of
        None \<Rightarrow> Inl Undefined
      | Some (m, f) \<Rightarrow> Inr (m, t, f))"

definition comment_calls :: "(string \<times> string option) list" where
  "comment_calls = [(''p.double'', None), (''p.Real'', None), (''a(3).double'', None), (''p.Float'', Some ''data''), (''Point'', None)]"

theorem equivalent_mangle_classes_witness:
  "\<exists>tt l. remember_all comment_names comment_calls empty_table = Inr tt \<and> SwigType_equivalent_mangle tt 6 ''_Point'' = Inr l \<and>
     distinct l \<and> set l = {mangled comment_names u | u. (''Point'', u) \<in> (linked comment_names (set (entered comment_calls)))\<^sup>*}"
proof -
  have "case remember_all comment_names comment_calls empty_table of Inr tt \<Rightarrow> True | Inl e \<Rightarrow> False" by code_simp
  then obtain tt where tt: "remember_all comment_names comment_calls empty_table = Inr tt" by (auto split: sum.splits)
  moreover have "mangled comment_names ` set (entered comment_calls) \<inter> resolved comment_names ` set (entered comment_calls) = {}"
    by code_simp
  moreover have "length (entered comment_calls) < 6" "''Point'' \<in> set (entered comment_calls)" by code_simp+
  moreover have "mangled comment_names ''Point'' = ''_Point''" by code_simp
  ultimately show ?thesis
    using equivalent_mangle_classes [of comment_names comment_calls tt 6 "''Point''"] by simp
qed

section \<open>The names of the program\<close>

text \<open>
  The names by the functions of stype.c, on one state of the type system; where a resolution fails the type is kept.
  The default mangling resolves typedefs first, so that, unlike in that comment, the pointers to \<open>double\<close> and to a typedef of
  it have one name.
\<close>

definition text_or :: "string \<Rightarrow> (string \<times> 'b) res \<Rightarrow> string" where
  "text_or d r = (case r of Inr (x, _) \<Rightarrow> x | Inl _ \<Rightarrow> d)"

definition type_names_of :: "'sym symfuns \<Rightarrow> nat \<Rightarrow> 'sym typesys \<Rightarrow> namer" where
  "type_names_of sf k st t =
     (let resolve = (\<lambda>x. case ts_resolve k x st of Inr (r, _) \<Rightarrow> r | Inl _ \<Rightarrow> None)
      in rbind (case SwigType_manglestr resolve (\<lambda>x. text_or x (SwigType_typedef_qualified sf k x st))
                       (\<lambda>x. text_or x (ts_resolve_all k x st)) (\<lambda>x. Swig_symbol_template_deftype sf x None) t of
                  None \<Rightarrow> Inl Hang | Some r \<Rightarrow> r) (\<lambda>m.
         rbind (SwigType_istypedef k t st) (\<lambda>(b, st1).
         rbind (if b then Inr t else case SwigType_ltype resolve t of None \<Rightarrow> Inl Hang | Some l \<Rightarrow> Inr l) (\<lambda>l.
         rbind (ts_resolve_all k t st1) (\<lambda>(f, st2).
         rbind (SwigType_typedef_qualified sf k f st2) (\<lambda>(q, st3). Inr (m, l, strip_elements q)))))))"

definition plain_symbols :: "'sym symfuns" where
  "plain_symbols = \<lparr>Swig_symbol_clookup = (\<lambda>_ _. None), Swig_symbol_template_deftype = (\<lambda>t _. t),
     Swig_symbol_string_qualify = (\<lambda>t. t)\<rparr>"

definition double_typedef :: "unit typesys" where
  "double_typedef = (case SwigType_typedef 9 ''double'' ''Real'' (SwigType_typesystem_init (static_typesys 0)) of
     Inr (_, st) \<Rightarrow> st | Inl _ \<Rightarrow> static_typesys 0)"

lemma mangled_typedef: "type_names_of plain_symbols 9 double_typedef ''p.Real'' = Inr (''_p_double'', ''p.Real'', ''p.double'')"
  by code_simp

end
