(* ===== verification/TypeScopeSpec.thy ===== *)
theory TypeScopeSpec
  imports TypeResolve
begin

text \<open>
  The search for a name against the relations between scopes: it finds a definition when there is one in a
  base, direct or not, of an enclosing scope, and it takes the innermost such scope. The scopes stay well formed,
  and what the caches do.
\<close>

section \<open>Scopes\<close>

definition bases :: "'sym typetab list \<Rightarrow> (nat \<times> nat) set" where
  "bases ts = {(s, i). s < length ts \<and> i \<in> set (tt_inherit (ts ! s))}"

definition parents :: "'sym typetab list \<Rightarrow> (nat \<times> nat) set" where
  "parents ts = {(s, p). s < length ts \<and> tt_parent (ts ! s) = Some p}"

text \<open>Bases and used scopes exist, and enclosing scopes are older.\<close>

definition tab_ok :: "nat \<Rightarrow> nat \<Rightarrow> 'sym typetab \<Rightarrow> bool" where
  "tab_ok n s b \<longleftrightarrow> set (tt_inherit b) \<subseteq> {..<n} \<and> set (tt_using b) \<subseteq> {..<n} \<and> (\<forall>p. tt_parent b = Some p \<longrightarrow> p < s)"

definition tabs_ok :: "'sym typetab list \<Rightarrow> bool" where
  "tabs_ok ts \<longleftrightarrow> (\<forall>s < length ts. tab_ok (length ts) s (ts ! s))"

text \<open>The names the bases of \<open>s\<close> define, and \<open>s\<close> itself.\<close>

definition undefined_from :: "'sym typetab list \<Rightarrow> string \<Rightarrow> nat \<Rightarrow> bool" where
  "undefined_from ts b s \<longleftrightarrow> (\<forall>c. (s, c) \<in> (bases ts)\<^sup>* \<longrightarrow> tt_types (ts ! c) b = None)"

section \<open>Bases\<close>

definition avoiding :: "'sym typetab list \<Rightarrow> nat set \<Rightarrow> (nat \<times> nat) set" where
  "avoiding ts M = {(s, i). (s, i) \<in> bases ts \<and> s \<notin> M \<and> i \<notin> M}"

lemma avoiding_stuck: "(s, c) \<in> (avoiding ts M)\<^sup>* \<Longrightarrow> s \<in> M \<Longrightarrow> c = s"
  by (erule converse_rtranclE) (auto simp: avoiding_def)

lemma avoiding_subset: "(s, c) \<in> (avoiding ts M)\<^sup>* \<Longrightarrow> (s, c) \<in> (bases ts)\<^sup>*"
  by (rule rtrancl_mono [THEN subsetD]) (auto simp: avoiding_def)

text \<open>A path leaves \<open>s\<close> for the last time.\<close>

lemma last_visit:
  "(x, c) \<in> (avoiding ts M)\<^sup>* \<Longrightarrow>
   (x, c) \<in> (avoiding ts (insert s M))\<^sup>* \<or> c = s \<or>
   (\<exists>i. (s, i) \<in> avoiding ts M \<and> i \<noteq> s \<and> (i, c) \<in> (avoiding ts (insert s M))\<^sup>*)"
proof (induction rule: converse_rtrancl_induct)
  case base
  then show ?case by simp
next
  case (step x y)
  consider (a) "(y, c) \<in> (avoiding ts (insert s M))\<^sup>*" | (b) "c = s \<or> (\<exists>i. (s, i) \<in> avoiding ts M \<and> i \<noteq> s \<and> (i, c) \<in> (avoiding ts (insert s M))\<^sup>*)"
    using step(3) by blast
  then show ?case
  proof cases
    case a
    show ?thesis
    proof (cases "y = s")
      case True
      then show ?thesis using avoiding_stuck [OF a] by simp
    next
      case False
      show ?thesis
      proof (cases "x = s")
        case True
        then show ?thesis using a step(1) False by blast
      next
        case False
        then have "(x, y) \<in> avoiding ts (insert s M)" using step(1) \<open>y \<noteq> s\<close> by (auto simp: avoiding_def)
        then show ?thesis using a by (blast intro: converse_rtrancl_into_rtrancl)
      qed
    qed
  qed blast
qed

text \<open>With the marks \<open>M\<close> the search sees what it can reach without them.\<close>

lemma lookup_avoiding:
  "\<lbrakk>tabs_ok ts; s < length ts; up = False\<rbrakk> \<Longrightarrow>
   (lookup ts M s b up = None \<longleftrightarrow>
     s \<in> set M \<or> (\<forall>c. (s, c) \<in> (avoiding ts (set M))\<^sup>* \<longrightarrow> tt_types (ts ! c) b = None)) \<and>
   (\<forall>t c. lookup ts M s b up = Some (t, c) \<longrightarrow> (s, c) \<in> (bases ts)\<^sup>* \<and> tt_types (ts ! c) b = Some t)"
  "\<lbrakk>tabs_ok ts; set is \<subseteq> {..<length ts}\<rbrakk> \<Longrightarrow>
   (lookup_bases ts M is b = None \<longleftrightarrow>
     (\<forall>i \<in> set is. i \<in> set M \<or> (\<forall>c. (i, c) \<in> (avoiding ts (set M))\<^sup>* \<longrightarrow> tt_types (ts ! c) b = None))) \<and>
   (\<forall>t c. lookup_bases ts M is b = Some (t, c) \<longrightarrow> (\<exists>i \<in> set is. (i, c) \<in> (bases ts)\<^sup>*) \<and> tt_types (ts ! c) b = Some t)"
proof (induction ts M s b up and ts M "is" b rule: lookup_lookup_bases.induct)
  case (1 ts M s b up)
  note lk = lookup.simps [of ts M s b up]
  show ?case
  proof (cases "s \<in> set M")
    case True
    then show ?thesis by (simp add: lk)
  next
    case fresh: False
    then have s: "\<not> (s \<in> set M \<or> length ts \<le> s)" using 1(4) by simp
    show ?thesis
    proof (cases "tt_types (ts ! s) b")
      case (Some t)
      then show ?thesis using s by (auto simp: lk)
    next
      case None
      have "set (tt_inherit (ts ! s)) \<subseteq> {..<length ts}" using 1(3,4) by (simp add: tabs_ok_def tab_ok_def)
      note IH = 1(1) [OF s None 1(3) this]
      have e: "lookup ts M s b up = lookup_bases ts (s # M) (tt_inherit (ts ! s)) b"
        unfolding lk using s None 1(5) by (simp split: option.split)
      have base: "(s, i) \<in> bases ts \<longleftrightarrow> i \<in> set (tt_inherit (ts ! s))" for i using 1(4) by (simp add: bases_def)
      have "(\<forall>i \<in> set (tt_inherit (ts ! s)). i \<in> set (s # M) \<or>
               (\<forall>c. (i, c) \<in> (avoiding ts (set (s # M)))\<^sup>* \<longrightarrow> tt_types (ts ! c) b = None)) \<longleftrightarrow>
            (\<forall>c. (s, c) \<in> (avoiding ts (set M))\<^sup>* \<longrightarrow> tt_types (ts ! c) b = None)" (is "?L \<longleftrightarrow> ?R")
      proof
        assume L: ?L
        show ?R
        proof (intro allI impI)
          fix c assume "(s, c) \<in> (avoiding ts (set M))\<^sup>*"
          from last_visit [OF this, of s]
          consider "c = s" | i where "(s, i) \<in> avoiding ts (set M)" "i \<noteq> s" "(i, c) \<in> (avoiding ts (insert s (set M)))\<^sup>*"
            using avoiding_stuck by blast
          then show "tt_types (ts ! c) b = None"
          proof cases
            case 1
            then show ?thesis using None by simp
          next
            case 2
            then have "i \<in> set (tt_inherit (ts ! s))" "i \<notin> set (s # M)" by (auto simp: avoiding_def base)
            then show ?thesis using L 2(3) by auto
          qed
        qed
      next
        assume R: ?R
        show ?L
        proof (intro ballI)
          fix i assume i: "i \<in> set (tt_inherit (ts ! s))"
          have "tt_types (ts ! c) b = None" if "i \<notin> set (s # M)" "(i, c) \<in> (avoiding ts (set (s # M)))\<^sup>*" for c
          proof -
            have "(i, c) \<in> (avoiding ts (set M))\<^sup>*"
              by (rule rtrancl_mono [THEN subsetD, OF _ that(2)]) (auto simp: avoiding_def)
            moreover have "(s, i) \<in> avoiding ts (set M)" using i that(1) fresh by (simp add: avoiding_def base)
            ultimately show ?thesis using R by (meson converse_rtrancl_into_rtrancl)
          qed
          then show "i \<in> set (s # M) \<or> (\<forall>c. (i, c) \<in> (avoiding ts (set (s # M)))\<^sup>* \<longrightarrow> tt_types (ts ! c) b = None)" by blast
        qed
      qed
      with conjunct1 [OF IH] have "lookup ts M s b up = None \<longleftrightarrow>
          (\<forall>c. (s, c) \<in> (avoiding ts (set M))\<^sup>* \<longrightarrow> tt_types (ts ! c) b = None)"
        unfolding e by (rule trans)
      moreover have "(s, c) \<in> (bases ts)\<^sup>* \<and> tt_types (ts ! c) b = Some t" if hit: "lookup ts M s b up = Some (t, c)" for t c
      proof -
        obtain i where "i \<in> set (tt_inherit (ts ! s))" "(i, c) \<in> (bases ts)\<^sup>*" "tt_types (ts ! c) b = Some t"
          using conjunct2 [OF IH] hit unfolding e by blast
        then show ?thesis using base by (blast intro: converse_rtrancl_into_rtrancl)
      qed
      ultimately show ?thesis using fresh by simp
    qed
  qed
next
  case (2 ts M b)
  then show ?case by simp
next
  case (3 ts M i "is" b)
  then have "i < length ts" "set is \<subseteq> {..<length ts}" by simp_all
  with 3(1) [OF 3(3) _ refl] 3(2) [OF _ 3(3)] show ?case by (cases "lookup ts M i b False") auto
qed

text \<open>The marks do no harm when nothing can be reached from them.\<close>

lemma lookup_marked:
  assumes "tabs_ok ts" and "s < length ts" and "\<forall>m \<in> set M. undefined_from ts b m"
  shows "lookup ts M s b False = None \<longleftrightarrow> undefined_from ts b s"
proof -
  have "tt_types (ts ! c) b = None"
    if "(s, c) \<in> (bases ts)\<^sup>*" "\<forall>c. (s, c) \<in> (avoiding ts (set M))\<^sup>* \<longrightarrow> tt_types (ts ! c) b = None" for c
  proof -
    have "(s, c) \<in> (avoiding ts (set M))\<^sup>* \<or> (\<exists>m \<in> set M. (m, c) \<in> (bases ts)\<^sup>*)"
      using that(1)
    proof (induction rule: rtrancl_induct)
      case (step x y)
      show ?case
      proof (cases "\<exists>m \<in> set M. (m, x) \<in> (bases ts)\<^sup>*")
        case True
        then show ?thesis using step(2) by (blast intro: rtrancl_into_rtrancl)
      next
        case False
        then have "x \<notin> set M" "(s, x) \<in> (avoiding ts (set M))\<^sup>*" using step(3) by blast+
        then show ?thesis
          using step(2) by (cases "y \<in> set M") (auto simp: avoiding_def intro: rtrancl_into_rtrancl)
      qed
    qed simp
    then show ?thesis using that(2) assms(3) by (auto simp: undefined_from_def)
  qed
  note all = this
  show ?thesis
  proof (cases "s \<in> set M")
    case True
    then show ?thesis using assms(3) by (simp add: lookup.simps [of ts M s])
  next
    case False
    then have "lookup ts M s b False = None \<longleftrightarrow> (\<forall>c. (s, c) \<in> (avoiding ts (set M))\<^sup>* \<longrightarrow> tt_types (ts ! c) b = None)"
      using conjunct1 [OF lookup_avoiding(1) [OF assms(1,2) refl, of M b]] by simp
    also have "\<dots> \<longleftrightarrow> undefined_from ts b s"
      unfolding undefined_from_def using all avoiding_subset by blast
    finally show ?thesis .
  qed
qed

section \<open>Enclosing scopes\<close>

lemma lookup_up:
  "s \<notin> set M \<Longrightarrow> s < length ts \<Longrightarrow>
   lookup ts M s b True =
     (case lookup ts M s b False of
        Some r \<Rightarrow> Some r
      | None \<Rightarrow> (case tt_parent (ts ! s) of None \<Rightarrow> None | Some p \<Rightarrow> lookup ts (s # M) p b True))"
  by (simp add: lookup.simps [of ts M s] split: option.split)

lemma lookup_enclosing:
  "\<lbrakk>tabs_ok ts; s < length ts; \<forall>m \<in> set M. s < m \<and> undefined_from ts b m\<rbrakk> \<Longrightarrow>
   (lookup ts M s b True = None \<longleftrightarrow> (\<forall>a. (s, a) \<in> (parents ts)\<^sup>* \<longrightarrow> undefined_from ts b a)) \<and>
   (\<forall>t c. lookup ts M s b True = Some (t, c) \<longrightarrow> tt_types (ts ! c) b = Some t \<and>
      (\<exists>a. (s, a) \<in> (parents ts)\<^sup>* \<and> (a, c) \<in> (bases ts)\<^sup>* \<and>
        (\<forall>a'. (s, a') \<in> (parents ts)\<^sup>* \<longrightarrow> (a', a) \<in> (parents ts)\<^sup>+ \<longrightarrow> undefined_from ts b a')))"
proof (induction s arbitrary: M rule: less_induct)
  case (less s)
  have fresh: "s \<notin> set M" using less(4) by blast
  note up = lookup_up [OF fresh less(3), of b]
  have down: "a < s \<or> a = s" if "(s, a) \<in> (parents ts)\<^sup>*" for s a
    using that less(2) by (induction rule: rtrancl_induct) (auto simp: parents_def tabs_ok_def tab_ok_def)
  show ?case
  proof (cases "lookup ts M s b False")
    case (Some r)
    obtain t c where r: "r = (t, c)" by fastforce
    then have c: "(s, c) \<in> (bases ts)\<^sup>*" "tt_types (ts ! c) b = Some t"
      using lookup_avoiding(1) [OF less(2,3) refl, of M b] Some by auto
    have "\<not> undefined_from ts b s" using c by (auto simp: undefined_from_def)
    moreover have "(a', s) \<notin> (parents ts)\<^sup>+" if "(s, a') \<in> (parents ts)\<^sup>*" for a'
    proof
      assume "(a', s) \<in> (parents ts)\<^sup>+"
      then obtain x where "(a', x) \<in> parents ts" "(x, s) \<in> (parents ts)\<^sup>*" by (meson tranclD)
      then have "x < a'" "s \<le> x" using less(2) down [of x s] by (auto simp: parents_def tabs_ok_def tab_ok_def)
      then show False using down [OF that] by linarith
    qed
    ultimately show ?thesis using c Some up r by auto
  next
    case None
    have s: "undefined_from ts b s" using None lookup_marked [OF less(2,3)] less(4) by blast
    show ?thesis
    proof (cases "tt_parent (ts ! s)")
      case n: None
      then have "(s, a) \<in> (parents ts)\<^sup>* \<longleftrightarrow> a = s" for a
        by (auto simp: parents_def elim: converse_rtranclE)
      then show ?thesis using None n up s by simp
    next
      case (Some p)
      have p: "p < s" "p < length ts" "(s, p) \<in> parents ts"
        using less(2,3) Some by (auto simp: tabs_ok_def tab_ok_def parents_def dest: less_trans)
      have only: "(s, a) \<in> (parents ts)\<^sup>* \<longleftrightarrow> a = s \<or> (p, a) \<in> (parents ts)\<^sup>*" for a
        using p(3) Some by (auto simp: parents_def elim: converse_rtranclE intro: converse_rtrancl_into_rtrancl)
      have "\<forall>m \<in> set (s # M). p < m \<and> undefined_from ts b m" using less(4) p(1) s by auto
      note IH = less(1) [OF p(1) less(2) p(2) this]
      have e: "lookup ts M s b True = lookup ts (s # M) p b True" using up None Some by simp
      show ?thesis
        unfolding e only using IH s by auto
    qed
  qed
qed


text \<open>Scopes 1 and 2 are bases of each other; 3 is in 1.\<close>

definition cyclic_tabs :: "unit typetab list" where
  "cyclic_tabs =
     [(new_typetab [] None)\<lparr>tt_types := (\<lambda>_. None)(''A'' \<mapsto> ''int'')\<rparr>,
      (new_typetab ''B'' (Some 0))\<lparr>tt_inherit := [2]\<rparr>,
      (new_typetab ''C'' (Some 0))\<lparr>tt_inherit := [1], tt_types := (\<lambda>_. None)(''T'' \<mapsto> ''char'')\<rparr>,
      new_typetab ''D'' (Some 1)]"


section \<open>The operations keep the scopes well formed\<close>

definition typesys_ok :: "'sym typesys \<Rightarrow> bool" where
  "typesys_ok st \<longleftrightarrow> tabs_ok (tabs st) \<and> current_scope st < length (tabs st) \<and> global_scope st < length (tabs st) \<and>
     ran (scopes st) \<subseteq> {..<length (tabs st)}"

lemma init_ok: "typesys_ok (SwigType_typesystem_init st)"
  by (simp add: typesys_ok_def SwigType_typesystem_init_def tabs_ok_def tab_ok_def new_typetab_def)

lemma flush_ok [simp]: "typesys_ok (flush_cache st) = typesys_ok st"
  by (simp add: typesys_ok_def flush_cache_def)

lemma set_tab_ok:
  assumes "typesys_ok st" and "\<And>n. tab_ok n s (tab st s) \<Longrightarrow> length (tabs st) = n \<Longrightarrow> tab_ok n s (f (tab st s))"
  shows "typesys_ok (set_tab s f st)"
proof -
  have "tab_ok (length (tabs st)) i ((tabs st)[s := f (tab st s)] ! i)" if "i < length (tabs st)" for i
    using assms that by (cases "i = s") (simp_all add: typesys_ok_def tabs_ok_def)
  then show ?thesis using assms(1) by (simp add: typesys_ok_def tabs_ok_def set_tab_def)
qed

lemma tab_ok_mono: "tab_ok n s b \<Longrightarrow> n \<le> m \<Longrightarrow> tab_ok m s b"
  by (auto simp: tab_ok_def)

lemma new_scope_ok:
  fixes st :: "'sym typesys"
  assumes ok: "typesys_ok st"
  shows "typesys_ok (SwigType_new_scope n st)"
proof -
  let ?n = "length (tabs st)"
  define nm where "nm = (case n of None \<Rightarrow> ''<unnamed>'' | Some x \<Rightarrow> x)"
  define b :: "'sym typetab" where "b = new_typetab nm (Some (current_scope st))"
  have "tab_ok (Suc ?n) s ((tabs st @ [b\<lparr>tt_qname := q\<rparr>]) ! s)" if "s < Suc ?n" for s q
  proof (cases "s < ?n")
    case True
    then show ?thesis using ok tab_ok_mono [of ?n s "tab st s" "Suc ?n"] by (simp add: typesys_ok_def tabs_ok_def nth_append)
  next
    case False
    then show ?thesis using ok that by (simp add: less_Suc_eq b_def new_typetab_def tab_ok_def typesys_ok_def)
  qed
  then have "tabs_ok (tabs st @ [b\<lparr>tt_qname := q\<rparr>])" for q by (simp add: tabs_ok_def)
  moreover have "ran ((scopes st)(q \<mapsto> ?n)) \<subseteq> {..<Suc ?n}" for q
    using ok by (auto simp: typesys_ok_def ran_def less_Suc_eq split: if_splits)
  ultimately show ?thesis
    using ok unfolding SwigType_new_scope_def Let_def flush_ok nm_def [symmetric] b_def [symmetric]
    by (simp add: typesys_ok_def)
qed

lemma inherit_scope_ok:
  "typesys_ok st \<Longrightarrow> s < length (tabs st) \<Longrightarrow> SwigType_inherit_scope s st = Inr st' \<Longrightarrow>
   typesys_ok st' \<and> length (tabs st') = length (tabs st)"
  unfolding SwigType_inherit_scope_def
  by (auto split: if_splits intro!: set_tab_ok simp: tab_ok_def) (simp add: set_tab_def)

lemma using_scope_ok:
  assumes "typesys_ok st" and "s < length (tabs st)" and "SwigType_using_scope s st = Inr st'"
  shows "typesys_ok st'"
proof -
  obtain st1 where st1: "SwigType_inherit_scope s st = Inr st1" using assms(3) by (auto simp: SwigType_using_scope_def)
  then have "typesys_ok st1" "s < length (tabs st1)" using inherit_scope_ok assms(1,2) by fastforce+
  then show ?thesis
    using assms(3) st1 by (auto simp: SwigType_using_scope_def split: if_splits intro!: set_tab_ok simp: tab_ok_def)
qed

lemma enter_scope_ok: "typesys_ok st \<Longrightarrow> s < length (tabs st) \<Longrightarrow> typesys_ok (enter_scope s st)"
  unfolding enter_scope_def flush_ok by (simp add: typesys_ok_def)

lemma parent_exists: "typesys_ok st \<Longrightarrow> tt_parent (tab st (current_scope st)) = Some p \<Longrightarrow> p < length (tabs st)"
  unfolding typesys_ok_def tabs_ok_def tab_ok_def by (meson less_trans)

lemma global_exists: "typesys_ok st \<Longrightarrow> global_scope st < length (tabs st)"
  by (simp add: typesys_ok_def)

lemma pop_scope_ok: "typesys_ok st \<Longrightarrow> typesys_ok (snd (SwigType_pop_scope st))"
  using parent_exists [of st] global_exists [of st]
  by (auto simp: SwigType_pop_scope_def split: option.split intro!: enter_scope_ok)

lemma set_scope_ok: "typesys_ok st \<Longrightarrow> case_option True (\<lambda>x. x < length (tabs st)) s \<Longrightarrow> typesys_ok (snd (SwigType_set_scope s st))"
  using global_exists [of st]
  by (auto simp: SwigType_set_scope_def split: option.splits intro!: enter_scope_ok)

lemma set_type_ok: "typesys_ok st \<Longrightarrow> typesys_ok (set_type s n t st)"
  unfolding set_type_def by (rule set_tab_ok) (simp_all add: tab_ok_def)

lemma typedef_class_ok: "typesys_ok st \<Longrightarrow> typesys_ok (snd (SwigType_typedef_class n st))"
  by (simp add: SwigType_typedef_class_def set_type_ok)

text \<open>Resolution changes the caches and \<open>resolved_scope\<close> only.\<close>

definition same_scopes :: "'sym typesys \<Rightarrow> 'sym typesys \<Rightarrow> bool" where
  "same_scopes st st' \<longleftrightarrow> tabs st' = tabs st \<and> current_scope st' = current_scope st \<and> global_scope st' = global_scope st \<and>
     scopes st' = scopes st \<and> current_symtab st' = current_symtab st \<and> check_parent st' = check_parent st"

named_theorems same_scopes_simps

lemma same_scopes_refl [same_scopes_simps]: "same_scopes st st"
  by (simp add: same_scopes_def)

lemma same_scopes_trans: "same_scopes st st1 \<Longrightarrow> same_scopes st1 st2 \<Longrightarrow> same_scopes st st2"
  by (simp add: same_scopes_def)

lemma same_scopes_upd [same_scopes_simps]:
  "same_scopes st (st'\<lparr>resolved_scope := r\<rparr>) = same_scopes st st'"
  "same_scopes st (st'\<lparr>resolve_cache := c\<rparr>) = same_scopes st st'"
  "same_scopes st (st'\<lparr>all_cache := a\<rparr>) = same_scopes st st'"
  "same_scopes (st\<lparr>resolved_scope := r\<rparr>) st' = same_scopes st st'"
  by (simp_all add: same_scopes_def)

lemma typedef_resolve_same: "typedef_resolve s b st = (r, st') \<Longrightarrow> same_scopes st st'"
  by (auto simp: typedef_resolve_def same_scopes_simps split: option.splits prod.splits)

lemma resolve_in_scope_same: "resolve_in_scope s n st = (r, st') \<Longrightarrow> same_scopes st st'"
  using typedef_resolve_same [of s n st]
  by (auto simp: resolve_in_scope_def Let_def same_scopes_simps split: option.splits prod.splits)

definition keeps :: "('sym typesys \<Rightarrow> ('a \<times> 'sym typesys) res) \<Rightarrow> bool" where
  "keeps f \<longleftrightarrow> (\<forall>st r st'. f st = Inr (r, st') \<longrightarrow> same_scopes st st')"

lemma keepsD: "keeps f \<Longrightarrow> f st = Inr (r, st') \<Longrightarrow> same_scopes st st'"
  by (simp add: keeps_def)

lemma resolve_parms_same:
  assumes "\<And>t. keeps (res t)"
  shows "resolve_parms res ps st = Inr (r, st') \<Longrightarrow> same_scopes st st'"
proof (induction ps arbitrary: st r)
  case (Cons p ps)
  from Cons(2) obtain q st1 where q: "res p st = Inr (q, st1)" by auto
  note st1 = keepsD [OF assms q]
  show ?case
  proof (cases q)
    case None
    then obtain l rep where "resolve_parms res ps st1 = Inr ((l, rep), st')" using Cons(2) q by auto
    then show ?thesis by (rule same_scopes_trans [OF st1 Cons(1)])
  qed (use Cons(2) q st1 in auto)
qed (simp add: same_scopes_simps)

lemma resolve_simple_same:
  assumes "\<And>s n. keeps (look s n)"
  shows "keeps (resolve_simple look b)"
  unfolding keeps_def
proof (intro allI impI)
  fix st r st' assume a: "resolve_simple look b st = Inr (r, st')"
  define s where "s = (if starts_with ''::'' b then global_scope st else current_scope st)"
  define c where "c = (if starts_with ''::'' b then drop 2 b else b)"
  note body = a [unfolded resolve_simple_def Let_def, folded s_def c_def]
  consider (ty) ty where "tt_types (tab st s) c = Some ty"
    | (name) "tt_types (tab st s) c = None" "\<not> Swig_scopename_check c"
    | (last) n where "tt_types (tab st s) c = None" "Swig_scopename_check c" "Swig_scopename_split c = Inr (None, n)"
    | (prefix) p n where "tt_types (tab st s) c = None" "Swig_scopename_check c" "Swig_scopename_split c = Inr (Some p, n)"
  proof (cases "tt_types (tab st s) c")
    case None
    show ?thesis
    proof (cases "Swig_scopename_check c")
      case True
      then obtain p n where "Swig_scopename_split c = Inr (p, n)"
        using body by (cases "Swig_scopename_split c") (auto simp: None True)
      then show ?thesis using that None True by (cases p) auto
    qed (use that None in auto)
  qed (use that in auto)
  then show "same_scopes st st'"
  proof cases
    case ty
    then show ?thesis using body by (auto simp: same_scopes_simps)
  next
    case name
    then show ?thesis using body typedef_resolve_same [of s c st] by (cases "typedef_resolve s c st") simp
  next
    case last
    then show ?thesis using body typedef_resolve_same [of s c st] by (cases "typedef_resolve s c st") simp
  next
    case prefix
    then obtain x st1 where x: "look s p st = Inr (x, st1)" using body by auto
    note st1 = keepsD [OF assms x]
    show ?thesis
    proof (cases x)
      case None
      then show ?thesis using body prefix x st1 by simp
    next
      case (Some s1)
      obtain ty st2 where ty: "resolve_in_scope s1 n st1 = (ty, st2)" by fastforce
      then have "st' = st2" using body prefix x Some by simp
      then show ?thesis using same_scopes_trans [OF st1 resolve_in_scope_same [OF ty]] by simp
    qed
  qed
qed

lemma resolve_new_same:
  assumes look: "\<And>s n. keeps (look s n)" and res: "\<And>t. keeps (res t)"
  shows "keeps (resolve_new look res t)"
  unfolding keeps_def
proof (intro allI impI)
  fix st r st' assume a: "resolve_new look res t st = Inr (r, st')"
  note parms = resolve_parms_same [OF res]
  have tm: "keeps (resolve_template res b)" for b
    unfolding keeps_def by (auto simp: resolve_template_def dest!: parms)
  have con: "keeps (resolve_constructor res b)" for b
    unfolding keeps_def
    by (auto simp: resolve_constructor_def same_scopes_simps dest!: parms keepsD [OF res] split: if_splits option.splits)
  have rest: "keeps (resolve_rest res t b ty)" for t b ty
    unfolding keeps_def by (auto simp: resolve_rest_def same_scopes_simps dest!: keepsD [OF res] split: if_splits option.splits)
  note simple = resolve_simple_same [OF look]
  show "same_scopes st st'"
  proof (cases "SwigType_issimple (SwigType_base t)")
    case True
    then obtain f b st1 where s: "resolve_simple look (SwigType_base t) st = Inr ((f, b), st1)"
      using a by (auto simp: resolve_new_def Let_def)
    show ?thesis
    proof (cases f)
      case Ends
      then show ?thesis using a True s keepsD [OF simple s] by (simp add: resolve_new_def Let_def)
    next
      case (Goes_on ty)
      then obtain ty1 st2 where r: "(if ty = None \<and> SwigType_istemplate b then resolve_template res b st1 else Inr (ty, st1)) = Inr (ty1, st2)"
          "resolve_rest res t b ty1 st2 = Inr (r, st')"
        using a True s by (auto simp: resolve_new_def Let_def)
      have "same_scopes st1 st2" using r(1) keepsD [OF tm] by (auto simp: same_scopes_simps split: if_splits)
      then show ?thesis using same_scopes_trans keepsD [OF simple s] keepsD [OF rest r(2)] by metis
    qed
  next
    case False
    then obtain ty st1 where r: "resolve_constructor res (SwigType_base t) st = Inr (ty, st1)"
        "resolve_rest res t (SwigType_base t) ty st1 = Inr (r, st')"
      using a by (auto simp: resolve_new_def Let_def)
    show ?thesis by (rule same_scopes_trans [OF keepsD [OF con r(1)] keepsD [OF rest r(2)]])
  qed
qed

lemma resolve_loop_same:
  assumes "\<And>t. keeps (res t)"
  shows "resolve_loop res k t st = Inr (r, st') \<Longrightarrow> same_scopes st st'"
proof (induction k arbitrary: t st)
  case (Suc k)
  from Suc(2) obtain n st1 where n: "res t st = Inr (n, st1)" by auto
  show ?case
  proof (cases n)
    case (Some x)
    then have "resolve_loop res k x st1 = Inr (r, st')" using Suc(2) n by simp
    then show ?thesis by (rule same_scopes_trans [OF keepsD [OF assms n] Suc(1)])
  qed (use Suc(2) n keepsD [OF assms n] in simp)
qed simp

lemma find_using_same:
  assumes "\<And>s n. keeps (look s n)"
  shows "find_using look us n st = Inr (r, st') \<Longrightarrow> same_scopes st st'"
proof (induction us arbitrary: st)
  case (Cons u us)
  from Cons(2) obtain x st1 where x: "look u n (st\<lparr>check_parent := False\<rparr>) = Inr (x, st1)" by auto
  from keepsD [OF assms x] have s: "same_scopes st (st1\<lparr>check_parent := check_parent st\<rparr>)" by (simp add: same_scopes_def)
  show ?case
  proof (cases x)
    case None
    then have "find_using look us n (st1\<lparr>check_parent := check_parent st\<rparr>) = Inr (r, st')" using Cons(2) x by (simp add: Let_def)
    then show ?thesis by (rule same_scopes_trans [OF s Cons(1)])
  qed (use Cons(2) x s in \<open>simp add: Let_def\<close>)
qed (simp add: same_scopes_simps)

lemma find_around_same:
  assumes "\<And>s n. keeps (look s n)"
  shows "find_around look ss n st = Inr (r, st') \<Longrightarrow> same_scopes st st'"
proof (induction ss arbitrary: st)
  case (Cons s ss)
  show ?case
  proof (cases "scopes st (qualify (tabs st) s n)")
    case None
    then obtain x st1 where x: "find_using look (tt_using (tab st s)) n st = Inr (x, st1)" using Cons(2) by auto
    note st1 = find_using_same [OF assms x]
    show ?thesis
    proof (cases "x = None \<and> check_parent st1")
      case True
      then have "find_around look ss n st1 = Inr (r, st')" using Cons(2) None x by simp
      then show ?thesis by (rule same_scopes_trans [OF st1 Cons(1)])
    qed (use Cons(2) None x st1 in \<open>auto split: option.splits\<close>)
  qed (use Cons(2) in \<open>simp add: same_scopes_simps\<close>)
qed (simp add: same_scopes_simps)

lemma find_keeps:
  assumes "\<And>s n. keeps (ts_find k s n :: 'sym typesys \<Rightarrow> _)" and "\<And>t. keeps (ts_resolve_all k t :: 'sym typesys \<Rightarrow> _)"
  shows "keeps (ts_find (Suc k) s n :: 'sym typesys \<Rightarrow> _)"
  unfolding keeps_def
proof (intro allI impI)
  fix st :: "'sym typesys" and r st' assume "ts_find (Suc k) s n st = Inr (r, st')"
  then obtain n1 st1 where n1: "(if SwigType_istemplate n then ts_resolve_all k n st else Inr (n, st)) = Inr (n1, st1)"
      "find_around (ts_find k) (up_chain (tabs st1) s) n1 st1 = Inr (r, st')"
    by (auto simp: SwigType_find_scope_def)
  have "same_scopes st st1" using n1(1) keepsD [OF assms(2)] by (cases "SwigType_istemplate n") (auto simp: same_scopes_simps)
  then show "same_scopes st st'" by (rule same_scopes_trans) (rule find_around_same [OF assms(1) n1(2)])
qed

lemma resolve_keeps:
  assumes "\<And>s n. keeps (ts_find k s n :: 'sym typesys \<Rightarrow> _)" and "\<And>t. keeps (ts_resolve k t :: 'sym typesys \<Rightarrow> _)"
  shows "keeps (ts_resolve (Suc k) t :: 'sym typesys \<Rightarrow> _)"
  unfolding keeps_def
proof (intro allI impI)
  fix st :: "'sym typesys" and r st' assume a: "ts_resolve (Suc k) t st = Inr (r, st')"
  show "same_scopes st st'"
  proof (cases "resolve_cache st t")
    case None
    then obtain x st1 where x: "resolve_new (ts_find k) (ts_resolve k) t (st\<lparr>resolved_scope := None\<rparr>) = Inr (x, st1)"
        "same_scopes st1 st'"
      using a by (auto simp: SwigType_typedef_resolve_def same_scopes_simps split: option.splits)
    have "keeps (resolve_new (ts_find k) (ts_resolve k) t :: 'sym typesys \<Rightarrow> _)" by (rule resolve_new_same) (fact assms)+
    from same_scopes_trans [OF keepsD [OF this x(1), unfolded same_scopes_simps] x(2)] show ?thesis .
  qed (use a in \<open>auto simp: SwigType_typedef_resolve_def same_scopes_simps\<close>)
qed

lemma resolution_keeps_all:
  "(\<forall>s n. keeps (ts_find k s n :: 'sym typesys \<Rightarrow> _)) \<and> (\<forall>t. keeps (ts_resolve k t :: 'sym typesys \<Rightarrow> _)) \<and>
   (\<forall>t. keeps (ts_resolve_all k t :: 'sym typesys \<Rightarrow> _))"
proof (induction k)
  case (Suc k)
  then have ih: "keeps (ts_find k s n :: 'sym typesys \<Rightarrow> _)" "keeps (ts_resolve k t :: 'sym typesys \<Rightarrow> _)"
      "keeps (ts_resolve_all k t :: 'sym typesys \<Rightarrow> _)" for s n t by blast+
  have "keeps (ts_resolve_all (Suc k) t :: 'sym typesys \<Rightarrow> _)" for t
    unfolding keeps_def
    using resolve_loop_same [OF ih(2)]
    by (auto simp: SwigType_typedef_resolve_all_def same_scopes_simps split: option.splits)
  then show ?case using find_keeps [OF ih(1,3)] resolve_keeps [OF ih(1,2)] by blast
qed (simp add: keeps_def)

lemmas resolution_keeps =
  resolution_keeps_all [THEN conjunct1, rule_format]
  resolution_keeps_all [THEN conjunct2, THEN conjunct1, rule_format]
  resolution_keeps_all [THEN conjunct2, THEN conjunct2, rule_format]

lemma same_scopes_ok: "same_scopes st st' \<Longrightarrow> typesys_ok st' = typesys_ok st"
  by (simp add: same_scopes_def typesys_ok_def)

text \<open>A scope that is found is in the table of scopes.\<close>

lemma find_using_ran:
  assumes "\<And>s n st x st'. look s n st = Inr (Some x, st') \<Longrightarrow> x \<in> ran (scopes st)" and "\<And>s n. keeps (look s n)"
  shows "find_using look us n st = Inr (Some x, st') \<Longrightarrow> x \<in> ran (scopes st)"
proof (induction us arbitrary: st)
  case (Cons u us)
  from Cons(2) obtain y st1 where y: "look u n (st\<lparr>check_parent := False\<rparr>) = Inr (y, st1)" by auto
  from keepsD [OF assms(2) y] have "scopes st1 = scopes st" by (simp add: same_scopes_def)
  then show ?case using Cons y assms(1) [of u n "st\<lparr>check_parent := False\<rparr>"] by (cases y) (fastforce simp: Let_def)+
qed simp

lemma find_around_ran:
  assumes "\<And>s n st x st'. look s n st = Inr (Some x, st') \<Longrightarrow> x \<in> ran (scopes st)" and "\<And>s n. keeps (look s n)"
  shows "find_around look ss n st = Inr (Some x, st') \<Longrightarrow> x \<in> ran (scopes st)"
proof (induction ss arbitrary: st)
  case (Cons s ss)
  show ?case
  proof (cases "scopes st (qualify (tabs st) s n)")
    case None
    then obtain y st1 where y: "find_using look (tt_using (tab st s)) n st = Inr (y, st1)" using Cons(2) by auto
    have "scopes st1 = scopes st" using find_using_same [OF assms(2) y] by (simp add: same_scopes_def)
    then show ?thesis
      using Cons None y find_using_ran [OF assms] by (cases y) (fastforce split: if_splits)+
  qed (use Cons(2) in \<open>auto intro: ranI\<close>)
qed simp

lemma find_ran: "ts_find k s n st = Inr (Some x, st') \<Longrightarrow> x \<in> ran (scopes st)"
proof (induction k arbitrary: s n st x st')
  case (Suc k)
  then obtain n1 st1 where n1: "(if SwigType_istemplate n then ts_resolve_all k n st else Inr (n, st)) = Inr (n1, st1)"
      "find_around (ts_find k) (up_chain (tabs st1) s) n1 st1 = Inr (Some x, st')"
    by (auto simp: SwigType_find_scope_def)
  have "same_scopes st st1" using n1(1) keepsD [OF resolution_keeps(3)] by (cases "SwigType_istemplate n") (auto simp: same_scopes_simps)
  then have "scopes st1 = scopes st" by (simp add: same_scopes_def)
  then show ?case using find_around_ran [OF Suc(1) resolution_keeps(1) n1(2)] by simp
qed simp

lemma alias_scope_ok: "typesys_ok st \<Longrightarrow> s < length (tabs st) \<Longrightarrow> alias_scope n s st = Inr st' \<Longrightarrow> typesys_ok st'"
proof -
  assume ok: "typesys_ok st" and s: "s < length (tabs st)" and "alias_scope n s st = Inr st'"
  then obtain st1 where st1: "SwigType_inherit_scope s (SwigType_new_scope (Some n) st) = Inr st1" "st' = snd (SwigType_pop_scope st1)"
    by (auto simp: alias_scope_def)
  have "length (tabs (SwigType_new_scope (Some n) st)) = Suc (length (tabs st))"
    by (simp add: SwigType_new_scope_def Let_def flush_cache_def)
  then have "typesys_ok st1" using inherit_scope_ok [OF new_scope_ok [OF ok] _ st1(1)] s by simp
  then show ?thesis using pop_scope_ok st1(2) by simp
qed

lemma typedef_ok: "typesys_ok st \<Longrightarrow> SwigType_typedef k ty n st = Inr (c, st') \<Longrightarrow> typesys_ok st'"
proof -
  assume ok: "typesys_ok st" and "SwigType_typedef k ty n st = Inr (c, st')"
  then consider "st' = st" | r st1 st2 where "ts_find k (current_scope st) ty st = Inr (r, st1)"
      "(case r of None \<Rightarrow> Inr st1 | Some s \<Rightarrow> alias_scope n s st1) = Inr st2"
      "st' = flush_cache (set_type (current_scope st2) n ty st2)"
    by (auto simp: SwigType_typedef_def split: if_splits)
  then show ?thesis
  proof cases
    case 2
    have s: "same_scopes st st1" by (rule keepsD [OF resolution_keeps(1) 2(1)])
    then have ok1: "typesys_ok st1" using ok same_scopes_ok by blast
    have "typesys_ok st2"
    proof (cases r)
      case (Some x)
      then have "x < length (tabs st1)" using find_ran [of k "current_scope st" ty st x st1] 2(1) ok s
        by (auto simp: typesys_ok_def same_scopes_def)
      then show ?thesis using alias_scope_ok [OF ok1] 2(2) Some by simp
    qed (use 2(2) ok1 in simp)
    then show ?thesis using 2(3) set_type_ok by simp
  qed (use ok in simp)
qed

section \<open>What goes wrong\<close>

text \<open>
  Two namespaces that use each other: the lookup of any other name in one of them never ends, whatever depth of calls
  there is.
\<close>

definition mutual_use :: "bool \<Rightarrow> unit typesys" where
  "mutual_use cp =
     (static_typesys 0)
       \<lparr>tabs := [new_typetab [] None,
                 (new_typetab ''A'' (Some 0))\<lparr>tt_qname := Some ''A'', tt_using := [2]\<rparr>,
                 (new_typetab ''B'' (Some 0))\<lparr>tt_qname := Some ''B'', tt_using := [1]\<rparr>],
        scopes := (\<lambda>_. None)([] \<mapsto> 0, ''A'' \<mapsto> 1, ''B'' \<mapsto> 2), check_parent := cp\<rparr>"

lemma mutual_use_hangs: "ts_find k 1 ''X'' (mutual_use cp) = Inl Hang \<and> ts_find k 2 ''X'' (mutual_use cp) = Inl Hang"
proof (induction k arbitrary: cp)
  case (Suc k)
  have tmpl: "\<not> SwigType_istemplate ''X''" by code_simp
  have c: "up_chain (tabs (mutual_use cp)) 1 = [1, 0]" "up_chain (tabs (mutual_use cp)) 2 = [2, 0]" by (cases cp; code_simp)+
  have s: "scopes (mutual_use cp) (qualify (tabs (mutual_use cp)) 1 ''X'') = None"
    "scopes (mutual_use cp) (qualify (tabs (mutual_use cp)) 2 ''X'') = None" by (cases cp; code_simp)+
  have u: "tt_using (tab (mutual_use cp) 1) = [2]" "tt_using (tab (mutual_use cp) 2) = [1]"
    by (simp_all add: mutual_use_def numeral_2_eq_2)
  have f: "(mutual_use cp)\<lparr>check_parent := False\<rparr> = mutual_use False" by (simp add: mutual_use_def)
  show ?case by (simp add: SwigType_find_scope_def tmpl c s u f Suc.IH del: One_nat_def)
qed simp

definition namespace_A :: "unit typesys" where
  "namespace_A =
     (case SwigType_typedef 9 ''int'' ''B'' (SwigType_new_scope (Some ''A'') (SwigType_typesystem_init (static_typesys 0))) of
        Inr (_, st) \<Rightarrow> snd (SwigType_pop_scope st)
      | Inl _ \<Rightarrow> static_typesys 0)"

definition then_resolve :: "string \<Rightarrow> ('a \<times> unit typesys) res \<Rightarrow> string res" where
  "then_resolve t r = rbind r (\<lambda>(_, st). rbind (ts_resolve_all 9 t st) (\<lambda>(x, _). Inr x))"

text \<open>\<open>SwigType_typedef_using\<close> and \<open>SwigType_inherit_scope\<close> leave the caches: what was resolved before keeps its old value.\<close>

lemma using_leaves_cache:
  "then_resolve ''B'' (SwigType_typedef_using 9 ''A::B'' namespace_A) = Inr ''int''"
  "then_resolve ''B'' (rbind (ts_resolve_all 9 ''B'' namespace_A) (\<lambda>(_, st). SwigType_typedef_using 9 ''A::B'' st)) = Inr ''B''"
  by code_simp+

lemma inherit_leaves_cache:
  "then_resolve ''B'' (rbind (SwigType_inherit_scope 1 (SwigType_new_scope (Some ''D'') namespace_A)) (\<lambda>st. Inr ((), st))) = Inr ''int''"
  "then_resolve ''B'' (rbind (ts_resolve_all 9 ''B'' (SwigType_new_scope (Some ''D'') namespace_A)) (\<lambda>(_, st).
     rbind (SwigType_inherit_scope 1 st) (\<lambda>st1. Inr ((), st1)))) = Inr ''B''"
  by code_simp+

text \<open>When a parameter of a function is resolved, the global name it returns loses its colons.\<close>

lemma global_name_lost: "then_resolve ''f(A::B).::Q'' (Inr ((), namespace_A)) = Inr ''f(int).Q''"
  by code_simp

end
