(* ===== verification/MacroSpec.thy ===== *)
theory MacroSpec
  imports CppParse
begin

text \<open>
  The replacement of macros comes to an end: a macro is not expanded inside of its own expansion, and the
  arguments of a call are shorter than the text it stands in. Macros of \<open>%define\<close>, which are parsed after
  their mark is taken back, are the exception.
\<close>

section \<open>Replacing in a text comes to an end\<close>

lemma match_from_range: "match_from mk b s tok = Some p \<Longrightarrow> s \<le> p \<and> p + length tok \<le> length b"
proof (induction mk b s tok rule: match_from.induct)
  case (1 mk b s tok)
  show ?case
  proof (cases "find_text b s tok")
    case None
    then show ?thesis using 1(2) by (simp add: match_from.simps [of mk b s tok] split: if_splits)
  next
    case (Some q)
    then show ?thesis
      using 1 find_text_range [OF Some] by (auto simp: match_from.simps [of mk b s tok] split: if_splits)
  qed
qed

lemma next_match_plain: "next_match mk b tok False s = (match_from mk b s tok, False)"
  by (simp add: next_match_def)

definition no_hang :: "'a res \<Rightarrow> bool" where
  "no_hang r \<longleftrightarrow> r \<noteq> Inl Hang"

lemma no_hang_simps [simp]: "no_hang (Inr x)" "no_hang (Inl e) \<longleftrightarrow> e \<noteq> Hang"
  by (simp_all add: no_hang_def)

lemma no_hang_rbind [intro!]: "no_hang m \<Longrightarrow> (\<And>x. m = Inr x \<Longrightarrow> no_hang (f x)) \<Longrightarrow> no_hang (rbind m f)"
  by (cases m) auto

lemma buffer_no_hang [simp]: "no_hang (buf_copy b i d)" "no_hang (buf_move b i j n)" "no_hang (buf_write b i c)"
  by (simp_all add: buf_copy_def buf_move_def buf_write_def)

lemma buffer_length:
  "buf_copy b i d = Inr b' \<Longrightarrow> length b' = length b"
  "buf_move b i j n = Inr b' \<Longrightarrow> length b' = length b"
  by (auto simp: buf_copy_def buf_move_def split: if_splits)

lemma shrink_loop_no_hang:
  assumes "tok \<noteq> []"
  shows "(case s of None \<Rightarrow> 0 < n | Some p \<Rightarrow> p + length tok \<le> length b \<and> length b < n + p) \<Longrightarrow>
    no_hang (shrink_loop n mk tok rep len b t s ic rcount expand False)"
proof (induction n arbitrary: rep b t s ic rcount expand)
  case 0
  then show ?case using assms by (cases s; cases tok) auto
next
  case (Suc n)
  have tok: "0 < length tok" using assms by simp
  show ?case
  proof (cases s)
    case (Some p)
    have r: "p + length tok \<le> length b" "length b < Suc n + p" using Suc(2) Some by simp_all
    then have "0 < n" using tok by linarith
    then have none: "no_hang (shrink_loop n mk tok rep2 len b2 t2 None ic2 rc2 ex2 False)" for rep2 b2 t2 ic2 rc2 ex2
      by (intro Suc(1)) simp
    have some: "no_hang (shrink_loop n mk tok rep2 len b2 t2 (Some q) ic2 rc2 ex2 False)"
      if "match_from mk b1 (p + length tok) tok = Some q" "length b1 = length b" "length b2 = length b" for b1 q rep2 b2 t2 ic2 rc2 ex2
    proof -
      have "p + length tok \<le> q" "q + length tok \<le> length b" using match_from_range [OF that(1)] that(2) by auto
      then have "q + length tok \<le> length b2" "length b2 < n + q" using r tok that(3) by linarith+
      then show ?thesis by (intro Suc(1)) simp
    qed
    show ?thesis
      unfolding Some shrink_loop.simps option.case Let_def next_match_plain prod.case
      by (auto simp: none some assms dest!: buffer_length split: option.split)
  qed simp
qed

lemma count_loop_no_hang:
  assumes "tok \<noteq> []"
  shows "0 < n \<Longrightarrow> length b < n + s \<Longrightarrow> no_hang (count_loop n mk tok b s ic rcount False)"
proof (induction n arbitrary: s ic rcount)
  case (Suc n)
  have tok: "0 < length tok" using assms by simp
  have "no_hang (count_loop n mk tok b (p + length tok) (ic - 1) (rcount + 1) False)" if "match_from mk b s tok = Some p" for p
  proof -
    have "s \<le> p" "p + length tok \<le> length b" using match_from_range [OF that] by auto
    then have "0 < n" "length b < n + (p + length tok)" using Suc(3) tok by linarith+
    then show ?thesis by (rule Suc(1))
  qed
  then show ?case by (auto split: option.split)
qed simp

lemma copy_loop_no_hang: "no_hang (copy_loop n mk tok rep len b ns t s nq)"
proof (induction n arbitrary: ns t s nq)
  case (Suc n)
  then show ?case by (auto simp: Let_def split: prod.split option.split)
qed simp

lemma text_replace_no_hang [simp]:
  assumes "\<not> rf_noquote fl"
  shows "no_hang (text_replace s tok rep fl)"
proof -
  let ?s = "DohNewString (Some s)"
  have m: "0 < maxsize ?s" by (simp add: DohNewString_def new_string_def Let_def INIT_MAXSIZE_def)
  have "no_hang (replace_simple ?s tok rep False c mk)" for c mk
  proof (cases "tok = [] \<or> match_from mk (str ?s) 0 tok = None")
    case False
    then obtain p where p: "match_from mk (str ?s) 0 tok = Some p" and tok: "tok \<noteq> []" by auto
    have r: "p + length tok \<le> length (str ?s)" using match_from_range [OF p] by simp
    have g: "no_hang (grow (nat (l + 1)) (maxsize (?s\<lparr>hashkey := -1\<rparr>)) l)" for l
    proof (cases "l < 0")
      case False
      then have "l < maxsize ?s + int (nat (l + 1))" using m by linarith
      from grow_total [OF m this] show ?thesis by (auto simp del: grow.simps)
    qed (use m in simp)
    have sh: "no_hang (shrink_loop (Suc (length (str ?s))) mk tok rep l (str ?s) i (Some p) c 0 0 False)" for l i
      by (rule shrink_loop_no_hang [OF tok]) (use r in simp)
    have co: "no_hang (count_loop (Suc (length (str ?s))) mk tok (str ?s) (p + length tok) i 1 False)" for i
      by (rule count_loop_no_hang [OF tok]) simp_all
    show ?thesis
      unfolding replace_simple_def Let_def p next_match_plain prod.case option.case
      by (auto simp only: no_hang_simps buffer_no_hang sh co g copy_loop_no_hang split: if_split prod.split option.split
            intro!: no_hang_rbind)
  qed (auto simp: replace_simple_def)
  then show ?thesis using assms by (auto simp: text_replace_def String_replace_def)
qed

section \<open>The arguments of a call are shorter than the text\<close>

lemma skip_tochar_length: "skip_tochar ch s = (ok, w, s') \<Longrightarrow> length w + left s' \<le> left s"
proof (induction ch s arbitrary: ok w s' rule: skip_tochar.induct)
  case (1 ch s)
  obtain c s1 where c: "Getc s = (c, s1)" by fastforce
  show ?case
  proof (cases c)
    case None
    then show ?thesis using 1(3) c by (auto simp: skip_tochar.simps [of ch s] dest: Getc_None)
  next
    case (Some x)
    note l = Getc_Some [OF c [unfolded Some]]
    obtain d s2 where d: "Getc s1 = (d, s2)" by fastforce
    obtain ok1 w1 s3 where r1: "skip_tochar ch s1 = (ok1, w1, s3)" by (cases "skip_tochar ch s1") auto
    obtain ok2 w2 s4 where r2: "skip_tochar ch s2 = (ok2, w2, s4)" by (cases "skip_tochar ch s2") auto
    consider "x = ch" | "x \<noteq> ch" "x \<noteq> CHR 0x5C" | "x \<noteq> ch" "x = CHR 0x5C" "d = None" | y where "x \<noteq> ch" "x = CHR 0x5C" "d = Some y"
      by (cases d) auto
    then show ?thesis
    proof cases
      case 2
      with 1(2) [OF c [symmetric] Some _ _ r1] l c r1 Some 1(3) show ?thesis by (auto simp: skip_tochar.simps [of ch s])
    next
      case 3
      with l c d Some 1(3) show ?thesis using Getc_None [of s1 s2] by (auto simp: skip_tochar.simps [of ch s])
    next
      case 4
      have "left s1 = Suc (left s2)" using Getc_Some [of s1 y s2] d 4 by simp
      with 1(1) [OF c [symmetric] Some 4(1) 4(2) d [symmetric] 4(3) r2] l c d r2 Some 4 1(3) show ?thesis
        by (auto simp: skip_tochar.simps [of ch s])
    qed (use 1(3) c l Some in \<open>auto simp: skip_tochar.simps [of ch s]\<close>)
  qed
qed

lemma arg_loop_length:
  "arg_loop c level arg s = (c', level', arg', s') \<Longrightarrow> length arg' + left s' + ahead c' \<le> length arg + left s + ahead c"
proof (induction c level arg s rule: arg_loop.induct)
  case (1 c level arg s)
  show ?case
  proof (cases c)
    case None
    then show ?thesis using 1(3) by (simp add: arg_loop.simps)
  next
    case (Some x)
    obtain ok w s1 where t: "skip_tochar x s = (ok, w, s1)" by (cases "skip_tochar x s") auto
    obtain d s2 where d: "Getc s1 = (d, s2)" by fastforce
    obtain d' s2' where d': "Getc s = (d', s2')" by fastforce
    note le = skip_tochar_length [OF t] Getc_le [OF d [symmetric]] Getc_le [OF d' [symmetric]]
    note ih = 1(1) [OF Some _ t [symmetric] refl d [symmetric]] 1(2) [OF Some _ _ d' [symmetric]]
    show ?thesis using 1(3) ih le Some t d d'
      by (subst (asm) (1) arg_loop.simps) (auto split: if_splits)
  qed
qed

lemma rstrip_length: "length (rstrip t) \<le> length t"
  using length_dropWhile_le [of isspace "rev t"] by (simp add: rstrip_def)

lemma args_loop_length:
  "args_loop c args s = (closed, args', s') \<Longrightarrow> \<forall>a\<in>set args. length (fst a) \<le> n \<Longrightarrow> left s + ahead c \<le> n \<Longrightarrow>
   \<forall>a\<in>set args'. length (fst a) \<le> n"
proof (induction c args s rule: args_loop.induct)
  case (1 c args s)
  show ?case
  proof (cases c)
    case None
    then show ?thesis using 1(2,3) by (simp add: args_loop.simps)
  next
    case (Some x)
    obtain c1 s1 where c1: "(if isspace x then Getc (snd (skip_whitespace s)) else (c, s)) = (c1, s1)" by fastforce
    obtain c2 level t s2 where a: "arg_loop c1 0 [] s1 = (c2, level, t, s2)" by (cases "arg_loop c1 0 [] s1") auto
    obtain d s3 where d: "Getc s2 = (d, s3)" by fastforce
    have "left s1 + ahead c1 \<le> left s + ahead c"
      using c1 Some Getc_le [of c1 s1 "snd (skip_whitespace s)"] skip_whitespace_left [of s] by (auto split: if_splits)
    then have l: "length t + left s2 + ahead c2 \<le> n" using arg_loop_length [OF a] 1(4) by simp
    then have r: "length (rstrip t) \<le> n" using rstrip_length [of t] by linarith
    have n: "left s3 + ahead d \<le> n" using Getc_le [OF d [symmetric]] l by simp
    define args1 where "args1 = (if args \<noteq> [] \<or> rstrip t \<noteq> [] then args @ [(rstrip t, in_line s1)] else args)"
    have r1: "\<forall>a\<in>set args1. length (fst a) \<le> n" using 1(3) r by (auto simp: args1_def)
    have eq: "args_loop c args s =
        (if level > 0 then (False, args, s2) else if c2 = Some (CHR '')'') then (True, args1, s2) else args_loop d args1 s3)"
      using c1 by (subst args_loop.simps) (simp add: Some a d args1_def Let_def)
    show ?thesis
    proof (cases "level > 0 \<or> c2 = Some (CHR '')'')")
      case True
      then show ?thesis using 1(2,3) eq r1 by (auto split: if_splits)
    next
      case False
      have "args_loop d args1 s3 = (closed, args', s')" using 1(2) eq False by simp
      from 1(1) [OF Some c1 [symmetric] a [symmetric] refl refl _ refl refl _ d [symmetric], folded args1_def, OF _ _ this r1 n] False
      show ?thesis by simp
    qed
  qed
qed

lemma find_args_length:
  assumes "find_args s = (Some (closed, l), s')"
  shows "\<forall>a\<in>set l. length (fst a) \<le> left s"
proof -
  obtain c s1 where c: "Getc (snd (skip_whitespace s)) = (c, s1)" by fastforce
  obtain d s2 where d: "Getc s1 = (d, s2)" by fastforce
  obtain b l1 s3 where a: "args_loop d [] s2 = (b, l1, s3)" by (cases "args_loop d [] s2") auto
  have "left s2 + ahead d \<le> left s"
    using Getc_le [OF d [symmetric]] Getc_le [OF c [symmetric]] skip_whitespace_left [of s] by simp
  from args_loop_length [OF a _ this] show ?thesis using assms by (auto simp: find_args_def c d a split: if_splits)
qed

section \<open>Results for enough depth\<close>

text \<open>A computation with a bounded depth ends if from some depth on its result is the same, and not for lack of depth.\<close>

definition ends :: "('a \<Rightarrow> bool) \<Rightarrow> (nat \<Rightarrow> 'a res) \<Rightarrow> bool" where
  "ends Q f \<longleftrightarrow> (\<exists>n r. no_hang r \<and> (\<forall>x. r = Inr x \<longrightarrow> Q x) \<and> (\<forall>m. n \<le> m \<longrightarrow> f m = r))"

lemma ends_const: "no_hang r \<Longrightarrow> (\<And>x. r = Inr x \<Longrightarrow> Q x) \<Longrightarrow> ends Q (\<lambda>_. r)"
  by (auto simp: ends_def)

lemma ends_Inr [simp]: "ends Q (\<lambda>_. Inr x) \<longleftrightarrow> Q x"
proof
  show "Q x \<Longrightarrow> ends Q (\<lambda>_. Inr x)" unfolding ends_def by (intro exI [of _ 0] exI [of _ "Inr x"]) simp
qed (auto simp: ends_def)

lemma ends_mono: "ends Q f \<Longrightarrow> (\<And>m x. f m = Inr x \<Longrightarrow> Q x \<Longrightarrow> R x) \<Longrightarrow> ends R f"
proof -
  assume "ends Q f" and i: "\<And>m x. f m = Inr x \<Longrightarrow> Q x \<Longrightarrow> R x"
  then obtain n r where r: "no_hang r" "\<And>x. r = Inr x \<Longrightarrow> Q x" "\<And>m. n \<le> m \<Longrightarrow> f m = r" by (auto simp: ends_def)
  then have "\<And>x. r = Inr x \<Longrightarrow> R x" using i by blast
  then show ?thesis unfolding ends_def using r by blast
qed

lemma ends_bind:
  assumes "ends Q f" and "\<And>x. Q x \<Longrightarrow> ends R (\<lambda>m. g m x)"
  shows "ends R (\<lambda>m. rbind (f m) (g m))"
proof -
  obtain n r where r: "no_hang r" "\<And>x. r = Inr x \<Longrightarrow> Q x" "\<And>m. n \<le> m \<Longrightarrow> f m = r" using assms(1) by (auto simp: ends_def)
  show ?thesis
  proof (cases r)
    case (Inl e)
    then show ?thesis unfolding ends_def using r(1,3) by (intro exI [of _ n] exI [of _ "Inl e"]) auto
  next
    case (Inr x)
    obtain n' r' where r': "no_hang r'" "\<And>y. r' = Inr y \<Longrightarrow> R y" "\<And>m. n' \<le> m \<Longrightarrow> g m x = r'"
      using assms(2) [OF r(2) [OF Inr]] by (auto simp: ends_def)
    have "rbind (f m) (g m) = r'" if "max n n' \<le> m" for m using that r(3) [of m] r'(3) [of m] Inr by simp
    then show ?thesis unfolding ends_def using r'(1,2) by blast
  qed
qed

lemma ends_Suc: "ends Q (\<lambda>m. f (Suc m)) \<Longrightarrow> ends Q f"
proof -
  assume "ends Q (\<lambda>m. f (Suc m))"
  then obtain n r where r: "no_hang r" "\<forall>x. r = Inr x \<longrightarrow> Q x" "\<And>m. n \<le> m \<Longrightarrow> f (Suc m) = r" by (auto simp: ends_def)
  have "f m = r" if "Suc n \<le> m" for m using r(3) [of "m - 1"] that by (cases m) auto
  then show ?thesis unfolding ends_def using r(1,2) by blast
qed

section \<open>The replacement of macros ends\<close>

text \<open>A table of macros that come from \<open>#define\<close>, without variable arguments.\<close>

definition plain_macros :: "(string \<Rightarrow> macro option) \<Rightarrow> bool" where
  "plain_macros sy \<longleftrightarrow>
     finite (dom sy) \<and> (\<forall>x m. sy x = Some m \<longrightarrow> m_name m = x \<and> \<not> m_swig m \<and> \<not> m_varargs m)"

definition unexpanded :: "(string \<Rightarrow> macro option) \<Rightarrow> nat" where
  "unexpanded sy = card {x. \<exists>m. sy x = Some m \<and> \<not> m_expanded m}"

lemma unexpanded_less:
  assumes "plain_macros sy" and "sy x = Some m" and "\<not> m_expanded m"
  shows "unexpanded (sy(x \<mapsto> m\<lparr>m_expanded := True\<rparr>)) < unexpanded sy"
proof -
  have e: "{y. \<exists>k. (sy(x \<mapsto> m\<lparr>m_expanded := True\<rparr>)) y = Some k \<and> \<not> m_expanded k} = {y. \<exists>k. sy y = Some k \<and> \<not> m_expanded k} - {x}"
    by auto
  have "finite {y. \<exists>k. sy y = Some k \<and> \<not> m_expanded k}"
    by (rule finite_subset [of _ "dom sy"]) (use assms(1) in \<open>auto simp: plain_macros_def\<close>)
  moreover have "x \<in> {y. \<exists>k. sy y = Some k \<and> \<not> m_expanded k}" using assms by simp
  ultimately show ?thesis unfolding unexpanded_def e by (rule card_Diff1_less)
qed

lemma plain_macros_marked:
  "plain_macros sy \<Longrightarrow> sy x = Some m \<Longrightarrow> plain_macros (sy(x \<mapsto> m\<lparr>m_expanded := b\<rparr>))"
  by (auto simp: plain_macros_def)

text \<open>The loop ends if the expansions do, of calls with arguments shorter than \<open>n\<close>.\<close>

definition small_args :: "nat \<Rightarrow> marg list option \<Rightarrow> bool" where
  "small_args n args \<longleftrightarrow> (\<forall>l. args = Some l \<longrightarrow> (\<forall>a\<in>set l. length (fst a) < n))"

abbreviation keeps_table :: "(string \<Rightarrow> macro option) \<Rightarrow> ('a \<times> cpp) \<Rightarrow> bool" where
  "keeps_table sy \<equiv> (\<lambda>(x, st). symbols st = sy)"

lemma report_symbols [simp]: "symbols (report ms st) = symbols st"
  by (simp add: report_def)

lemma unterminated_symbols [simp]: "symbols (unterminated b st) = symbols st"
  by (simp add: unterminated_def)

lemma replace_id_ends:
  assumes E: "\<And>i args st. symbols st = sy \<Longrightarrow> small_args n args \<Longrightarrow> ends (keeps_table sy) (\<lambda>k. E k st i args)"
    and st: "symbols st = sy" and s: "left s < n"
  shows "ends (\<lambda>(t, s', st'). symbols st' = sy) (\<lambda>k. replace_id (E k) i out s st)"
proof -
  consider "i = ''defined''" | "i \<noteq> ''defined''" "i = ''__LINE__''" | "i = ''__FILE__''"
    | "i \<notin> {''defined'', ''__LINE__'', ''__FILE__''}" "symbols st i = None"
    | m where "i \<notin> {''defined'', ''__LINE__'', ''__FILE__''}" "symbols st i = Some m" by auto
  then show ?thesis
  proof cases
    case 1
    then show ?thesis using st by (auto simp: replace_id_def split: prod.split option.split)
  next
    case 3
    then show ?thesis using st
      by (auto simp: replace_id_def REPLACE_ANY_def split: option.split intro!: ends_const no_hang_rbind)
  next
    case (5 m)
    obtain r s1 where r: "(if m_args m \<noteq> None then find_args s else (None, s)) = (r, s1)" by fastforce
    define l where "l = (case r of Some (closed, l) \<Rightarrow> l | None \<Rightarrow> [])"
    define args where "args = (if l = [] then None else Some (map (\<lambda>(t, ln). (t, ln, in_file s)) l))"
    define st1 where "st1 = unterminated (case r of Some (b, l) \<Rightarrow> b | None \<Rightarrow> True) st"
    have "\<forall>a\<in>set l. length (fst a) \<le> left s"
    proof (cases r)
      case (Some x)
      then obtain b where "find_args s = (Some (b, l), s1)" using r by (cases x) (auto simp: l_def split: if_splits)
      then show ?thesis by (rule find_args_length)
    qed (simp add: l_def)
    then have "small_args n args" using s by (auto simp: small_args_def args_def)
    then have "ends (keeps_table sy) (\<lambda>k. E k st1 i args)" by (intro E) (simp_all add: st1_def st)
    then have "ends (\<lambda>(t, s', st'). symbols st' = sy)
        (\<lambda>k. rbind (E k st1 i args) (\<lambda>(e, st2). Inr (out @ (case e of Some t \<Rightarrow> t | None \<Rightarrow> []), s1, st2)))"
      by (rule ends_bind) auto
    moreover have "replace_id (E k) i out s st =
        rbind (E k st1 i args) (\<lambda>(e, st2). Inr (out @ (case e of Some t \<Rightarrow> t | None \<Rightarrow> []), s1, st2))" for k
      using 5(1) unfolding replace_id_def 5(2) option.case r prod.case Let_def l_def [symmetric] args_def st1_def by simp
    ultimately show ?thesis by simp
  qed (use st in \<open>auto simp: replace_id_def\<close>)
qed

lemma replace_step_ends:
  assumes E: "\<And>i args st. symbols st = sy \<Longrightarrow> small_args n args \<Longrightarrow> ends (keeps_table sy) (\<lambda>k. E k st i args)"
    and st: "symbols st = sy" and c: "Getc s0 = (Some c, s)" and s: "left s0 \<le> n" "r_state r = 1 \<Longrightarrow> left s0 < n"
  shows "ends (\<lambda>(r', s', st'). symbols st' = sy \<and> 2 * left s' + away r' < 2 * left s0 + away r) (\<lambda>k. replace_step (E k) c r s st)"
proof -
  have u: "Ungetc (Some c) s = s0" using Getc_Ungetc [of c s s0] c by simp
  have "ends (\<lambda>(r', s', st'). symbols st' = sy) (\<lambda>k. replace_step (E k) c r s st)"
  proof (cases "r_state r = 1 \<and> \<not> isidchar c")
    case True
    have "ends (\<lambda>(t, s', st'). symbols st' = sy) (\<lambda>k. replace_id (E k) (r_id r) (r_out r) s0 st)"
      by (rule replace_id_ends [OF E st]) (use s(2) True in auto)
    then have "ends (\<lambda>(r', s', st'). symbols st' = sy) (\<lambda>k. rbind (replace_id (E k) (r_id r) (r_out r) s0 st)
        (\<lambda>(t, s1, st1). Inr (r\<lparr>r_out := t, r_state := 0\<rparr>, s1, st1)))"
      by (rule ends_bind) auto
    then show ?thesis using True by (simp add: replace_step_def u)
  next
    case False
    obtain x where x: "\<And>k. replace_step (E k) c r s st = Inr x" "symbols (snd (snd x)) = sy"
    proof -
      have "\<forall>k. replace_step (E k) c r s st = replace_step (E 0) c r s st"
        using False by (cases "r_state r = 1") (simp_all add: replace_step_def Let_def)
      moreover have "\<exists>x. replace_step (E 0) c r s st = Inr x \<and> symbols (snd (snd x)) = sy"
        using False st by (cases "r_state r = 1"; cases "skip_tochar c s") (simp_all add: replace_step_def Let_def)
      ultimately show ?thesis using that by metis
    qed
    then show ?thesis by (cases x) (auto simp: x)
  qed
  then show ?thesis
  proof (rule ends_mono)
    fix k x assume x: "replace_step (E k) c r s st = Inr x" "case x of (r', s', st') \<Rightarrow> symbols st' = sy"
    obtain r' s' st' where e: "x = (r', s', st')" by (cases x) auto
    show "case x of (r', s', st') \<Rightarrow> symbols st' = sy \<and> 2 * left s' + away r' < 2 * left s0 + away r"
      using replace_step_less [OF c x(1) [unfolded e]] x(2) unfolding e by simp
  qed
qed

lemma replace_loop_ends:
  assumes E: "\<And>i args st. symbols st = sy \<Longrightarrow> small_args n args \<Longrightarrow> ends (keeps_table sy) (\<lambda>k. E k st i args)"
  shows "symbols st = sy \<Longrightarrow> left s \<le> n \<Longrightarrow> (r_state r = 1 \<longrightarrow> left s < n) \<Longrightarrow>
    ends (\<lambda>(r', s', st'). symbols st' = sy) (\<lambda>k. replace_loop (E k) r s st)"
proof (induction "2 * left s + away r" arbitrary: r s st rule: less_induct)
  case less
  obtain c s1 where c: "Getc s = (c, s1)" by fastforce
  show ?case
  proof (cases c)
    case None
    then show ?thesis using less(2) c by (auto simp: replace_loop.simps [where s = s])
  next
    case (Some x)
    note step = replace_step_ends [OF E less(2) c [unfolded Some] less(3)]
    have "ends (\<lambda>(r', s', st'). symbols st' = sy)
        (\<lambda>k. rbind (replace_step (E k) x r s1 st) (\<lambda>(r', s', st'). replace_loop (E k) r' s' st'))"
    proof (rule ends_bind [OF step])
      fix y :: "rstate \<times> stream \<times> cpp" assume y: "case y of (r', s', st') \<Rightarrow> symbols st' = sy \<and> 2 * left s' + away r' < 2 * left s + away r"
      obtain r' s' st' where [simp]: "y = (r', s', st')" by (cases y) auto
      have m: "2 * left s' + away r' < 2 * left s + away r" using y by simp
      then have "left s' \<le> n" "r_state r' = 1 \<longrightarrow> left s' < n" using less(3) by (auto split: if_splits)
      then show "ends (\<lambda>(r', s', st'). symbols st' = sy) (\<lambda>k. case y of (r', s', st') \<Rightarrow> replace_loop (E k) r' s' st')"
        using less(1) [OF m, of st'] y by simp
    qed (use less(4) in auto)
    moreover have "replace_loop (E k) r s st =
        rbind (replace_step (E k) x r s1 st) (\<lambda>(r', s', st'). replace_loop (E k) r' s' st')" for k
      by (subst replace_loop.simps) (simp add: c Some rbind_def)
    ultimately show ?thesis by simp
  qed
qed

lemma Preprocessor_replace_ends:
  assumes E: "\<And>i args st. symbols st = sy \<Longrightarrow> small_args (length t) args \<Longrightarrow> ends (keeps_table sy) (\<lambda>k. E k st i args)"
    and st: "symbols st = sy"
  shows "ends (keeps_table sy) (\<lambda>k. Preprocessor_replace (E k) st (t, ln, f))"
proof -
  have "ends (\<lambda>(r', s', st'). symbols st' = sy)
      (\<lambda>k. replace_loop (E k) \<lparr>r_state = 0, r_id = [], r_out = []\<rparr> (open_text t ln f) st)"
    by (rule replace_loop_ends [OF E st]) (auto simp: open_text_def left_def)
  then have "ends (keeps_table sy) (\<lambda>k. rbind (replace_loop (E k) \<lparr>r_state = 0, r_id = [], r_out = []\<rparr> (open_text t ln f) st)
      (\<lambda>(r, s, st1). replace_end (E k) r st1))"
  proof (rule ends_bind)
    fix x :: "rstate \<times> stream \<times> cpp" assume "case x of (r', s', st') \<Rightarrow> symbols st' = sy"
    then obtain r s st1 where x: "x = (r, s, st1)" "symbols st1 = sy" by (cases x) auto
    have e: "ends (keeps_table sy) (\<lambda>k. rbind (E k st1 (r_id r) None) (\<lambda>(e, st2). Inr (r_out r @ (case e of Some t \<Rightarrow> t | None \<Rightarrow> []), st2)))"
      by (rule ends_bind [OF E [OF x(2)]]) (auto simp: small_args_def)
    show "ends (keeps_table sy) (\<lambda>k. case x of (r, s, st1) \<Rightarrow> replace_end (E k) r st1)"
      using e x by (cases "r_state r = 1"; cases "r_id r = ''defined''"; cases "symbols st1 (r_id r)") (auto simp: replace_end_def)
  qed
  then show ?thesis by (simp add: Preprocessor_replace_def)
qed

lemma put_argument_no_hang: "no_hang (put_argument mangle False arg rep name n)"
proof -
  note r = text_replace_no_hang
  show ?thesis
    unfolding put_argument_def REPLACE_ID_END_def REPLACE_ID_BEGIN_def REPLACE_ID_def REPLACE_ANY_def
    by (intro no_hang_rbind) (auto intro!: r no_hang_rbind)
qed

lemma put_arguments_ends:
  assumes R: "\<And>a st. a \<in> set as \<Longrightarrow> symbols st = sy \<Longrightarrow> ends (keeps_table sy) (\<lambda>k. R k st a)"
  shows "symbols st = sy \<Longrightarrow> ends (keeps_table sy) (\<lambda>k. put_arguments (R k) mangle False as ps v st)"
  using R
proof (induction as arbitrary: ps v st)
  case (Cons a as)
  show ?case
  proof (cases ps)
    case (Cons p ps1)
    have "ends (keeps_table sy) (\<lambda>k. rbind (R k st a) (\<lambda>(r, st1).
        rbind (put_argument mangle False (fst a) r p v) (\<lambda>n1. put_arguments (R k) mangle False as ps1 n1 st1)))"
    proof (rule ends_bind [OF Cons.prems(2) [OF _ Cons.prems(1)]])
      fix x :: "string \<times> cpp" assume "keeps_table sy x"
      then obtain r st1 where x: "x = (r, st1)" "symbols st1 = sy" by (cases x) auto
      have "ends (\<lambda>_. True) (\<lambda>k. put_argument mangle False (fst a) r p v)"
        by (rule ends_const) (simp_all add: put_argument_no_hang)
      then have "ends (keeps_table sy) (\<lambda>k. rbind (put_argument mangle False (fst a) r p v)
          (\<lambda>n1. put_arguments (R k) mangle False as ps1 n1 st1))"
        by (rule ends_bind) (rule Cons.IH [OF x(2)], use Cons.prems(2) in auto)
      then show "ends (keeps_table sy) (\<lambda>k. case x of (r, st1) \<Rightarrow>
          rbind (put_argument mangle False (fst a) r p v) (\<lambda>n1. put_arguments (R k) mangle False as ps1 n1 st1))"
        by (simp add: x)
    qed simp
    then show ?thesis by (simp add: Cons)
  qed (use Cons.prems(1) in \<open>simp\<close>)
qed simp

lemma expand_value_ends:
  assumes sy: "plain_macros sy" "sy name = Some m" "\<not> m_expanded m" and st: "symbols st = sy"
    and R: "\<And>a st. symbols st = sy(name \<mapsto> m\<lparr>m_expanded := True\<rparr>) \<Longrightarrow>
      ends (keeps_table (sy(name \<mapsto> m\<lparr>m_expanded := True\<rparr>))) (\<lambda>k. R k st a)"
  shows "ends (keeps_table sy) (\<lambda>k. expand_value (R k) (P k) m name v st)"
proof -
  let ?sy = "sy(name \<mapsto> m\<lparr>m_expanded := True\<rparr>)"
  have m: "m_name m = name" "\<not> m_swig m" using sy by (auto simp: plain_macros_def)
  have true: "set_expanded True m st = Inr (st\<lparr>symbols := ?sy\<rparr>)" using m sy st by (simp add: set_expanded_def)
  have false: "set_expanded False m st2 = Inr (st2\<lparr>symbols := sy\<rparr>)" if "symbols st2 = ?sy" for st2
    using that m sy by (auto simp: set_expanded_def fun_upd_idem)
  have tr: "ends (\<lambda>_. True) (\<lambda>k. text_replace a b c REPLACE_ANY)" for a b c
    by (rule ends_const) (simp_all add: REPLACE_ANY_def)
  have e: "ends (keeps_table sy) (\<lambda>k. rbind (R k (st\<lparr>symbols := ?sy\<rparr>) a) (\<lambda>(e, st2).
      rbind (set_expanded False m st2) (\<lambda>st3.
        if m_swig m
        then rbind (P k st3 (open_text e (m_line m) (m_file m))) (\<lambda>(g, st4).
               if LF \<in> set g
               then (if alive st4 m then Inr (Some (swig_markers m name g), st4) else Inl Undefined)
               else Inr (Some g, st4))
        else Inr (Some e, st3))))" for a
    by (rule ends_bind [OF R]) (auto simp: false m)
  show ?thesis
    unfolding expand_value_def true by (rule ends_bind [OF tr])+ (use e in simp)
qed

lemma expand_macro_ends:
  assumes sy: "plain_macros sy" and st: "symbols st = sy" and args: "small_args n args"
    and small: "\<And>a st. symbols st = sy \<Longrightarrow> length (fst a) < n \<Longrightarrow> ends (keeps_table sy) (\<lambda>k. R k st a)"
    and marked: "\<And>sy' a st. plain_macros sy' \<Longrightarrow> unexpanded sy' < unexpanded sy \<Longrightarrow> symbols st = sy' \<Longrightarrow>
      ends (keeps_table sy') (\<lambda>k. R k st a)"
  shows "ends (keeps_table sy) (\<lambda>k. expand_macro (R k) (P k) mangle st name args)"
proof (cases "sy name")
  case (Some m)
  have m: "\<not> m_varargs m" using sy Some by (auto simp: plain_macros_def)
  show ?thesis
  proof (cases "m_expanded m")
    case False
    have v: "ends (keeps_table sy) (\<lambda>k. expand_value (R k) (P k) m name v st1)" if "symbols st1 = sy" for v st1
      by (rule expand_value_ends [OF sy Some False that])
         (rule marked [OF plain_macros_marked [OF sy Some] unexpanded_less [OF sy Some False]])
    show ?thesis
    proof (cases "\<exists>as ps. args = Some as \<and> m_args m = Some ps \<and> length ps = length as")
      case True
      then obtain as ps where as: "args = Some as" "m_args m = Some ps" "length ps = length as" by blast
      have "ends (keeps_table sy) (\<lambda>k. put_arguments (R k) mangle False as ps (m_value m) st)"
        by (rule put_arguments_ends [OF small st]) (use args as(1) in \<open>auto simp: small_args_def\<close>)
      then have "ends (keeps_table sy) (\<lambda>k. rbind (put_arguments (R k) mangle False as ps (m_value m) st)
          (\<lambda>(v, st1). expand_value (R k) (P k) m name v st1))"
        by (rule ends_bind) (use v in auto)
      then show ?thesis using st Some False m as by (simp add: expand_macro_def)
    next
      case no: False
      show ?thesis
      proof (cases args)
        case None
        then show ?thesis using st Some False m v [OF st]
          by (cases "m_args m"; cases "the (m_args m)") (simp_all add: expand_macro_def)
      next
        case (Some as)
        then show ?thesis using st \<open>sy name = Some m\<close> False m v [OF st] no
          by (cases "m_args m") (simp_all add: expand_macro_def)
      qed
    qed
  qed (use st Some in \<open>simp add: expand_macro_def\<close>)
qed (use st in \<open>simp add: expand_macro_def\<close>)

lemma cpp_replace_ends:
  "plain_macros sy \<Longrightarrow> symbols st = sy \<Longrightarrow> ends (keeps_table sy) (\<lambda>k. cpp_replace k mangle files st a)"
proof (induction "(unexpanded sy, length (fst a))" arbitrary: sy st a rule: wf_induct_rule [OF wf_lex_prod [OF wf_less_than wf_less_than]])
  case (1 sy a st)
  obtain t ln f where a: "a = (t, ln, f)" by (cases a) auto
  have "ends (keeps_table sy) (\<lambda>k. Preprocessor_replace (cpp_expand k mangle files) st (t, ln, f))"
  proof (rule Preprocessor_replace_ends [OF _ 1(3)])
    fix i args and st1 :: cpp assume s: "symbols st1 = sy" and small: "small_args (length t) args"
    have "ends (keeps_table sy) (\<lambda>k. expand_macro (cpp_replace k mangle files) (cpp_parse k mangle files) mangle st1 i args)"
    proof (rule expand_macro_ends [OF 1(2) s small])
      fix b :: marg and st2 :: cpp assume "symbols st2 = sy" "length (fst b) < length t"
      then show "ends (keeps_table sy) (\<lambda>k. cpp_replace k mangle files st2 b)"
        using 1(2) a by (intro 1(1)) (simp_all del: cpp_replace.simps)
    next
      fix sy' and b :: marg and st2 :: cpp assume "plain_macros sy'" "unexpanded sy' < unexpanded sy" "symbols st2 = sy'"
      then show "ends (keeps_table sy') (\<lambda>k. cpp_replace k mangle files st2 b)"
        by (intro 1(1)) (simp_all del: cpp_replace.simps)
    qed
    then show "ends (keeps_table sy) (\<lambda>k. cpp_expand k mangle files st1 i args)" unfolding cpp_expand.simps [symmetric] by (rule ends_Suc)
  qed
  then show ?case by (simp add: a)
qed

text \<open>
  C39. In a table of macros that come from \<open>#define\<close>, without variable arguments, the replacement of the macros in a text always
  comes to an end: from some depth of calls on the result is one and the same and no loop. It leaves the table as it
  was, with the marks of the expansions taken back.
\<close>

theorem macro_replacement_ends:
  assumes "plain_macros (symbols st)"
  shows "\<exists>n r. r \<noteq> Inl Hang \<and> (\<forall>k. n \<le> k \<longrightarrow> cpp_replace k mangle files st a = r) \<and>
    (\<forall>t st'. r = Inr (t, st') \<longrightarrow> symbols st' = symbols st)"
  using cpp_replace_ends [OF assms refl, of mangle files a] unfolding ends_def no_hang_def by auto

text \<open>What \<open>#define\<close> adds to such a table, if the macro has no variable arguments.\<close>

definition define_text :: "string \<Rightarrow> cpp \<Rightarrow> (macro option \<times> cpp) res" where
  "define_text d st = Preprocessor_define st (open_text d 1 None) False"

definition after_define :: "string \<Rightarrow> cpp \<Rightarrow> cpp" where
  "after_define d st = (case define_text d st of Inr (m, st1) \<Rightarrow> st1 | Inl _ \<Rightarrow> st)"

lemma define_plain:
  assumes "plain_macros (symbols st)" and "Preprocessor_define st s False = Inr (mo, st')"
    and "\<And>m. mo = Some m \<Longrightarrow> \<not> m_varargs m"
  shows "plain_macros (symbols st')"
proof -
  have "symbols st' = symbols st \<or> (\<exists>m. mo = Some m \<and> \<not> m_swig m \<and> symbols st' = (symbols st)(m_name m \<mapsto> m))"
    using assms(2)
    by (auto simp: Preprocessor_define_def Let_def report_def elim!: rbind_InrE split: option.splits prod.splits if_splits)
  then show ?thesis using assms(1,3) by (auto simp: plain_macros_def split: if_splits)
qed

lemma after_define_plain:
  assumes "plain_macros (symbols st)" and "case define_text d st of Inr (Some m, _) \<Rightarrow> \<not> m_varargs m | _ \<Rightarrow> True"
  shows "plain_macros (symbols (after_define d st))"
  using assms define_plain [OF assms(1), of "open_text d 1 None"]
  by (fastforce simp: after_define_def define_text_def split: sum.splits option.splits prod.splits)

text \<open>Macros that mention themselves and each other.\<close>

definition round_macros :: cpp where
  "round_macros = after_define ''F(x) x F(A)'' (after_define ''B A'' (after_define ''A A B'' Preprocessor_init))"

lemma round_macros_plain: "plain_macros (symbols round_macros)"
proof -
  have 1: "plain_macros (symbols Preprocessor_init)" by (simp add: Preprocessor_init_def plain_macros_def)
  have 2: "plain_macros (symbols (after_define ''A A B'' Preprocessor_init))"
    by (rule after_define_plain [OF 1]) code_simp
  have 3: "plain_macros (symbols (after_define ''B A'' (after_define ''A A B'' Preprocessor_init)))"
    by (rule after_define_plain [OF 2]) code_simp
  show ?thesis unfolding round_macros_def by (rule after_define_plain [OF 3]) code_simp
qed

theorem macro_replacement_ends_witness:
  "(\<exists>n r. r \<noteq> Inl Hang \<and> (\<forall>k. n \<le> k \<longrightarrow> cpp_replace k id (\<lambda>_. None) round_macros (''A'', 1, None) = r)) \<and>
   map_sum id fst (cpp_replace 4 id (\<lambda>_. None) round_macros (''A'', 1, None)) = Inr ''A A''"
proof
  show "map_sum id fst (cpp_replace 4 id (\<lambda>_. None) round_macros (''A'', 1, None)) = Inr ''A A''" by code_simp
qed (use macro_replacement_ends [OF round_macros_plain, of id "\<lambda>_. None" "(''A'', 1, None)"] in blast)

end
