(* ===== verification/CppFaults.thy ===== *)
theory CppFaults
  imports MacroSpec
begin

text \<open>
  What goes wrong in Source/Preprocessor/cpp.c, evaluated: macros that are replaced in texts, and texts that are parsed.
\<close>

section \<open>Replacement\<close>

definition replaced :: "nat \<Rightarrow> string \<Rightarrow> string \<Rightarrow> string res" where
  "replaced k d t = rbind (cpp_replace k id (\<lambda>_. None) (after_define d Preprocessor_init) (t, 1, None)) (\<lambda>(r, st). Inr r)"

text \<open>The arguments are put in one after the other: a later parameter is also replaced in an earlier argument.\<close>

lemma argument_captured: "replaced 2 ''F(a,b) a b'' ''F(b,1)'' = Inr ''1 1''"
  by code_simp

text \<open>A call with an empty argument is taken for the name alone, and the parentheses are lost.\<close>

lemma empty_argument_lost: "replaced 2 ''F(a) [a]'' ''F()'' = Inr ''F''"
  by code_simp

text \<open>The comma in front of an empty list of variable arguments stays.\<close>

lemma comma_stays: "replaced 2 ''E(f,...) p(f,##__VA_ARGS__ )'' ''E(1)'' = Inr ''p(1, )''"
  by code_simp

definition define_replaced :: "nat \<Rightarrow> string \<Rightarrow> string \<Rightarrow> string res" where
  "define_replaced k d t =
     rbind (Preprocessor_define Preprocessor_init (open_text d 1 None) True) (\<lambda>(m, st).
     rbind (cpp_replace k id (\<lambda>_. None) st (t, 1, None)) (\<lambda>(r, st1). Inr r))"

text \<open>A macro of \<open>%define\<close> is no longer marked when its text is parsed, and may undefine itself there.\<close>

lemma define_of_itself_hangs: "define_replaced 4 ''X X '' ''X '' = Inl Hang"
  by code_simp

lemma define_undefines_itself: "define_replaced 4 (''X '' @ [LF] @ ''#undef X'' @ [LF]) ''X '' = Inl Undefined"
  by code_simp

section \<open>Parsing\<close>

definition parsed :: "nat \<Rightarrow> string \<Rightarrow> (string \<times> message list) res" where
  "parsed k t = rbind (cpp_parse k id (\<lambda>_. None) Preprocessor_init (open_text t 1 None)) (\<lambda>(r, st). Inr (r, messages st))"

text \<open>A comment after a directive adds a line.\<close>

lemma comment_adds_line:
  "parsed 3 (''#undef A'' @ [LF] @ ''x'' @ [LF]) = Inr ([LF] @ ''x'' @ [LF], [])"
  "parsed 3 (''#undef A // c'' @ [LF] @ ''x'' @ [LF]) = Inr ([LF, LF] @ ''x'' @ [LF], [])"
  by code_simp+

text \<open>A line end after a slash is not seen as one: the directive that follows is taken for text.\<close>

lemma slash_hides_line_end:
  "parsed 3 (''a /'' @ [LF] @ ''#if 0'' @ [LF] @ ''#endif'' @ [LF]) =
   Inr (''a /'' @ [LF] @ ''#if 0'' @ [LF, LF], [Error (''Extraneous #endif.'' @ [LF])])"
  by code_simp

end
