(* ===== verification/DohMemorySpec.thy ===== *)
theory DohMemorySpec
  imports DohMemory "HOL-Library.Multiset"
begin

text \<open>
  Reference counting is safe: as long as every reference that a client owns or an object holds is counted, no operation
  fails, an object is given back exactly when its last reference goes, and what is still referred to keeps its contents.
\<close>

section \<open>The state of the heap\<close>

text \<open>The addresses that have been handed out, the objects in use, and the free list.\<close>

definition pool_taken :: "pool \<Rightarrow> int set" where
  "pool_taken p = (\<lambda>i. pbeg p + i * sizeof_DohBase) ` {0..<current p}"

definition taken :: "heap \<Rightarrow> int set" where
  "taken h = (\<Union>p\<in>set (Pools h). pool_taken p)"

definition live :: "heap \<Rightarrow> int set" where
  "live h = {a \<in> taken h. refcount (objects h a) \<noteq> 0}"

fun free_chain :: "(int \<Rightarrow> dohbase) \<Rightarrow> int option \<Rightarrow> int list \<Rightarrow> bool" where
  "free_chain ob l [] = (l = None)"
| "free_chain ob l (a # as) = (l = Some a \<and> (\<exists>n. obj_data (ob a) = Next_free n \<and> free_chain ob n as))"

definition refs :: "dohbase \<Rightarrow> int multiset" where
  "refs b = mset (held (obj_data b)) + (case obj_meta b of None \<Rightarrow> {#} | Some m \<Rightarrow> {#m#})"

definition all_refs :: "heap \<Rightarrow> int multiset" where
  "all_refs h = (\<Sum>a\<in>live h. refs (objects h a))"

text \<open>Pools do not overlap, and are filled from their start.\<close>

definition pools_ok :: "pool list \<Rightarrow> bool" where
  "pools_ok ps \<longleftrightarrow>
     (\<forall>p\<in>set ps. 0 \<le> current p \<and> current p \<le> PoolSize) \<and>
     sorted_wrt (\<lambda>p q. pend p \<le> pbeg q \<or> pend q \<le> pbeg p) ps"

text \<open>
  \<open>R\<close> are the references that clients own, \<open>D\<close> the objects that are being deleted. An object that was taken is in use, in the
  free list or being deleted.
\<close>

definition heap_ok :: "int set \<Rightarrow> heap \<Rightarrow> int multiset \<Rightarrow> bool" where
  "heap_ok D h R \<longleftrightarrow>
     pools_ok (Pools h) \<and>
     (\<exists>fs. free_chain (objects h) (FreeList h) fs \<and> distinct fs \<and> set fs \<inter> D = {} \<and> taken h - live h = set fs \<union> D) \<and>
     set_mset (R + all_refs h) \<subseteq> live h \<and>
     (\<forall>a\<in>live h. obj_type (objects h a) \<noteq> None \<and>
        (flag_intern (objects h a) \<or> unat (refcount (objects h a)) = count (R + all_refs h) a))"

lemma finite_taken [simp]: "finite (taken h)"
  by (simp add: taken_def pool_taken_def)

lemma finite_live [simp]: "finite (live h)"
  by (rule finite_subset [of _ "taken h"]) (auto simp: live_def)

lemma taken_objects [simp]: "taken (h\<lparr>objects := ob\<rparr>) = taken h" "taken (set_object a b h) = taken h"
  by (simp_all add: taken_def set_object_def)

lemma set_object_simps [simp]:
  "Pools (set_object a b h) = Pools h" "FreeList (set_object a b h) = FreeList h"
  "objects (set_object a b h) = (objects h)(a := b)"
  by (simp_all add: set_object_def)

lemma live_set:
  "a \<in> taken h \<Longrightarrow> live (set_object a b h) = (if refcount b = 0 then live h - {a} else insert a (live h))"
  by (auto simp: live_def)

lemma free_chain_upd: "a \<notin> set fs \<Longrightarrow> free_chain (ob(a := b)) l fs = free_chain ob l fs"
  by (induction fs arbitrary: l) auto

text \<open>The references of the objects in use after a change of one of them.\<close>

lemma all_refs_other:
  assumes "a \<in> live h" shows "all_refs h = refs (objects h a) + (\<Sum>x\<in>live h - {a}. refs (objects h x))"
  unfolding all_refs_def using assms by (simp add: sum.remove)

lemma all_refs_set:
  assumes "a \<in> taken h"
  shows "all_refs (set_object a b h) = (if refcount b = 0 then {#} else refs b) + (\<Sum>x\<in>live h - {a}. refs (objects h x))"
proof -
  have "(\<Sum>x\<in>live h - {a}. refs (((objects h)(a := b)) x)) = (\<Sum>x\<in>live h - {a}. refs (objects h x))"
    by (rule sum.cong) auto
  then show ?thesis
    unfolding all_refs_def live_set [OF assms]
    by (auto simp: sum.insert_remove)
qed

section \<open>Deletion\<close>

text \<open>What a deletion leaves: the objects that are being deleted, and the contents of those still in use.\<close>

definition only_deletes :: "int set \<Rightarrow> heap \<Rightarrow> heap \<Rightarrow> bool" where
  "only_deletes D h h' \<longleftrightarrow>
     Pools h' = Pools h \<and> (\<forall>d\<in>D. objects h' d = objects h d) \<and> live h' \<subseteq> live h \<and>
     (\<forall>a\<in>live h'. \<exists>c. objects h' a = (objects h a)\<lparr>refcount := c\<rparr>)"

lemma only_deletes_refl [simp]: "only_deletes D h h"
proof -
  have "b = b\<lparr>refcount := refcount b\<rparr>" for b :: dohbase by simp
  then show ?thesis unfolding only_deletes_def by blast
qed

lemma only_deletes_trans: "only_deletes D h h1 \<Longrightarrow> only_deletes D h1 h2 \<Longrightarrow> only_deletes D h h2"
  unfolding only_deletes_def by (metis (no_types, lifting) dohbase.update_convs(8) subset_iff dohbase.surjective)

lemma heap_okD:
  assumes "heap_ok D h R"
  shows "pools_ok (Pools h)" "\<And>x. x \<in># R \<Longrightarrow> x \<in> live h" "\<And>x. x \<in># all_refs h \<Longrightarrow> x \<in> live h"
    "\<And>x. x \<in> live h \<Longrightarrow> obj_type (objects h x) \<noteq> None" "D \<subseteq> taken h - live h"
    "\<And>x. x \<in> live h \<Longrightarrow> \<not> flag_intern (objects h x) \<Longrightarrow> unat (refcount (objects h x)) = count R x + count (all_refs h) x"
  using assms by (auto simp: heap_ok_def)

lemma live_taken: "a \<in> live h \<Longrightarrow> a \<in> taken h"
  by (simp add: live_def)

lemma heap_okI:
  assumes "pools_ok (Pools h)"
    and "free_chain (objects h) (FreeList h) fs" "distinct fs" "set fs \<inter> D = {}" "taken h - live h = set fs \<union> D"
    and "\<And>x. x \<in># R + all_refs h \<Longrightarrow> x \<in> live h"
    and "\<And>x. x \<in> live h \<Longrightarrow> obj_type (objects h x) \<noteq> None"
    and "\<And>x. x \<in> live h \<Longrightarrow> \<not> flag_intern (objects h x) \<Longrightarrow> unat (refcount (objects h x)) = count (R + all_refs h) x"
  shows "heap_ok D h R"
  unfolding heap_ok_def using assms by blast

lemma heap_ok_chain:
  assumes "heap_ok D h R"
  obtains fs where "free_chain (objects h) (FreeList h) fs" "distinct fs" "set fs \<inter> D = {}" "taken h - live h = set fs \<union> D"
  using assms by (auto simp: heap_ok_def)

lemma drop_interned:
  assumes ok: "heap_ok D h (add_mset a R)" and a: "flag_intern (objects h a)"
  shows "heap_ok D h R"
proof -
  obtain fs where fs: "free_chain (objects h) (FreeList h) fs" "distinct fs" "set fs \<inter> D = {}" "taken h - live h = set fs \<union> D"
    by (rule heap_ok_chain [OF ok])
  show ?thesis
  proof (rule heap_okI [OF heap_okD(1) [OF ok] fs])
    fix x assume "x \<in> live h" "\<not> flag_intern (objects h x)"
    then show "unat (refcount (objects h x)) = count (R + all_refs h) x" using heap_okD(6) [OF ok, of x] a by (cases "x = a") auto
  qed (use heap_okD(2,3,4) [OF ok] in auto)
qed

lemma drop_one:
  assumes ok: "heap_ok D h (add_mset a R)" and a: "\<not> flag_intern (objects h a)" "refcount (objects h a) \<noteq> 1"
  defines "h1 \<equiv> set_object a ((objects h a)\<lparr>refcount := refcount (objects h a) - 1\<rparr>) h"
  shows "heap_ok D h1 R \<and> only_deletes D h h1"
proof -
  have l: "a \<in> live h" using heap_okD(2) [OF ok] by simp
  then have r0: "refcount (objects h a) \<noteq> 0" by (simp add: live_def)
  then have n: "unat (refcount (objects h a) - 1) = unat (refcount (objects h a)) - 1" by (simp add: unat_minus_one)
  have live1: "live h1 = live h" using l a(2) by (auto simp: h1_def live_set [OF live_taken [OF l]])
  have refs1: "all_refs h1 = all_refs h"
    using all_refs_other [OF l] a(2) by (simp add: h1_def all_refs_set [OF live_taken [OF l]] refs_def)
  obtain fs where fs: "free_chain (objects h) (FreeList h) fs" "distinct fs" "set fs \<inter> D = {}" "taken h - live h = set fs \<union> D"
    by (rule heap_ok_chain [OF ok])
  have "a \<notin> set fs" "a \<notin> D" using fs(4) l by auto
  then have "free_chain (objects h1) (FreeList h1) fs" using fs(1) by (simp add: h1_def free_chain_upd)
  moreover have "taken h1 = taken h" by (simp add: h1_def)
  moreover have "unat (refcount (objects h1 x)) = count (R + all_refs h1) x" if "x \<in> live h1" "\<not> flag_intern (objects h1 x)" for x
    using that heap_okD(6) [OF ok, of x] n unfolding refs1 live1 by (cases "x = a") (auto simp: h1_def)
  moreover have "obj_type (objects h1 x) \<noteq> None" if "x \<in> live h1" for x
    using that heap_okD(4) [OF ok, of x] unfolding live1 by (cases "x = a") (auto simp: h1_def)
  moreover have "x \<in> live h1" if "x \<in># R + all_refs h1" for x
    using that heap_okD(2,3) [OF ok, of x] unfolding live1 refs1 by auto
  ultimately have "heap_ok D h1 R"
    using fs(2-4) heap_okD(1) [OF ok] by (intro heap_okI [of h1 fs]) (simp_all add: live1, simp_all add: h1_def)
  moreover have "\<exists>c. objects h1 x = (objects h x)\<lparr>refcount := c\<rparr>" for x
  proof (cases "x = a")
    case False
    then have "objects h1 x = (objects h x)\<lparr>refcount := refcount (objects h x)\<rparr>" by (simp add: h1_def)
    then show ?thesis by blast
  qed (auto simp: h1_def)
  ultimately show ?thesis using live1 \<open>a \<notin> D\<close> by (auto simp: only_deletes_def h1_def)
qed

lemma drop_last:
  assumes ok: "heap_ok D h (add_mset a R)" and a: "\<not> flag_intern (objects h a)" "refcount (objects h a) = 1"
  defines "h1 \<equiv> set_object a ((objects h a)\<lparr>refcount := 0\<rparr>) h"
  shows "heap_ok (insert a D) h1 (refs (objects h a) + R)" "live h1 = live h - {a}"
proof -
  have l: "a \<in> live h" using heap_okD(2) [OF ok] by simp
  show live1: "live h1 = live h - {a}" using l by (auto simp: h1_def live_set [OF live_taken [OF l]])
  have refs: "all_refs h = refs (objects h a) + all_refs h1"
    using all_refs_other [OF l] by (simp add: h1_def all_refs_set [OF live_taken [OF l]])
  obtain fs where fs: "free_chain (objects h) (FreeList h) fs" "distinct fs" "set fs \<inter> D = {}" "taken h - live h = set fs \<union> D"
    using ok by (auto simp: heap_ok_def)
  have n: "a \<notin> set fs" "a \<notin> D" using fs(4) l by auto
  then have "free_chain (objects h1) (FreeList h1) fs" using fs(1) by (simp add: h1_def free_chain_upd)
  moreover have "set fs \<inter> insert a D = {}" "taken h1 - live h1 = set fs \<union> insert a D"
    using n fs(3,4) l live_taken [OF l] by (auto simp: live1) (auto simp: h1_def)
  moreover have one: "count R a = 0" "count (all_refs h) a = 0" using heap_okD(6) [OF ok l a(1)] a(2) by simp_all
  moreover have "set_mset (refs (objects h a) + R + all_refs h1) \<subseteq> live h1"
  proof -
    have e: "refs (objects h a) + R + all_refs h1 = R + all_refs h" using refs by simp
    have "a \<notin># R + all_refs h" using one by (simp add: not_in_iff)
    moreover have "set_mset (R + all_refs h) \<subseteq> live h" using ok by (auto simp: heap_ok_def)
    ultimately show ?thesis unfolding e live1 by blast
  qed
  moreover have "unat (refcount (objects h1 x)) = count (refs (objects h a) + R + all_refs h1) x"
    if "x \<in> live h1" "\<not> flag_intern (objects h1 x)" for x
    using that heap_okD(6) [OF ok, of x] refs unfolding live1 by (auto simp: h1_def)
  moreover have "obj_type (objects h1 x) \<noteq> None" if "x \<in> live h1" for x
    using that heap_okD(4) [OF ok, of x] unfolding live1 by (auto simp: h1_def)
  moreover have "pools_ok (Pools h1)" using heap_okD(1) [OF ok] by (simp add: h1_def)
  ultimately show "heap_ok (insert a D) h1 (refs (objects h a) + R)"
    using fs(2) by (intro heap_okI [of h1 fs]) auto
qed

lemma free_object:
  assumes ok: "heap_ok (insert a D) h R" and a: "a \<notin> D"
  shows "heap_ok D (to_free_list a h) R" "live (to_free_list a h) = live h" "only_deletes D h (to_free_list a h)"
proof -
  let ?h = "to_free_list a h"
  obtain fs where fs: "free_chain (objects h) (FreeList h) fs" "distinct fs" "set fs \<inter> insert a D = {}"
      "taken h - live h = set fs \<union> insert a D"
    using ok by (auto simp: heap_ok_def)
  have t: "a \<in> taken h" "a \<notin> live h" using fs(4) by auto
  have tk: "taken ?h = taken h" by (simp add: to_free_list_def taken_def)
  have rc: "refcount (objects ?h x) = refcount (objects h x)" for x by (simp add: to_free_list_def)
  show live1: "live ?h = live h" by (auto simp: live_def tk rc)
  have ob: "objects ?h x = objects h x" if "x \<noteq> a" for x using that by (simp add: to_free_list_def)
  have "(\<Sum>x\<in>live h. refs (objects ?h x)) = (\<Sum>x\<in>live h. refs (objects h x))"
  proof (rule sum.cong [OF refl])
    fix x assume "x \<in> live h"
    then have "x \<noteq> a" using t(2) by auto
    then show "refs (objects ?h x) = refs (objects h x)" by (simp add: ob)
  qed
  then have refs1: "all_refs ?h = all_refs h" by (simp add: all_refs_def live1)
  have "free_chain (objects ?h) (FreeList ?h) (a # fs)"
    using fs(1,3) by (auto simp: to_free_list_def free_chain_upd)
  moreover have "distinct (a # fs)" "set (a # fs) \<inter> D = {}" "taken ?h - live ?h = set (a # fs) \<union> D"
    using fs a by (auto simp: tk live1)
  moreover have "objects ?h x = objects h x" if "x \<in> live ?h" for x using that t(2) by (intro ob) (auto simp: live1)
  moreover have "Pools ?h = Pools h" by (simp add: to_free_list_def)
  ultimately show "heap_ok D ?h R"
    using heap_okD [OF ok] by (intro heap_okI [of ?h "a # fs"]) (auto simp: live1 refs1)
  show "only_deletes D h ?h"
  proof -
    have "\<exists>c. objects ?h x = (objects h x)\<lparr>refcount := c\<rparr>" if "x \<in> live h" for x
    proof -
      have "x \<noteq> a" using that t(2) by auto
      then have "objects ?h x = (objects h x)\<lparr>refcount := refcount (objects h x)\<rparr>" by (simp add: ob)
      then show ?thesis by blast
    qed
    moreover have "Pools ?h = Pools h" "\<forall>d\<in>D. objects ?h d = objects h d" using a by (auto simp: to_free_list_def)
    ultimately show ?thesis using live1 by (auto simp: only_deletes_def)
  qed
qed

lemma only_deletes_insert: "only_deletes (insert a D) h h' \<Longrightarrow> only_deletes D h h'"
  by (simp add: only_deletes_def)

lemma only_deletes_card: "only_deletes D h h' \<Longrightarrow> card (live h') \<le> card (live h)"
  by (intro card_mono) (simp_all add: only_deletes_def)

text \<open>One deletion of bounded depth, and how those of a list follow from it.\<close>

definition deletes :: "nat \<Rightarrow> bool" where
  "deletes k \<longleftrightarrow> (\<forall>D h a R. heap_ok D h (add_mset a R) \<longrightarrow> card (live h) < k \<longrightarrow>
     (\<exists>h'. DohDelete k (Some a) h = Inr h' \<and> heap_ok D h' R \<and> only_deletes D h h'))"

lemma deletes_all:
  assumes "deletes k"
  shows "heap_ok D h (mset as + R) \<Longrightarrow> card (live h) < k \<Longrightarrow>
    \<exists>h'. delete_all k as h = Inr h' \<and> heap_ok D h' R \<and> only_deletes D h h'"
proof (induction as arbitrary: h)
  case (Cons a as)
  then obtain h1 where h1: "DohDelete k (Some a) h = Inr h1" "heap_ok D h1 (mset as + R)" "only_deletes D h h1"
    using assms by (fastforce simp: deletes_def)
  then obtain h2 where "delete_all k as h1 = Inr h2" "heap_ok D h2 R" "only_deletes D h1 h2"
    using Cons.IH [OF h1(2)] Cons.prems(2) only_deletes_card [OF h1(3)] by auto
  then show ?case using h1 only_deletes_trans by auto
qed simp

lemma deletes_Suc:
  assumes "deletes k" shows "deletes (Suc k)"
  unfolding deletes_def
proof (intro allI impI)
  fix D h a R assume ok: "heap_ok D h (add_mset a R)" and k: "card (live h) < Suc k"
  let ?b = "objects h a"
  have l: "a \<in> live h" using heap_okD(2) [OF ok] by simp
  then have pos: "refcount ?b \<noteq> 0" and ty: "obj_type ?b \<noteq> None" using heap_okD(4) [OF ok] by (auto simp: live_def)
  from ty obtain y where ty': "obj_type ?b = Some y" by blast
  show "\<exists>h'. DohDelete (Suc k) (Some a) h = Inr h' \<and> heap_ok D h' R \<and> only_deletes D h h'"
  proof (cases "flag_intern ?b")
    case True
    then show ?thesis using drop_interned [OF ok] by simp
  next
    case ni: False
    show ?thesis
    proof (cases "refcount ?b = 1")
      case False
      then show ?thesis using drop_one [OF ok ni False] ni pos by (simp add: Let_def)
    next
      case True
      define h1 where "h1 = set_object a (?b\<lparr>refcount := 0\<rparr>) h"
      have a: "a \<notin> D" using heap_okD(5) [OF ok] l by auto
      note dl = drop_last [OF ok ni True, folded h1_def]
      have od1: "only_deletes D h h1"
      proof -
        have "objects h1 x = (objects h x)\<lparr>refcount := if x = a then 0 else refcount (objects h x)\<rparr>" for x by (simp add: h1_def)
        then have "\<forall>x. \<exists>c. objects h1 x = (objects h x)\<lparr>refcount := c\<rparr>" by blast
        moreover have "\<forall>d\<in>D. objects h1 d = objects h d" using a by (auto simp: h1_def)
        moreover have "Pools h1 = Pools h" "live h1 \<subseteq> live h" using dl(2) by (auto simp: h1_def)
        ultimately show ?thesis by (simp add: only_deletes_def)
      qed
      have c1: "card (live h1) < k" using k card_Diff1_less [OF finite_live l] by (simp add: dl(2))
      have m: "refs ?b + R = mset (held (obj_data ?b)) + ((case obj_meta ?b of None \<Rightarrow> {#} | Some m \<Rightarrow> {#m#}) + R)"
        by (simp add: refs_def add.assoc)
      obtain h2 where h2: "delete_all k (held (obj_data ?b)) h1 = Inr h2"
          "heap_ok (insert a D) h2 ((case obj_meta ?b of None \<Rightarrow> {#} | Some m \<Rightarrow> {#m#}) + R)" "only_deletes (insert a D) h1 h2"
        using deletes_all [OF assms dl(1) [unfolded m] c1] by blast
      have b2: "objects h2 a = ?b\<lparr>refcount := 0\<rparr>" using h2(3) by (simp add: only_deletes_def h1_def)
      note fr = free_object [OF h2(2) a]
      have od: "only_deletes D h (to_free_list a h2)"
        by (rule only_deletes_trans [OF only_deletes_trans [OF od1 only_deletes_insert [OF h2(3)]] fr(3)])
      have c2: "card (live (to_free_list a h2)) < k" using c1 only_deletes_card [OF h2(3)] fr(2) by simp
      have eq: "DohDelete (Suc k) (Some a) h = DohObjFree k a h2"
        using ni pos True h2(1) ty' by (simp add: Let_def h1_def)
      show ?thesis
      proof (cases "obj_meta ?b")
        case None
        then show ?thesis using eq b2 ni fr(1) od by simp
      next
        case (Some m)
        then obtain h3 where "DohDelete k (Some m) (to_free_list a h2) = Inr h3" "heap_ok D h3 R" "only_deletes D (to_free_list a h2) h3"
          using assms fr(1) c2 by (fastforce simp: deletes_def)
        then show ?thesis using eq b2 ni Some only_deletes_trans [OF od] by auto
      qed
    qed
  qed
qed

lemma deletion_ends: "deletes k"
  by (induction k) (simp add: deletes_def, rule deletes_Suc)

text \<open>More depth does not change a result.\<close>

lemma deletion_mono:
  "DohDelete k p h = Inr h' \<Longrightarrow> DohDelete (Suc k) p h = Inr h'"
  "delete_all k as h = Inr h' \<Longrightarrow> delete_all (Suc k) as h = Inr h'"
  "DohObjFree k a h = Inr h' \<Longrightarrow> DohObjFree (Suc k) a h = Inr h'"
proof (induction k p h and k as h and k a h arbitrary: h' and h' and h' rule: DohDelete_delete_all_DohObjFree.induct)
  case (3 k a h)
  let ?b = "objects h a"
  show ?case
  proof (cases "flag_intern ?b \<or> refcount ?b = 0 \<or> refcount ?b \<noteq> 1 \<or> obj_type ?b = None")
    case True
    then show ?thesis using 3(3) by (auto simp: Let_def split: if_splits)
  next
    case False
    then obtain x where x: "delete_all k (held (obj_data ?b)) (set_object a (?b\<lparr>refcount := refcount ?b - 1\<rparr>) h) = Inr x"
        "DohObjFree k a x = Inr h'"
      using 3(3) by (auto simp: Let_def)
    show ?thesis
      using 3(1) [OF refl refl _ _ _ _ x(1)] 3(2) [OF refl refl _ _ _ _ x(2)] False
      by (simp add: Let_def del: delete_all.simps DohObjFree.simps)
  qed
next
  case (5 k a as h)
  then obtain x where x: "DohDelete k (Some a) h = Inr x" "delete_all k as x = Inr h'" by (auto simp del: DohDelete.simps)
  show ?case using 5(1) [OF x(1)] 5(2) [OF x(2)] by (simp del: DohDelete.simps)
qed (auto simp del: DohDelete.simps(3) split: option.splits)

lemma DohDelete_mono: "DohDelete k p h = Inr h' \<Longrightarrow> k \<le> j \<Longrightarrow> DohDelete j p h = Inr h'"
  by (induction j) (auto simp del: DohDelete.simps simp: le_Suc_eq dest: deletion_mono(1))

section \<open>Allocation\<close>

text \<open>A new block overlaps no pool, as \<open>malloc\<close> promises.\<close>

definition malloc_ok :: "(pool list \<Rightarrow> int) \<Rightarrow> bool" where
  "malloc_ok malloc \<longleftrightarrow>
     (\<forall>ps p. p \<in> set ps \<longrightarrow> malloc ps + PoolSize * sizeof_DohBase \<le> pbeg p \<or> pend p \<le> malloc ps)"

lemma sizes: "PoolSize = 16384" "sizeof_DohBase = 32"
  by (simp_all add: PoolSize_def sizeof_DohBase_def)

lemma pool_taken_range:
  "0 \<le> current p \<Longrightarrow> current p \<le> PoolSize \<Longrightarrow> a \<in> pool_taken p \<Longrightarrow> pbeg p \<le> a \<and> a < pend p"
  by (auto simp: pool_taken_def pend_def sizes)

lemma taken_checked:
  assumes "pools_ok (Pools h)" and "a \<in> taken h"
  shows "DohCheck h (Some a)"
  using assms pool_taken_range by (fastforce simp: taken_def DohCheck_def pools_ok_def list_ex_iff)

text \<open>What creating a pool, or taking an object, leaves: pools, the taken objects and the free list.\<close>

definition takes :: "int set \<Rightarrow> heap \<Rightarrow> heap \<Rightarrow> bool" where
  "takes A h h1 \<longleftrightarrow>
     pools_ok (Pools h1) \<and> taken h1 = A \<union> taken h \<and> A \<inter> live h = {} \<and> (\<forall>x\<in>taken h. objects h1 x = objects h x) \<and>
     (\<exists>fs. free_chain (objects h1) (FreeList h1) fs \<and> distinct fs \<and> set fs = taken h - live h - A)"

lemma free_chain_cong: "(\<And>x. x \<in> set fs \<Longrightarrow> ob' x = ob x) \<Longrightarrow> free_chain ob' l fs = free_chain ob l fs"
  by (induction fs arbitrary: l) auto

lemma create_pool_takes:
  assumes ok: "heap_ok {} h R" and m: "malloc_ok malloc"
  shows "takes {} h (CreatePool malloc h)"
proof -
  define p where "p = \<lparr>pbeg = malloc (Pools h), current = 0\<rparr>"
  let ?h = "CreatePool malloc h"
  have P: "Pools ?h = p # Pools h" "FreeList ?h = FreeList h" by (simp_all add: CreatePool_def p_def Let_def)
  have po: "pools_ok (Pools h)" by (rule heap_okD(1) [OF ok])
  have tk: "taken ?h = taken h" by (simp add: taken_def P) (simp add: p_def pool_taken_def)
  have apart: "pend p \<le> pbeg q \<or> pend q \<le> pbeg p" if "q \<in> set (Pools h)" for q
    using m that by (auto simp: malloc_ok_def p_def pend_def)
  have ob: "objects ?h a = objects h a" if a: "a \<in> taken h" for a
  proof -
    obtain q where q: "q \<in> set (Pools h)" "a \<in> pool_taken q" using a by (auto simp: taken_def)
    then have "pbeg q \<le> a \<and> a < pend q" using po pool_taken_range by (auto simp: pools_ok_def)
    then have "\<not> (pbeg p \<le> a \<and> a < pend p)" using apart [OF q(1)] by auto
    then show ?thesis by (auto simp: CreatePool_def p_def [symmetric] Let_def)
  qed
  obtain fs where fs: "free_chain (objects h) (FreeList h) fs" "distinct fs" "set fs \<inter> {} = {}" "taken h - live h = set fs \<union> {}"
    by (rule heap_ok_chain [OF ok])
  have "free_chain (objects ?h) (FreeList ?h) fs"
    using fs(1,4) ob unfolding P(2) by (subst free_chain_cong [of fs _ "objects h"]) auto
  moreover have "pools_ok (Pools ?h)" using po apart unfolding P(1) by (auto simp: pools_ok_def p_def sizes)
  ultimately show ?thesis using fs(2,4) ob by (auto simp: takes_def tk)
qed

lemma takes_none: "heap_ok {} h R \<Longrightarrow> takes {} h h"
  by (auto simp: takes_def heap_ok_def)

lemma take_free:
  assumes ok: "heap_ok {} h R" and f: "FreeList h = Some a"
  shows "\<exists>h1. take_object malloc h = Inr (a, h1) \<and> takes {a} h h1"
proof -
  obtain fs where fs: "free_chain (objects h) (FreeList h) fs" "distinct fs" "set fs \<inter> {} = {}" "taken h - live h = set fs \<union> {}"
    by (rule heap_ok_chain [OF ok])
  then obtain n gs where gs: "fs = a # gs" "obj_data (objects h a) = Next_free n" "free_chain (objects h) n gs"
    using f by (cases fs) auto
  have "a \<in> taken h" "a \<notin> live h" "set gs = taken h - live h - {a}" using fs(2,4) gs(1) by auto
  then have "takes {a} h (h\<lparr>FreeList := n\<rparr>)"
    using heap_okD(1) [OF ok] gs(1,3) fs(2) unfolding takes_def by (auto simp: taken_def)
  then show ?thesis using f gs(2) by (simp add: take_object_def)
qed

lemma take_next:
  assumes t: "takes {} h h0" and q: "Pools h0 = q # qs" "current q < PoolSize" and none: "FreeList h0 = None"
  defines "a \<equiv> pbeg q + current q * sizeof_DohBase"
  shows "takes {a} h (h0\<lparr>Pools := q\<lparr>current := current q + 1\<rparr> # qs\<rparr>)"
proof -
  let ?h = "h0\<lparr>Pools := q\<lparr>current := current q + 1\<rparr> # qs\<rparr>"
  have po: "pools_ok (Pools h0)" using t by (simp add: takes_def)
  then have c: "0 \<le> current q" by (simp add: pools_ok_def q(1))
  have "{0..<current q + 1} = insert (current q) {0..<current q}" using c by auto
  then have "pool_taken (q\<lparr>current := current q + 1\<rparr>) = insert a (pool_taken q)" by (simp add: pool_taken_def a_def)
  then have tk: "taken ?h = insert a (taken h0)" by (simp add: taken_def q(1))
  have new: "a \<notin> taken h0"
  proof
    assume "a \<in> taken h0"
    then consider "a \<in> pool_taken q" | q' where "q' \<in> set qs" "a \<in> pool_taken q'" by (auto simp: taken_def q(1))
    then show False
    proof cases
      case 1
      then show ?thesis by (auto simp: pool_taken_def a_def sizes)
    next
      case (2 q')
      then have "pbeg q' \<le> a \<and> a < pend q'" using po pool_taken_range [of q' a] by (simp add: pools_ok_def q(1))
      moreover have "pbeg q \<le> a \<and> a < pend q" using c q(2) by (simp add: a_def pend_def sizes)
      moreover have "pend q \<le> pbeg q' \<or> pend q' \<le> pbeg q" using po 2(1) by (simp add: pools_ok_def q(1))
      ultimately show ?thesis by linarith
    qed
  qed
  have po1: "pools_ok (Pools ?h)" using po c q(2) by (simp add: pools_ok_def q(1) pend_def)
  from t have t: "taken h0 = taken h" "\<forall>x\<in>taken h. objects h0 x = objects h x"
      "\<exists>fs. free_chain (objects h0) (FreeList h0) fs \<and> distinct fs \<and> set fs = taken h - live h"
    by (simp_all add: takes_def)
  then obtain fs where "free_chain (objects h0) (FreeList h0) fs" "set fs = taken h - live h" by blast
  then have "taken h - live h = {}" using none by (cases fs) auto
  then show ?thesis unfolding takes_def using po1 tk t(1,2) new none by (auto simp: live_def intro!: exI [of _ "[]"])
qed

lemma take_object_ok:
  assumes ok: "heap_ok {} h R" and m: "malloc_ok malloc" and p: "Pools h \<noteq> []"
  shows "\<exists>a h1. take_object malloc h = Inr (a, h1) \<and> takes {a} h h1"
proof (cases "FreeList h")
  case None
  obtain p ps where ps: "Pools h = p # ps" using p by (cases "Pools h") auto
  have le: "current p \<le> PoolSize" using heap_okD(1) [OF ok] by (simp add: pools_ok_def ps)
  show ?thesis
  proof (cases "current p = PoolSize")
    case True
    have t: "takes {} h (CreatePool malloc h)" by (rule create_pool_takes [OF ok m])
    have c: "Pools (CreatePool malloc h) = \<lparr>pbeg = malloc (Pools h), current = 0\<rparr> # Pools h" "FreeList (CreatePool malloc h) = None"
      using None by (simp_all add: CreatePool_def Let_def)
    show ?thesis using take_next [OF t c(1) _ c(2)] True None ps c by (simp add: take_object_def sizes)
  next
    case False
    then show ?thesis using take_next [OF takes_none [OF ok] ps _ None] le None ps by (simp add: take_object_def)
  qed
next
  case (Some a)
  then show ?thesis using take_free [OF ok] by blast
qed

text \<open>The object that is installed owns references that its creator gives up.\<close>

lemma install_object:
  fixes ty
  assumes ok: "heap_ok {} h (mset (held d) + R)" and t: "takes {a} h h1"
  defines "h2 \<equiv> set_object a (new_object ty d) h1"
  shows "heap_ok {} h2 (add_mset a R)" "a \<notin> live h" "live h2 = insert a (live h)" "\<forall>x\<in>live h. objects h2 x = objects h x"
proof -
  obtain fs where fs: "free_chain (objects h1) (FreeList h1) fs" "distinct fs" "set fs = taken h - live h - {a}"
    and t: "pools_ok (Pools h1)" "taken h1 = insert a (taken h)" "a \<notin> live h" "\<forall>x\<in>taken h. objects h1 x = objects h x"
    using t by (auto simp: takes_def)
  show "a \<notin> live h" by (rule t(3))
  have tk: "taken h2 = insert a (taken h)" by (simp add: h2_def t(2))
  have ob: "objects h2 x = objects h x" if "x \<in> live h" for x
  proof -
    have "x \<noteq> a" "x \<in> taken h" using that t(3) by (auto simp: live_def)
    then show ?thesis using t(4) by (simp add: h2_def)
  qed
  then show "\<forall>x\<in>live h. objects h2 x = objects h x" by blast
  have new: "objects h2 a = new_object ty d" by (simp add: h2_def)
  have oth: "objects h2 x = objects h x" if "x \<in> taken h" "x \<noteq> a" for x using that t(4) by (simp add: h2_def)
  show live2: "live h2 = insert a (live h)"
  proof (rule set_eqI)
    fix x show "x \<in> live h2 \<longleftrightarrow> x \<in> insert a (live h)"
      using oth new by (cases "x = a") (auto simp: live_def tk new_object_def)
  qed
  have "(\<Sum>x\<in>live h. refs (objects h2 x)) = (\<Sum>x\<in>live h. refs (objects h x))" by (rule sum.cong) (auto simp: ob)
  then have r: "all_refs h2 = mset (held d) + all_refs h"
    unfolding all_refs_def live2 using t(3) new by (simp add: refs_def new_object_def zero_object_def)
  have no: "a \<notin># mset (held d) + R + all_refs h" using heap_okD(2,3) [OF ok] t(3) by auto
  have "free_chain (objects h2) (FreeList h2) fs"
    using fs(1,3) by (simp add: h2_def free_chain_upd)
  moreover have "taken h2 - live h2 = set fs" using fs(3) by (auto simp: tk live2)
  moreover have "pools_ok (Pools h2)" using t(1) by (simp add: h2_def)
  moreover have "x \<in> live h2" if "x \<in># add_mset a R + all_refs h2" for x
    using that heap_okD(2,3) [OF ok, of x] by (auto simp: live2 r)
  moreover have "obj_type (objects h2 x) \<noteq> None" if "x \<in> live h2" for x
    using that heap_okD(4) [OF ok, of x] ob by (auto simp: live2 new new_object_def)
  moreover have "unat (refcount (objects h2 x)) = count (add_mset a R + all_refs h2) x"
    if "x \<in> live h2" "\<not> flag_intern (objects h2 x)" for x
  proof (cases "x = a")
    case True
    then show ?thesis using no by (simp add: new new_object_def r not_in_iff)
  next
    case False
    then show ?thesis using that heap_okD(6) [OF ok, of x] ob by (auto simp: live2 r)
  qed
  ultimately show "heap_ok {} h2 (add_mset a R)" using fs(2) by (intro heap_okI [of h2 fs]) auto
qed

lemma intern_ok:
  assumes ok: "heap_ok D h R" and a: "a \<in> live h"
  shows "heap_ok D (DohIntern a h) R" "live (DohIntern a h) = live h"
proof -
  let ?h = "DohIntern a h"
  have tk: "taken ?h = taken h" by (simp add: DohIntern_def)
  show l: "live ?h = live h" using a by (auto simp: DohIntern_def live_set [OF live_taken [OF a]] live_def)
  have r: "all_refs ?h = all_refs h"
    using all_refs_other [OF a] a
    by (simp add: DohIntern_def all_refs_set [OF live_taken [OF a]] refs_def) (simp add: live_def)
  obtain fs where fs: "free_chain (objects h) (FreeList h) fs" "distinct fs" "set fs \<inter> D = {}" "taken h - live h = set fs \<union> D"
    by (rule heap_ok_chain [OF ok])
  then have "a \<notin> set fs" using a by auto
  then have c: "free_chain (objects ?h) (FreeList ?h) fs" using fs(1) by (simp add: DohIntern_def free_chain_upd)
  have n: "obj_type (objects ?h x) = obj_type (objects h x)" "refcount (objects ?h x) = refcount (objects h x)"
    "\<not> flag_intern (objects ?h x) \<Longrightarrow> \<not> flag_intern (objects h x)" for x
    by (cases "x = a"; simp add: DohIntern_def)+
  have "pools_ok (Pools ?h)" using heap_okD(1) [OF ok] by (simp add: DohIntern_def)
  then show "heap_ok D ?h R"
    using heap_okD [OF ok] fs(2-4) c n by (intro heap_okI [of ?h fs]) (auto simp: l r tk)
qed

lemma incref_ok:
  assumes ok: "heap_ok D h R" and a: "a \<in> live h" and c: "flag_intern (objects h a) \<or> unat (refcount (objects h a)) < 2 ^ 28 - 1"
    and i: "refcount (objects h a) + 1 \<noteq> 0"
  shows "heap_ok D (DohIncref (Some a) h) (add_mset a R)" "live (DohIncref (Some a) h) = live h"
proof -
  let ?h = "DohIncref (Some a) h"
  have tk: "taken ?h = taken h" by (simp add: DohIncref_def)
  show l: "live ?h = live h" using a i by (auto simp: DohIncref_def live_set [OF live_taken [OF a]])
  have r: "all_refs ?h = all_refs h"
    using all_refs_other [OF a] i by (simp add: DohIncref_def all_refs_set [OF live_taken [OF a]] refs_def)
  obtain fs where fs: "free_chain (objects h) (FreeList h) fs" "distinct fs" "set fs \<inter> D = {}" "taken h - live h = set fs \<union> D"
    by (rule heap_ok_chain [OF ok])
  then have "a \<notin> set fs" using a by auto
  then have ch: "free_chain (objects ?h) (FreeList ?h) fs" using fs(1) by (simp add: DohIncref_def free_chain_upd)
  have n: "unat (refcount (objects h a) + 1) = unat (refcount (objects h a)) + 1"
    using i unatSuc [of "refcount (objects h a)"] by (simp add: add.commute)
  have cnt: "unat (refcount (objects ?h x)) = count (add_mset a R + all_refs ?h) x" if "x \<in> live ?h" "\<not> flag_intern (objects ?h x)" for x
    using that heap_okD(6) [OF ok, of x] n unfolding l r by (cases "x = a") (auto simp: DohIncref_def)
  have ty: "obj_type (objects ?h x) = obj_type (objects h x)" for x by (simp add: DohIncref_def)
  have "pools_ok (Pools ?h)" using heap_okD(1) [OF ok] by (simp add: DohIncref_def)
  then show "heap_ok D ?h (add_mset a R)"
    using heap_okD(2-4) [OF ok] fs(2-4) ch cnt a by (intro heap_okI [of ?h fs]) (auto simp: l r tk ty)
qed

text \<open>A container that takes up references in place of others: what the operations of lists and hash tables do with their members.\<close>

lemma store_ok:
  assumes ok: "heap_ok {} h (refs b + R)" and a: "a \<in> live h"
    and b: "obj_type b = obj_type (objects h a)" "flag_intern b = flag_intern (objects h a)" "refcount b = refcount (objects h a)"
  shows "heap_ok {} (set_object a b h) (refs (objects h a) + R)" "live (set_object a b h) = live h"
proof -
  let ?h = "set_object a b h"
  show l: "live ?h = live h" using a b(3) by (auto simp: live_set [OF live_taken [OF a]] live_def)
  have r: "all_refs ?h + refs (objects h a) = all_refs h + refs b"
    using all_refs_other [OF a] a b(3) by (simp add: all_refs_set [OF live_taken [OF a]]) (simp add: live_def)
  then have r: "refs (objects h a) + R + all_refs ?h = refs b + R + all_refs h" by (simp add: ac_simps)
  obtain fs where fs: "free_chain (objects h) (FreeList h) fs" "distinct fs" "set fs \<inter> {} = {}" "taken h - live h = set fs \<union> {}"
    by (rule heap_ok_chain [OF ok])
  then have "a \<notin> set fs" using a by auto
  then have ch: "free_chain (objects ?h) (FreeList ?h) fs" using fs(1) by (simp add: free_chain_upd)
  show "heap_ok {} ?h (refs (objects h a) + R)"
  proof (rule heap_okI [OF _ ch fs(2)])
    show "pools_ok (Pools ?h)" using heap_okD(1) [OF ok] by simp
    show "taken ?h - live ?h = set fs \<union> {}" using fs(4) by (simp add: l)
    show "x \<in> live ?h" if "x \<in># refs (objects h a) + R + all_refs ?h" for x
      using that heap_okD(2,3) [OF ok, of x] unfolding r l by auto
    show "obj_type (objects ?h x) \<noteq> None" if "x \<in> live ?h" for x
      using that heap_okD(4) [OF ok, of x] b(1) unfolding l by (cases "x = a") simp_all
    show "unat (refcount (objects ?h x)) = count (refs (objects h a) + R + all_refs ?h) x"
      if "x \<in> live ?h" "\<not> flag_intern (objects ?h x)" for x
      using that heap_okD(6) [OF ok, of x] b(2,3) unfolding r l by (cases "x = a") simp_all
  qed simp
qed

section \<open>Any sequence of operations\<close>

text \<open>
  A client owns references: those to objects that it has made or counted. Making an object or changing its contents gives
  references to it and gets others back; an object may be counted by whoever can reach it.
\<close>

inductive heap_reached :: "(pool list \<Rightarrow> int) \<Rightarrow> heap \<Rightarrow> int multiset \<Rightarrow> bool" for malloc where
  start: "heap_reached malloc empty_heap {#}"
| make: "heap_reached malloc h (mset (held d) + R) \<Longrightarrow> DohObjMalloc malloc t d h = Inr (a, h') \<Longrightarrow> heap_reached malloc h' (add_mset a R)"
| incref: "heap_reached malloc h R \<Longrightarrow> a \<in># R + all_refs h \<Longrightarrow> unat (refcount (objects h a)) < 2 ^ 28 - 1 \<Longrightarrow>
    heap_reached malloc (DohIncref (Some a) h) (add_mset a R)"
| intern: "heap_reached malloc h R \<Longrightarrow> a \<in># R \<Longrightarrow> heap_reached malloc (DohIntern a h) R"
| store: "heap_reached malloc h (refs b + R) \<Longrightarrow> a \<in># R \<Longrightarrow> obj_type b = obj_type (objects h a) \<Longrightarrow>
    flag_intern b = flag_intern (objects h a) \<Longrightarrow> refcount b = refcount (objects h a) \<Longrightarrow>
    heap_reached malloc (set_object a b h) (refs (objects h a) + R)"
| delete: "heap_reached malloc h (add_mset a R) \<Longrightarrow> DohDelete k (Some a) h = Inr h' \<Longrightarrow> heap_reached malloc h' R"

definition heap_inv :: "heap \<Rightarrow> int multiset \<Rightarrow> bool" where
  "heap_inv h R \<longleftrightarrow> heap_ok {} h R \<and> (pools_initialized h \<longrightarrow> Pools h \<noteq> [])"

lemma live_pools: "a \<in> live h \<Longrightarrow> Pools h \<noteq> []"
  by (auto simp: live_def taken_def)

lemma obj_malloc_ok:
  assumes ok: "heap_ok {} h (mset (held d) + R)" and m: "malloc_ok malloc" and p: "Pools h \<noteq> []"
  shows "\<exists>a h'. obj_malloc malloc t d h = Inr (a, h') \<and> heap_ok {} h' (add_mset a R) \<and> a \<notin> live h \<and> live h' = insert a (live h) \<and>
    (\<forall>x\<in>live h. objects h' x = objects h x)"
proof -
  obtain a h1 where t: "take_object malloc h = Inr (a, h1)" "takes {a} h h1" using take_object_ok [OF ok m p] by blast
  show ?thesis using install_object [OF ok t(2)] t(1) by (auto simp: obj_malloc_def)
qed

lemma takes_ok:
  assumes ok: "heap_ok {} h R" and t: "takes {} h h1"
  shows "heap_ok {} h1 R" "live h1 = live h"
proof -
  obtain fs where fs: "free_chain (objects h1) (FreeList h1) fs" "distinct fs" "set fs = taken h - live h"
    and t: "pools_ok (Pools h1)" "taken h1 = taken h" "\<forall>x\<in>taken h. objects h1 x = objects h x"
    using t by (auto simp: takes_def)
  show l: "live h1 = live h" using t by (auto simp: live_def)
  have "all_refs h1 = all_refs h" unfolding all_refs_def l using t(3) by (intro sum.cong) (auto simp: live_def)
  then show "heap_ok {} h1 R"
    using heap_okD [OF ok] fs t by (intro heap_okI [of h1 fs]) (auto simp: l live_taken)
qed

lemma InitPools_ok:
  assumes inv: "heap_inv h R" and m: "malloc_ok malloc"
  shows "\<exists>h'. InitPools malloc h = Inr h' \<and> heap_ok {} h' R \<and> Pools h' \<noteq> [] \<and> live h \<subseteq> live h' \<and>
    (\<forall>x\<in>live h. objects h' x = objects h x)"
proof (cases "pools_initialized h")
  case False
  let ?h = "(CreatePool malloc h)\<lparr>pools_initialized := True\<rparr>"
  have tk: "takes {} h ?h" using create_pool_takes [of h R, OF _ m] inv by (simp add: heap_inv_def takes_def taken_def live_def)
  note ok = takes_ok [OF _ tk, of R]
  have h: "heap_ok {} h R" using inv by (simp add: heap_inv_def)
  have p: "Pools ?h \<noteq> []" by (simp add: CreatePool_def Let_def)
  obtain a h1 where a: "obj_malloc malloc DohVoidType Plain ?h = Inr (a, h1)" "heap_ok {} h1 (add_mset a R)" "a \<notin> live ?h"
      "live h1 = insert a (live ?h)" "\<forall>x\<in>live ?h. objects h1 x = objects ?h x"
    using obj_malloc_ok [of ?h Plain R malloc DohVoidType] ok(1) [OF h] m p by auto
  define h2 where "h2 = h1\<lparr>DohNone := Some a\<rparr>"
  have l2: "live h2 = live h1" "taken h2 = taken h1" "objects h2 = objects h1" by (auto simp: h2_def live_def taken_def)
  then have "all_refs h2 = all_refs h1" by (simp add: all_refs_def)
  then have ok2: "heap_ok {} h2 (add_mset a R)" using a(2) l2 by (simp add: heap_ok_def h2_def)
  have al: "a \<in> live h2" by (simp add: l2 a(4))
  note i = intern_ok [OF ok2 al]
  have "flag_intern (objects (DohIntern a h2) a)" by (simp add: DohIntern_def)
  then have ok3: "heap_ok {} (DohIntern a h2) R" by (rule drop_interned [OF i(1)])
  have sub: "live h \<subseteq> live (DohIntern a h2)" using i(2) a(4) l2 ok(2) [OF h] by auto
  have "objects (DohIntern a h2) x = objects h x" if "x \<in> live h" for x
  proof -
    have "x \<noteq> a" "x \<in> live ?h" "x \<in> taken h" using that a(3) ok(2) [OF h] by (auto simp: live_def)
    then show ?thesis using a(5) tk by (simp add: DohIntern_def l2 takes_def)
  qed
  moreover have "Pools (DohIntern a h2) \<noteq> []" by (rule live_pools [of a]) (use i(2) al in simp)
  ultimately show ?thesis using a(1) ok3 sub False by (auto simp: InitPools_def h2_def)
qed (use inv in \<open>simp add: InitPools_def heap_inv_def\<close>)

lemma DohObjMalloc_ok:
  assumes inv: "heap_inv h (mset (held d) + R)" and m: "malloc_ok malloc"
  shows "\<exists>a h'. DohObjMalloc malloc t d h = Inr (a, h') \<and> heap_inv h' (add_mset a R) \<and> a \<in> live h' \<and> a \<notin> live h \<and>
    (\<forall>x\<in>live h. objects h' x = objects h x)"
proof -
  obtain h1 where h1: "InitPools malloc h = Inr h1" "heap_ok {} h1 (mset (held d) + R)" "Pools h1 \<noteq> []" "live h \<subseteq> live h1"
      "\<forall>x\<in>live h. objects h1 x = objects h x"
    using InitPools_ok [OF inv m] by blast
  obtain a h' where a: "obj_malloc malloc t d h1 = Inr (a, h')" "heap_ok {} h' (add_mset a R)" "a \<notin> live h1" "live h' = insert a (live h1)"
      "\<forall>x\<in>live h1. objects h' x = objects h1 x"
    using obj_malloc_ok [OF h1(2) m h1(3), of t] by blast
  have "Pools h' \<noteq> []" by (rule live_pools [of a]) (simp add: a(4))
  then show ?thesis using h1 a by (auto simp: DohObjMalloc_def heap_inv_def subset_iff)
qed

lemma heap_reached_inv:
  assumes m: "malloc_ok malloc"
  shows "heap_reached malloc h R \<Longrightarrow> heap_inv h R"
proof (induction rule: heap_reached.induct)
  case start
  have "taken empty_heap = {}" "live empty_heap = {}" by (auto simp: empty_heap_def taken_def live_def)
  then have "heap_ok {} empty_heap {#}"
    by (intro heap_okI [of empty_heap "[]"]) (auto simp: all_refs_def empty_heap_def pools_ok_def)
  then show ?case by (simp add: heap_inv_def) (simp add: empty_heap_def)
next
  case (make h d R t a h')
  then show ?case using DohObjMalloc_ok [OF make.IH m, of t] by auto
next
  case (incref h R a)
  have l: "a \<in> live h" using incref.IH incref.hyps(2) heap_okD(2,3) [of "{}" h R] by (auto simp: heap_inv_def)
  have i: "refcount (objects h a) + 1 \<noteq> 0"
  proof
    assume "refcount (objects h a) + 1 = 0"
    then have "unat (refcount (objects h a) + 1) = 0" by simp
    then show False using incref.hyps(3) by (simp add: unat_word_ariths)
  qed
  have "heap_ok {} (DohIncref (Some a) h) (add_mset a R)"
    by (rule incref_ok(1) [OF _ l _ i]) (use incref in \<open>simp_all add: heap_inv_def\<close>)
  moreover have "Pools (DohIncref (Some a) h) = Pools h" by (simp add: DohIncref_def)
  ultimately show ?case using live_pools [OF l] by (simp add: heap_inv_def)
next
  case (intern h R a)
  then have l: "a \<in> live h" using heap_okD(2) [of "{}" h R] by (auto simp: heap_inv_def)
  have "Pools (DohIntern a h) = Pools h" by (simp add: DohIntern_def)
  then show ?case using intern_ok(1) [OF _ l, of "{}" R] intern.IH live_pools [OF l] by (simp add: heap_inv_def)
next
  case (store h b R a)
  then have l: "a \<in> live h" using heap_okD(2) [of "{}" h "refs b + R"] by (auto simp: heap_inv_def)
  then show ?case using store_ok(1) [OF _ l store.hyps(3-5)] store.IH live_pools [OF l] by (simp add: heap_inv_def)
next
  case (delete h a R k h')
  have ok: "heap_ok {} h (add_mset a R)" using delete.IH by (simp add: heap_inv_def)
  then have l: "a \<in> live h" using heap_okD(2) [OF ok] by simp
  have more: "DohDelete j (Some a) h = Inr h'" if "k \<le> j" for j
    using DohDelete_mono [OF delete.hyps(2) that] .
  define j where "j = max k (Suc (card (live h)))"
  have "\<exists>h2. DohDelete j (Some a) h = Inr h2 \<and> heap_ok {} h2 R \<and> only_deletes {} h h2"
    using deletion_ends [of j] ok by (auto simp: deletes_def j_def)
  then have "heap_ok {} h' R" "Pools h' = Pools h" using more [of j] by (auto simp: j_def only_deletes_def)
  then show ?case using live_pools [OF l] by (simp add: heap_inv_def)
qed

lemma deletion_result:
  assumes "heap_inv h (add_mset a R)" and "card (live h) < k"
  shows "\<exists>h'. DohDelete k (Some a) h = Inr h' \<and> live h' \<subseteq> live h \<and> set_mset R \<subseteq> live h' \<and>
    (\<forall>x\<in>live h'. \<exists>c. objects h' x = (objects h x)\<lparr>refcount := c\<rparr>)"
proof -
  obtain h' where h': "DohDelete k (Some a) h = Inr h'" "heap_ok {} h' R" "only_deletes {} h h'"
    using deletion_ends [of k, unfolded deletes_def, rule_format, of "{}" h a R] assms by (auto simp: heap_inv_def)
  have "set_mset R \<subseteq> live h'" using heap_okD(2) [OF h'(2)] by blast
  then show ?thesis using h' by (auto simp: only_deletes_def)
qed

lemma reachable_objects:
  assumes "malloc_ok malloc" and "heap_reached malloc h R"
  shows "set_mset (R + all_refs h) \<subseteq> live h"
    and "\<And>x. x \<in> live h \<Longrightarrow> DohCheck h (Some x) \<and> (flag_intern (objects h x) \<or> x \<in># R + all_refs h)"
proof -
  have ok: "heap_ok {} h R" using heap_reached_inv [OF assms] by (simp add: heap_inv_def)
  show "set_mset (R + all_refs h) \<subseteq> live h" using ok by (auto simp: heap_ok_def)
  fix x assume x: "x \<in> live h"
  then have "refcount (objects h x) \<noteq> 0" by (simp add: live_def)
  then have "unat (refcount (objects h x)) \<noteq> 0" by (simp add: unat_eq_zero)
  then have "flag_intern (objects h x) \<or> x \<in># R + all_refs h"
    using heap_okD(6) [OF ok x] by (auto simp: not_in_iff)
  then show "DohCheck h (Some x) \<and> (flag_intern (objects h x) \<or> x \<in># R + all_refs h)"
    using taken_checked [OF heap_okD(1) [OF ok] live_taken [OF x]] by simp
qed

text \<open>
  C40. After any sequence of operations in which clients count the references they use, every reference that a client owns or an
  object holds leads to an object in use, which \<open>DohCheck\<close> accepts; every object in use that is not interned is referred to; a
  reference that is owned can be deleted, in a depth bounded by the number of objects, and what the others lead to keeps its
  contents; and \<open>DohObjMalloc\<close> gives an object that nobody refers to and changes no other.
\<close>

theorem reference_counting_safe:
  assumes "malloc_ok malloc" and "heap_reached malloc h R"
  shows "set_mset (R + all_refs h) \<subseteq> live h \<and>
    (\<forall>x\<in>live h. DohCheck h (Some x) \<and> (flag_intern (objects h x) \<or> x \<in># R + all_refs h)) \<and>
    (\<forall>a\<in>#R. \<exists>h'. DohDelete (Suc (card (live h))) (Some a) h = Inr h' \<and> set_mset (R - {#a#}) \<subseteq> live h' \<and>
       (\<forall>x\<in>live h'. \<exists>c. objects h' x = (objects h x)\<lparr>refcount := c\<rparr>)) \<and>
    (\<exists>a h'. DohObjMalloc malloc t Plain h = Inr (a, h') \<and> a \<notin> live h \<and> a \<in> live h' \<and> (\<forall>x\<in>live h. objects h' x = objects h x))"
proof (intro conjI ballI)
  have inv: "heap_inv h R" by (rule heap_reached_inv [OF assms])
  show "set_mset (R + all_refs h) \<subseteq> live h" by (rule reachable_objects(1) [OF assms])
  show "\<exists>a h'. DohObjMalloc malloc t Plain h = Inr (a, h') \<and> a \<notin> live h \<and> a \<in> live h' \<and> (\<forall>x\<in>live h. objects h' x = objects h x)"
    using DohObjMalloc_ok [of h Plain R malloc t] inv assms(1) by auto
  fix a assume "a \<in># R"
  then show "\<exists>h'. DohDelete (Suc (card (live h))) (Some a) h = Inr h' \<and> set_mset (R - {#a#}) \<subseteq> live h' \<and>
      (\<forall>x\<in>live h'. \<exists>c. objects h' x = (objects h x)\<lparr>refcount := c\<rparr>)"
    using deletion_result [of h a "R - {#a#}" "Suc (card (live h))"] inv by auto
qed (use reachable_objects(2) [OF assms] in auto)

text \<open>A string in a list that is counted twice.\<close>

definition bump :: "pool list \<Rightarrow> int" where
  "bump ps = foldr (\<lambda>p m. max (pend p) m) ps 4096"

lemma bump_ok: "malloc_ok bump"
proof -
  have "p \<in> set ps \<Longrightarrow> pend p \<le> bump ps" for p ps by (induction ps) (auto simp: bump_def)
  then show ?thesis by (simp add: malloc_ok_def)
qed

definition after_malloc :: "doh_type \<Rightarrow> obj_data \<Rightarrow> heap \<Rightarrow> heap" where
  "after_malloc t d h = (case DohObjMalloc bump t d h of Inr (a, h') \<Rightarrow> h' | Inl _ \<Rightarrow> h)"

definition small_heap :: heap where
  "small_heap = DohIncref (Some 4160) (after_malloc DohListType (Items [4128]) (after_malloc DohStringType Plain empty_heap))"

lemma small_heap_reached: "heap_reached bump small_heap {#4160, 4160#}"
proof -
  have a: "map_sum id fst (DohObjMalloc bump DohStringType Plain empty_heap) = Inr 4128"
    "map_sum id fst (DohObjMalloc bump DohListType (Items [4128]) (after_malloc DohStringType Plain empty_heap)) = Inr 4160"
    "unat (refcount (objects (after_malloc DohListType (Items [4128]) (after_malloc DohStringType Plain empty_heap)) 4160)) = 1"
    by code_simp+
  have m: "heap_reached bump (after_malloc t d h) (add_mset a R)"
    if "heap_reached bump h (mset (held d) + R)" "map_sum id fst (DohObjMalloc bump t d h) = Inr a" for t d h a R
    using that heap_reached.make [OF that(1), of t] by (auto simp: after_malloc_def split: sum.splits prod.splits)
  have 1: "heap_reached bump (after_malloc DohStringType Plain empty_heap) {#4128#}"
    using m [of empty_heap Plain "{#}", OF _ a(1)] heap_reached.start by simp
  have 2: "heap_reached bump (after_malloc DohListType (Items [4128]) (after_malloc DohStringType Plain empty_heap)) {#4160#}"
    using m [of _ "Items [4128]" "{#}", OF _ a(2)] 1 by simp
  show ?thesis unfolding small_heap_def by (rule heap_reached.incref [OF 2]) (use a(3) in simp_all)
qed

theorem reference_counting_safe_witness:
  "(\<exists>a h'. DohObjMalloc bump DohHashType Plain small_heap = Inr (a, h') \<and> a \<notin> live small_heap) \<and>
   (case DohDelete 5 (Some 4160) small_heap of
      Inr h1 \<Rightarrow> (case DohDelete 5 (Some 4160) h1 of Inr h2 \<Rightarrow> (FreeList h1, FreeList h2) = (None, Some 4160) | _ \<Rightarrow> False)
    | _ \<Rightarrow> False)"
proof
  show "\<exists>a h'. DohObjMalloc bump DohHashType Plain small_heap = Inr (a, h') \<and> a \<notin> live small_heap"
    using reference_counting_safe [OF bump_ok small_heap_reached, of DohHashType] by blast
qed code_simp

text \<open>The count wraps around: after 2 ^ 28 references it is 0, and a deletion fails.\<close>

lemma incref_wraps:
  "refcount (objects (DohIncref (Some a) h) a) = 0" if "refcount (objects h a) = - 1"
  using that by (simp add: DohIncref_def)

text \<open>Objects that refer to each other are never given back.\<close>

definition ring :: heap where
  "ring = (let h = DohIncref (Some 4128) (DohIncref (Some 4160)
             (after_malloc DohListType (Items []) (after_malloc DohListType (Items []) empty_heap)))
           in set_object 4128 ((objects h 4128)\<lparr>obj_data := Items [4160]\<rparr>)
                (set_object 4160 ((objects h 4160)\<lparr>obj_data := Items [4128]\<rparr>) h))"

lemma ring_stays:
  "(case DohDelete 9 (Some 4128) ring of
      Inr h \<Rightarrow> (case DohDelete 9 (Some 4160) h of Inr h1 \<Rightarrow> FreeList h1 = None \<and> unat (refcount (objects h1 4128)) = 1 | _ \<Rightarrow> False)
    | _ \<Rightarrow> False)"
  by code_simp

end
