(* ===== verification/Spec2Isabelle.thy ===== *)
theory Spec2Isabelle
  imports DohList DohText DohHashSpec TypeObjSpec ScopeName StringEnc DohReplace TypeStrSpec ScanSpec ExprText Parms CondSpec TypeTableSpec TypeScopeSpec CppFaults DohMemorySpec
begin

text \<open>
  A verification library for SWIG 1.3.40.

  SWIG reads C and C++ declarations (\<open>Source/Preprocessor\<close>, \<open>Source/CParse\<close>), keeps them in a tree of
  hash tables, and has a module per target language write wrappers for them (\<open>Source/Modules\<close>). All of
  it rests on two layers, which this library models: the dynamic objects of \<open>Source/DOH\<close> (lists,
  strings, hash tables, with reference counts), and the functions on the textual encoding of C types,
  on names and on preprocessor expressions in \<open>Source/Swig\<close> and \<open>Source/Preprocessor\<close>.

  Conventions. A function of the program is a function of the same name. Results are
  \<open>fault + value\<close> (\<open>'a res\<close>, in \<open>SwigPrelude\<close>): \<open>Inl\<close> is where the C code reads or writes outside of a
  buffer, loops for ever, aborts, fails an assertion, or leaves the result undefined. Objects that are shared
  are identified by numbers; an operation returns the events (\<open>DohEvents\<close>) it causes on the
  reference counts of others, in order. An \<open>int\<close> or \<open>long\<close> of C is an \<open>int\<close> with the bounds written out
  where the code can reach them, and a \<open>word\<close> where the code relies on wrap-around (hash values).
  Loops are recursive functions with a termination proof; where C may loop for ever the definition has fuel
  or an explicit fault, and a lemma shows how much fuel is enough.

  Theories and the files they model.

  \<^item> \<open>SwigPrelude\<close>: results, characters, lists; the contracts of sequences and maps as locales.
  \<^item> \<open>DohEvents\<close>: events on reference counts, and their balance.
  \<^item> \<open>DohMemory\<close>, \<open>DohMemorySpec\<close>: \<open>DOH/memory.c\<close> and the deletion of objects in \<open>DOH/base.c\<close>, with pools at addresses, the
    free list and counts of 28 bits; reference counting is safe (C40).
  \<^item> \<open>DohList\<close>: \<open>DOH/list.c\<close>, every operation; refinement of sequences (C1), balance of references (C2).
  \<^item> \<open>DohString\<close>, \<open>DohText\<close>: \<open>DOH/string.c\<close>, the buffer with its capacity, its file position, its line counter
    and its cached hash; refinement of a text with a cursor (C3), hash and comparison (C4, C5).
  \<^item> \<open>AttrMap\<close>, \<open>DohHash\<close>, \<open>DohHashSpec\<close>: \<open>DOH/hash.c\<close>, interned keys, chains, growth; refinement of finite
    maps (C6, C7), iteration (C8), the size search and the rehash (C9), interning (C10), references (C11).
  \<^item> \<open>SwigTypeObj\<close>, \<open>TypeObjSpec\<close>: \<open>Swig/typeobj.c\<close>, the elements of an encoded type; constructors and
    destructors are inverse (C12), parameters (C13), templates (C14), base and prefix, qualifiers
    (C15, C17), arrays (C16).
  \<^item> \<open>ScopeName\<close>, \<open>StringEnc\<close>: \<open>Swig/misc.c\<close>, qualified names (C18), escapes (C19), the encoders of names (C20).
  \<^item> \<open>DohReplace\<close>: the replacement of substrings in \<open>DOH/string.c\<close>, in place and with growth (C21).
  \<^item> \<open>SwigTypeStr\<close>, \<open>TypeStrSpec\<close>: \<open>Swig/stype.c\<close>, from encoded types to C declarators (C22), to assignable types
    (C23), to identifiers (C24), and the renaming in types (C25), against a tree of types.
  \<^item> \<open>ExprEval\<close>, \<open>ExprSpec\<close>: \<open>Preprocessor/expr.c\<close>, the stack machine of \<open>#if\<close> expressions: equivalence with
    evaluation of the tree (C26), and what can go wrong (C27).

  \<^item> \<open>SwigScan\<close>, \<open>ScanSpec\<close>: \<open>Swig/scanner.c\<close>, the scanner's states over a stack of strings: written tokens are
    read back (C28), balanced code is skipped (C29), lines and positions are kept (C30).

  \<^item> \<open>ExprText\<close>: the evaluator on the scanner, from the text of an expression to its value (C31), and on any
    text (C32).

  \<^item> \<open>ParseTree\<close>, \<open>TreeSpec\<close>: \<open>Swig/tree.c\<close>, nodes with attributes and links: the links are those of a forest
    (C33), views save and restore (C34).

  \<^item> \<open>Parms\<close>: \<open>Swig/parms.c\<close>, lists of parameters in the tree; copies of them print as C declarations (C35).

  \<^item> \<open>IncludePath\<close>: \<open>Swig/include.c\<close>, the search path and the names of files; the file system is an argument, a
    partial function from paths to contents.
  \<^item> \<open>CppText\<close>, \<open>CppMacro\<close>, \<open>CppParse\<close>: \<open>Preprocessor/cpp.c\<close>, the texts it reads from, the macros, and the state machine
    of \<open>Preprocessor_parse\<close>. The file's static variables are the record \<open>cpp\<close>. Replacement, expansion and
    parsing call each other: \<open>cpp_replace\<close>, \<open>cpp_expand\<close> and \<open>cpp_parse\<close> bound the depth of these calls, and
    what exceeds it is \<open>Hang\<close>; every loop inside of them terminates. A message is its text; where it is said to be
    is not kept. The mangling of names in macro arguments is an argument.
  \<^item> \<open>MacroSpec\<close>: the replacement of macros ends (C39): a depth is enough that depends on the macros not marked and on
    the length of the text, and no loop inside of it hangs. \<open>CppFaults\<close> evaluates what goes wrong.
  \<^item> \<open>CondSpec\<close>: the levels and masks of the conditionals select what an evaluation of their tree does (C36).
  \<^item> \<open>TypeScope\<close>, \<open>TypeResolve\<close>, \<open>TypeScopeSpec\<close>: \<open>Swig/typesys.c\<close>, the scopes and their typedefs (the record \<open>typesys\<close>
    has its static variables), the search for names through bases and enclosing scopes (C38), resolution and
    qualification of types. A search of scopes and a resolution call each other: \<open>ts_find\<close>, \<open>ts_resolve\<close> and
    \<open>ts_resolve_all\<close> bound the depth of these calls, and what exceeds it is \<open>Hang\<close>, as it has to be
    (\<open>mutual_use_hangs\<close>). Every operation keeps the scopes well formed (\<open>typesys_ok\<close>).
  \<^item> \<open>TypeEquiv\<close>, \<open>TypeTableSpec\<close>: \<open>Swig/typesys.c\<close>, the table of types and mangled names; the equivalent names of
    a name are those connected with it (C37), for a depth above the number of types.

  How they interact: the list, string and hash objects give the sequences, texts and attribute maps that
  the other parts use; from \<open>SwigTypeObj\<close> on a string is its text, which \<open>DohText\<close> justifies, and
  \<open>SwigTypeStr\<close> calls \<open>SwigTypeObj\<close>, \<open>ScopeName\<close> and \<open>DohReplace\<close> as the code does. Functions of the type
  system and of the symbol table that \<open>stype.c\<close> calls are arguments of its definitions, and \<open>mangled_typedef\<close>
  gives it those of \<open>TypeResolve\<close>; the symbol table is an argument of both.

  Not modelled: the functions of \<open>DOH/base.c\<close> that only call a method of an object, input and output
  (\<open>file.c\<close>, \<open>fio.c\<close>, the printed forms of objects), the parser, symbol
  tables, the type tables that the type system writes as C text, typemaps, and the modules of the target languages, which mostly
  write text.
\<close>

end
